(* ===== verification/Prelude.thy ===== *)
theory Prelude
  imports Main "HOL-Library.Word"
begin

text \<open>
  Shared vocabulary of the development.

  \<^item> C operations that may fault return a value of type \<open>fault + 'a\<close> (\<open>'a res\<close>): \<open>Inl\<close> names the
    undefined behaviour the source would run into (an access outside an object, a null
    dereference, the use of an uninitialised variable, a failed assertion, a loop that never ends),
    \<open>Inr\<close> is the normal result. \<open>bnd\<close> sequences two such operations.
  \<^item> Objects in memory are lists; \<open>fetch\<close>, \<open>store\<close> and \<open>blit\<close> are the checked array read, array write
    and block write, \<open>overwrite\<close> is the pure effect of a block write.
  \<^item> Text is \<open>char list\<close> (HOL's \<open>char\<close> is exactly the 8-bit unsigned \<open>char\<close> of the target); a C string
    is the part of its buffer before the first \<open>NUL\<close> (\<open>cstr\<close>).
  \<^item> The locale \<open>bounded_queue\<close> is the contract of every bounded FIFO of the firmware.
\<close>

section \<open>Results with faults\<close>

datatype fault =
    Out_of_bounds
  | Null_deref
  | Uninitialised
  | Assertion_failed
  | Diverges

type_synonym 'a res = "fault + 'a"

definition bnd :: "'a res \<Rightarrow> ('a \<Rightarrow> 'b res) \<Rightarrow> 'b res" where
  "bnd m f = (case m of Inl e \<Rightarrow> Inl e | Inr x \<Rightarrow> f x)"

lemma bnd_Inl [simp]: "bnd (Inl e) f = Inl e"
  by (simp add: bnd_def)

lemma bnd_Inr [simp]: "bnd (Inr x) f = f x"
  by (simp add: bnd_def)

lemma bnd_cong [fundef_cong]:
  "m = m' \<Longrightarrow> (\<And>x. m' = Inr x \<Longrightarrow> f x = f' x) \<Longrightarrow> bnd m f = bnd m' f'"
  by (simp add: bnd_def split: sum.split)

lemma bnd_eq_Inr: "bnd m f = Inr y \<longleftrightarrow> (\<exists>x. m = Inr x \<and> f x = Inr y)"
  by (simp add: bnd_def split: sum.split)

lemma bnd_eq_Inl: "bnd m f = Inl e \<longleftrightarrow> m = Inl e \<or> (\<exists>x. m = Inr x \<and> f x = Inl e)"
  by (auto simp: bnd_def split: sum.split)

lemma bnd_assoc: "bnd (bnd m f) g = bnd m (\<lambda>x. bnd (f x) g)"
  by (simp add: bnd_def split: sum.split)

lemma bnd_InrE:
  assumes "bnd m f = Inr y"
  obtains x where "m = Inr x" and "f x = Inr y"
  using assms by (auto simp: bnd_eq_Inr)

definition faultfree :: "'a res \<Rightarrow> bool" where
  "faultfree m \<longleftrightarrow> (\<exists>x. m = Inr x)"

lemma faultfree_Inr [simp]: "faultfree (Inr x)"
  by (simp add: faultfree_def)

lemma faultfree_Inl [simp]: "\<not> faultfree (Inl e)"
  by (simp add: faultfree_def)

lemma faultfree_bnd: "faultfree (bnd m f) \<longleftrightarrow> (\<exists>x. m = Inr x \<and> faultfree (f x))"
  by (auto simp: faultfree_def bnd_eq_Inr)

section \<open>Objects in memory\<close>

definition fetch :: "'a list \<Rightarrow> nat \<Rightarrow> 'a res" where
  "fetch xs i = (if i < length xs then Inr (xs ! i) else Inl Out_of_bounds)"

definition store :: "'a list \<Rightarrow> nat \<Rightarrow> 'a \<Rightarrow> 'a list res" where
  "store xs i v = (if i < length xs then Inr (xs[i := v]) else Inl Out_of_bounds)"

definition overwrite :: "'a list \<Rightarrow> nat \<Rightarrow> 'a list \<Rightarrow> 'a list" where
  "overwrite xs i ys = take i xs @ ys @ drop (i + length ys) xs"

definition blit :: "'a list \<Rightarrow> nat \<Rightarrow> 'a list \<Rightarrow> 'a list res" where
  "blit xs i ys = (if i + length ys \<le> length xs then Inr (overwrite xs i ys) else Inl Out_of_bounds)"

definition slice :: "'a list \<Rightarrow> nat \<Rightarrow> nat \<Rightarrow> 'a list res" where
  "slice xs i n = (if i + n \<le> length xs then Inr (take n (drop i xs)) else Inl Out_of_bounds)"

lemma fetch_in [simp]: "i < length xs \<Longrightarrow> fetch xs i = Inr (xs ! i)"
  by (simp add: fetch_def)

lemma fetch_eq_Inr: "fetch xs i = Inr v \<longleftrightarrow> i < length xs \<and> v = xs ! i"
  by (auto simp: fetch_def)

lemma store_in [simp]: "i < length xs \<Longrightarrow> store xs i v = Inr (xs[i := v])"
  by (simp add: store_def)

lemma store_eq_Inr: "store xs i v = Inr ys \<longleftrightarrow> i < length xs \<and> ys = xs[i := v]"
  by (auto simp: store_def)

lemma length_overwrite [simp]:
  "i + length ys \<le> length xs \<Longrightarrow> length (overwrite xs i ys) = length xs"
  by (simp add: overwrite_def)

lemma overwrite_Nil [simp]: "overwrite xs i [] = xs"
  by (simp add: overwrite_def)

lemma nth_overwrite:
  assumes "i + length ys \<le> length xs"
  shows "overwrite xs i ys ! k = (if i \<le> k \<and> k < i + length ys then ys ! (k - i) else xs ! k)"
proof -
  have "min (length xs) i = i" using assms by simp
  then show ?thesis using assms
    by (auto simp: overwrite_def nth_append)
qed

lemma blit_in [simp]: "i + length ys \<le> length xs \<Longrightarrow> blit xs i ys = Inr (overwrite xs i ys)"
  by (simp add: blit_def)

lemma blit_eq_Inr: "blit xs i ys = Inr zs \<longleftrightarrow> i + length ys \<le> length xs \<and> zs = overwrite xs i ys"
  by (auto simp: blit_def)

lemma slice_in [simp]: "i + n \<le> length xs \<Longrightarrow> slice xs i n = Inr (take n (drop i xs))"
  by (simp add: slice_def)

lemma slice_eq_Inr: "slice xs i n = Inr ys \<longleftrightarrow> i + n \<le> length xs \<and> ys = take n (drop i xs)"
  by (auto simp: slice_def)

lemmas mem_Inr = fetch_eq_Inr store_eq_Inr blit_eq_Inr slice_eq_Inr bnd_eq_Inr

section \<open>C strings\<close>

type_synonym cbuf = "char list"

abbreviation NUL :: char where
  "NUL \<equiv> CHR 0x00"

definition cstr :: "cbuf \<Rightarrow> string" where
  "cstr buf = takeWhile (\<lambda>c. c \<noteq> NUL) buf"

definition terminated :: "cbuf \<Rightarrow> bool" where
  "terminated buf \<longleftrightarrow> NUL \<in> set buf"

lemma cstr_Nil [simp]: "cstr [] = []"
  by (simp add: cstr_def)

lemma cstr_Cons [simp]: "cstr (c # cs) = (if c = NUL then [] else c # cstr cs)"
  by (simp add: cstr_def)

lemma terminated_Nil [simp]: "\<not> terminated []"
  by (simp add: terminated_def)

lemma terminated_Cons [simp]: "terminated (c # cs) \<longleftrightarrow> c = NUL \<or> terminated cs"
  by (auto simp: terminated_def)

lemma terminated_append [simp]: "terminated (xs @ ys) \<longleftrightarrow> terminated xs \<or> terminated ys"
  by (auto simp: terminated_def)

lemma cstr_no_NUL [simp]: "NUL \<notin> set (cstr buf)"
  by (auto simp: cstr_def dest: set_takeWhileD)

lemma cstr_append_NUL [simp]: "NUL \<notin> set s \<Longrightarrow> cstr (s @ NUL # rest) = s"
  by (induction s) auto

lemma cstr_id: "NUL \<notin> set s \<Longrightarrow> cstr s = s"
  by (induction s) auto

lemma terminated_length: "terminated buf \<Longrightarrow> length (cstr buf) < length buf"
  by (induction buf) auto

lemma terminated_decomp: "terminated buf \<Longrightarrow> \<exists>rest. buf = cstr buf @ NUL # rest"
  by (induction buf) auto

lemma take_cstr: "take (length (cstr b)) b = cstr b"
  by (induction b) auto

lemma take_cstr_le: "n \<le> length (cstr b) \<Longrightarrow> take n (cstr b) = take n b"
  by (metis take_cstr take_take min_def)

section \<open>Bounded queues\<close>

text \<open>
  The contract of a bounded FIFO: \<open>abs\<close> is the content, \<open>cap\<close> the capacity; \<open>put\<close> appends and says
  whether there was room, \<open>get\<close> removes the oldest element. \<open>queue_spec\<close> is the abstract queue, and a
  run of operations on any implementation of the contract gives exactly the outputs of the
  abstract queue.
\<close>

datatype 'a qop = Put 'a | Get

datatype 'a qout = Stored | Refused | Got 'a | Empty

fun queue_spec :: "nat \<Rightarrow> 'a list \<Rightarrow> 'a qop \<Rightarrow> 'a qout \<times> 'a list" where
  "queue_spec cap xs (Put x) = (if length xs < cap then (Stored, xs @ [x]) else (Refused, xs))"
| "queue_spec cap [] Get = (Empty, [])"
| "queue_spec cap (x # xs) Get = (Got x, xs)"

fun queue_spec_run :: "nat \<Rightarrow> 'a list \<Rightarrow> 'a qop list \<Rightarrow> 'a qout list \<times> 'a list" where
  "queue_spec_run cap xs [] = ([], xs)"
| "queue_spec_run cap xs (p # ps) =
     (let (r, ys) = queue_spec cap xs p; (rs, zs) = queue_spec_run cap ys ps in (r # rs, zs))"

fun queue_run :: "('q \<Rightarrow> 'a \<Rightarrow> (bool \<times> 'q) res) \<Rightarrow> ('q \<Rightarrow> ('a option \<times> 'q) res) \<Rightarrow>
    'q \<Rightarrow> 'a qop list \<Rightarrow> ('a qout list \<times> 'q) res" where
  "queue_run put get q [] = Inr ([], q)"
| "queue_run put get q (Put x # ps) =
     bnd (put q x) (\<lambda>(b, q1).
     bnd (queue_run put get q1 ps) (\<lambda>(rs, q2).
     Inr ((if b then Stored else Refused) # rs, q2)))"
| "queue_run put get q (Get # ps) =
     bnd (get q) (\<lambda>(r, q1).
     bnd (queue_run put get q1 ps) (\<lambda>(rs, q2).
     Inr ((case r of None \<Rightarrow> Empty | Some x \<Rightarrow> Got x) # rs, q2)))"

locale bounded_queue =
  fixes inv :: "'q \<Rightarrow> bool"
    and abs :: "'q \<Rightarrow> 'a list"
    and cap :: "'q \<Rightarrow> nat"
    and put :: "'q \<Rightarrow> 'a \<Rightarrow> (bool \<times> 'q) res"
    and get :: "'q \<Rightarrow> ('a option \<times> 'q) res"
  assumes put_room: "inv q \<Longrightarrow> length (abs q) < cap q \<Longrightarrow>
      \<exists>q'. put q x = Inr (True, q') \<and> inv q' \<and> cap q' = cap q \<and> abs q' = abs q @ [x]"
    and put_full: "inv q \<Longrightarrow> \<not> length (abs q) < cap q \<Longrightarrow>
      \<exists>q'. put q x = Inr (False, q') \<and> inv q' \<and> cap q' = cap q \<and> abs q' = abs q"
    and get_empty: "inv q \<Longrightarrow> abs q = [] \<Longrightarrow>
      \<exists>q'. get q = Inr (None, q') \<and> inv q' \<and> cap q' = cap q \<and> abs q' = []"
    and get_first: "inv q \<Longrightarrow> abs q = x # xs \<Longrightarrow>
      \<exists>q'. get q = Inr (Some x, q') \<and> inv q' \<and> cap q' = cap q \<and> abs q' = xs"
begin

lemma run_refines:
  "inv q \<Longrightarrow>
     \<exists>q'. queue_run put get q ps = Inr (fst (queue_spec_run (cap q) (abs q) ps), q') \<and>
       abs q' = snd (queue_spec_run (cap q) (abs q) ps) \<and> inv q' \<and> cap q' = cap q"
proof (induction ps arbitrary: q)
  case Nil
  then show ?case by simp
next
  case (Cons p ps)
  show ?case
  proof (cases p)
    case (Put x)
    show ?thesis
    proof (cases "length (abs q) < cap q")
      case True
      then obtain q1 where "put q x = Inr (True, q1)" "inv q1" "cap q1 = cap q" "abs q1 = abs q @ [x]"
        using put_room [OF Cons.prems] by blast
      then show ?thesis using Cons.IH [of q1] Put True by (auto split: prod.split)
    next
      case False
      then obtain q1 where "put q x = Inr (False, q1)" "inv q1" "cap q1 = cap q" "abs q1 = abs q"
        using put_full [OF Cons.prems] by blast
      then show ?thesis using Cons.IH [of q1] Put False by (auto split: prod.split)
    qed
  next
    case Get
    show ?thesis
    proof (cases "abs q")
      case Nil
      then obtain q1 where "get q = Inr (None, q1)" "inv q1" "cap q1 = cap q" "abs q1 = []"
        using get_empty [OF Cons.prems] by blast
      then show ?thesis using Cons.IH [of q1] Get Nil by (auto split: prod.split)
    next
      case elem: (Cons x xs)
      then obtain q1 where "get q = Inr (Some x, q1)" "inv q1" "cap q1 = cap q" "abs q1 = xs"
        using get_first [OF Cons.prems] by blast
      then show ?thesis using Cons.IH [of q1] Get elem by (auto split: prod.split)
    qed
  qed
qed

end

end
