(* ===== verification/Ringbuffer.thy ===== *)
theory Ringbuffer
  imports Prelude
begin

text \<open>
  The byte ring buffer of the device layer
  (\<^verbatim>\<open>src/rt-thread/components/drivers/src/ringbuffer.c\<close>), which the serial driver fills from its
  interrupt handler. One definition per operation of the file; \<open>rb_inv\<close> is the invariant of the two
  indices and their mirror bits, \<open>rb_list\<close> the content from the oldest byte on. The lemmas show that
  every operation keeps the invariant, that \<open>put\<close>/\<open>get\<close> and the character versions implement a
  bounded FIFO and that no operation leaves the pool.
\<close>

type_synonym byte = "8 word"

section \<open>State and operations\<close>

record rt_ringbuffer =
  buffer_ptr :: "byte list"
  read_mirror :: bool
  read_index :: nat
  write_mirror :: bool
  write_index :: nat
  buffer_size :: nat

datatype rt_ringbuffer_state =
    RT_RINGBUFFER_EMPTY
  | RT_RINGBUFFER_FULL
  | RT_RINGBUFFER_HALFFULL

definition rt_ringbuffer_status :: "rt_ringbuffer \<Rightarrow> rt_ringbuffer_state" where
  "rt_ringbuffer_status rb =
     (if read_index rb = write_index rb
      then if read_mirror rb = write_mirror rb then RT_RINGBUFFER_EMPTY else RT_RINGBUFFER_FULL
      else RT_RINGBUFFER_HALFFULL)"

definition rt_ringbuffer_data_len :: "rt_ringbuffer \<Rightarrow> nat" where
  "rt_ringbuffer_data_len rb =
     (case rt_ringbuffer_status rb of
        RT_RINGBUFFER_EMPTY \<Rightarrow> 0
      | RT_RINGBUFFER_FULL \<Rightarrow> buffer_size rb
      | RT_RINGBUFFER_HALFFULL \<Rightarrow>
          if read_index rb < write_index rb then write_index rb - read_index rb
          else buffer_size rb - (read_index rb - write_index rb))"

definition rt_ringbuffer_space_len :: "rt_ringbuffer \<Rightarrow> nat" where
  "rt_ringbuffer_space_len rb = buffer_size rb - rt_ringbuffer_data_len rb"

definition rt_align_down :: "nat \<Rightarrow> nat \<Rightarrow> nat" where
  "rt_align_down sz align = sz - sz mod align"

definition rt_ringbuffer_init :: "byte list \<Rightarrow> int \<Rightarrow> rt_ringbuffer res" where
  "rt_ringbuffer_init pool sz =
     (if sz > 0
      then Inr \<lparr>buffer_ptr = pool, read_mirror = False, read_index = 0,
                write_mirror = False, write_index = 0,
                buffer_size = rt_align_down (nat sz) 4\<rparr>
      else Inl Assertion_failed)"

definition rt_ringbuffer_reset :: "rt_ringbuffer \<Rightarrow> rt_ringbuffer" where
  "rt_ringbuffer_reset rb =
     rb\<lparr>read_mirror := False, read_index := 0, write_mirror := False, write_index := 0\<rparr>"

definition rt_ringbuffer_put :: "rt_ringbuffer \<Rightarrow> byte list \<Rightarrow> nat \<Rightarrow> (nat \<times> rt_ringbuffer) res" where
  "rt_ringbuffer_put rb ptr len0 =
     (let sz = rt_ringbuffer_space_len rb in
      if sz = 0 then Inr (0, rb)
      else
        let len = (if sz < len0 then sz else len0);
            tail = buffer_size rb - write_index rb
        in if tail > len
           then bnd (slice ptr 0 len) (\<lambda>d.
                bnd (blit (buffer_ptr rb) (write_index rb) d) (\<lambda>buf.
                Inr (len, rb\<lparr>buffer_ptr := buf, write_index := write_index rb + len\<rparr>)))
           else bnd (slice ptr 0 tail) (\<lambda>d1.
                bnd (blit (buffer_ptr rb) (write_index rb) d1) (\<lambda>buf1.
                bnd (slice ptr tail (len - tail)) (\<lambda>d2.
                bnd (blit buf1 0 d2) (\<lambda>buf2.
                Inr (len, rb\<lparr>buffer_ptr := buf2, write_mirror := \<not> write_mirror rb,
                             write_index := len - tail\<rparr>))))))"

definition rt_ringbuffer_put_force ::
  "rt_ringbuffer \<Rightarrow> byte list \<Rightarrow> nat \<Rightarrow> (nat \<times> rt_ringbuffer) res" where
  "rt_ringbuffer_put_force rb ptr0 len0 =
     (let space_length = rt_ringbuffer_space_len rb;
          off = (if len0 > buffer_size rb then len0 - buffer_size rb else 0);
          len = (if len0 > buffer_size rb then buffer_size rb else len0);
          tail = buffer_size rb - write_index rb
      in if tail > len
         then bnd (slice ptr0 off len) (\<lambda>d.
              bnd (blit (buffer_ptr rb) (write_index rb) d) (\<lambda>buf.
              let w = write_index rb + len in
              Inr (len, rb\<lparr>buffer_ptr := buf, write_index := w,
                           read_index := (if len > space_length then w else read_index rb)\<rparr>)))
         else bnd (slice ptr0 off tail) (\<lambda>d1.
              bnd (blit (buffer_ptr rb) (write_index rb) d1) (\<lambda>buf1.
              bnd (slice ptr0 (off + tail) (len - tail)) (\<lambda>d2.
              bnd (blit buf1 0 d2) (\<lambda>buf2.
              let w = len - tail in
              Inr (len, rb\<lparr>buffer_ptr := buf2, write_mirror := \<not> write_mirror rb, write_index := w,
                           read_mirror := (if len > space_length then \<not> read_mirror rb
                                           else read_mirror rb),
                           read_index := (if len > space_length then w else read_index rb)\<rparr>))))))"

definition rt_ringbuffer_get :: "rt_ringbuffer \<Rightarrow> nat \<Rightarrow> (byte list \<times> rt_ringbuffer) res" where
  \<comment> \<open>the bytes copied to \<open>ptr\<close>; the C return value is their number\<close>
  "rt_ringbuffer_get rb len0 =
     (let sz = rt_ringbuffer_data_len rb in
      if sz = 0 then Inr ([], rb)
      else
        let len = (if sz < len0 then sz else len0);
            tail = buffer_size rb - read_index rb
        in if tail > len
           then bnd (slice (buffer_ptr rb) (read_index rb) len) (\<lambda>d.
                Inr (d, rb\<lparr>read_index := read_index rb + len\<rparr>))
           else bnd (slice (buffer_ptr rb) (read_index rb) tail) (\<lambda>d1.
                bnd (slice (buffer_ptr rb) 0 (len - tail)) (\<lambda>d2.
                Inr (d1 @ d2, rb\<lparr>read_mirror := \<not> read_mirror rb, read_index := len - tail\<rparr>))))"

definition rt_ringbuffer_peak :: "rt_ringbuffer \<Rightarrow> (nat option \<times> nat) \<times> rt_ringbuffer" where
  \<comment> \<open>the index \<open>*ptr\<close> points at (\<open>None\<close> for a null pointer) and the size\<close>
  "rt_ringbuffer_peak rb =
     (let sz = rt_ringbuffer_data_len rb in
      if sz = 0 then ((None, 0), rb)
      else if buffer_size rb - read_index rb > sz
           then ((Some (read_index rb), sz), rb\<lparr>read_index := read_index rb + sz\<rparr>)
           else ((Some (read_index rb), buffer_size rb - read_index rb),
                 rb\<lparr>read_mirror := \<not> read_mirror rb, read_index := 0\<rparr>))"

definition rt_ringbuffer_putchar :: "rt_ringbuffer \<Rightarrow> byte \<Rightarrow> (nat \<times> rt_ringbuffer) res" where
  "rt_ringbuffer_putchar rb ch =
     (if rt_ringbuffer_space_len rb = 0 then Inr (0, rb)
      else bnd (store (buffer_ptr rb) (write_index rb) ch) (\<lambda>buf.
           let rb1 = rb\<lparr>buffer_ptr := buf\<rparr> in
           if int (write_index rb) = int (buffer_size rb) - 1
           then Inr (1, rb1\<lparr>write_mirror := \<not> write_mirror rb, write_index := 0\<rparr>)
           else Inr (1, rb1\<lparr>write_index := write_index rb + 1\<rparr>)))"

definition rt_ringbuffer_putchar_force :: "rt_ringbuffer \<Rightarrow> byte \<Rightarrow> (nat \<times> rt_ringbuffer) res" where
  "rt_ringbuffer_putchar_force rb ch =
     (let old_state = rt_ringbuffer_status rb in
      bnd (store (buffer_ptr rb) (write_index rb) ch) (\<lambda>buf.
      let rb1 = rb\<lparr>buffer_ptr := buf\<rparr> in
      if int (write_index rb) = int (buffer_size rb) - 1
      then let rb2 = rb1\<lparr>write_mirror := \<not> write_mirror rb, write_index := 0\<rparr> in
           Inr (1, if old_state = RT_RINGBUFFER_FULL
                   then rb2\<lparr>read_mirror := \<not> read_mirror rb, read_index := 0\<rparr> else rb2)
      else let w = write_index rb + 1; rb2 = rb1\<lparr>write_index := w\<rparr> in
           Inr (1, if old_state = RT_RINGBUFFER_FULL then rb2\<lparr>read_index := w\<rparr> else rb2)))"

definition rt_ringbuffer_getchar :: "rt_ringbuffer \<Rightarrow> (byte option \<times> rt_ringbuffer) res" where
  "rt_ringbuffer_getchar rb =
     (if rt_ringbuffer_data_len rb = 0 then Inr (None, rb)
      else bnd (fetch (buffer_ptr rb) (read_index rb)) (\<lambda>ch.
           if int (read_index rb) = int (buffer_size rb) - 1
           then Inr (Some ch, rb\<lparr>read_mirror := \<not> read_mirror rb, read_index := 0\<rparr>)
           else Inr (Some ch, rb\<lparr>read_index := read_index rb + 1\<rparr>)))"

section \<open>Invariant and content\<close>

definition rb_inv :: "rt_ringbuffer \<Rightarrow> bool" where
  "rb_inv rb \<longleftrightarrow>
     0 < buffer_size rb \<and> buffer_size rb < 2 ^ 15 \<and> buffer_size rb \<le> length (buffer_ptr rb) \<and>
     read_index rb < buffer_size rb \<and> write_index rb < buffer_size rb \<and>
     (if read_mirror rb = write_mirror rb then read_index rb \<le> write_index rb
      else write_index rb \<le> read_index rb)"

definition rb_wrap :: "nat \<Rightarrow> nat \<Rightarrow> nat" where
  "rb_wrap n j = (if j < n then j else j - n)"

definition rb_at :: "rt_ringbuffer \<Rightarrow> nat \<Rightarrow> byte" where
  "rb_at rb i = buffer_ptr rb ! rb_wrap (buffer_size rb) (read_index rb + i)"

definition rb_list :: "rt_ringbuffer \<Rightarrow> byte list" where
  "rb_list rb = map (rb_at rb) [0..<rt_ringbuffer_data_len rb]"

lemmas rb_len_defs = rt_ringbuffer_data_len_def rt_ringbuffer_status_def rt_ringbuffer_space_len_def

lemma length_rb_list [simp]: "length (rb_list rb) = rt_ringbuffer_data_len rb"
  by (simp add: rb_list_def)

lemma nth_rb_list [simp]: "i < rt_ringbuffer_data_len rb \<Longrightarrow> rb_list rb ! i = rb_at rb i"
  by (simp add: rb_list_def)

lemma data_len_inv:
  "rb_inv rb \<Longrightarrow> rt_ringbuffer_data_len rb =
     (if read_mirror rb = write_mirror rb then write_index rb - read_index rb
      else buffer_size rb - read_index rb + write_index rb)"
  by (auto simp: rb_inv_def rb_len_defs split: if_splits)

lemma data_len_le: "rb_inv rb \<Longrightarrow> rt_ringbuffer_data_len rb \<le> buffer_size rb"
  by (auto simp: data_len_inv rb_inv_def split: if_splits)

lemma space_len_inv:
  "rb_inv rb \<Longrightarrow> rt_ringbuffer_space_len rb = buffer_size rb - length (rb_list rb)"
  by (simp add: rt_ringbuffer_space_len_def)

lemma rb_list_eqI:
  assumes "rt_ringbuffer_data_len rb = length xs"
    and "\<And>i. i < length xs \<Longrightarrow> rb_at rb i = xs ! i"
  shows "rb_list rb = xs"
  using assms by (intro nth_equalityI) auto

section \<open>Effect on the content\<close>

lemma rb_list_put:
  assumes inv: "rb_inv rb" and len: "length d \<le> rt_ringbuffer_space_len rb"
    and buf: "length (buffer_ptr rb') = length (buffer_ptr rb)"
    and same: "read_index rb' = read_index rb" "read_mirror rb' = read_mirror rb" "buffer_size rb' = buffer_size rb"
    and w: "if write_index rb + length d < buffer_size rb
            then write_index rb' = write_index rb + length d \<and> write_mirror rb' = write_mirror rb
            else write_index rb' = write_index rb + length d - buffer_size rb \<and>
                 write_mirror rb' = (\<not> write_mirror rb)"
    and new: "\<And>k. k < buffer_size rb \<Longrightarrow> buffer_ptr rb' ! k =
        (if write_index rb \<le> k \<and> k < write_index rb + length d then d ! (k - write_index rb)
         else if buffer_size rb + k < write_index rb + length d
         then d ! (buffer_size rb + k - write_index rb)
         else buffer_ptr rb ! k)"
  shows "rb_inv rb' \<and> rb_list rb' = rb_list rb @ d"
proof -
  have i': "rb_inv rb'" using inv len buf same w
    by (auto simp: rb_inv_def rt_ringbuffer_space_len_def data_len_inv split: if_splits)
  have dl: "rt_ringbuffer_data_len rb' = rt_ringbuffer_data_len rb + length d"
    using inv len same w
    by (auto simp: data_len_inv [OF i'] data_len_inv [OF inv] rb_inv_def rt_ringbuffer_space_len_def split: if_splits)
  have "rb_list rb' = rb_list rb @ d"
  proof (rule rb_list_eqI)
    show "rt_ringbuffer_data_len rb' = length (rb_list rb @ d)" using dl by simp
  next
    fix i assume i: "i < length (rb_list rb @ d)"
    show "rb_at rb' i = (rb_list rb @ d) ! i"
    proof (cases "i < rt_ringbuffer_data_len rb")
      case True
      let ?k = "rb_wrap (buffer_size rb) (read_index rb + i)"
      have k: "?k < buffer_size rb" "\<not> (write_index rb \<le> ?k \<and> ?k < write_index rb + length d)"
        "\<not> buffer_size rb + ?k < write_index rb + length d"
        using True inv len data_len_inv [OF inv]
        by (auto simp: rb_wrap_def rb_inv_def rt_ringbuffer_space_len_def split: if_splits)
      have "rb_at rb' i = buffer_ptr rb' ! ?k" using same by (simp add: rb_at_def)
      also have "\<dots> = buffer_ptr rb ! ?k" using new [OF k(1)] k(2,3) by presburger
      finally show ?thesis using True by (simp add: nth_append rb_at_def)
    next
      case False
      define m where "m = i - rt_ringbuffer_data_len rb"
      have m: "m < length d" "i = rt_ringbuffer_data_len rb + m" using False i by (auto simp: m_def)
      let ?k = "rb_wrap (buffer_size rb) (write_index rb + m)"
      have "rb_wrap (buffer_size rb) (read_index rb + i) = ?k"
        using m inv len data_len_inv [OF inv]
        by (auto simp: rb_wrap_def rb_inv_def rt_ringbuffer_space_len_def split: if_splits)
      then have "rb_at rb' i = buffer_ptr rb' ! ?k" using same by (simp add: rb_at_def)
      also have "\<dots> = d ! m"
        using m inv len new [of ?k]
        by (auto simp: rb_wrap_def rb_inv_def rt_ringbuffer_space_len_def split: if_splits)
      finally show ?thesis using m by (simp add: nth_append)
    qed
  qed
  then show ?thesis using i' by simp
qed

lemma rt_ringbuffer_put_spec:
  assumes inv: "rb_inv rb" and ptr: "len \<le> length ptr"
  defines "n \<equiv> min len (buffer_size rb - length (rb_list rb))"
  shows "\<exists>rb'. rt_ringbuffer_put rb ptr len = Inr (n, rb') \<and> rb_inv rb' \<and>
           buffer_size rb' = buffer_size rb \<and> rb_list rb' = rb_list rb @ take n ptr"
proof (cases "rt_ringbuffer_space_len rb = 0")
  case True
  then have "n = 0" by (simp add: n_def rt_ringbuffer_space_len_def)
  then show ?thesis using True inv by (simp add: rt_ringbuffer_put_def)
next
  case False
  have n: "n = (if rt_ringbuffer_space_len rb < len then rt_ringbuffer_space_len rb else len)"
    "n \<le> length ptr" "n \<le> rt_ringbuffer_space_len rb"
    using ptr by (auto simp: n_def rt_ringbuffer_space_len_def)
  let ?w = "write_index rb" and ?tail = "buffer_size rb - write_index rb"
  have sz: "?w < buffer_size rb" "buffer_size rb \<le> length (buffer_ptr rb)" "n \<le> buffer_size rb"
    using inv n by (auto simp: rb_inv_def rt_ringbuffer_space_len_def)
  show ?thesis
  proof (cases "?tail > n")
    case True
    let ?rb = "rb\<lparr>buffer_ptr := overwrite (buffer_ptr rb) ?w (take n ptr), write_index := ?w + n\<rparr>"
    have "rb_inv ?rb \<and> rb_list ?rb = rb_list rb @ take n ptr"
      by (rule rb_list_put [OF inv]) (use True n sz in \<open>auto simp: nth_overwrite\<close>)
    then show ?thesis using False True n sz
      by (auto simp: rt_ringbuffer_put_def Let_def)
  next
    case wrap: False
    let ?b1 = "overwrite (buffer_ptr rb) ?w (take ?tail ptr)"
    let ?rb = "rb\<lparr>buffer_ptr := overwrite ?b1 0 (take (n - ?tail) (drop ?tail ptr)),
      write_mirror := \<not> write_mirror rb, write_index := n - ?tail\<rparr>"
    have "rb_inv ?rb \<and> rb_list ?rb = rb_list rb @ take n ptr"
      by (rule rb_list_put [OF inv]) (use wrap n sz in \<open>auto simp: nth_overwrite\<close>)
    then show ?thesis using False wrap n sz
      by (auto simp: rt_ringbuffer_put_def Let_def)
  qed
qed

lemma rb_list_get:
  assumes inv: "rb_inv rb" and n: "n \<le> rt_ringbuffer_data_len rb"
    and same: "buffer_ptr rb' = buffer_ptr rb" "write_index rb' = write_index rb"
      "write_mirror rb' = write_mirror rb" "buffer_size rb' = buffer_size rb"
    and r: "if read_index rb + n < buffer_size rb
            then read_index rb' = read_index rb + n \<and> read_mirror rb' = read_mirror rb
            else read_index rb' = read_index rb + n - buffer_size rb \<and>
                 read_mirror rb' = (\<not> read_mirror rb)"
  shows "rb_inv rb' \<and> rb_list rb' = drop n (rb_list rb)"
proof -
  have i': "rb_inv rb'" using inv n same r
    by (auto simp: rb_inv_def data_len_inv split: if_splits)
  have dl: "rt_ringbuffer_data_len rb' = rt_ringbuffer_data_len rb - n"
    using inv n same r
    by (auto simp: data_len_inv [OF i'] data_len_inv [OF inv] rb_inv_def split: if_splits)
  have "rb_list rb' = drop n (rb_list rb)"
  proof (rule rb_list_eqI)
    show "rt_ringbuffer_data_len rb' = length (drop n (rb_list rb))" using dl by simp
  next
    fix i assume i: "i < length (drop n (rb_list rb))"
    have "rb_wrap (buffer_size rb) (read_index rb' + i) =
      rb_wrap (buffer_size rb) (read_index rb + (n + i))"
      using i inv same r n data_len_le [OF inv]
      by (auto simp: rb_wrap_def rb_inv_def split: if_splits)
    then show "rb_at rb' i = drop n (rb_list rb) ! i"
      using i same by (simp add: rb_at_def)
  qed
  then show ?thesis using i' by simp
qed

lemma take_rb_list:
  assumes inv: "rb_inv rb" and n: "n \<le> rt_ringbuffer_data_len rb"
  shows "take n (rb_list rb) =
    (let tail = buffer_size rb - read_index rb in
     take (min n tail) (drop (read_index rb) (buffer_ptr rb)) @ take (n - tail) (buffer_ptr rb))"
    (is "?l = ?r")
proof (rule nth_equalityI)
  have sz: "read_index rb < buffer_size rb" "buffer_size rb \<le> length (buffer_ptr rb)"
    using inv by (auto simp: rb_inv_def)
  show len: "length ?l = length ?r"
    using n sz data_len_le [OF inv] by (auto simp: Let_def)
  fix i assume "i < length ?l"
  then have i: "i < n" "i < rt_ringbuffer_data_len rb" using n by auto
  then have "?l ! i = buffer_ptr rb ! rb_wrap (buffer_size rb) (read_index rb + i)"
    by (simp add: rb_at_def)
  also have "\<dots> = ?r ! i"
    using i n sz data_len_le [OF inv] by (auto simp: Let_def nth_append rb_wrap_def add.commute)
  finally show "?l ! i = ?r ! i" .
qed

lemma rt_ringbuffer_get_spec:
  assumes inv: "rb_inv rb"
  shows "\<exists>rb'. rt_ringbuffer_get rb len = Inr (take len (rb_list rb), rb') \<and> rb_inv rb' \<and>
           buffer_size rb' = buffer_size rb \<and> rb_list rb' = drop len (rb_list rb)"
proof (cases "rt_ringbuffer_data_len rb = 0")
  case True
  then have "rb_list rb = []" by (simp add: rb_list_def)
  then show ?thesis using True inv by (simp add: rt_ringbuffer_get_def)
next
  case False
  define n where "n = (if rt_ringbuffer_data_len rb < len then rt_ringbuffer_data_len rb else len)"
  have n: "n \<le> rt_ringbuffer_data_len rb" "take len (rb_list rb) = take n (rb_list rb)"
    "drop len (rb_list rb) = drop n (rb_list rb)"
    by (auto simp: n_def)
  let ?tail = "buffer_size rb - read_index rb"
  have sz: "read_index rb < buffer_size rb" "buffer_size rb \<le> length (buffer_ptr rb)" "n \<le> buffer_size rb"
    using inv n(1) data_len_le [OF inv] by (auto simp: rb_inv_def)
  show ?thesis
  proof (cases "?tail > n")
    case True
    let ?rb = "rb\<lparr>read_index := read_index rb + n\<rparr>"
    have "rb_inv ?rb \<and> rb_list ?rb = drop n (rb_list rb)"
      by (rule rb_list_get [OF inv n(1)]) (use True in auto)
    then show ?thesis using False True sz n take_rb_list [OF inv n(1)]
      by (auto simp: rt_ringbuffer_get_def n_def [symmetric] Let_def)
  next
    case wrap: False
    let ?rb = "rb\<lparr>read_mirror := \<not> read_mirror rb, read_index := n - ?tail\<rparr>"
    have "rb_inv ?rb \<and> rb_list ?rb = drop n (rb_list rb)"
      by (rule rb_list_get [OF inv n(1)]) (use wrap sz in auto)
    then show ?thesis using False wrap sz n take_rb_list [OF inv n(1)]
      by (auto simp: rt_ringbuffer_get_def n_def [symmetric] Let_def min_def)
  qed
qed

lemma rt_ringbuffer_putchar_room:
  assumes inv: "rb_inv rb" and room: "length (rb_list rb) < buffer_size rb"
  shows "\<exists>rb'. rt_ringbuffer_putchar rb ch = Inr (1, rb') \<and> rb_inv rb' \<and>
           buffer_size rb' = buffer_size rb \<and> rb_list rb' = rb_list rb @ [ch]"
proof -
  let ?w = "write_index rb"
  let ?rb = "if ?w + 1 = buffer_size rb
    then rb\<lparr>buffer_ptr := (buffer_ptr rb)[?w := ch], write_mirror := \<not> write_mirror rb, write_index := 0\<rparr>
    else rb\<lparr>buffer_ptr := (buffer_ptr rb)[?w := ch], write_index := ?w + 1\<rparr>"
  have sz: "?w < buffer_size rb" "buffer_size rb \<le> length (buffer_ptr rb)"
    using inv by (auto simp: rb_inv_def)
  have "rb_inv ?rb \<and> rb_list ?rb = rb_list rb @ [ch]"
    by (rule rb_list_put [OF inv])
      (use room sz in \<open>auto simp: rt_ringbuffer_space_len_def nth_list_update\<close>)
  then show ?thesis using room sz
    by (auto simp: rt_ringbuffer_putchar_def rt_ringbuffer_space_len_def Let_def
        split: if_splits intro!: exI [of _ ?rb])
qed

lemma rt_ringbuffer_getchar_first:
  assumes inv: "rb_inv rb" and first: "rb_list rb = x # xs"
  shows "\<exists>rb'. rt_ringbuffer_getchar rb = Inr (Some x, rb') \<and> rb_inv rb' \<and>
           buffer_size rb' = buffer_size rb \<and> rb_list rb' = xs"
proof -
  let ?r = "read_index rb"
  let ?rb = "if ?r + 1 = buffer_size rb
    then rb\<lparr>read_mirror := \<not> read_mirror rb, read_index := 0\<rparr>
    else rb\<lparr>read_index := ?r + 1\<rparr>"
  have dl: "rt_ringbuffer_data_len rb = Suc (length xs)"
    using arg_cong [OF first, of length] by simp
  have sz: "?r < buffer_size rb" "buffer_size rb \<le> length (buffer_ptr rb)"
    using inv by (auto simp: rb_inv_def)
  have "rb_inv ?rb \<and> rb_list ?rb = drop 1 (rb_list rb)"
    by (rule rb_list_get [OF inv]) (use dl sz in auto)
  moreover have "buffer_ptr rb ! ?r = x"
    using nth_rb_list [of 0 rb] dl sz first by (simp add: rb_at_def rb_wrap_def)
  ultimately show ?thesis using dl sz first
    by (auto simp: rt_ringbuffer_getchar_def split: if_splits intro!: exI [of _ ?rb])
qed

lemma rt_ringbuffer_put_force_eq:
  assumes inv: "rb_inv rb" and ptr: "len0 \<le> length ptr"
  defines "len \<equiv> min len0 (buffer_size rb)"
  defines "d \<equiv> drop (len0 - len) (take len0 ptr)"
  defines "tail \<equiv> buffer_size rb - write_index rb"
  defines "w \<equiv> rb_wrap (buffer_size rb) (write_index rb + len)"
  defines "force \<equiv> len > rt_ringbuffer_space_len rb"
  shows "rt_ringbuffer_put_force rb ptr len0 = Inr (len,
    if tail > len
    then rb\<lparr>buffer_ptr := overwrite (buffer_ptr rb) (write_index rb) d, write_index := w,
            read_index := (if force then w else read_index rb)\<rparr>
    else rb\<lparr>buffer_ptr := overwrite (overwrite (buffer_ptr rb) (write_index rb) (take tail d)) 0 (drop tail d),
            write_mirror := \<not> write_mirror rb, write_index := w,
            read_mirror := (if force then \<not> read_mirror rb else read_mirror rb),
            read_index := (if force then w else read_index rb)\<rparr>)"
proof -
  have d: "length d = len" "take len (drop (len0 - len) ptr) = d"
    using ptr by (auto simp: d_def len_def drop_take)
  have sz: "write_index rb < buffer_size rb" "buffer_size rb \<le> length (buffer_ptr rb)" "len \<le> buffer_size rb"
    using inv by (auto simp: rb_inv_def len_def)
  have off: "(if len0 > buffer_size rb then len0 - buffer_size rb else 0) = len0 - len"
    "(if len0 > buffer_size rb then buffer_size rb else len0) = len"
    by (auto simp: len_def)
  have le: "len0 - len + len \<le> length ptr" using ptr by (simp add: len_def)
  show ?thesis
  proof (cases "tail > len")
    case True
    then have w: "w = write_index rb + len" and fit: "write_index rb + length d \<le> length (buffer_ptr rb)"
      using sz d by (auto simp: w_def tail_def rb_wrap_def)
    show ?thesis
      unfolding rt_ringbuffer_put_force_def Let_def off tail_def [symmetric] force_def [symmetric]
        slice_in [OF le] d(2) bnd_Inr blit_in [OF fit] w
      using True by simp
  next
    case False
    then have w: "w = len - tail" using sz by (auto simp: w_def tail_def rb_wrap_def)
    have s1: "len0 - len + tail \<le> length ptr" "len0 - len + tail + (len - tail) \<le> length ptr"
      using False le by auto
    have c: "take tail (drop (len0 - len) ptr) = take tail d"
      "take (len - tail) (drop (len0 - len + tail) ptr) = drop tail d"
      using False by (auto simp: d(2) [symmetric] drop_take min_def add.commute)
    have fit1: "write_index rb + length (take tail d) \<le> length (buffer_ptr rb)"
      using sz False d by (auto simp: tail_def)
    have fit2: "0 + length (drop tail d) \<le> length (overwrite (buffer_ptr rb) (write_index rb) (take tail d))"
      using fit1 sz d by simp
    show ?thesis
      unfolding rt_ringbuffer_put_force_def Let_def off tail_def [symmetric] force_def [symmetric]
        slice_in [OF s1(1)] slice_in [OF s1(2)] c bnd_Inr blit_in [OF fit1] blit_in [OF fit2] w
      using False by simp
  qed
qed

lemma rt_ringbuffer_put_force_write:
  assumes inv: "rb_inv rb" and ptr: "len0 \<le> length ptr"
  defines "len \<equiv> min len0 (buffer_size rb)"
  defines "d \<equiv> drop (len0 - len) (take len0 ptr)"
  defines "lost \<equiv> len - rt_ringbuffer_space_len rb"
  assumes ok: "lost = 0 \<or> read_mirror rb \<noteq> write_mirror rb"
  shows "\<exists>rb'. rt_ringbuffer_put_force rb ptr len0 = Inr (len, rb') \<and> rb_inv rb' \<and>
           buffer_size rb' = buffer_size rb \<and> rb_list rb' = drop lost (rb_list rb) @ d"
proof -
  let ?w = "write_index rb" and ?tail = "buffer_size rb - write_index rb"
  have d: "length d = len" using ptr by (auto simp: d_def len_def)
  have sz: "?w < buffer_size rb" "buffer_size rb \<le> length (buffer_ptr rb)" "len \<le> buffer_size rb"
    using inv by (auto simp: rb_inv_def len_def)
  define rb0 where "rb0 = rb\<lparr>read_index := rb_wrap (buffer_size rb) (read_index rb + lost),
    read_mirror := (if read_index rb + lost < buffer_size rb then read_mirror rb else \<not> read_mirror rb)\<rparr>"
  have lost_le: "lost \<le> rt_ringbuffer_data_len rb"
    using sz data_len_le [OF inv] by (auto simp: lost_def rt_ringbuffer_space_len_def)
  have rb0: "rb_inv rb0" "rb_list rb0 = drop lost (rb_list rb)" "buffer_ptr rb0 = buffer_ptr rb"
    "write_index rb0 = write_index rb" "write_mirror rb0 = write_mirror rb" "buffer_size rb0 = buffer_size rb"
    using rb_list_get [OF inv lost_le, of rb0] sz by (auto simp: rb0_def rb_wrap_def)
  then have dl0: "rt_ringbuffer_data_len rb0 = rt_ringbuffer_data_len rb - lost"
    by (metis length_drop length_rb_list)
  have room: "length d \<le> rt_ringbuffer_space_len rb0"
    unfolding rt_ringbuffer_space_len_def dl0 d lost_def rb0
    using sz data_len_le [OF inv] by simp
  have read0: "read_index rb0 = (if len > rt_ringbuffer_space_len rb
      then rb_wrap (buffer_size rb) (?w + len) else read_index rb)"
    "read_mirror rb0 = (if len > rt_ringbuffer_space_len rb \<and> \<not> ?tail > len
      then \<not> read_mirror rb else read_mirror rb)"
    using ok inv sz
    by (auto simp: rb0_def rb_wrap_def lost_def rt_ringbuffer_space_len_def data_len_inv [OF inv] rb_inv_def)
  obtain rb' where rb': "rt_ringbuffer_put_force rb ptr len0 = Inr (len, rb')"
    and f: "rb' = (if ?tail > len
      then rb0\<lparr>buffer_ptr := overwrite (buffer_ptr rb) ?w d, write_index := rb_wrap (buffer_size rb) (?w + len)\<rparr>
      else rb0\<lparr>buffer_ptr := overwrite (overwrite (buffer_ptr rb) ?w (take ?tail d)) 0 (drop ?tail d),
        write_mirror := \<not> write_mirror rb, write_index := rb_wrap (buffer_size rb) (?w + len)\<rparr>)"
    using rt_ringbuffer_put_force_eq [OF inv ptr] read0 rb0 unfolding len_def [symmetric] d_def [symmetric]
    by (auto simp: rb0_def)
  have "rb_inv rb' \<and> rb_list rb' = rb_list rb0 @ d"
    by (rule rb_list_put [OF rb0(1) room]) (use d sz rb0 in \<open>auto simp: f rb_wrap_def nth_overwrite\<close>)
  then show ?thesis using rb' rb0 f by auto
qed

lemma rt_ringbuffer_put_force_empties:
  assumes inv: "rb_inv rb" and ptr: "len0 \<le> length ptr"
    and same: "read_mirror rb = write_mirror rb"
    and over: "min len0 (buffer_size rb) > rt_ringbuffer_space_len rb"
  shows "\<exists>rb'. rt_ringbuffer_put_force rb ptr len0 = Inr (min len0 (buffer_size rb), rb') \<and>
           rb_list rb' = []"
proof -
  have "\<not> buffer_size rb - write_index rb > min len0 (buffer_size rb)"
    using inv same over by (auto simp: rb_inv_def rt_ringbuffer_space_len_def data_len_inv [OF inv])
  then show ?thesis
    unfolding rt_ringbuffer_put_force_eq [OF inv ptr]
    using same over by (simp add: rb_list_def rt_ringbuffer_data_len_def rt_ringbuffer_status_def)
qed

lemma write_in_pool: "rb_inv rb \<Longrightarrow> write_index rb < length (buffer_ptr rb)"
  by (auto simp: rb_inv_def)

lemma rt_ringbuffer_putchar_force_spec:
  assumes inv: "rb_inv rb"
  shows "\<exists>rb'. rt_ringbuffer_putchar_force rb ch = Inr (1, rb') \<and> rb_inv rb' \<and>
           buffer_size rb' = buffer_size rb \<and>
           rb_list rb' = (if length (rb_list rb) = buffer_size rb then tl (rb_list rb) else rb_list rb) @ [ch]"
proof (cases "length (rb_list rb) = buffer_size rb")
  case False
  then have nf: "rt_ringbuffer_status rb \<noteq> RT_RINGBUFFER_FULL"
    by (auto simp: rt_ringbuffer_data_len_def split: if_splits)
  have room: "length (rb_list rb) < buffer_size rb" using False data_len_le [OF inv] by simp
  have "rt_ringbuffer_putchar_force rb ch = rt_ringbuffer_putchar rb ch"
    unfolding rt_ringbuffer_putchar_force_def rt_ringbuffer_putchar_def rt_ringbuffer_space_len_def Let_def
    using nf room write_in_pool [OF inv] by simp
  then show ?thesis using rt_ringbuffer_putchar_room [OF inv room, of ch] False by simp
next
  case True
  then have full: "rt_ringbuffer_status rb = RT_RINGBUFFER_FULL"
    "read_index rb = write_index rb" "read_mirror rb = (\<not> write_mirror rb)"
    using inv by (auto simp: rt_ringbuffer_status_def data_len_inv [OF inv] rb_inv_def split: if_splits)
  have sz: "write_index rb < buffer_size rb" "buffer_size rb \<le> length (buffer_ptr rb)"
    using inv by (auto simp: rb_inv_def)
  obtain x xs where l: "rb_list rb = x # xs" using True sz by (cases "rb_list rb") auto
  obtain rb0 where g: "rt_ringbuffer_getchar rb = Inr (Some x, rb0)"
    and rb0: "rb_inv rb0" "buffer_size rb0 = buffer_size rb" "rb_list rb0 = xs"
    using rt_ringbuffer_getchar_first [OF inv l] by blast
  have "length (rb_list rb0) < buffer_size rb0" using rb0 l True by (metis length_Cons lessI)
  then obtain rb1 where p: "rt_ringbuffer_putchar rb0 ch = Inr (1, rb1)"
    and rb1: "rb_inv rb1" "buffer_size rb1 = buffer_size rb" "rb_list rb1 = xs @ [ch]"
    using rt_ringbuffer_putchar_room [OF rb0(1), of ch] rb0 by auto
  have "rt_ringbuffer_putchar_force rb ch = Inr (1, rb1)"
    using g p full sz
    by (auto simp: rt_ringbuffer_putchar_force_def rt_ringbuffer_putchar_def
        rt_ringbuffer_getchar_def Let_def mem_Inr split: if_splits)
  then show ?thesis using rb1 l True by simp
qed

lemma rt_ringbuffer_peak_spec:
  assumes inv: "rb_inv rb" and p: "rt_ringbuffer_peak rb = ((i, n), rb')"
  shows "rb_inv rb' \<and> n \<le> length (rb_list rb) \<and> (n = 0 \<longleftrightarrow> rb_list rb = []) \<and>
         rb_list rb' = drop n (rb_list rb) \<and>
         (case i of None \<Rightarrow> n = 0 | Some k \<Rightarrow> take n (drop k (buffer_ptr rb)) = take n (rb_list rb))"
proof (cases "rt_ringbuffer_data_len rb = 0")
  case True
  then have "rb_list rb = []" by (simp add: rb_list_def)
  then show ?thesis using p True inv by (auto simp: rt_ringbuffer_peak_def)
next
  case False
  have i: "i = Some (read_index rb)" and n: "n = min (rt_ringbuffer_data_len rb) (buffer_size rb - read_index rb)"
    using p False by (auto simp: rt_ringbuffer_peak_def Let_def split: if_splits)
  have sz: "read_index rb < buffer_size rb" using inv by (simp add: rb_inv_def)
  have "rb_inv rb' \<and> rb_list rb' = drop n (rb_list rb)"
    by (rule rb_list_get [OF inv])
      (use p False n sz in \<open>auto simp: rt_ringbuffer_peak_def Let_def split: if_splits\<close>)
  moreover have "take n (drop (read_index rb) (buffer_ptr rb)) = take n (rb_list rb)"
    using take_rb_list [OF inv, of n] n by (simp add: Let_def min_def)
  moreover have "rb_list rb \<noteq> []" using False length_rb_list [of rb] by fastforce
  moreover have "n \<noteq> 0" using False n sz by simp
  ultimately show ?thesis using i n by simp
qed

section \<open>The FIFO contract\<close>

definition rb_put1 :: "rt_ringbuffer \<Rightarrow> byte \<Rightarrow> (bool \<times> rt_ringbuffer) res" where
  "rb_put1 rb ch = bnd (rt_ringbuffer_putchar rb ch) (\<lambda>(n, rb'). Inr (n = 1, rb'))"

lemma rt_ringbuffer_putchar_full:
  "rb_inv rb \<Longrightarrow> \<not> length (rb_list rb) < buffer_size rb \<Longrightarrow> rt_ringbuffer_putchar rb ch = Inr (0, rb)"
  by (simp add: rt_ringbuffer_putchar_def rt_ringbuffer_space_len_def)

lemma rt_ringbuffer_getchar_empty:
  assumes "rb_list rb = []"
  shows "rt_ringbuffer_getchar rb = Inr (None, rb)"
proof -
  have "rt_ringbuffer_data_len rb = 0" using length_rb_list [of rb] assms by simp
  then show ?thesis by (simp add: rt_ringbuffer_getchar_def)
qed

interpretation ring: bounded_queue rb_inv rb_list buffer_size rb_put1 rt_ringbuffer_getchar
proof
  fix q :: rt_ringbuffer and x
  assume "rb_inv q" "length (rb_list q) < buffer_size q"
  then show "\<exists>q'. rb_put1 q x = Inr (True, q') \<and> rb_inv q' \<and> buffer_size q' = buffer_size q \<and>
      rb_list q' = rb_list q @ [x]"
    using rt_ringbuffer_putchar_room [of q x] by (auto simp: rb_put1_def)
next
  fix q :: rt_ringbuffer and x
  assume "rb_inv q" "\<not> length (rb_list q) < buffer_size q"
  then show "\<exists>q'. rb_put1 q x = Inr (False, q') \<and> rb_inv q' \<and> buffer_size q' = buffer_size q \<and>
      rb_list q' = rb_list q"
    using rt_ringbuffer_putchar_full [of q x] by (simp add: rb_put1_def)
next
  fix q :: rt_ringbuffer
  assume "rb_inv q" "rb_list q = []"
  then show "\<exists>q'. rt_ringbuffer_getchar q = Inr (None, q') \<and> rb_inv q' \<and>
      buffer_size q' = buffer_size q \<and> rb_list q' = []"
    by (simp add: rt_ringbuffer_getchar_empty)
next
  fix q :: rt_ringbuffer and x xs
  assume "rb_inv q" "rb_list q = x # xs"
  then show "\<exists>q'. rt_ringbuffer_getchar q = Inr (Some x, q') \<and> rb_inv q' \<and>
      buffer_size q' = buffer_size q \<and> rb_list q' = xs"
    by (rule rt_ringbuffer_getchar_first)
qed

lemma rt_ringbuffer_init_inv:
  assumes "rt_ringbuffer_init pool sz = Inr rb" and "4 \<le> sz" and "sz < 2 ^ 15" and "sz \<le> int (length pool)"
  shows "rb_inv rb \<and> rb_list rb = []"
proof -
  have "rt_align_down (nat sz) 4 \<le> nat sz" "0 < rt_align_down (nat sz) 4"
    using assms(2) by (auto simp: rt_align_down_def)
  then show ?thesis using assms
    by (auto simp: rt_ringbuffer_init_def rb_inv_def rb_list_def rb_len_defs split: if_splits)
qed

section \<open>Properties\<close>

definition sample_ring :: rt_ringbuffer where
  "sample_ring = \<lparr>buffer_ptr = [1, 2, 3, 4], read_mirror = False, read_index = 0,
     write_mirror = False, write_index = 1, buffer_size = 4\<rparr>"

lemma sample_ring_inv: "rb_inv sample_ring"
  by (simp add: rb_inv_def sample_ring_def)

text \<open>
  C2. Any sequence of single-character puts and gets on a ring buffer that satisfies its
  invariant runs without a fault and gives exactly the answers of an abstract bounded FIFO queue
  whose capacity is the buffer size.
\<close>
theorem rt_ringbuffer_fifo:
  assumes "rb_inv rb"
  shows "\<exists>rb'. queue_run rb_put1 rt_ringbuffer_getchar rb ps =
             Inr (fst (queue_spec_run (buffer_size rb) (rb_list rb) ps), rb') \<and>
           rb_list rb' = snd (queue_spec_run (buffer_size rb) (rb_list rb) ps) \<and> rb_inv rb'"
  using ring.run_refines [OF assms] by blast

theorem rt_ringbuffer_fifo_witness:
  "rb_inv sample_ring \<and>
   (\<exists>rb'. queue_run rb_put1 rt_ringbuffer_getchar sample_ring [Put 7, Get, Get, Get] =
      Inr ([Stored, Got 1, Got 7, Empty], rb') \<and> rb_list rb' = [] \<and> rb_inv rb')"
  using rt_ringbuffer_fifo [OF sample_ring_inv, of "[Put 7, Get, Get, Get]"] sample_ring_inv
  by (simp add: sample_ring_def rb_list_def rb_at_def rb_wrap_def rb_len_defs)

text \<open>
  C30. Writing a block with \<open>rt_ringbuffer_put\<close> appends the longest prefix of it that fits and
  reading it back with \<open>rt_ringbuffer_get\<close> returns the oldest bytes first: the two are inverse
  to each other across the wrap-around of the pool, and neither leaves the pool.
\<close>
theorem rt_ringbuffer_put_get:
  assumes "rb_inv rb" and "len \<le> length ptr"
  defines "n \<equiv> min len (buffer_size rb - length (rb_list rb))"
  shows "\<exists>rb' rb''. rt_ringbuffer_put rb ptr len = Inr (n, rb') \<and> rb_inv rb' \<and>
           rt_ringbuffer_get rb' k = Inr (take k (rb_list rb @ take n ptr), rb'') \<and> rb_inv rb'' \<and>
           rb_list rb'' = drop k (rb_list rb @ take n ptr)"
proof -
  obtain rb' where p: "rt_ringbuffer_put rb ptr len = Inr (n, rb')" "rb_inv rb'"
    "rb_list rb' = rb_list rb @ take n ptr"
    using rt_ringbuffer_put_spec [OF assms(1,2)] by (auto simp: n_def)
  then show ?thesis using rt_ringbuffer_get_spec [OF p(2), of k] by auto
qed

theorem rt_ringbuffer_put_get_witness:
  "\<exists>rb' rb''. rt_ringbuffer_put sample_ring [8, 9, 10, 11] 4 = Inr (3, rb') \<and> rb_inv rb' \<and>
     rt_ringbuffer_get rb' 2 = Inr ([1, 8], rb'') \<and> rb_inv rb'' \<and> rb_list rb'' = [9, 10]"
  using rt_ringbuffer_put_get [OF sample_ring_inv, of 4 "[8, 9, 10, 11]" 2]
  by (simp add: sample_ring_def rb_list_def rb_at_def rb_wrap_def rb_len_defs)

text \<open>
  \<open>rt_ringbuffer_put_force\<close> is meant to discard the oldest bytes when there is no room. It
  does so only when both indices are in different mirrors; when they are in the same mirror and
  the block does not fit, both mirror bits are flipped, the buffer reads as empty and the whole
  block is lost although the function reports it as written.
\<close>
theorem rt_ringbuffer_put_force_cases:
  assumes "rb_inv rb" and "len0 \<le> length ptr"
  defines "len \<equiv> min len0 (buffer_size rb)"
  defines "lost \<equiv> len - (buffer_size rb - length (rb_list rb))"
  shows "\<exists>rb'. rt_ringbuffer_put_force rb ptr len0 = Inr (len, rb') \<and>
           rb_list rb' = (if lost = 0 \<or> read_mirror rb \<noteq> write_mirror rb
                          then drop lost (rb_list rb) @ drop (len0 - len) (take len0 ptr) else [])"
proof (cases "lost = 0 \<or> read_mirror rb \<noteq> write_mirror rb")
  case True
  then show ?thesis using rt_ringbuffer_put_force_write [OF assms(1,2)]
    by (auto simp: len_def lost_def rt_ringbuffer_space_len_def)
next
  case False
  then have "read_mirror rb = write_mirror rb"
    and "min len0 (buffer_size rb) > rt_ringbuffer_space_len rb"
    by (auto simp: len_def lost_def rt_ringbuffer_space_len_def)
  then show ?thesis using rt_ringbuffer_put_force_empties [OF assms(1,2)] False
    by (simp add: len_def)
qed

theorem rt_ringbuffer_put_force_cases_witness:
  "\<exists>rb'. rt_ringbuffer_put_force sample_ring [5, 6, 7, 8] 4 = Inr (4, rb') \<and> rb_list rb' = []"
  using rt_ringbuffer_put_force_cases [OF sample_ring_inv, of 4 "[5, 6, 7, 8]"]
  by (simp add: sample_ring_def rb_list_def rb_at_def rb_wrap_def rb_len_defs)

end
