(* ===== verification/Kservice.thy ===== *)
theory Kservice
  imports Prelude "HOL-Library.Sublist"
begin

unbundle bit_operations_syntax

text \<open>
  The string and memory services of the kernel (\<^verbatim>\<open>src/rt-thread/src/kservice.c\<close>): \<open>rt_strlen\<close>,
  \<open>rt_strnlen\<close>, \<open>rt_strcmp\<close>, \<open>rt_strncmp\<close>, \<open>rt_strcasecmp\<close>, \<open>rt_strstr\<close>, \<open>rt_strncpy\<close>, \<open>rt_memcmp\<close>,
  \<open>rt_memcpy\<close>, \<open>rt_memmove\<close> and \<open>rt_memset\<close>. A pointer argument is the list of the characters from
  where it points to the end of its object, so that running off the object is the fault
  \<open>Out_of_bounds\<close>. The block loops of \<open>rt_memcpy\<close> and \<open>rt_memset\<close> (16 and 4 bytes at a time, as chosen
  by the alignment and the size) are kept and shown equal to the plain copy and fill; \<open>rt_memmove\<close>
  works inside one object and is right for overlapping ranges.
\<close>

section \<open>Strings\<close>

definition cval :: "char \<Rightarrow> int" where
  "cval c = int (of_char c)"

definition schar :: "int \<Rightarrow> int" where
  \<comment> \<open>conversion to \<open>signed char\<close>\<close>
  "schar d = (d + 128) mod 256 - 128"

fun rt_strlen :: "cbuf \<Rightarrow> nat res" where
  "rt_strlen [] = Inl Out_of_bounds"
| "rt_strlen (c # cs) = (if c \<noteq> NUL then bnd (rt_strlen cs) (\<lambda>n. Inr (Suc n)) else Inr 0)"

fun rt_strnlen :: "cbuf \<Rightarrow> nat \<Rightarrow> nat res" where
  "rt_strnlen [] maxlen = Inl Out_of_bounds"
| "rt_strnlen (c # cs) maxlen =
     (if c \<noteq> NUL \<and> 0 < maxlen then bnd (rt_strnlen cs (maxlen - 1)) (\<lambda>n. Inr (Suc n)) else Inr 0)"

fun rt_strcmp :: "cbuf \<Rightarrow> cbuf \<Rightarrow> int res" where
  "rt_strcmp (c # cs) (t # ct) =
     (if c \<noteq> NUL \<and> c = t then rt_strcmp cs ct else Inr (cval c - cval t))"
| "rt_strcmp cs ct = Inl Out_of_bounds"

fun rt_strncmp :: "cbuf \<Rightarrow> cbuf \<Rightarrow> nat \<Rightarrow> int res" where
  "rt_strncmp cs ct 0 = Inr 0"
| "rt_strncmp (c # cs) (t # ct) (Suc count) =
     (let res = schar (cval c - cval t) in
      if res \<noteq> 0 \<or> c = NUL then Inr res else rt_strncmp cs ct count)"
| "rt_strncmp cs ct (Suc count) = Inl Out_of_bounds"

definition lower :: "int \<Rightarrow> int" where
  "lower c = (if 65 \<le> c \<and> c \<le> 90 then c + 32 else c)"

fun rt_strcasecmp :: "cbuf \<Rightarrow> cbuf \<Rightarrow> int res" where
  "rt_strcasecmp (a # as) (b # bs) =
     (let ca = lower (cval a); cb = lower (cval b) in
      if ca = cb \<and> ca \<noteq> 0 then rt_strcasecmp as bs else Inr (ca - cb))"
| "rt_strcasecmp as bs = Inl Out_of_bounds"

fun rt_memcmp :: "cbuf \<Rightarrow> cbuf \<Rightarrow> nat \<Rightarrow> int res" where
  "rt_memcmp cs ct 0 = Inr 0"
| "rt_memcmp (c # cs) (t # ct) (Suc count) =
     (if cval c - cval t \<noteq> 0 then Inr (cval c - cval t) else rt_memcmp cs ct count)"
| "rt_memcmp cs ct (Suc count) = Inl Out_of_bounds"

fun strstr_loop :: "cbuf \<Rightarrow> cbuf \<Rightarrow> nat \<Rightarrow> nat \<Rightarrow> nat \<Rightarrow> nat option res" where
  \<comment> \<open>the loop of \<open>rt_strstr\<close>; \<open>k\<close> is the offset of \<open>s1\<close> in the original string\<close>
  "strstr_loop s1 s2 l1 l2 k =
     (if l1 \<ge> l2 \<and> 0 < l2
      then bnd (rt_memcmp s1 s2 l2) (\<lambda>r.
           if r = 0 then Inr (Some k) else strstr_loop (drop 1 s1) s2 (l1 - 1) l2 (k + 1))
      else Inr None)"

declare strstr_loop.simps [simp del]

definition rt_strstr :: "cbuf \<Rightarrow> cbuf \<Rightarrow> nat option res" where
  "rt_strstr s1 s2 =
     bnd (rt_strlen s2) (\<lambda>l2.
     if l2 = 0 then Inr (Some 0)
     else bnd (rt_strlen s1) (\<lambda>l1. strstr_loop s1 s2 l1 l2 0))"

fun strncpy_pad :: "cbuf \<Rightarrow> nat \<Rightarrow> nat \<Rightarrow> cbuf res" where
  "strncpy_pad dst i 0 = Inr dst"
| "strncpy_pad dst i (Suc n) = bnd (store dst i NUL) (\<lambda>d. strncpy_pad d (Suc i) n)"

fun strncpy_from :: "cbuf \<Rightarrow> nat \<Rightarrow> cbuf \<Rightarrow> nat \<Rightarrow> cbuf res" where
  "strncpy_from dst i src 0 = Inr dst"
| "strncpy_from dst i [] (Suc n) = Inl Out_of_bounds"
| "strncpy_from dst i (c # cs) (Suc n) =
     bnd (store dst i c) (\<lambda>d.
     if c = NUL then strncpy_pad d (Suc i) n else strncpy_from d (Suc i) cs n)"

definition rt_strncpy :: "cbuf \<Rightarrow> cbuf \<Rightarrow> nat \<Rightarrow> cbuf res" where
  "rt_strncpy dst src n = strncpy_from dst 0 src n"

section \<open>Memory blocks\<close>

function memcpy_loop :: "nat \<Rightarrow> nat \<Rightarrow> nat \<Rightarrow> 'a list \<Rightarrow> 'a list \<Rightarrow> (nat \<times> nat \<times> 'a list) res" where
  "memcpy_loop B off len dst src =
     (if 0 < B \<and> B \<le> len
      then bnd (slice src off B) (\<lambda>d.
           bnd (blit dst off d) (\<lambda>dst'. memcpy_loop B (off + B) (len - B) dst' src))
      else Inr (off, len, dst))"
  by pat_completeness auto
termination
  by (relation "measure (\<lambda>(B, off, len, dst, src). len)") auto

declare memcpy_loop.simps [simp del]

definition rt_memcpy :: "bool \<Rightarrow> 'a list \<Rightarrow> 'a list \<Rightarrow> nat \<Rightarrow> 'a list res" where
  \<comment> \<open>\<open>unaligned\<close>: one of the two addresses is not a multiple of 4\<close>
  "rt_memcpy unaligned dst src count =
     bnd (if \<not> count < 16 \<and> \<not> unaligned
          then bnd (memcpy_loop 16 0 count dst src) (\<lambda>(off, len, dst).
               memcpy_loop 4 off len dst src)
          else Inr (0, count, dst)) (\<lambda>(off, len, dst).
     bnd (memcpy_loop 1 off len dst src) (\<lambda>(off, len, dst). Inr dst))"

fun move_back :: "'a list \<Rightarrow> nat \<Rightarrow> nat \<Rightarrow> nat \<Rightarrow> 'a list res" where
  "move_back mem dest src 0 = Inr mem"
| "move_back mem dest src (Suc n) =
     bnd (fetch mem (src + n)) (\<lambda>c. bnd (store mem (dest + n) c) (\<lambda>m. move_back m dest src n))"

fun move_fwd :: "'a list \<Rightarrow> nat \<Rightarrow> nat \<Rightarrow> nat \<Rightarrow> 'a list res" where
  "move_fwd mem dest src 0 = Inr mem"
| "move_fwd mem dest src (Suc n) =
     bnd (fetch mem src) (\<lambda>c. bnd (store mem dest c) (\<lambda>m. move_fwd m (Suc dest) (Suc src) n))"

definition rt_memmove :: "'a list \<Rightarrow> nat \<Rightarrow> nat \<Rightarrow> nat \<Rightarrow> 'a list res" where
  \<comment> \<open>\<open>dest\<close> and \<open>src\<close> are offsets into one object\<close>
  "rt_memmove mem dest src n =
     (if src < dest \<and> dest < src + n then move_back mem dest src n else move_fwd mem dest src n)"

definition memset_word :: "8 word \<Rightarrow> 32 word" where
  "memset_word d =
     (let b0 = push_bit 8 (ucast d :: 32 word) OR ucast d in b0 OR push_bit 16 b0)"

definition word_bytes :: "32 word \<Rightarrow> 8 word list" where
  \<comment> \<open>the four bytes a word store writes, lowest address first\<close>
  "word_bytes w = [ucast w, ucast (drop_bit 8 w), ucast (drop_bit 16 w), ucast (drop_bit 24 w)]"

function memset_loop :: "'a list \<Rightarrow> nat \<Rightarrow> nat \<Rightarrow> 'a list \<Rightarrow> (nat \<times> nat \<times> 'a list) res" where
  "memset_loop blk off count mem =
     (if blk \<noteq> [] \<and> length blk \<le> count
      then bnd (blit mem off blk) (\<lambda>m. memset_loop blk (off + length blk) (count - length blk) m)
      else Inr (off, count, mem))"
  by pat_completeness auto
termination
proof (relation "measure (\<lambda>(blk, off, count, mem). count)")
qed (auto simp: neq_Nil_conv)

declare memset_loop.simps [simp del]

definition rt_memset :: "bool \<Rightarrow> 8 word list \<Rightarrow> int \<Rightarrow> nat \<Rightarrow> 8 word list res" where
  "rt_memset unaligned s c count =
     (let d = word_of_int c :: 8 word; buffer = word_bytes (memset_word d) in
      bnd (if \<not> count < 4 \<and> \<not> unaligned
           then bnd (memset_loop (buffer @ buffer @ buffer @ buffer) 0 count s) (\<lambda>(off, count, s).
                memset_loop buffer off count s)
           else Inr (0, count, s)) (\<lambda>(off, count, s).
      bnd (memset_loop [d] off count s) (\<lambda>(off, count, s). Inr s)))"

section \<open>Lemmas on strings\<close>

lemma cval_eq [simp]: "cval c = cval d \<longleftrightarrow> c = d"
  by (simp add: cval_def)

lemma cval_NUL [simp]: "cval NUL = 0"
  by (simp add: cval_def)

lemma cval_range: "0 \<le> cval c \<and> cval c \<le> 255"
  using nat_of_char_less_256 [of c] unfolding cval_def by linarith

lemma cval_0 [simp]: "cval c = 0 \<longleftrightarrow> c = NUL"
  by (metis cval_NUL cval_eq)

lemma schar_zero: "- 255 \<le> d \<Longrightarrow> d \<le> 255 \<Longrightarrow> schar d = 0 \<longleftrightarrow> d = 0"
proof
  assume d: "- 255 \<le> d" "d \<le> 255" and "schar d = 0"
  then have "(d + 128) mod 256 = 128 mod 256" by (simp add: schar_def)
  then have "256 dvd (d + 128) - 128" by (simp only: mod_eq_dvd_iff)
  then have "256 dvd d" by simp
  then show "d = 0" using d dvd_imp_le_int [of d 256] by fastforce
qed (simp add: schar_def)

lemma schar_0 [simp]: "schar (cval c - cval d) = 0 \<longleftrightarrow> c = d"
  using cval_range [of c] cval_range [of d] by (subst schar_zero) auto

lemma rt_strlen_cstr: "terminated s \<Longrightarrow> rt_strlen s = Inr (length (cstr s))"
  by (induction s) auto

lemma rt_strlen_unterminated: "\<not> terminated s \<Longrightarrow> rt_strlen s = Inl Out_of_bounds"
  by (induction s) auto

lemma rt_strcmp_eq:
  "terminated s \<Longrightarrow> terminated t \<Longrightarrow> \<exists>r. rt_strcmp s t = Inr r \<and> (r = 0 \<longleftrightarrow> cstr s = cstr t)"
  by (induction s t rule: rt_strcmp.induct) auto

lemma rt_strncmp_eq:
  "terminated s \<or> n \<le> length s \<Longrightarrow> terminated t \<or> n \<le> length t \<Longrightarrow>
     \<exists>r. rt_strncmp s t n = Inr r \<and> (r = 0 \<longleftrightarrow> take n (cstr s) = take n (cstr t))"
  by (induction s t n rule: rt_strncmp.induct) (auto simp: Let_def)

lemma rt_memcmp_eq:
  "n \<le> length s \<Longrightarrow> n \<le> length t \<Longrightarrow> \<exists>r. rt_memcmp s t n = Inr r \<and> (r = 0 \<longleftrightarrow> take n s = take n t)"
  by (induction s t n rule: rt_memcmp.induct) auto

lemma sublist_at: "sublist p s \<longleftrightarrow> (\<exists>k. k + length p \<le> length s \<and> take (length p) (drop k s) = p)"
proof
  assume "sublist p s"
  then obtain ps ss where "s = ps @ p @ ss" by (auto simp: sublist_def)
  then show "\<exists>k. k + length p \<le> length s \<and> take (length p) (drop k s) = p"
    by (intro exI [of _ "length ps"]) simp
next
  assume "\<exists>k. k + length p \<le> length s \<and> take (length p) (drop k s) = p"
  then obtain k where "take (length p) (drop k s) = p" by blast
  then have "s = take k s @ p @ drop (length p) (drop k s)"
    by (metis append_take_drop_id)
  then show "sublist p s" unfolding sublist_def by blast
qed

lemma sublist_drop1:
  assumes "p \<noteq> []" and "take (length p) s \<noteq> p"
  shows "sublist p (drop 1 s) \<longleftrightarrow> sublist p s"
proof -
  have np: "\<not> prefix p s" using assms(2) by (auto simp: prefix_def)
  show ?thesis
  proof (cases s)
    case (Cons c cs)
    then show ?thesis using np by (simp add: sublist_Cons_right)
  qed simp
qed

lemma strstr_loop_spec:
  assumes "l1 \<le> length s1" and "l2 \<le> length s2" and "0 < l2"
  shows "\<exists>r. strstr_loop s1 s2 l1 l2 k = Inr r \<and> (r \<noteq> None \<longleftrightarrow> sublist (take l2 s2) (take l1 s1))"
  using assms
proof (induction l1 arbitrary: s1 k)
  case 0
  then show ?case by (auto simp: strstr_loop.simps)
next
  case (Suc n)
  let ?p = "take l2 s2"
  have p: "length ?p = l2" "?p \<noteq> []" using Suc.prems by auto
  show ?case
  proof (cases "l2 \<le> Suc n")
    case False
    then have "\<not> sublist ?p (take (Suc n) s1)" using p by (auto dest!: sublist_length_le)
    then show ?thesis using False by (auto simp: strstr_loop.simps)
  next
    case True
    obtain r where r: "rt_memcmp s1 s2 l2 = Inr r" "r = 0 \<longleftrightarrow> take l2 s1 = ?p"
      using rt_memcmp_eq [of l2 s1 s2] True Suc.prems by auto
    have t: "take l2 (take (Suc n) s1) = take l2 s1" using True by simp
    show ?thesis
    proof (cases "r = 0")
      case True
      then have "prefix ?p (take (Suc n) s1)" using r t by (metis take_is_prefix)
      then show ?thesis using True r \<open>l2 \<le> Suc n\<close> Suc.prems(3)
        by (auto simp: strstr_loop.simps intro: prefix_imp_sublist)
    next
      case False
      obtain q where q: "strstr_loop (drop 1 s1) s2 n l2 (k + 1) = Inr q"
        "q \<noteq> None \<longleftrightarrow> sublist ?p (take n (drop 1 s1))"
        using Suc.IH [of "drop 1 s1" "k + 1"] Suc.prems by (metis Suc_diff_1 Suc_leD length_drop
          diff_le_mono diff_Suc_1 One_nat_def)
      have "take n (drop 1 s1) = drop 1 (take (Suc n) s1)" by (cases s1) auto
      then have "sublist ?p (take n (drop 1 s1)) \<longleftrightarrow> sublist ?p (take (Suc n) s1)"
        using sublist_drop1 [OF p(2)] p(1) t r(2) False by metis
      moreover have "strstr_loop s1 s2 (Suc n) l2 k = Inr q"
        using True False r(1) q(1) Suc.prems(3) by (simp add: strstr_loop.simps [of s1 s2 "Suc n"])
      ultimately show ?thesis using q(2) by blast
    qed
  qed
qed

lemma rt_strstr_spec:
  assumes "terminated s1" and "terminated s2"
  shows "\<exists>r. rt_strstr s1 s2 = Inr r \<and> (r \<noteq> None \<longleftrightarrow> sublist (cstr s2) (cstr s1))"
proof -
  have c: "take (length (cstr s)) s = cstr s" "length (cstr s) \<le> length s" for s
    by (induction s) auto
  have len: "rt_strlen s1 = Inr (length (cstr s1))" "rt_strlen s2 = Inr (length (cstr s2))"
    using assms by (simp_all add: rt_strlen_cstr)
  show ?thesis
  proof (cases "cstr s2 = []")
    case True
    then show ?thesis using len by (simp add: rt_strstr_def)
  next
    case False
    then obtain r where "strstr_loop s1 s2 (length (cstr s1)) (length (cstr s2)) 0 = Inr r"
      "r \<noteq> None \<longleftrightarrow> sublist (cstr s2) (cstr s1)"
      using strstr_loop_spec [OF c(2) [of s1] c(2) [of s2], of 0] unfolding c(1) by auto
    then show ?thesis using False len by (simp add: rt_strstr_def)
  qed
qed

lemma strncpy_pad_spec:
  "i + n \<le> length dst \<Longrightarrow> strncpy_pad dst i n = Inr (overwrite dst i (replicate n NUL))"
proof (induction n arbitrary: dst i)
  case 0
  then show ?case by simp
next
  case (Suc n)
  then have "strncpy_pad (dst[i := NUL]) (Suc i) n =
      Inr (overwrite (dst[i := NUL]) (Suc i) (replicate n NUL))"
    by simp
  moreover have "overwrite (dst[i := NUL]) (Suc i) (replicate n NUL) =
      overwrite dst i (replicate (Suc n) NUL)"
    using Suc.prems by (simp add: overwrite_def take_Suc_conv_app_nth)
  ultimately show ?case using Suc.prems by simp
qed

lemma overwrite_Cons:
  "i < length xs \<Longrightarrow> overwrite (xs[i := y]) (Suc i) ys = overwrite xs i (y # ys)"
  by (simp add: overwrite_def take_Suc_conv_app_nth)

lemma strncpy_from_spec:
  "i + n \<le> length dst \<Longrightarrow> terminated src \<or> n \<le> length src \<Longrightarrow>
     strncpy_from dst i src n = Inr (overwrite dst i (take n (cstr src @ replicate n NUL)))"
proof (induction dst i src n rule: strncpy_from.induct)
  case (3 dst i c cs n)
  show ?case
  proof (cases "c = NUL")
    case True
    then show ?thesis using "3.prems" by (simp add: strncpy_pad_spec overwrite_Cons)
  next
    case False
    have "take n (cstr cs @ replicate n NUL) = take n (cstr cs @ replicate (Suc n) NUL)"
      by (simp add: take_Cons' replicate_append_same [symmetric])
    then show ?thesis using "3" False by (simp add: overwrite_Cons)
  qed
qed auto

section \<open>Lemmas on memory blocks\<close>

lemma overwrite_next:
  "i + length xs \<le> length m \<Longrightarrow>
     overwrite (overwrite m i xs) (i + length xs) ys = overwrite m i (xs @ ys)"
  by (simp add: overwrite_def ac_simps)

lemma memcpy_loop_spec:
  assumes "0 < B" and "off + len \<le> length src" and "off + len \<le> length dst"
  shows "\<exists>n. n \<le> len \<and> len - n < B \<and>
    memcpy_loop B off len dst src = Inr (off + n, len - n, overwrite dst off (take n (drop off src)))"
  using assms
proof (induction len arbitrary: off dst rule: less_induct)
  case (less len)
  show ?case
  proof (cases "B \<le> len")
    case False
    then show ?thesis using less.prems by (intro exI [of _ 0]) (simp add: memcpy_loop.simps)
  next
    case True
    let ?d = "overwrite dst off (take B (drop off src))"
    obtain n where n: "n \<le> len - B" "len - B - n < B"
      "memcpy_loop B (off + B) (len - B) ?d src =
         Inr (off + B + n, len - B - n, overwrite ?d (off + B) (take n (drop (off + B) src)))"
      using less.IH [of "len - B" "off + B" ?d] less.prems True by auto
    have "overwrite ?d (off + B) (take n (drop (off + B) src)) =
        overwrite dst off (take B (drop off src) @ take n (drop (off + B) src))"
      using overwrite_next [of off "take B (drop off src)" dst] less.prems True by simp
    also have "take B (drop off src) @ take n (drop (off + B) src) = take (B + n) (drop off src)"
      by (simp add: take_add add.commute)
    finally show ?thesis using n less.prems True
      by (intro exI [of _ "B + n"]) (simp add: memcpy_loop.simps [of B off len] add.assoc)
  qed
qed

lemma memcpy_loop_1:
  assumes "off + len \<le> length src" and "off + len \<le> length dst"
  shows "memcpy_loop 1 off len dst src = Inr (off + len, 0, overwrite dst off (take len (drop off src)))"
  using memcpy_loop_spec [of 1, OF _ assms] by auto

lemma rt_memcpy_spec:
  assumes "count \<le> length src" and "count \<le> length dst"
  shows "rt_memcpy unaligned dst src count = Inr (overwrite dst 0 (take count src))"
proof (cases "\<not> count < 16 \<and> \<not> unaligned")
  case False
  then have "rt_memcpy unaligned dst src count =
      bnd (memcpy_loop 1 0 count dst src) (\<lambda>(off, len, dst). Inr dst)"
    unfolding rt_memcpy_def by (simp only: if_False bnd_Inr prod.case)
  then show ?thesis using memcpy_loop_1 [of 0 count src dst] assms by simp
next
  case True
  obtain n where n: "n \<le> count" "memcpy_loop 16 0 count dst src = Inr (n, count - n, overwrite dst 0 (take n src))"
    using memcpy_loop_spec [of 16 0 count src dst] assms by auto
  let ?d = "overwrite dst 0 (take n src)"
  obtain m where m: "m \<le> count - n"
    "memcpy_loop 4 n (count - n) ?d src = Inr (n + m, count - n - m, overwrite ?d n (take m (drop n src)))"
    using memcpy_loop_spec [of 4 n "count - n" src ?d] assms n(1) by auto
  let ?e = "overwrite ?d n (take m (drop n src))"
  have e: "?e = overwrite dst 0 (take (n + m) src)"
    using overwrite_next [of 0 "take n src" dst "take m (drop n src)"] assms n(1) by (simp add: take_add)
  let ?k = "count - n - m"
  have l: "memcpy_loop 1 (n + m) ?k ?e src = Inr (n + m + ?k, 0, overwrite ?e (n + m) (take ?k (drop (n + m) src)))"
    using memcpy_loop_1 [of "n + m" ?k src ?e] assms n(1) m(1) by (simp add: e)
  have t: "take (n + m) src @ take ?k (drop (n + m) src) = take count src"
    using take_add [of "n + m" ?k src] n(1) m(1) by simp
  have "overwrite ?e (n + m) (take ?k (drop (n + m) src)) = overwrite dst 0 (take count src)"
    unfolding e t [symmetric]
    using overwrite_next [of 0 "take (n + m) src" dst "take ?k (drop (n + m) src)"] assms n(1) m(1)
    by simp
  then show ?thesis using True n m l by (simp add: rt_memcpy_def)
qed

lemma move_fwd_spec:
  "src + n \<le> length mem \<Longrightarrow> dest + n \<le> length mem \<Longrightarrow> dest \<le> src \<or> src + n \<le> dest \<Longrightarrow>
     move_fwd mem dest src n = Inr (overwrite mem dest (take n (drop src mem)))"
proof (induction n arbitrary: mem dest src)
  case 0
  then show ?case by simp
next
  case (Suc n)
  let ?m = "mem[dest := mem ! src]"
  have "move_fwd ?m (Suc dest) (Suc src) n = Inr (overwrite ?m (Suc dest) (take n (drop (Suc src) ?m)))"
    by (rule Suc.IH) (use Suc.prems in auto)
  moreover have "take n (drop (Suc src) ?m) = take n (drop (Suc src) mem)"
    using Suc.prems by (intro nth_equalityI) auto
  moreover have "mem ! src # take n (drop (Suc src) mem) = take (Suc n) (drop src mem)"
    using Suc.prems by (simp add: Cons_nth_drop_Suc [symmetric])
  ultimately show ?case using Suc.prems by (simp add: overwrite_Cons)
qed

lemma overwrite_snoc:
  "i + length ys < length xs \<Longrightarrow>
     overwrite (xs[i + length ys := y]) i ys = overwrite xs i (ys @ [y])"
  by (simp add: overwrite_def Cons_nth_drop_Suc [symmetric] drop_update_swap)

lemma move_back_spec:
  "src + n \<le> length mem \<Longrightarrow> dest + n \<le> length mem \<Longrightarrow> src \<le> dest \<Longrightarrow>
     move_back mem dest src n = Inr (overwrite mem dest (take n (drop src mem)))"
proof (induction n arbitrary: mem)
  case 0
  then show ?case by simp
next
  case (Suc n)
  let ?m = "mem[dest + n := mem ! (src + n)]"
  have "move_back ?m dest src n = Inr (overwrite ?m dest (take n (drop src ?m)))"
    by (rule Suc.IH) (use Suc.prems in auto)
  moreover have "take n (drop src ?m) = take n (drop src mem)"
    using Suc.prems by (intro nth_equalityI) auto
  moreover have "take n (drop src mem) @ [mem ! (src + n)] = take (Suc n) (drop src mem)"
    using Suc.prems by (simp add: take_Suc_conv_app_nth)
  moreover have "overwrite ?m dest (take n (drop src mem)) =
      overwrite mem dest (take n (drop src mem) @ [mem ! (src + n)])"
    using overwrite_snoc [of dest "take n (drop src mem)" mem] Suc.prems by simp
  ultimately show ?case using Suc.prems by simp
qed

lemma rt_memmove_spec:
  "src + n \<le> length mem \<Longrightarrow> dest + n \<le> length mem \<Longrightarrow>
     rt_memmove mem dest src n = Inr (overwrite mem dest (take n (drop src mem)))"
  by (auto simp: rt_memmove_def move_back_spec move_fwd_spec)

lemma bit_memset_word:
  "n < 8 \<Longrightarrow> k \<in> {0, 8, 16, 24} \<Longrightarrow> bit (memset_word d) (n + k) \<longleftrightarrow> bit d n"
  by (auto simp: memset_word_def Let_def bit_simps dest: bit_imp_le_length)

lemma word_bytes_memset_word: "word_bytes (memset_word d) = replicate 4 d"
proof -
  have "ucast (drop_bit k (memset_word d)) = d" if "k \<in> {0, 8, 16, 24}" for k
    using that bit_memset_word [OF _ that]
    by (intro bit_word_eqI) (auto simp: bit_simps add.commute dest: bit_imp_le_length)
  from this [of 0] this [of 8] this [of 16] this [of 24]
  have "word_bytes (memset_word d) = [d, d, d, d]" by (simp add: word_bytes_def)
  also have "\<dots> = replicate 4 d" by (simp add: numeral_eq_Suc)
  finally show ?thesis .
qed

lemma memset_loop_spec:
  assumes "blk = replicate B d" and "0 < B" and "off + count \<le> length mem"
  shows "\<exists>n. n \<le> count \<and> count - n < B \<and>
    memset_loop blk off count mem = Inr (off + n, count - n, overwrite mem off (replicate n d))"
  using assms
proof (induction count arbitrary: off mem rule: less_induct)
  case (less count)
  show ?case
  proof (cases "B \<le> count")
    case False
    then show ?thesis using less.prems by (intro exI [of _ 0]) (simp add: memset_loop.simps)
  next
    case True
    let ?d = "overwrite mem off blk"
    obtain n where n: "n \<le> count - B" "count - B - n < B"
      "memset_loop blk (off + B) (count - B) ?d =
         Inr (off + B + n, count - B - n, overwrite ?d (off + B) (replicate n d))"
      using less.IH [of "count - B" "off + B" ?d] less.prems True by auto
    have "overwrite ?d (off + B) (replicate n d) = overwrite mem off (replicate (B + n) d)"
      using overwrite_next [of off blk mem] less.prems True by (simp add: replicate_add)
    then show ?thesis using n less.prems True
      by (intro exI [of _ "B + n"]) (simp add: memset_loop.simps [of _ off count] add.assoc)
  qed
qed

lemma memset_loop_1:
  assumes "off + count \<le> length mem"
  shows "memset_loop [d] off count mem = Inr (off + count, 0, overwrite mem off (replicate count d))"
  using memset_loop_spec [of "[d]" 1 d, OF _ _ assms] by auto

lemma rt_memset_spec:
  assumes "count \<le> length s"
  shows "rt_memset unaligned s c count = Inr (overwrite s 0 (replicate count (word_of_int c)))"
proof -
  define d where "d = (word_of_int c :: 8 word)"
  define b where "b = word_bytes (memset_word d)"
  have b4: "b = replicate 4 d" "b @ b @ b @ b = replicate 16 d"
    by (simp_all add: b_def word_bytes_memset_word flip: replicate_add)
  have def': "rt_memset unaligned s c count =
     bnd (if \<not> count < 4 \<and> \<not> unaligned
           then bnd (memset_loop (b @ b @ b @ b) 0 count s) (\<lambda>(off, count, s). memset_loop b off count s)
           else Inr (0, count, s)) (\<lambda>(off, count, s).
      bnd (memset_loop [d] off count s) (\<lambda>(off, count, s). Inr s))"
    by (simp add: rt_memset_def Let_def d_def b_def)
  show ?thesis
  proof (cases "\<not> count < 4 \<and> \<not> unaligned")
    case False
    then show ?thesis unfolding def' using memset_loop_1 [of 0 count s d] assms
      by (simp only: if_False bnd_Inr prod.case d_def)
  next
    case True
    obtain n where n: "n \<le> count"
      "memset_loop (b @ b @ b @ b) 0 count s = Inr (n, count - n, overwrite s 0 (replicate n d))"
      using memset_loop_spec [OF b4(2), of 0 count s] assms by auto
    let ?s = "overwrite s 0 (replicate n d)"
    obtain m where m: "m \<le> count - n"
      "memset_loop b n (count - n) ?s = Inr (n + m, count - n - m, overwrite ?s n (replicate m d))"
      using memset_loop_spec [OF b4(1), of n "count - n" ?s] assms n(1) by auto
    let ?t = "overwrite ?s n (replicate m d)"
    have t: "?t = overwrite s 0 (replicate (n + m) d)"
      using overwrite_next [of 0 "replicate n d" s] assms n(1) by (simp add: replicate_add)
    have "memset_loop [d] (n + m) (count - n - m) ?t =
        Inr (n + m + (count - n - m), 0, overwrite ?t (n + m) (replicate (count - n - m) d))"
      using memset_loop_1 [of "n + m" "count - n - m" ?t d] assms n(1) m(1) by (simp add: t)
    moreover have "overwrite ?t (n + m) (replicate (count - n - m) d) = overwrite s 0 (replicate count d)"
      using overwrite_next [of 0 "replicate (n + m) d" s "replicate (count - n - m) d"] assms n(1) m(1)
      by (simp add: t flip: replicate_add)
    ultimately show ?thesis unfolding def' using True n m by (simp add: d_def)
  qed
qed

section \<open>Properties\<close>

text \<open>
  On terminated strings \<open>rt_strstr\<close> never reads outside them and finds something exactly when
  the second string occurs in the first.
\<close>
theorem rt_strstr_correct:
  assumes "terminated s1" and "terminated s2"
  shows "\<exists>r. rt_strstr s1 s2 = Inr r \<and> (r \<noteq> None \<longleftrightarrow> sublist (cstr s2) (cstr s1))"
  using rt_strstr_spec [OF assms] .

theorem rt_strstr_correct_witness:
  "terminated (''+OK'' @ [NUL]) \<and> terminated (''OK'' @ [NUL]) \<and>
   (\<exists>r. rt_strstr (''+OK'' @ [NUL]) (''OK'' @ [NUL]) = Inr r \<and>
      (r \<noteq> None \<longleftrightarrow> sublist ''OK'' ''+OK''))"
  using rt_strstr_correct [of "''+OK'' @ [NUL]" "''OK'' @ [NUL]"] by simp

text \<open>
  C36. The block-wise \<open>rt_memcpy\<close>, \<open>rt_memset\<close> and the direction-choosing \<open>rt_memmove\<close> are the plain
  copy, fill and move for every size, alignment and (for the move) overlap: exactly the requested
  bytes change and nothing outside the objects is touched.
\<close>
theorem rt_mem_block_ops:
  assumes "count \<le> length src" and "count \<le> length dst" and "count \<le> length s"
    and "from + n \<le> length mem" and "to + n \<le> length mem"
  shows "rt_memcpy unaligned dst src count = Inr (overwrite dst 0 (take count src)) \<and>
         rt_memset unaligned s c count = Inr (overwrite s 0 (replicate count (word_of_int c))) \<and>
         rt_memmove mem to from n = Inr (overwrite mem to (take n (drop from mem)))"
  using assms by (simp add: rt_memcpy_spec rt_memset_spec rt_memmove_spec)

theorem rt_mem_block_ops_witness:
  "rt_memcpy False (replicate 5 (0 :: nat)) [1, 2, 3, 4] 3 = Inr [1, 2, 3, 0, 0] \<and>
   rt_memset False (replicate 4 1) 255 3 = Inr [255, 255, 255, 1] \<and>
   rt_memmove ''abcdef'' 2 0 4 = Inr ''ababcd''"
  using rt_mem_block_ops [of 3 "[1, 2, 3, 4]" "replicate 5 (0 :: nat)" "replicate 4 (1 :: 8 word)" 0 4
      "''abcdef''" 2 False 255]
  by (simp add: overwrite_def numeral_eq_Suc)

text \<open>
  The comment on \<open>rt_strnlen\<close> says it looks only at the first \<open>maxlen\<close> characters. The loop
  tests the character before the bound, so on an object of exactly \<open>maxlen\<close> characters without a
  terminator it reads one character behind the object.
\<close>
theorem rt_strnlen_overreads:
  assumes "\<not> terminated s"
  shows "rt_strnlen s (length s) = Inl Out_of_bounds"
  using assms by (induction s) auto

theorem rt_strnlen_overreads_witness:
  "\<not> terminated ''abc'' \<and> rt_strnlen ''abc'' 3 = Inl Out_of_bounds"
  using rt_strnlen_overreads [of "''abc''"] by simp

end
