(* ===== verification/Uart.thy ===== *)
theory Uart
  imports Kservice
begin

text \<open>
  The serial port to the network module (\<^verbatim>\<open>src/cubemx/Src/usart.c\<close>): the receive frame that the
  interrupt handler fills byte by byte and closes on an idle line, the transmit buffer with its DMA
  lock, and the functions the AT layer calls.

  The record \<open>net\<close> is the state shared by the network thread and the interrupt handlers:
  \<open>g_uart_rx_frame\<close> (\<open>rx_buf\<close>, \<open>rx_len\<close>, \<open>rx_finsh\<close>), \<open>g_uart_tx_buf\<close>, the busy state of
  \<open>huart3\<close>, the messages handed to the DMA so far, the interrupt nesting level, the tick and the
  console output. Interleaving is explicit: \<open>irqs\<close> holds, for each future call of a port function or
  delay by the thread, the interrupts that arrive before it; \<open>irq_point\<close> runs them. Every theorem
  holds for every content of \<open>irqs\<close>. Interrupts are not modelled inside one port function.

  \<open>net_inv\<close> is the invariant; it is kept by every handler and function, and under it none of them
  leaves a buffer. The locale \<open>uart_port\<close> is the interface the AT layer relies on.
\<close>

section \<open>State\<close>

datatype irq =
    USART3_irq bool "char option" bool \<comment> \<open>flags ORE, RXNE with its byte, IDLE\<close>
  | DMA1_Stream3_irq

record net =
  rx_buf :: cbuf
  rx_len :: nat
  rx_finsh :: bool
  tx_buf :: cbuf
  tx_busy :: bool
  tx_log :: "string list"
  irq_nest :: nat
  irqs :: "irq list list"
  tick :: nat
  console :: "string list"

abbreviation ATK_IDE01_UART_RX_BUF_SIZE :: nat where
  "ATK_IDE01_UART_RX_BUF_SIZE \<equiv> 2048"

abbreviation ATK_IDE01_UART_TX_BUF_SIZE :: nat where
  "ATK_IDE01_UART_TX_BUF_SIZE \<equiv> 2048"

definition init_net :: "irq list list \<Rightarrow> net" where
  "init_net env = \<lparr>rx_buf = replicate ATK_IDE01_UART_RX_BUF_SIZE NUL, rx_len = 0, rx_finsh = False,
     tx_buf = replicate ATK_IDE01_UART_TX_BUF_SIZE NUL, tx_busy = False, tx_log = [],
     irq_nest = 0, irqs = env, tick = 0, console = []\<rparr>"

definition rt_kprintf :: "string \<Rightarrow> net \<Rightarrow> net" where
  \<comment> \<open>\<open>s\<close>: the text the format expands to; the console buffer has 256 bytes, of which 255 are offered to
    \<open>rt_vsnprintf\<close>, so that a longer text leaves 254 characters and a terminator\<close>
  "rt_kprintf s w = w\<lparr>console := console w @ [if length s < 255 then s else take 254 s @ [NUL]]\<rparr>"

section \<open>Interrupt handlers\<close>

definition rt_interrupt_enter :: "net \<Rightarrow> net" where
  "rt_interrupt_enter w = w\<lparr>irq_nest := irq_nest w + 1\<rparr>"

definition rt_interrupt_leave :: "net \<Rightarrow> net" where
  "rt_interrupt_leave w = w\<lparr>irq_nest := irq_nest w - 1\<rparr>"

definition rx_append :: "char \<Rightarrow> net \<Rightarrow> net res" where
  "rx_append tmp w =
     bnd (store (rx_buf w) (rx_len w) tmp) (\<lambda>b.
     Inr (w\<lparr>rx_buf := b, rx_len := (rx_len w + 1) mod 2 ^ 15\<rparr>))"

definition USART3_IRQHandler :: "bool \<Rightarrow> char option \<Rightarrow> bool \<Rightarrow> net \<Rightarrow> net res" where
  "USART3_IRQHandler ore rxne idle w0 =
     (let w = rt_interrupt_enter w0 in
      bnd (case rxne of
             None \<Rightarrow> Inr w
           | Some tmp \<Rightarrow>
               if rx_len w < ATK_IDE01_UART_RX_BUF_SIZE - 1 then rx_append tmp w
               else rx_append tmp (w\<lparr>rx_len := 0\<rparr>)) (\<lambda>w.
      Inr (rt_interrupt_leave (if idle then w\<lparr>rx_finsh := True\<rparr> else w))))"

definition DMA1_Stream3_IRQHandler :: "net \<Rightarrow> net" where
  "DMA1_Stream3_IRQHandler w = w\<lparr>tx_busy := False\<rparr>"

fun run_irq :: "irq \<Rightarrow> net \<Rightarrow> net res" where
  "run_irq (USART3_irq ore rxne idle) w = USART3_IRQHandler ore rxne idle w"
| "run_irq DMA1_Stream3_irq w = Inr (DMA1_Stream3_IRQHandler w)"

fun run_irqs :: "irq list \<Rightarrow> net \<Rightarrow> net res" where
  "run_irqs [] w = Inr w"
| "run_irqs (e # es) w = bnd (run_irq e w) (run_irqs es)"

definition irq_point :: "net \<Rightarrow> net res" where
  "irq_point w = (case irqs w of [] \<Rightarrow> Inr w | es # rest \<Rightarrow> run_irqs es (w\<lparr>irqs := rest\<rparr>))"

section \<open>Port functions\<close>

definition HAL_UART_Transmit_DMA :: "string \<Rightarrow> net \<Rightarrow> net" where
  \<comment> \<open>the message is dropped while a transfer is running; the callers ignore the status\<close>
  "HAL_UART_Transmit_DMA msg w =
     (if \<not> tx_busy w
      then if msg = [] then w else w\<lparr>tx_busy := True, tx_log := tx_log w @ [msg]\<rparr>
      else w)"

definition atk_ide01_uart_printf :: "string \<Rightarrow> net \<Rightarrow> net res" where
  \<comment> \<open>\<open>s\<close>: the text the format and its arguments expand to\<close>
  "atk_ide01_uart_printf s w0 =
     bnd (irq_point w0) (\<lambda>w.
     bnd (blit (tx_buf w) 0 (s @ [NUL])) (\<lambda>b.
     bnd (rt_strlen b) (\<lambda>len.
     Inr (HAL_UART_Transmit_DMA (take len b) (w\<lparr>tx_buf := b\<rparr>)))))"

definition atk_ide01_uart_rx_restart :: "net \<Rightarrow> net res" where
  "atk_ide01_uart_rx_restart w0 = bnd (irq_point w0) (\<lambda>w. Inr (w\<lparr>rx_len := 0, rx_finsh := False\<rparr>))"

definition atk_ide01_uart_rx_get_frame :: "net \<Rightarrow> (cbuf option \<times> net) res" where
  "atk_ide01_uart_rx_get_frame w0 =
     bnd (irq_point w0) (\<lambda>w.
     if rx_finsh w
     then bnd (store (rx_buf w) (rx_len w) NUL) (\<lambda>b. Inr (Some b, w\<lparr>rx_buf := b\<rparr>))
     else Inr (None, w))"

definition atk_ide01_uart_rx_get_frame_len :: "net \<Rightarrow> (nat \<times> net) res" where
  "atk_ide01_uart_rx_get_frame_len w0 =
     bnd (irq_point w0) (\<lambda>w. if rx_finsh w then Inr (rx_len w, w) else Inr (0, w))"

definition rt_thread_delay :: "nat \<Rightarrow> net \<Rightarrow> net res" where
  \<comment> \<open>the thread sleeps; the interrupts that arrive meanwhile run\<close>
  "rt_thread_delay n w0 = bnd (irq_point w0) (\<lambda>w. Inr (w\<lparr>tick := tick w + n\<rparr>))"

section \<open>Invariant\<close>

definition net_inv :: "net \<Rightarrow> bool" where
  "net_inv w \<longleftrightarrow>
     length (rx_buf w) = ATK_IDE01_UART_RX_BUF_SIZE \<and> rx_len w < ATK_IDE01_UART_RX_BUF_SIZE \<and>
     length (tx_buf w) = ATK_IDE01_UART_TX_BUF_SIZE"

named_theorems uart_defs

declare rt_interrupt_enter_def [uart_defs] rt_interrupt_leave_def [uart_defs] rx_append_def [uart_defs]
  USART3_IRQHandler_def [uart_defs] DMA1_Stream3_IRQHandler_def [uart_defs] net_inv_def [uart_defs]
  HAL_UART_Transmit_DMA_def [uart_defs]

lemma net_inv_init [simp]: "net_inv (init_net env)"
  by (simp add: net_inv_def init_net_def)

lemma init_net_fields [simp]:
  "irqs (init_net env) = env" "tx_busy (init_net env) = False" "tx_log (init_net env) = []"
  "tick (init_net env) = 0" "irq_nest (init_net env) = 0"
  by (simp_all add: init_net_def)

text \<open>Facts about one run of the interrupt handlers: they keep the invariant, never fault, never
  touch the tick or the console, never un-finish a frame and return the nesting level.\<close>

definition irq_step :: "net \<Rightarrow> net \<Rightarrow> bool" where
  "irq_step w w' \<longleftrightarrow> net_inv w' \<and> tick w' = tick w \<and> console w' = console w \<and>
     irq_nest w' = irq_nest w \<and> tx_log w' = tx_log w \<and> tx_buf w' = tx_buf w \<and>
     (rx_finsh w \<longrightarrow> rx_finsh w')"

lemma irq_step_trans: "irq_step w w' \<Longrightarrow> irq_step w' w'' \<Longrightarrow> irq_step w w''"
  by (simp add: irq_step_def)

lemma run_irq_step: "net_inv w \<Longrightarrow> \<exists>w'. run_irq e w = Inr w' \<and> irq_step w w'"
  by (cases e) (auto simp: uart_defs irq_step_def Let_def split: option.splits)

lemma run_irqs_step: "net_inv w \<Longrightarrow> \<exists>w'. run_irqs es w = Inr w' \<and> irq_step w w'"
proof (induction es arbitrary: w)
  case Nil
  then show ?case by (simp add: irq_step_def)
next
  case (Cons e es)
  obtain w1 where w1: "run_irq e w = Inr w1" "irq_step w w1" using run_irq_step [OF Cons.prems] by blast
  then obtain w2 where "run_irqs es w1 = Inr w2" "irq_step w1 w2"
    using Cons.IH [of w1] by (auto simp: irq_step_def)
  then show ?case using w1 irq_step_trans by auto
qed

lemma run_irq_env: "run_irq e w = Inr w' \<Longrightarrow> irqs w' = irqs w"
  by (cases e) (auto simp: uart_defs Let_def mem_Inr split: option.splits if_splits)

lemma run_irqs_env: "run_irqs es w = Inr w' \<Longrightarrow> irqs w' = irqs w"
  by (induction es arbitrary: w) (auto simp: bnd_eq_Inr dest!: run_irq_env)

lemma irq_point_step: "net_inv w \<Longrightarrow> \<exists>w'. irq_point w = Inr w' \<and> irq_step w w'"
proof (cases "irqs w")
  case Nil
  then show "net_inv w \<Longrightarrow> ?thesis" by (simp add: irq_point_def irq_step_def)
next
  case (Cons es rest)
  assume "net_inv w"
  then obtain w' where "run_irqs es (w\<lparr>irqs := rest\<rparr>) = Inr w'" "irq_step (w\<lparr>irqs := rest\<rparr>) w'"
    using run_irqs_step [of "w\<lparr>irqs := rest\<rparr>" es] by (auto simp: net_inv_def)
  then show ?thesis using Cons by (auto simp: irq_point_def irq_step_def)
qed

section \<open>The port interface\<close>

text \<open>
  What the AT layer relies on: the operations run without a fault in every state that satisfies the
  invariant, a frame is there as soon as it is finished and is a terminated string shorter than the
  buffer, and only a delay lets time pass.
\<close>

locale uart_port =
  fixes inv :: "'w \<Rightarrow> bool"
    and time :: "'w \<Rightarrow> nat"
    and fin :: "'w \<Rightarrow> bool"
    and restart :: "'w \<Rightarrow> 'w res"
    and send :: "string \<Rightarrow> 'w \<Rightarrow> 'w res"
    and frame :: "'w \<Rightarrow> (cbuf option \<times> 'w) res"
    and delay :: "nat \<Rightarrow> 'w \<Rightarrow> 'w res"
  assumes restart_ok: "inv w \<Longrightarrow> \<exists>w'. restart w = Inr w' \<and> inv w' \<and> time w' = time w"
    and send_ok: "inv w \<Longrightarrow> length s < 2048 \<Longrightarrow> \<exists>w'. send s w = Inr w' \<and> inv w' \<and> time w' = time w"
    and frame_ok: "inv w \<Longrightarrow> \<exists>r w'. frame w = Inr (r, w') \<and> inv w' \<and> time w' = time w \<and>
      (r = None \<longrightarrow> \<not> fin w) \<and> (\<forall>b. r = Some b \<longrightarrow> terminated b \<and> length b = 2048 \<and> fin w')"
    and delay_ok: "inv w \<Longrightarrow> \<exists>w'. delay n w = Inr w' \<and> inv w' \<and> time w' = time w + n"

lemma restart_net:
  assumes "net_inv w"
  shows "\<exists>w'. atk_ide01_uart_rx_restart w = Inr w' \<and> net_inv w' \<and> tick w' = tick w"
  using irq_point_step [OF assms]
  by (auto simp: atk_ide01_uart_rx_restart_def irq_step_def net_inv_def)

lemma terminated_overwrite:
  "length s < length b \<Longrightarrow> terminated (overwrite b 0 (s @ [NUL]))"
  by (simp add: overwrite_def)

lemma printf_net:
  assumes "net_inv w" and "length s < 2048"
  shows "\<exists>w'. atk_ide01_uart_printf s w = Inr w' \<and> net_inv w' \<and> tick w' = tick w"
proof -
  obtain w1 where w1: "irq_point w = Inr w1" "irq_step w w1" using irq_point_step [OF assms(1)] by blast
  let ?b = "overwrite (tx_buf w1) 0 (s @ [NUL])"
  have len: "length (tx_buf w1) = 2048" using w1(2) by (auto simp: irq_step_def net_inv_def)
  then have "terminated ?b" using assms(2) by (simp add: terminated_overwrite)
  then show ?thesis using w1 assms(2) len
    by (auto simp: atk_ide01_uart_printf_def rt_strlen_cstr HAL_UART_Transmit_DMA_def irq_step_def net_inv_def)
qed

lemma get_frame_net:
  assumes "net_inv w"
  shows "\<exists>r w'. atk_ide01_uart_rx_get_frame w = Inr (r, w') \<and> net_inv w' \<and> tick w' = tick w \<and>
    (r = None \<longrightarrow> \<not> rx_finsh w) \<and> (\<forall>b. r = Some b \<longrightarrow> terminated b \<and> length b = 2048 \<and> rx_finsh w')"
proof -
  obtain w1 where w1: "irq_point w = Inr w1" "irq_step w w1" using irq_point_step [OF assms] by blast
  then have len: "rx_len w1 < length (rx_buf w1)" by (simp add: irq_step_def net_inv_def)
  then have "terminated ((rx_buf w1)[rx_len w1 := NUL])"
    by (auto simp: terminated_def in_set_conv_nth intro!: exI [of _ "rx_len w1"])
  then show ?thesis using w1 len
    by (auto simp: atk_ide01_uart_rx_get_frame_def irq_step_def net_inv_def)
qed

lemma delay_net:
  assumes "net_inv w"
  shows "\<exists>w'. rt_thread_delay n w = Inr w' \<and> net_inv w' \<and> tick w' = tick w + n"
  using irq_point_step [OF assms] by (auto simp: rt_thread_delay_def irq_step_def net_inv_def)

interpretation usart3: uart_port net_inv tick rx_finsh atk_ide01_uart_rx_restart atk_ide01_uart_printf
  atk_ide01_uart_rx_get_frame rt_thread_delay
  by unfold_locales (rule restart_net printf_net get_frame_net delay_net; assumption)+

section \<open>What a frame contains\<close>

definition rx_text :: "net \<Rightarrow> string" where
  "rx_text w = take (rx_len w) (rx_buf w)"

fun rx_irqs :: "string \<Rightarrow> irq list" where
  "rx_irqs [] = [USART3_irq False None True]"
| "rx_irqs (c # cs) = USART3_irq False (Some c) False # rx_irqs cs"

lemma run_irq_byte:
  assumes "net_inv w" and "rx_len w + 1 < ATK_IDE01_UART_RX_BUF_SIZE"
  shows "run_irq (USART3_irq ore (Some c) False) w =
    Inr (w\<lparr>rx_buf := (rx_buf w)[rx_len w := c], rx_len := rx_len w + 1\<rparr>)"
  using assms by (simp add: uart_defs Let_def)

lemma take_Suc_update: "n < length b \<Longrightarrow> take (Suc n) (b[n := c]) = take n b @ [c]"
  by (simp add: take_Suc_conv_app_nth)

lemma run_rx_irqs:
  assumes "net_inv w" and "rx_len w + length s < ATK_IDE01_UART_RX_BUF_SIZE"
  shows "\<exists>w'. run_irqs (rx_irqs s) w = Inr w' \<and> net_inv w' \<and> rx_finsh w' \<and>
           rx_text w' = rx_text w @ s"
  using assms
proof (induction s arbitrary: w)
  case Nil
  then show ?case by (simp add: uart_defs rx_text_def Let_def)
next
  case (Cons c s)
  let ?w = "w\<lparr>rx_buf := (rx_buf w)[rx_len w := c], rx_len := rx_len w + 1\<rparr>"
  have "run_irq (USART3_irq False (Some c) False) w = Inr ?w"
    using Cons.prems by (intro run_irq_byte) auto
  moreover have "rx_text ?w = rx_text w @ [c]"
    using Cons.prems by (simp add: rx_text_def net_inv_def take_Suc_update)
  moreover have "net_inv ?w" using Cons.prems by (simp add: net_inv_def)
  then obtain w' where "run_irqs (rx_irqs s) ?w = Inr w'" "net_inv w'" "rx_finsh w'"
    "rx_text w' = rx_text ?w @ s"
    using Cons.IH [of ?w] Cons.prems by auto
  ultimately show ?case by auto
qed

lemma cstr_update_NUL:
  "n < length b \<Longrightarrow> NUL \<notin> set (take n b) \<Longrightarrow> cstr (b[n := NUL]) = take n b"
  by (simp add: upd_conv_take_nth_drop)

section \<open>Properties\<close>

text \<open>
  C3. From a state that satisfies the invariant, every sequence of USART3 and DMA interrupts runs
  to its end, never writes outside the 2048-byte frame buffer, keeps the invariant (the length stays
  below the buffer size, so the terminator always fits), leaves the interrupt nesting level as
  it was and never takes back a finished frame.
\<close>
theorem uart_irqs_safe:
  assumes "net_inv w"
  shows "\<exists>w'. run_irqs es w = Inr w' \<and> net_inv w' \<and> irq_nest w' = irq_nest w \<and>
           (rx_finsh w \<longrightarrow> rx_finsh w')"
  using run_irqs_step [OF assms, of es] by (auto simp: irq_step_def)

theorem uart_irqs_safe_witness:
  "net_inv (init_net []) \<and>
   (\<exists>w'. run_irqs [USART3_irq True (Some CHR ''a'') True, DMA1_Stream3_irq] (init_net []) = Inr w' \<and>
      net_inv w' \<and> irq_nest w' = 0)"
  using uart_irqs_safe [OF net_inv_init, of "[USART3_irq True (Some CHR ''a'') True, DMA1_Stream3_irq]" "[]"]
    net_inv_init [of "[]"]
  by (auto simp: init_net_def)

text \<open>
  C31. A reply is received intact: after a restart, if the bytes of a text of at most 2047
  characters without NUL arrive one by one, followed by an idle line, then
  \<open>atk_ide01_uart_rx_get_frame\<close> returns a buffer whose C string is exactly that text, and
  \<open>atk_ide01_uart_rx_get_frame_len\<close> its length.
\<close>
theorem uart_frame_intact:
  assumes "net_inv w" and "irqs w = [] # rx_irqs s # [] # rest"
    and "length s < ATK_IDE01_UART_RX_BUF_SIZE" and "NUL \<notin> set s"
  shows "\<exists>w1 b w2 w3. atk_ide01_uart_rx_restart w = Inr w1 \<and>
           atk_ide01_uart_rx_get_frame w1 = Inr (Some b, w2) \<and> cstr b = s \<and>
           atk_ide01_uart_rx_get_frame_len w2 = Inr (length s, w3)"
proof -
  let ?w1 = "w\<lparr>irqs := rx_irqs s # [] # rest, rx_len := 0, rx_finsh := False\<rparr>"
  have r: "atk_ide01_uart_rx_restart w = Inr ?w1"
    using assms(2) by (simp add: atk_ide01_uart_rx_restart_def irq_point_def)
  let ?wi = "?w1\<lparr>irqs := [] # rest\<rparr>"
  have inv: "net_inv ?wi" using assms(1) by (simp add: net_inv_def)
  obtain w' where w': "run_irqs (rx_irqs s) ?wi = Inr w'" "net_inv w'" "rx_finsh w'" "rx_text w' = s"
    using run_rx_irqs [OF inv, of s] assms(3) by (auto simp: rx_text_def)
  have len: "rx_len w' = length s" "rx_len w' < length (rx_buf w')"
    using w'(2) arg_cong [OF w'(4), of length] by (auto simp: rx_text_def net_inv_def)
  have env: "irqs w' = [] # rest" using run_irqs_env [OF w'(1)] by simp
  let ?b = "(rx_buf w')[rx_len w' := NUL]"
  have g: "atk_ide01_uart_rx_get_frame ?w1 = Inr (Some ?b, w'\<lparr>rx_buf := ?b\<rparr>)"
    using w' len by (simp add: atk_ide01_uart_rx_get_frame_def irq_point_def)
  have "cstr ?b = s" using cstr_update_NUL [OF len(2)] w'(4) assms(4) by (simp add: rx_text_def)
  then show ?thesis using r g w'(3) len env
    by (auto simp: atk_ide01_uart_rx_get_frame_len_def irq_point_def)
qed

theorem uart_frame_intact_witness:
  "\<exists>w1 b w2 w3. atk_ide01_uart_rx_restart (init_net [[], rx_irqs ''OK'', []]) = Inr w1 \<and>
     atk_ide01_uart_rx_get_frame w1 = Inr (Some b, w2) \<and> cstr b = ''OK'' \<and>
     atk_ide01_uart_rx_get_frame_len w2 = Inr (2, w3)"
  using uart_frame_intact [of "init_net [[], rx_irqs ''OK'', []]" "''OK''" "[]"] net_inv_init
  by (simp add: init_net_def numeral_2_eq_2)

text \<open>
  A message sent while the previous DMA transfer is still running is silently dropped:
  \<open>atk_ide01_uart_printf\<close> overwrites the transmit buffer, the HAL answers busy and nothing is
  handed to the DMA; when the port is idle the message is transmitted unchanged.
\<close>
theorem uart_printf_tx:
  assumes "net_inv w" and "irqs w = []" and "s \<noteq> []" and "NUL \<notin> set s" and "length s < 2048"
  shows "\<exists>w'. atk_ide01_uart_printf s w = Inr w' \<and> tx_busy w' \<and>
           tx_log w' = (if tx_busy w then tx_log w else tx_log w @ [s])"
proof -
  let ?b = "overwrite (tx_buf w) 0 (s @ [NUL])"
  have b: "?b = s @ NUL # drop (Suc (length s)) (tx_buf w)" by (simp add: overwrite_def)
  have "rt_strlen ?b = Inr (length s)" using assms(4) by (simp add: b rt_strlen_cstr)
  moreover have "take (length s) ?b = s" by (simp add: b)
  moreover have "blit (tx_buf w) 0 (s @ [NUL]) = Inr ?b"
    using assms(1,5) by (simp add: net_inv_def)
  ultimately show ?thesis using assms(2,3)
    by (simp add: atk_ide01_uart_printf_def irq_point_def HAL_UART_Transmit_DMA_def)
qed

theorem uart_printf_tx_witness:
  "\<exists>w'. atk_ide01_uart_printf ''AT'' ((init_net [])\<lparr>tx_busy := True\<rparr>) = Inr w' \<and> tx_busy w' \<and> tx_log w' = []"
  using uart_printf_tx [of "(init_net [])\<lparr>tx_busy := True\<rparr>" "''AT''"]
  by (simp add: init_net_def net_inv_def)

end
