(* ===== verification/Printf.thy ===== *)
theory Printf
  imports Kservice
begin

text \<open>
  Formatted output of the kernel (\<^verbatim>\<open>src/rt-thread/src/kservice.c\<close>): \<open>divide\<close>, \<open>skip_atoi\<close>,
  \<open>print_number\<close>, \<open>rt_vsnprintf\<close>, \<open>rt_snprintf\<close>, \<open>rt_vsprintf\<close>, \<open>rt_sprintf\<close>, as configured (32-bit
  numbers, precision, no alternative form).

  The source writes each character with a guarded store and advances the output pointer in any
  case; \<open>vfmt\<close> is the sequence of characters that goes through these stores, and \<open>rt_vsnprintf\<close>
  is what the guards leave in the buffer. The variable arguments are a list of values.
\<close>

section \<open>Numbers\<close>

record pflags =
  ZEROPAD :: bool
  SIGN :: bool
  PLUS :: bool
  SPACE :: bool
  LEFT :: bool
  SPECIAL :: bool
  LARGE :: bool

definition no_flags :: pflags where
  "no_flags = \<lparr>ZEROPAD = False, SIGN = False, PLUS = False, SPACE = False, LEFT = False,
     SPECIAL = False, LARGE = False\<rparr>"

datatype varg = Va_int "32 word" | Va_str "cbuf option"

definition small_digits :: string where
  "small_digits = ''0123456789abcdef''"

definition large_digits :: string where
  "large_digits = ''0123456789ABCDEF''"

definition divide_base :: "nat \<Rightarrow> nat \<Rightarrow> nat \<times> nat" where
  \<comment> \<open>remainder and quotient; every base other than ten is taken as sixteen\<close>
  "divide_base n base = (if base = 10 then (n mod 10, n div 10) else (n mod 16, n div 16))"

function put_digits :: "string \<Rightarrow> nat \<Rightarrow> nat \<Rightarrow> string" where
  "put_digits digits n base =
     (if n = 0 then []
      else digits ! fst (divide_base n base) # put_digits digits (snd (divide_base n base)) base)"
  by pat_completeness auto
termination
  by (relation "measure (\<lambda>(_, n, _). n)") (auto simp: divide_base_def)

declare put_digits.simps [simp del]

definition print_number :: "32 word \<Rightarrow> nat \<Rightarrow> int \<Rightarrow> int \<Rightarrow> pflags \<Rightarrow> string" where
  "print_number num0 base s precision0 type0 =
     (let digits = (if LARGE type0 then large_digits else small_digits);
          type = (if LEFT type0 then type0\<lparr>ZEROPAD := False\<rparr> else type0);
          c = (if ZEROPAD type then CHR ''0'' else CHR '' '');
          neg = (SIGN type \<and> sint num0 < 0);
          sign = (if neg then ''-'' else if SIGN type \<and> PLUS type then ''+''
                  else if SIGN type \<and> SPACE type then '' '' else []);
          num = (if neg then - num0 else num0);
          tmp = (if num = 0 then ''0'' else put_digits digits (unat num) base);
          i = int (length tmp);
          precision = (if i > precision0 then i else precision0);
          size0 = s - precision;
          (pad1, size1) =
            (if \<not> (ZEROPAD type \<or> LEFT type)
             then (replicate (nat (if sign \<noteq> [] \<and> size0 > 0 then size0 - 1 else size0)) CHR '' '', -1)
             else ([], size0));
          size2 = (if sign \<noteq> [] then size1 - 1 else size1);
          (pad2, size3) = (if \<not> LEFT type then (replicate (nat size2) c, -1) else ([], size2))
      in pad1 @ sign @ pad2 @ replicate (nat (precision - i)) CHR ''0'' @
         (if precision0 \<noteq> 0 then rev tmp else []) @ replicate (nat size3) CHR '' '')"

section \<open>Format directives\<close>

definition isdigit :: "char \<Rightarrow> bool" where
  "isdigit c \<longleftrightarrow> 48 \<le> (of_char c :: nat) \<and> (of_char c :: nat) < 58"

fun skip_atoi :: "int \<Rightarrow> string \<Rightarrow> int \<times> string" where
  "skip_atoi i [] = (i, [])"
| "skip_atoi i (c # s) = (if isdigit c then skip_atoi (i * 10 + of_char c - 48) s else (i, c # s))"

fun get_flags :: "pflags \<Rightarrow> string \<Rightarrow> pflags \<times> string" where
  "get_flags fl [] = (fl, [])"
| "get_flags fl (c # s) =
     (if c = CHR ''-'' then get_flags (fl\<lparr>LEFT := True\<rparr>) s
      else if c = CHR ''+'' then get_flags (fl\<lparr>PLUS := True\<rparr>) s
      else if c = CHR '' '' then get_flags (fl\<lparr>SPACE := True\<rparr>) s
      else if c = CHR ''#'' then get_flags (fl\<lparr>SPECIAL := True\<rparr>) s
      else if c = CHR ''0'' then get_flags (fl\<lparr>ZEROPAD := True\<rparr>) s
      else (fl, c # s))"

fun va_int :: "varg list \<Rightarrow> (32 word \<times> varg list) res" where
  "va_int (Va_int n # args) = Inr (n, args)"
| "va_int _ = Inl Uninitialised"

fun va_str :: "varg list \<Rightarrow> (cbuf option \<times> varg list) res" where
  "va_str (Va_str s # args) = Inr (s, args)"
| "va_str _ = Inl Uninitialised"

definition get_width :: "pflags \<Rightarrow> string \<Rightarrow> varg list \<Rightarrow> (int \<times> pflags \<times> string \<times> varg list) res" where
  "get_width fl fmt args =
     (case fmt of
        [] \<Rightarrow> Inr (-1, fl, fmt, args)
      | c # rest \<Rightarrow>
          if isdigit c then (let (w, fmt) = skip_atoi 0 fmt in Inr (w, fl, fmt, args))
          else if c = CHR ''*''
          then bnd (va_int args) (\<lambda>(n, args).
               if sint n < 0 then Inr (sint (- n), fl\<lparr>LEFT := True\<rparr>, rest, args)
               else Inr (sint n, fl, rest, args))
          else Inr (-1, fl, fmt, args))"

definition get_precision :: "string \<Rightarrow> varg list \<Rightarrow> (int \<times> string \<times> varg list) res" where
  "get_precision fmt args =
     (if fmt \<noteq> [] \<and> hd fmt = CHR ''.''
      then bnd (case tl fmt of
                  [] \<Rightarrow> Inr (-1, tl fmt, args)
                | c # rest \<Rightarrow>
                    if isdigit c then (let (p, fmt) = skip_atoi 0 (tl fmt) in Inr (p, fmt, args))
                    else if c = CHR ''*'' then bnd (va_int args) (\<lambda>(n, args). Inr (sint n, rest, args))
                    else Inr (-1, tl fmt, args)) (\<lambda>(p, fmt, args).
           Inr (if p < 0 then 0 else p, fmt, args))
      else Inr (-1, fmt, args))"

definition get_qualifier :: "string \<Rightarrow> char option \<times> string" where
  "get_qualifier fmt =
     (case fmt of
        c # rest \<Rightarrow> if c = CHR ''h'' \<or> c = CHR ''l'' then (Some c, rest) else (None, fmt)
      | [] \<Rightarrow> (None, fmt))"

definition print_string :: "cbuf option \<Rightarrow> int \<Rightarrow> int \<Rightarrow> bool \<Rightarrow> string res" where
  "print_string s field_width precision left =
     (let s = (case s of None \<Rightarrow> ''(NULL)'' @ [NUL] | Some s \<Rightarrow> s) in
      bnd (rt_strlen s) (\<lambda>len0.
      let len = (if precision > 0 \<and> int len0 > precision then nat precision else len0);
          pad = replicate (nat (field_width - int len)) CHR '' ''
      in Inr ((if \<not> left then pad else []) @ take len s @ (if left then pad else []))))"

definition print_char :: "char \<Rightarrow> int \<Rightarrow> bool \<Rightarrow> string" where
  "print_char c field_width left =
     (let pad = replicate (nat (field_width - 1)) CHR '' '' in
      (if \<not> left then pad else []) @ [c] @ (if left then pad else []))"

definition int_arg :: "char option \<Rightarrow> bool \<Rightarrow> 32 word \<Rightarrow> 32 word" where
  \<comment> \<open>the conversions of the argument by its qualifier; without \<open>h\<close> they keep the 32 bits\<close>
  "int_arg qualifier sgnd n =
     (if qualifier = Some CHR ''h''
      then if sgnd then word_of_int (signed_take_bit 15 (uint n)) else word_of_int (uint n mod 65536)
      else n)"

definition convert :: "char \<Rightarrow> char option \<Rightarrow> int \<Rightarrow> int \<Rightarrow> pflags \<Rightarrow> varg list \<Rightarrow> (string \<times> varg list) res" where
  \<comment> \<open>the switch over the conversion character\<close>
  "convert c qualifier field_width precision flags args =
     (let number = (\<lambda>base flags.
            bnd (va_int args) (\<lambda>(n, args).
            Inr (print_number (int_arg qualifier (SIGN flags) n) base field_width precision flags, args)))
      in if c = CHR ''c''
         then bnd (va_int args) (\<lambda>(n, args).
              Inr (print_char (char_of (unat n mod 256)) field_width (LEFT flags), args))
         else if c = CHR ''s''
         then bnd (va_str args) (\<lambda>(s, args).
              bnd (print_string s field_width precision (LEFT flags)) (\<lambda>t. Inr (t, args)))
         else if c = CHR ''p''
         then bnd (va_int args) (\<lambda>(n, args).
              if field_width = -1
              then Inr (print_number n 16 8 precision (flags\<lparr>ZEROPAD := True\<rparr>), args)
              else Inr (print_number n 16 field_width precision flags, args))
         else if c = CHR ''%'' then Inr (''%'', args)
         else if c = CHR ''o'' then number 8 flags
         else if c = CHR ''X'' then number 16 (flags\<lparr>LARGE := True\<rparr>)
         else if c = CHR ''x'' then number 16 flags
         else if c = CHR ''d'' \<or> c = CHR ''i'' then number 10 (flags\<lparr>SIGN := True\<rparr>)
         else if c = CHR ''u'' then number 10 flags
         else Inr ([CHR ''%'', c], args))"

definition directive :: "string \<Rightarrow> varg list \<Rightarrow> (string \<times> string \<times> varg list) res" where
  \<comment> \<open>one directive, from behind the percent sign: its output, the rest of the format and of the arguments\<close>
  "directive fmt args =
     (let (flags, fmt) = get_flags no_flags fmt in
      bnd (get_width flags fmt args) (\<lambda>(field_width, flags, fmt, args).
      bnd (get_precision fmt args) (\<lambda>(precision, fmt, args).
      let (qualifier, fmt) = get_qualifier fmt in
      case fmt of
        [] \<Rightarrow> Inr (''%'', [], args)
      | c # rest \<Rightarrow>
          bnd (convert c qualifier field_width precision flags args) (\<lambda>(t, args).
          Inr (t, rest, args)))))"

lemma skip_atoi_length: "length (snd (skip_atoi i s)) \<le> length s"
  by (induction i s rule: skip_atoi.induct) auto

lemma get_flags_length: "length (snd (get_flags fl s)) \<le> length s"
  by (induction fl s rule: get_flags.induct) auto

lemma get_width_length: "get_width fl s args = Inr (w, fl', s', args') \<Longrightarrow> length s' \<le> length s"
  using skip_atoi_length [of 0 s]
  by (auto simp: get_width_def bnd_eq_Inr split: list.splits if_splits prod.splits)

lemma get_precision_length: "get_precision s args = Inr (p, s', args') \<Longrightarrow> length s' \<le> length s"
  using skip_atoi_length [of 0 "tl s"] length_tl [of s]
  by (cases s; cases "tl s") (auto simp: get_precision_def bnd_eq_Inr simp del: length_tl
        split: if_splits prod.splits)

lemma get_qualifier_length: "length (snd (get_qualifier s)) \<le> length s"
  by (auto simp: get_qualifier_def split: list.splits)

lemma directive_length:
  assumes "directive fmt args = Inr (t, rest, args')"
  shows "length rest \<le> length fmt"
proof -
  obtain fl f1 where 1: "get_flags no_flags fmt = (fl, f1)" by fastforce
  obtain w fl2 f2 a2 where 2: "get_width fl f1 args = Inr (w, fl2, f2, a2)"
    using assms 1 by (auto simp: directive_def bnd_eq_Inr)
  obtain p f3 a3 where 3: "get_precision f2 a2 = Inr (p, f3, a3)"
    using assms 1 2 by (auto simp: directive_def bnd_eq_Inr)
  obtain q f4 where 4: "get_qualifier f3 = (q, f4)" by fastforce
  have "length f4 \<le> length fmt"
    using get_flags_length [of no_flags fmt] get_width_length [OF 2] get_precision_length [OF 3]
      get_qualifier_length [of f3] 1 4 by simp
  moreover have "length rest \<le> length f4"
    using assms 1 2 3 4
    by (auto simp: directive_def bnd_eq_Inr Let_def split: list.splits if_splits)
  ultimately show ?thesis by simp
qed

section \<open>The formatter\<close>

function vfmt :: "string \<Rightarrow> varg list \<Rightarrow> string res" where
  "vfmt [] args = Inr []"
| "vfmt (c # fmt) args =
     (if c \<noteq> CHR ''%'' then bnd (vfmt fmt args) (\<lambda>t. Inr (c # t))
      else bnd (directive fmt args) (\<lambda>(t, rest, args').
           bnd (vfmt rest args') (\<lambda>u. Inr (t @ u))))"
  by pat_completeness auto
termination
  by (relation "measure (\<lambda>(fmt, _). length fmt)") (auto dest: directive_length)

definition rt_vsnprintf :: "cbuf \<Rightarrow> nat \<Rightarrow> string \<Rightarrow> varg list \<Rightarrow> (nat \<times> cbuf) res" where
  \<comment> \<open>\<open>buf\<close>: the object from the pointer to its end\<close>
  "rt_vsnprintf buf sz fmt args =
     bnd (vfmt fmt args) (\<lambda>t.
     bnd (blit buf 0 (take sz t)) (\<lambda>b.
     bnd (if sz > 0
          then if length t < sz then store b (length t) NUL else store b (sz - 1) NUL
          else Inr b) (\<lambda>b.
     Inr (length t, b))))"

definition rt_snprintf :: "cbuf \<Rightarrow> nat \<Rightarrow> string \<Rightarrow> varg list \<Rightarrow> (nat \<times> cbuf) res" where
  "rt_snprintf buf sz fmt args = rt_vsnprintf buf sz fmt args"

definition rt_vsprintf :: "cbuf \<Rightarrow> string \<Rightarrow> varg list \<Rightarrow> (nat \<times> cbuf) res" where
  \<comment> \<open>the size is the largest of its type: no object reaches it\<close>
  "rt_vsprintf buf format args = rt_vsnprintf buf (2 ^ 32 - 1) format args"

definition rt_sprintf :: "cbuf \<Rightarrow> string \<Rightarrow> varg list \<Rightarrow> (nat \<times> cbuf) res" where
  "rt_sprintf buf format args = rt_vsprintf buf format args"

section \<open>Reading a number back\<close>

text \<open>The C library's \<open>atoi\<close>, which the AT layer applies to decimal replies.\<close>

definition isspace :: "char \<Rightarrow> bool" where
  "isspace c \<longleftrightarrow> c = CHR '' '' \<or> 9 \<le> (of_char c :: nat) \<and> (of_char c :: nat) \<le> 13"

definition atoi :: "string \<Rightarrow> int" where
  "atoi s0 =
     (let s = dropWhile isspace s0 in
      case s of
        [] \<Rightarrow> 0
      | c # r \<Rightarrow>
          if c = CHR ''-'' then - fst (skip_atoi 0 r)
          else if c = CHR ''+'' then fst (skip_atoi 0 r)
          else fst (skip_atoi 0 s))"

section \<open>Reference definitions\<close>

definition digit :: "nat \<Rightarrow> char" where
  "digit d = char_of (48 + d)"

fun dec :: "nat \<Rightarrow> string" where
  "dec n = (if n < 10 then [digit n] else dec (n div 10) @ [digit (n mod 10)])"

declare dec.simps [simp del]

definition sdec :: "int \<Rightarrow> string" where
  "sdec i = (if i < 0 then CHR ''-'' # dec (nat (- i)) else dec (nat i))"

section \<open>Lemmas\<close>

lemma vfmt_plain:
  "CHR ''%'' \<notin> set pre \<Longrightarrow> vfmt (pre @ rest) args = bnd (vfmt rest args) (\<lambda>t. Inr (pre @ t))"
  by (induction pre) (auto simp: bnd_assoc bnd_def split: sum.split)

lemma print_string_plain: "terminated b \<Longrightarrow> print_string (Some b) (-1) (-1) False = Inr (cstr b)"
  by (simp add: print_string_def rt_strlen_cstr take_cstr)

lemma directive_s:
  "terminated b \<Longrightarrow> directive (CHR ''s'' # rest) (Va_str (Some b) # args) = Inr (cstr b, rest, args)"
  by (simp add: directive_def get_width_def get_precision_def get_qualifier_def convert_def isdigit_def
      print_string_plain no_flags_def)

lemma small_digits_nth: "d < 10 \<Longrightarrow> small_digits ! d = digit d"
proof -
  have "\<forall>d\<in>set [0..<10]. small_digits ! d = digit d" by code_simp
  then show "d < 10 \<Longrightarrow> ?thesis" by simp
qed

lemma digit_0: "digit 0 = CHR ''0''"
  by code_simp

lemma put_digits_dec: "0 < n \<Longrightarrow> rev (put_digits small_digits n 10) = dec n"
proof (induction n rule: less_induct)
  case (less n)
  show ?case
  proof (cases "n < 10")
    case True
    then show ?thesis using less.prems
      by (simp add: put_digits.simps [of _ n] put_digits.simps [of _ 0] dec.simps [of n] divide_base_def small_digits_nth)
  next
    case False
    then show ?thesis using less.IH [of "n div 10"]
      by (simp add: put_digits.simps [of _ n] dec.simps [of n] divide_base_def small_digits_nth)
  qed
qed

lemma sint32_cases: "sint (n :: 32 word) = (if uint n < 2147483648 then uint n else uint n - 4294967296)"
proof -
  have b: "0 \<le> uint n" "uint n < 4294967296" using uint_lt2p [of n] by simp_all
  have "sint n = (uint n + 2147483648) mod 4294967296 - 2147483648"
    by (simp add: sint_uint signed_take_bit_eq_take_bit_shift take_bit_eq_mod)
  moreover have "(uint n + 2147483648) mod 4294967296 =
      (if uint n < 2147483648 then uint n + 2147483648 else uint n - 2147483648)"
  proof (cases "uint n < 2147483648")
    case True
    then show ?thesis using b by simp
  next
    case False
    have "(uint n + 2147483648) mod 4294967296 = (uint n - 2147483648 + 4294967296) mod 4294967296"
      by (simp add: algebra_simps)
    also have "\<dots> = uint n - 2147483648" using False b by (simp only: mod_add_self2) simp
    finally show ?thesis using False by simp
  qed
  ultimately show ?thesis by simp
qed

lemma unat_neg32:
  assumes "n \<noteq> 0"
  shows "int (unat (- n :: 32 word)) = 4294967296 - uint n"
proof -
  have b: "uint n < 4294967296" "0 < uint n"
    using uint_lt2p [of n] assms by (auto simp: word_neq_0_conv word_less_def)
  have "uint (- n) = (- uint n) mod 4294967296" by (simp add: uint_word_ariths)
  also have "\<dots> = (- uint n + 4294967296) mod 4294967296" by (simp only: mod_add_self2)
  also have "\<dots> = 4294967296 - uint n" using b by (subst mod_pos_pos_trivial) simp_all
  finally show ?thesis by (simp only: uint_nat)
qed

lemma abs_sint32: "int (unat (if sint n < 0 then - n else n :: 32 word)) = \<bar>sint n\<bar>"
proof (cases "sint n < 0")
  case True
  then have "n \<noteq> 0" by auto
  moreover have "sint n = uint n - 4294967296" using True sint32_cases [of n] by (simp split: if_splits)
  ultimately show ?thesis using True unat_neg32 [of n] by simp
next
  case False
  then have "sint n = uint n" using uint_lt2p [of n] sint32_cases [of n] by (simp split: if_splits)
  then have "\<bar>sint n\<bar> = int (unat n)" using uint_nat [of n] by (metis abs_of_nat)
  then show ?thesis using False by (simp only: if_False)
qed

lemma print_number_decimal:
  "print_number n 10 (-1) (-1) (no_flags\<lparr>SIGN := True\<rparr>) = sdec (sint n)"
proof -
  let ?m = "if sint n < 0 then - n else n"
  have abs: "int (unat ?m) = \<bar>sint n\<bar>"
    by (rule abs_sint32)
  have zero: "?m = 0 \<longleftrightarrow> sint n = 0"
    using abs unat_eq_0 [of ?m] by (metis abs_eq_0 of_nat_eq_0_iff)
  have "(if ?m = 0 then ''0'' else rev (put_digits small_digits (unat ?m) 10)) = dec (nat \<bar>sint n\<bar>)"
  proof (cases "?m = 0")
    case True
    then show ?thesis using zero by (simp add: dec.simps digit_0)
  next
    case False
    then have "0 < unat ?m" by (simp add: unat_gt_0)
    then show ?thesis using False abs put_digits_dec [of "unat ?m"] by (metis nat_int)
  qed
  then show ?thesis
    by (auto simp: print_number_def no_flags_def sdec_def Let_def)
qed

lemma directive_d:
  "directive (CHR ''d'' # rest) (Va_int n # args) = Inr (sdec (sint n), rest, args)"
  by (simp add: directive_def get_width_def get_precision_def get_qualifier_def convert_def isdigit_def
      int_arg_def Let_def print_number_decimal [symmetric] no_flags_def)

lemma digit_facts:
  assumes "d < 10"
  shows "isdigit (digit d)" and "of_char (digit d) = (48 + int d)" and "\<not> isspace (digit d)"
    and "digit d \<noteq> CHR ''-''" and "digit d \<noteq> CHR ''+''" and "digit d \<noteq> NUL"
    and "digit d \<noteq> CHR 0x22"
proof -
  have "\<forall>d\<in>set [0..<10]. isdigit (digit d) \<and> of_char (digit d) = (48 + int d) \<and> \<not> isspace (digit d) \<and>
      digit d \<noteq> CHR ''-'' \<and> digit d \<noteq> CHR ''+'' \<and> digit d \<noteq> NUL \<and> digit d \<noteq> CHR 0x22" by code_simp
  then show "isdigit (digit d)" "of_char (digit d) = (48 + int d)" "\<not> isspace (digit d)"
    "digit d \<noteq> CHR ''-''" "digit d \<noteq> CHR ''+''" "digit d \<noteq> NUL" "digit d \<noteq> CHR 0x22" using assms by auto
qed

lemma skip_atoi_dec:
  "skip_atoi i (dec n @ rest) = skip_atoi (i * 10 ^ length (dec n) + int n) rest"
proof (induction n arbitrary: i rest rule: dec.induct)
  case (1 n)
  show ?case
  proof (cases "n < 10")
    case True
    then show ?thesis by (simp add: dec.simps [of n] digit_facts)
  next
    case False
    have "skip_atoi i (dec n @ rest) =
        skip_atoi ((i * 10 ^ length (dec (n div 10)) + int (n div 10)) * 10 + int (n mod 10)) rest"
      using False 1 [of i "digit (n mod 10) # rest"]
      by (simp add: dec.simps [of n] digit_facts add.assoc)
    moreover have "int (n div 10) * 10 + int (n mod 10) = int n"
      by (metis of_nat_add of_nat_mult div_mult_mod_eq of_nat_numeral)
    then have "(i * 10 ^ length (dec (n div 10)) + int (n div 10)) * 10 + int (n mod 10) =
        i * 10 ^ length (dec n) + int n"
      using False by (simp add: dec.simps [of n] distrib_right add.assoc)
    ultimately show ?thesis by simp
  qed
qed

lemma dec_not_Nil: "dec n \<noteq> []"
  by (simp add: dec.simps [of n])

lemma set_dec: "c \<in> set (dec n) \<Longrightarrow> \<exists>d<10. c = digit d"
proof (induction n rule: dec.induct)
  case (1 n)
  show ?case
  proof (cases "n < 10")
    case True
    then show ?thesis using 1(2) by (simp add: dec.simps [of n] exI [of _ n])
  next
    case False
    then have "c \<in> set (dec (n div 10)) \<or> c = digit (n mod 10)" using 1(2) by (auto simp: dec.simps [of n])
    then show ?thesis
    proof
      assume "c = digit (n mod 10)"
      then show ?thesis by (intro exI [of _ "n mod 10"]) simp
    qed (rule 1(1) [OF False])
  qed
qed

lemma sdec_no_NUL: "NUL \<notin> set (sdec i)"
proof -
  have "NUL \<notin> set (dec n)" for n using set_dec [of NUL n] digit_facts(6) by metis
  then show ?thesis by (simp add: sdec_def)
qed

lemma atoi_sdec: "atoi (sdec i) = i"
proof -
  have skip: "fst (skip_atoi 0 (dec n)) = int n" for n using skip_atoi_dec [of 0 n "[]"] by simp
  show ?thesis
  proof (cases "i < 0")
    case True
    then show ?thesis using skip by (simp add: atoi_def sdec_def isspace_def)
  next
    case False
    obtain c cs where c: "dec (nat i) = c # cs" using dec_not_Nil by (cases "dec (nat i)") auto
    then obtain d where d: "d < 10" "c = digit d" using set_dec [of c "nat i"] by auto
    have "\<not> isspace c" "c \<noteq> CHR ''-''" "c \<noteq> CHR ''+''" using digit_facts [OF d(1)] d(2) by simp_all
    then have "atoi (sdec i) = fst (skip_atoi 0 (dec (nat i)))" using False c
      by (simp add: atoi_def sdec_def del: skip_atoi.simps)
    then show ?thesis using skip [of "nat i"] False by simp
  qed
qed

lemma length_dec_le: "n < 10 ^ Suc k \<Longrightarrow> length (dec n) \<le> Suc k"
proof (induction k arbitrary: n)
  case 0
  then show ?case by (simp add: dec.simps [of n])
next
  case (Suc k)
  then have "n div 10 < 10 ^ Suc k" by simp
  then have "length (dec (n div 10)) \<le> Suc k" by (rule Suc.IH)
  then show ?case by (simp add: dec.simps [of n])
qed

lemma length_sdec32: "length (sdec (sint (n :: 32 word))) \<le> 11"
proof -
  have "\<bar>sint n\<bar> < 10 ^ Suc 9" using sint32_cases [of n] uint_lt2p [of n] by auto
  then have "length (dec (nat \<bar>sint n\<bar>)) \<le> Suc 9" by (intro length_dec_le) simp
  then show ?thesis by (auto simp: sdec_def)
qed

lemma rt_vsnprintf_spec:
  assumes "vfmt fmt args = Inr t" and "0 < sz" and "min (length t) (sz - 1) < length buf"
    and "length t < sz \<or> sz \<le> length buf"
  shows "rt_vsnprintf buf sz fmt args = Inr (length t, overwrite buf 0 (take (sz - 1) t @ [NUL]))"
proof (cases "length t < sz")
  case True
  then have "(overwrite buf 0 t)[length t := NUL] = overwrite buf 0 (t @ [NUL])"
    using assms(3) by (intro nth_equalityI) (auto simp: nth_overwrite nth_list_update nth_append)
  then show ?thesis using True assms by (simp add: rt_vsnprintf_def)
next
  case False
  then have "(overwrite buf 0 (take sz t))[sz - 1 := NUL] = overwrite buf 0 (take (sz - 1) t @ [NUL])"
    using assms(2,4) by (intro nth_equalityI) (auto simp: nth_overwrite nth_list_update nth_append)
  then show ?thesis using False assms by (simp add: rt_vsnprintf_def)
qed

lemma rt_sprintf_spec:
  assumes "vfmt fmt args = Inr t" and "length t < length buf" and "length buf < 2 ^ 32"
  shows "rt_sprintf buf fmt args = Inr (length t, overwrite buf 0 (t @ [NUL]))"
  using rt_vsnprintf_spec [OF assms(1), of "2 ^ 32 - 1" buf] assms(2,3)
  by (simp add: rt_sprintf_def rt_vsprintf_def)

lemma rt_vsnprintf_overflow:
  assumes "vfmt fmt args = Inr t" and "length buf \<le> length t" and "length buf < sz"
  shows "rt_vsnprintf buf sz fmt args = Inl Out_of_bounds"
  using assms by (auto simp: rt_vsnprintf_def blit_def store_def overwrite_def)

lemma rt_sprintf_overflow:
  assumes "vfmt fmt args = Inr t" and "length buf \<le> length t" and "length buf < 2 ^ 32 - 1"
  shows "rt_sprintf buf fmt args = Inl Out_of_bounds"
  unfolding rt_sprintf_def rt_vsprintf_def by (rule rt_vsnprintf_overflow [OF assms])

lemma print_number_base: "print_number n 8 s p fl = print_number n 16 s p fl"
proof -
  have "put_digits ds m 8 = put_digits ds m 16" for ds m
    by (induction m rule: less_induct)
      (simp add: put_digits.simps [of ds _ 8] put_digits.simps [of ds _ 16] divide_base_def)
  then show ?thesis by (simp only: print_number_def)
qed

section \<open>Properties\<close>



text \<open>
  C33. Numbers survive printing and reading: for every 32-bit value, the most negative one included,
  \<open>%d\<close> writes its signed decimal representation, \<open>atoi\<close> reads the same number back, and
  \<open>rt_sprintf\<close> does it in any buffer of at least 12 bytes.
\<close>
theorem rt_sprintf_decimal_roundtrip:
  assumes "12 \<le> length buf" and "length buf < 2 ^ 32"
  shows "\<exists>b. rt_sprintf buf ''%d'' [Va_int n] = Inr (length (sdec (sint n)), b) \<and>
           length b = length buf \<and> atoi (cstr b) = sint n"
proof -
  have t: "vfmt ''%d'' [Va_int n] = Inr (sdec (sint n))" by (simp add: directive_d)
  have "cstr (overwrite buf 0 (sdec (sint n) @ [NUL])) = sdec (sint n)"
    by (simp add: overwrite_def sdec_no_NUL)
  then show ?thesis
    using rt_sprintf_spec [OF t] length_sdec32 [of n] assms atoi_sdec by simp
qed

theorem rt_sprintf_decimal_roundtrip_witness:
  "\<exists>b. rt_sprintf (replicate 12 NUL) ''%d'' [Va_int 0x80000000] = Inr (length (sdec (- 2147483648)), b) \<and>
     length b = 12 \<and> atoi (cstr b) = - 2147483648"
  using rt_sprintf_decimal_roundtrip [of "replicate 12 NUL" "0x80000000"] by (simp add: sint32_cases)

text \<open>
  \<open>%o\<close> does not print octal: the digit loop treats every base other than ten as sixteen, so for
  every value and every field width and precision the output of \<open>%o\<close> is that of \<open>%x\<close>.
\<close>
theorem rt_vsnprintf_octal_is_hex:
  "convert CHR ''o'' qualifier field_width precision flags args =
   convert CHR ''x'' qualifier field_width precision flags args"
  by (simp add: convert_def print_number_base)

end
