(* ===== verification/At_Core.thy ===== *)
theory At_Core
  imports Uart Printf
begin

text \<open>
  The core of the AT layer (first part of \<^verbatim>\<open>src/applications/atk_usart_net/atk_net.c\<close>): sending a
  command and waiting for the acknowledgement (\<open>atk_ide01_send_at_cmd\<close>) and picking the n-th quoted
  parameter out of a reply (\<open>atk_ide01_get_parameter\<close>).

  The index of \<open>atk_ide01_get_parameter\<close> is an 8-bit variable, so its loops run on indices modulo 256
  and need not end. The search for the equals sign visits at most 256 different indices, so 256
  steps decide whether it ends. The parameter scan carries the 8-bit parameter counter and the
  quote flag as well; with a quote in the first 256 characters the counter reaches one after at most
  512 rounds of 256 steps, without one it never changes, so \<open>scan_fuel\<close> steps decide whether it
  ends. Running out of fuel is the fault \<open>Diverges\<close>.
\<close>

section \<open>Return codes\<close>

abbreviation ATK_IDE01_EOK :: nat where "ATK_IDE01_EOK \<equiv> 0"
abbreviation ATK_IDE01_ERROR :: nat where "ATK_IDE01_ERROR \<equiv> 1"
abbreviation ATK_IDE01_ETIMEOUT :: nat where "ATK_IDE01_ETIMEOUT \<equiv> 2"
abbreviation ATK_IDE01_EINVAL :: nat where "ATK_IDE01_EINVAL \<equiv> 3"
abbreviation ATK_IDE01_AT_TIMEOUT :: nat where "ATK_IDE01_AT_TIMEOUT \<equiv> 5000"

section \<open>Sending a command\<close>

fun at_wait :: "('w \<Rightarrow> 'w res) \<Rightarrow> ('w \<Rightarrow> (cbuf option \<times> 'w) res) \<Rightarrow> (nat \<Rightarrow> 'w \<Rightarrow> 'w res) \<Rightarrow>
    cbuf option \<Rightarrow> nat \<Rightarrow> 'w \<Rightarrow> (nat \<times> 'w) res" where
  \<comment> \<open>the polling loop of \<open>atk_ide01_send_at_cmd\<close> over the operations of a port\<close>
  "at_wait restart frame delay ack 0 w = Inr (ATK_IDE01_ETIMEOUT, w)"
| "at_wait restart frame delay ack (Suc timeout) w =
     bnd (frame w) (\<lambda>(ret, w).
     case ret of
       None \<Rightarrow> bnd (delay 1 w) (at_wait restart frame delay ack timeout)
     | Some b \<Rightarrow>
         (case ack of
            None \<Rightarrow> Inr (ATK_IDE01_EOK, w)
          | Some a \<Rightarrow>
              bnd (rt_strstr b a) (\<lambda>p.
              if p \<noteq> None then Inr (ATK_IDE01_EOK, w)
              else bnd (restart w) (\<lambda>w. bnd (delay 1 w) (at_wait restart frame delay ack timeout)))))"

definition atk_ide01_send_at_cmd :: "cbuf \<Rightarrow> cbuf option \<Rightarrow> nat \<Rightarrow> net \<Rightarrow> (nat \<times> net) res" where
  "atk_ide01_send_at_cmd cmd ack timeout w =
     bnd (atk_ide01_uart_rx_restart w) (\<lambda>w.
     bnd (rt_strlen cmd) (\<lambda>n.
     bnd (atk_ide01_uart_printf (take n cmd @ [CHR 0x0D, CHR 0x0A]) w) (\<lambda>w.
     if timeout = 0 then Inr (ATK_IDE01_EOK, w)
     else bnd (at_wait atk_ide01_uart_rx_restart atk_ide01_uart_rx_get_frame rt_thread_delay
                 ack timeout w) (\<lambda>(ret, w).
          Inr (ret, if ret = ATK_IDE01_ETIMEOUT then rt_kprintf (''atk_net line188'' @ [CHR 0x0A]) w else w)))))"

section \<open>Parameters of a reply\<close>

fun find_eq :: "nat \<Rightarrow> cbuf \<Rightarrow> nat \<Rightarrow> nat res" where
  "find_eq 0 src src_index = Inl Diverges"
| "find_eq (Suc fuel) src src_index =
     bnd (fetch src src_index) (\<lambda>c.
     if c \<noteq> NUL \<and> c \<noteq> CHR ''='' then find_eq fuel src ((src_index + 1) mod 256) else Inr src_index)"

fun scan_param :: "nat \<Rightarrow> cbuf \<Rightarrow> bool \<Rightarrow> nat \<Rightarrow> nat \<Rightarrow> bool \<Rightarrow> bool \<Rightarrow> nat option \<Rightarrow>
    (nat option \<times> nat option) res" where
  \<comment> \<open>\<open>flag0\<close>: inside quotes; \<open>flag1\<close>: inside the wanted parameter; \<open>None\<close> for a variable without a value\<close>
  "scan_param 0 src want_len src_index param_num flag0 flag1 pidx = Inl Diverges"
| "scan_param (Suc fuel) src want_len src_index param_num flag0 flag1 pidx =
     bnd (fetch src src_index) (\<lambda>c.
     if c = NUL then Inr (pidx, None)
     else if c = CHR 0x22
     then if \<not> flag0
          then if param_num = 1
               then if \<not> want_len then Inr (Some (src_index + 1), None)
                    else scan_param fuel src want_len ((src_index + 1) mod 256) param_num True True
                           (Some (src_index + 1))
               else scan_param fuel src want_len ((src_index + 1) mod 256) param_num True flag1 pidx
          else if flag1
               then (case pidx of
                       None \<Rightarrow> Inl Uninitialised
                     | Some i \<Rightarrow> Inr (pidx, Some (nat ((int src_index - int i) mod 65536))))
               else scan_param fuel src want_len ((src_index + 1) mod 256)
                      ((param_num + 255) mod 256) False flag1 pidx
     else scan_param fuel src want_len ((src_index + 1) mod 256) param_num flag0 flag1 pidx)"

definition scan_fuel :: nat where
  "scan_fuel = 262144"

definition atk_ide01_get_parameter ::
  "cbuf \<Rightarrow> nat \<Rightarrow> bool \<Rightarrow> (nat \<times> nat option \<times> nat option) res" where
  \<comment> \<open>\<open>want_len\<close>: the pointer \<open>param_len\<close> is not null; results: code, \<open>*param_index\<close>, \<open>*param_len\<close>\<close>
  "atk_ide01_get_parameter src param_num want_len =
     (if param_num = 0 then Inr (ATK_IDE01_EINVAL, None, None)
      else bnd (find_eq 256 src 0) (\<lambda>i.
           bnd (fetch src i) (\<lambda>c.
           if c \<noteq> CHR ''='' then Inr (ATK_IDE01_EINVAL, None, None)
           else bnd (scan_param scan_fuel src want_len i param_num False False None) (\<lambda>(pidx, plen).
                Inr (ATK_IDE01_EOK, pidx, plen)))))"

section \<open>The wait loop, for every port\<close>

definition ack_in :: "cbuf option \<Rightarrow> cbuf \<Rightarrow> bool" where
  "ack_in ack b \<longleftrightarrow> (case ack of None \<Rightarrow> True | Some a \<Rightarrow> sublist (cstr a) (cstr b))"

context uart_port
begin

lemma at_wait_total:
  "inv w \<Longrightarrow> (\<And>a. ack = Some a \<Longrightarrow> terminated a) \<Longrightarrow>
     \<exists>ret w'. at_wait restart frame delay ack n w = Inr (ret, w') \<and> inv w' \<and>
       (ret = ATK_IDE01_EOK \<and> fin w' \<and> time w' < time w + n \<or>
        ret = ATK_IDE01_ETIMEOUT \<and> time w' = time w + n)"
proof (induction n arbitrary: w)
  case 0
  then show ?case by simp
next
  case (Suc n)
  obtain r w1 where f: "frame w = Inr (r, w1)" "inv w1" "time w1 = time w"
    "\<And>b. r = Some b \<Longrightarrow> terminated b" "r \<noteq> None \<longrightarrow> fin w1"
    using frame_ok [OF Suc.prems(1)] by auto
  have later: "\<exists>ret w'. bnd (delay 1 v) (at_wait restart frame delay ack n) = Inr (ret, w') \<and> inv w' \<and>
       (ret = ATK_IDE01_EOK \<and> fin w' \<and> time w' < time w + Suc n \<or>
        ret = ATK_IDE01_ETIMEOUT \<and> time w' = time w + Suc n)"
    if v: "inv v" "time v = time w" for v
  proof -
    obtain v1 where "delay 1 v = Inr v1" "inv v1" "time v1 = time w + 1" using delay_ok [OF v(1)] v(2) by metis
    then show ?thesis using Suc.IH [of v1] Suc.prems(2) by auto
  qed
  show ?case
  proof (cases r)
    case None
    then show ?thesis using f later [OF f(2,3)] by simp
  next
    case (Some b)
    show ?thesis
    proof (cases ack)
      case None
      then show ?thesis using f Some by simp
    next
      case ack: (Some a)
      obtain p where p: "rt_strstr b a = Inr p"
        using rt_strstr_spec [OF f(4) [OF Some] Suc.prems(2) [OF ack]] by blast
      obtain w2 where w2: "restart w1 = Inr w2" "inv w2" "time w2 = time w" using restart_ok [OF f(2)] f(3) by metis
      show ?thesis using f(1-3,5) Some ack p w2(1) later [OF w2(2,3)] by auto
    qed
  qed
qed

lemma at_wait_hit:
  assumes "inv w" and "frame w = Inr (Some b, w')" and "ack_in ack b"
    and "\<And>a. ack = Some a \<Longrightarrow> terminated a"
  shows "at_wait restart frame delay ack (Suc n) w = Inr (ATK_IDE01_EOK, w')"
proof (cases ack)
  case None
  then show ?thesis using assms by simp
next
  case (Some a)
  have "terminated b" using frame_ok [OF assms(1)] assms(2) by auto
  then obtain p where "rt_strstr b a = Inr p" "p \<noteq> None"
    using rt_strstr_spec [of b a] assms(3,4) Some by (auto simp: ack_in_def)
  then show ?thesis using assms(2) Some by auto
qed

end

section \<open>The parameter scan\<close>

lemma find_eq_total:
  "i \<le> k \<Longrightarrow> k < 256 \<Longrightarrow> k < length src \<Longrightarrow> src ! k = NUL \<Longrightarrow> k - i < fuel \<Longrightarrow>
     \<exists>j. find_eq fuel src i = Inr j \<and> i \<le> j \<and> j \<le> k \<and> (src ! j = NUL \<or> src ! j = CHR ''='')"
proof (induction fuel arbitrary: i)
  case (Suc fuel)
  show ?case
  proof (cases "src ! i \<noteq> NUL \<and> src ! i \<noteq> CHR ''=''")
    case True
    then have "i \<noteq> k" using Suc.prems by auto
    then have "i < k" "k - Suc i < fuel" using Suc.prems by auto
    then obtain j where "find_eq fuel src (Suc i) = Inr j" "Suc i \<le> j" "j \<le> k"
      "src ! j = NUL \<or> src ! j = CHR ''=''"
      using Suc.IH [of "Suc i"] Suc.prems by auto
    then show ?thesis using True \<open>i < k\<close> Suc.prems by auto
  next
    case False
    then show ?thesis using Suc.prems by auto
  qed
qed simp

lemma scan_param_total:
  "i \<le> k \<Longrightarrow> k < 256 \<Longrightarrow> k < length src \<Longrightarrow> src ! k = NUL \<Longrightarrow> k - i < fuel \<Longrightarrow>
   (flag1 \<longleftrightarrow> pidx \<noteq> None) \<Longrightarrow> (\<And>p. pidx = Some p \<Longrightarrow> p \<le> i) \<Longrightarrow>
     \<exists>po no. scan_param fuel src want i num flag0 flag1 pidx = Inr (po, no) \<and>
       (\<forall>p. po = Some p \<longrightarrow> p \<le> k) \<and> (\<forall>n. no = Some n \<longrightarrow> (\<exists>p. po = Some p \<and> p + n < k + 1))"
proof (induction fuel arbitrary: i num flag0 flag1 pidx)
  case (Suc fuel)
  show ?case
  proof (cases "src ! i = NUL")
    case True
    then show ?thesis using Suc.prems by fastforce
  next
    case False
    then have i: "i < k" "(i + 1) mod 256 = Suc i" "i < length src"
      "k - Suc i < fuel"
    proof -
      have "i \<noteq> k" using False Suc.prems(4) by blast
      then show "i < k" "(i + 1) mod 256 = Suc i" "i < length src" "k - Suc i < fuel"
        using Suc.prems(1-5) by auto
    qed
    have nxt: "\<exists>po no. scan_param fuel src want (Suc i) n f0 f1 pi = Inr (po, no) \<and>
       (\<forall>p. po = Some p \<longrightarrow> p \<le> k) \<and> (\<forall>n. no = Some n \<longrightarrow> (\<exists>p. po = Some p \<and> p + n < k + 1))"
      if "f1 \<longleftrightarrow> pi \<noteq> None" "\<And>p. pi = Some p \<Longrightarrow> p \<le> Suc i" for n f0 f1 pi
      using Suc.IH [of "Suc i" f1 pi n f0] that i(1,4) Suc.prems(2-4) by simp
    show ?thesis
    proof (cases "src ! i = CHR 0x22")
      case quote: True
      show ?thesis
      proof (cases "flag0 \<and> flag1")
        case True
        then obtain p where "pidx = Some p" "p \<le> i" using Suc.prems(6,7) by auto
        then show ?thesis using True False quote i Suc.prems(2) by (auto simp: zdiff_int_split)
      next
        case F: False
        show ?thesis
          using F False quote i nxt [OF Suc.prems(6)] nxt [of True "Some (Suc i)"] Suc.prems(7)
          by (cases "flag0"; cases "num = 1"; cases want) (auto simp: le_Suc_eq)
      qed
    next
      case other: False
      then show ?thesis using False i nxt [OF Suc.prems(6)] Suc.prems(7) by (simp add: le_Suc_eq)
    qed
  qed
qed simp

lemma get_parameter_total:
  assumes "k < 256" and "k < length src" and "src ! k = NUL"
  shows "\<exists>ret po no. atk_ide01_get_parameter src num want = Inr (ret, po, no) \<and>
    (ret = ATK_IDE01_EOK \<or> ret = ATK_IDE01_EINVAL) \<and>
    (\<forall>n. no = Some n \<longrightarrow> (\<exists>p. po = Some p \<and> p + n < k + 1))"
proof (cases "num = 0")
  case True
  then show ?thesis by (simp add: atk_ide01_get_parameter_def)
next
  case False
  obtain j where j: "find_eq 256 src 0 = Inr j" "j \<le> k"
    using find_eq_total [of 0 k src 256] assms by auto
  have fuel: "k - j < scan_fuel" using assms(1) by (simp add: scan_fuel_def)
  obtain po no where "scan_param scan_fuel src want j num False False None = Inr (po, no)"
    "\<forall>n. no = Some n \<longrightarrow> (\<exists>p. po = Some p \<and> p + n < k + 1)"
    using scan_param_total [of j k src scan_fuel False None want num False] j(2) assms fuel by auto
  then show ?thesis using False j assms(2) by (auto simp: atk_ide01_get_parameter_def)
qed

lemma find_eq_diverges:
  "\<forall>j<256. j < length src \<and> src ! j \<noteq> NUL \<and> src ! j \<noteq> CHR ''='' \<Longrightarrow> i < 256 \<Longrightarrow>
     find_eq fuel src i = Inl Diverges"
  by (induction fuel arbitrary: i) auto

text \<open>The text of a reply: the parameters in double quotes, separated by commas.\<close>

definition quoted :: "string \<Rightarrow> string" where
  "quoted p = CHR 0x22 # p @ [CHR 0x22]"

fun at_params :: "string list \<Rightarrow> string" where
  "at_params [] = []"
| "at_params [p] = quoted p"
| "at_params (p # ps) = quoted p @ CHR '','' # at_params ps"

definition plain :: "string \<Rightarrow> bool" where
  "plain p \<longleftrightarrow> NUL \<notin> set p \<and> CHR 0x22 \<notin> set p"

lemma find_eq_prefix:
  "src = a @ pre @ CHR ''='' # rest \<Longrightarrow> NUL \<notin> set pre \<Longrightarrow> CHR ''='' \<notin> set pre \<Longrightarrow>
   length a + length pre < 256 \<Longrightarrow> length pre < fuel \<Longrightarrow>
     find_eq fuel src (length a) = Inr (length a + length pre)"
proof (induction pre arbitrary: a fuel)
  case Nil
  then show ?case by (cases fuel) auto
next
  case (Cons c pre)
  then obtain n where fuel: "fuel = Suc n" by (cases fuel) auto
  have "find_eq n src (length (a @ [c])) = Inr (length (a @ [c]) + length pre)"
    by (rule Cons.IH) (use Cons.prems fuel in auto)
  then show ?case using Cons.prems fuel by (auto simp: nth_append)
qed

lemma scan_skip:
  "src = a @ s @ rest \<Longrightarrow> plain s \<Longrightarrow> length a + length s < 256 \<Longrightarrow> length s \<le> fuel \<Longrightarrow>
     scan_param fuel src want (length a) num f0 f1 pidx =
     scan_param (fuel - length s) src want (length a + length s) num f0 f1 pidx"
proof (induction s arbitrary: a fuel)
  case Nil
  then show ?case by simp
next
  case (Cons c s)
  then obtain n where fuel: "fuel = Suc n" by (cases fuel) auto
  have "scan_param n src want (length (a @ [c])) num f0 f1 pidx =
      scan_param (n - length s) src want (length (a @ [c]) + length s) num f0 f1 pidx"
    by (rule Cons.IH) (use Cons.prems fuel in \<open>auto simp: plain_def\<close>)
  then show ?case using Cons.prems fuel by (auto simp: plain_def nth_append)
qed

lemma scan_wanted:
  assumes "src = a @ quoted p @ rest" and "plain p" and "length a + length (quoted p) < 256"
    and "length (quoted p) \<le> fuel"
  shows "scan_param fuel src True (length a) 1 False False None =
    Inr (Some (length a + 1), Some (length p))"
proof -
  obtain n where fuel: "fuel = Suc n" "length p < n"
    using assms(4) by (cases fuel) (auto simp: quoted_def)
  obtain m where m: "n - length p = Suc m" using fuel by (cases "n - length p") auto
  have "scan_param n src True (length (a @ [CHR 0x22])) 1 True True (Some (length a + 1)) =
      scan_param (n - length p) src True (length (a @ [CHR 0x22]) + length p) 1 True True (Some (length a + 1))"
    by (rule scan_skip) (use assms fuel in \<open>auto simp: quoted_def\<close>)
  then show ?thesis using assms(1,3) fuel m by (auto simp: quoted_def nth_append)
qed

lemma scan_pass:
  assumes "src = a @ quoted p @ rest" and "plain p" and "length a + length (quoted p) < 256"
    and "length (quoted p) \<le> fuel" and "1 < num" and "num < 256"
  shows "scan_param fuel src True (length a) num False False None =
    scan_param (fuel - length (quoted p)) src True (length a + length (quoted p)) (num - 1) False False None"
proof -
  obtain n where fuel: "fuel = Suc n" "length p < n"
    using assms(4) by (cases fuel) (auto simp: quoted_def)
  obtain m where m: "n - length p = Suc m" using fuel by (cases "n - length p") auto
  have "scan_param n src True (length (a @ [CHR 0x22])) num True False None =
      scan_param (n - length p) src True (length (a @ [CHR 0x22]) + length p) num True False None"
    by (rule scan_skip) (use assms fuel in \<open>auto simp: quoted_def\<close>)
  moreover have "(num + 255) mod 256 = num - 1" using assms(5,6) by (auto simp: mod_if)
  moreover have "n - Suc (length p) = m" using m by simp
  ultimately show ?thesis using assms(1,3,5) fuel m by (auto simp: quoted_def nth_append)
qed

lemma scan_kth:
  "src = a @ at_params ps @ rest \<Longrightarrow> k < length ps \<Longrightarrow> \<forall>p\<in>set ps. plain p \<Longrightarrow>
   length a + length (at_params ps) < 256 \<Longrightarrow> length (at_params ps) \<le> fuel \<Longrightarrow>
     \<exists>i. scan_param fuel src True (length a) (Suc k) False False None = Inr (Some i, Some (length (ps ! k))) \<and>
       take (length (ps ! k)) (drop i src) = ps ! k \<and> i + length (ps ! k) < length src"
proof (induction ps arbitrary: a k fuel rule: at_params.induct)
  case 1
  then show ?case by simp
next
  case (2 p)
  then have "scan_param fuel src True (length a) 1 False False None = Inr (Some (length a + 1), Some (length p))"
    by (intro scan_wanted [of src a p rest]) auto
  then show ?case using 2 by (auto simp: quoted_def)
next
  case (3 p q qs)
  let ?r = "CHR '','' # at_params (q # qs) @ rest"
  have src: "src = a @ quoted p @ ?r" and p: "plain p" using 3 by auto
  have len: "length (at_params (p # q # qs)) = length (quoted p) + Suc (length (at_params (q # qs)))" by simp
  show ?case
  proof (cases k)
    case 0
    then have "scan_param fuel src True (length a) 1 False False None = Inr (Some (length a + 1), Some (length p))"
      using 3(5,6) len by (intro scan_wanted [OF src p]) auto
    then show ?thesis using 0 src by (auto simp: quoted_def)
  next
    case (Suc j)
    let ?b = "a @ quoted p" and ?c = "a @ quoted p @ '',''"
    have "length qs \<le> length (at_params (q # qs))"
    proof (induction qs arbitrary: q)
      case (Cons r rs)
      show ?case using Cons.IH [of r] by (simp add: quoted_def)
    qed simp
    moreover have "2 \<le> length (quoted p)" by (simp add: quoted_def)
    ultimately have "Suc k < 256" using 3(3,5) len by simp
    then have "scan_param fuel src True (length a) (Suc k) False False None =
        scan_param (fuel - length (quoted p)) src True (length a + length (quoted p)) k False False None"
      using scan_pass [OF src p, of fuel "Suc k"] 3(5,6) len Suc by simp
    also have "\<dots> = scan_param (fuel - length (quoted p) - 1) src True (length ?c) k False False None"
      using scan_skip [of src ?b "'',''" "at_params (q # qs) @ rest" "fuel - length (quoted p)"] src 3(5,6) len
      by (simp add: plain_def)
    finally have step: "scan_param fuel src True (length a) (Suc k) False False None =
        scan_param (fuel - length (quoted p) - 1) src True (length ?c) (Suc j) False False None" using Suc by simp
    have "\<exists>i. scan_param (fuel - length (quoted p) - 1) src True (length ?c) (Suc j) False False None =
          Inr (Some i, Some (length ((q # qs) ! j))) \<and>
        take (length ((q # qs) ! j)) (drop i src) = (q # qs) ! j \<and> i + length ((q # qs) ! j) < length src"
      by (rule "3.IH") (use src 3 len Suc in auto)
    then show ?thesis using step Suc by simp
  qed
qed

text \<open>A reply with its parameters: some text, an equals sign, the quoted parameters, the rest.\<close>

definition at_reply :: "string \<Rightarrow> string list \<Rightarrow> string \<Rightarrow> string" where
  "at_reply pre ps rest = pre @ CHR ''='' # at_params ps @ rest"

lemma get_parameter_kth:
  assumes "src = at_reply pre ps rest @ tail" and "k < length ps" and "\<forall>p\<in>set ps. plain p"
    and "NUL \<notin> set pre" and "CHR ''='' \<notin> set pre" and "length pre + length (at_params ps) < 255"
  shows "\<exists>i. atk_ide01_get_parameter src (Suc k) True = Inr (ATK_IDE01_EOK, Some i, Some (length (ps ! k))) \<and>
    take (length (ps ! k)) (drop i src) = ps ! k \<and> i + length (ps ! k) < length src"
proof -
  let ?a = "pre @ ''=''"
  have src: "src = ?a @ at_params ps @ rest @ tail" using assms(1) by (simp add: at_reply_def)
  have eq: "find_eq 256 src 0 = Inr (length pre)"
    using find_eq_prefix [of src "[]" pre "at_params ps @ rest @ tail" 256] src assms(4-6) by simp
  have "src = pre @ ''='' @ at_params ps @ rest @ tail" using src by simp
  then have skip: "scan_param scan_fuel src True (length pre) (Suc k) False False None =
      scan_param (scan_fuel - 1) src True (length ?a) (Suc k) False False None"
    using scan_skip [of src pre "''=''" "at_params ps @ rest @ tail" scan_fuel] assms(6)
    by (simp add: plain_def scan_fuel_def)
  have fuel: "length (at_params ps) \<le> scan_fuel - 1" using assms(6) by (simp add: scan_fuel_def)
  obtain i where "scan_param (scan_fuel - 1) src True (length ?a) (Suc k) False False None =
        Inr (Some i, Some (length (ps ! k)))"
      "take (length (ps ! k)) (drop i src) = ps ! k" "i + length (ps ! k) < length src"
    using scan_kth [OF src assms(2,3) _ fuel] assms(6) by auto
  then show ?thesis using eq skip src by (simp add: atk_ide01_get_parameter_def nth_append)
qed

lemma get_parameter_none:
  assumes "plain (pre @ CHR ''='' # rest)" and "CHR ''='' \<notin> set pre" and "length pre + length rest < 255"
    and "0 < num"
  shows "atk_ide01_get_parameter (pre @ CHR ''='' # rest @ NUL # tail) num True = Inr (ATK_IDE01_EOK, None, None)"
proof -
  let ?src = "pre @ CHR ''='' # rest @ NUL # tail" and ?s = "CHR ''='' # rest"
  have eq: "find_eq 256 ?src 0 = Inr (length pre)"
    using find_eq_prefix [of ?src "[]" pre "rest @ NUL # tail" 256] assms by (simp add: plain_def)
  have fuel: "length ?s < scan_fuel" using assms(3) by (simp add: scan_fuel_def)
  have "scan_param scan_fuel ?src True (length pre) num False False None =
      scan_param (scan_fuel - length ?s) ?src True (length pre + length ?s) num False False None"
    by (rule scan_skip) (use assms fuel in \<open>auto simp: plain_def\<close>)
  moreover obtain n where "scan_fuel - length ?s = Suc n" using fuel by (cases "scan_fuel - length ?s") auto
  moreover have "?src ! (length pre + length ?s) = NUL" by (simp add: nth_append)
  ultimately have "scan_param scan_fuel ?src True (length pre) num False False None = Inr (None, None)"
    by simp
  then show ?thesis using eq assms(4) by (simp add: atk_ide01_get_parameter_def)
qed

lemma at_params_no_NUL: "\<forall>p\<in>set ps. plain p \<Longrightarrow> NUL \<notin> set (at_params ps)"
  by (induction ps rule: at_params.induct) (auto simp: quoted_def plain_def)

text \<open>The replies the parameter functions handle: terminated by a NUL only, acknowledged, the parameter
  list within the reach of the 8-bit index, and no longer than the receive buffer.\<close>

definition at_reply_ok :: "string \<Rightarrow> string list \<Rightarrow> string \<Rightarrow> bool" where
  "at_reply_ok pre ps rest \<longleftrightarrow>
     list_all plain ps \<and> NUL \<notin> set (pre @ rest) \<and> CHR ''='' \<notin> set pre \<and>
     length pre + length (at_params ps) < 255 \<and> length (at_reply pre ps rest) < ATK_IDE01_UART_RX_BUF_SIZE \<and>
     sublist ''OK'' (at_reply pre ps rest)"

lemma at_reply_no_NUL: "at_reply_ok pre ps rest \<Longrightarrow> NUL \<notin> set (at_reply pre ps rest)"
  using at_params_no_NUL [of ps] by (auto simp: at_reply_ok_def at_reply_def list_all_iff)

section \<open>Commands on the port\<close>

lemma send_at_cmd_total:
  assumes "net_inv w" and "terminated cmd" and "length (cstr cmd) < 2046"
    and "\<And>a. ack = Some a \<Longrightarrow> terminated a"
  shows "\<exists>ret w'. atk_ide01_send_at_cmd cmd ack timeout w = Inr (ret, w') \<and> net_inv w' \<and>
     (ret = ATK_IDE01_EOK \<and> (0 < timeout \<longrightarrow> rx_finsh w') \<and> tick w' \<le> tick w + timeout \<or>
      ret = ATK_IDE01_ETIMEOUT \<and> tick w' = tick w + timeout)"
proof -
  obtain w1 where w1: "atk_ide01_uart_rx_restart w = Inr w1" "net_inv w1" "tick w1 = tick w"
    using restart_net [OF assms(1)] by blast
  obtain w2 where w2: "atk_ide01_uart_printf (cstr cmd @ [CHR 0x0D, CHR 0x0A]) w1 = Inr w2"
    "net_inv w2" "tick w2 = tick w"
    using printf_net [OF w1(2), of "cstr cmd @ [CHR 0x0D, CHR 0x0A]"] assms(3) w1(3) by auto
  obtain ret w3 where w3: "at_wait atk_ide01_uart_rx_restart atk_ide01_uart_rx_get_frame rt_thread_delay
      ack timeout w2 = Inr (ret, w3)" "net_inv w3"
    "ret = ATK_IDE01_EOK \<and> rx_finsh w3 \<and> tick w3 < tick w + timeout \<or> ret = ATK_IDE01_ETIMEOUT \<and> tick w3 = tick w + timeout"
    using usart3.at_wait_total [OF w2(2), of ack timeout] assms(4) w2(3) by auto
  show ?thesis using w1 w2 w3 assms(2)
    by (auto simp: atk_ide01_send_at_cmd_def rt_strlen_cstr take_cstr rt_kprintf_def net_inv_def)
qed

lemma printf_idle:
  assumes "net_inv w" and "irqs w = [] # rest" and "length s < 2048" and "NUL \<notin> set s" and "s \<noteq> []"
  shows "\<exists>w'. atk_ide01_uart_printf s w = Inr w' \<and> net_inv w' \<and> irqs w' = rest \<and> rx_len w' = rx_len w \<and>
     tx_log w' = (if tx_busy w then tx_log w else tx_log w @ [s])"
proof -
  let ?b = "overwrite (tx_buf w) 0 (s @ [NUL])"
  have len: "length (tx_buf w) = 2048" using assms(1) by (simp add: net_inv_def)
  then have "terminated ?b" "length ?b = 2048" using assms(3) by (simp_all add: terminated_overwrite)
  moreover have "cstr ?b = s" "take (length s) ?b = s" using assms(4) by (simp_all add: overwrite_def)
  ultimately show ?thesis using assms len
    by (auto simp: atk_ide01_uart_printf_def irq_point_def rt_strlen_cstr HAL_UART_Transmit_DMA_def net_inv_def)
qed

lemma get_frame_after:
  assumes "net_inv w" and "irqs w = rx_irqs s # rest" and "rx_len w = 0" and "length s < 2048" and "NUL \<notin> set s"
  shows "\<exists>b w'. atk_ide01_uart_rx_get_frame w = Inr (Some b, w') \<and> net_inv w' \<and> irqs w' = rest \<and>
     rx_finsh w' \<and> rx_len w' = length s \<and> rx_buf w' = b \<and> cstr b = s \<and> tx_log w' = tx_log w"
proof -
  have inv: "net_inv (w\<lparr>irqs := rest\<rparr>)" using assms(1) by (simp add: net_inv_def)
  obtain v where v: "run_irqs (rx_irqs s) (w\<lparr>irqs := rest\<rparr>) = Inr v" "net_inv v" "rx_finsh v" "rx_text v = s"
    using run_rx_irqs [OF inv, of s] assms(3,4) by (auto simp: rx_text_def)
  have log: "tx_log v = tx_log w" using run_irqs_step [OF inv, of "rx_irqs s"] v(1) by (auto simp: irq_step_def)
  have len: "rx_len v = length s" "rx_len v < length (rx_buf v)" "length (rx_buf v) = 2048"
    using v(2) arg_cong [OF v(4), of length] by (auto simp: rx_text_def net_inv_def)
  let ?b = "(rx_buf v)[rx_len v := NUL]"
  have "cstr ?b = s" using cstr_update_NUL [OF len(2)] v(4) assms(5) by (simp add: rx_text_def)
  then show ?thesis using v len log run_irqs_env [OF v(1)] assms(2)
    by (auto simp: atk_ide01_uart_rx_get_frame_def irq_point_def net_inv_def)
qed

lemma send_at_cmd_reply:
  assumes "net_inv w" and "irqs w = [] # [] # rx_irqs reply # rest" and "terminated cmd"
    and "length (cstr cmd) < 2046" and "terminated ack" and "sublist (cstr ack) reply"
    and "length reply < 2048" and "NUL \<notin> set reply" and "0 < timeout"
  shows "\<exists>w'. atk_ide01_send_at_cmd cmd (Some ack) timeout w = Inr (ATK_IDE01_EOK, w') \<and> net_inv w' \<and>
     irqs w' = rest \<and> rx_finsh w' \<and> rx_len w' = length reply \<and> cstr (rx_buf w') = reply \<and>
     tx_log w' = (if tx_busy w then tx_log w else tx_log w @ [cstr cmd @ [CHR 0x0D, CHR 0x0A]])"
proof -
  let ?w1 = "w\<lparr>irqs := [] # rx_irqs reply # rest, rx_len := 0, rx_finsh := False\<rparr>"
  have r: "atk_ide01_uart_rx_restart w = Inr ?w1" and inv: "net_inv ?w1"
    using assms(1,2) by (simp_all add: atk_ide01_uart_rx_restart_def irq_point_def net_inv_def)
  obtain w2 where w2: "atk_ide01_uart_printf (cstr cmd @ [CHR 0x0D, CHR 0x0A]) ?w1 = Inr w2" "net_inv w2"
    "irqs w2 = rx_irqs reply # rest" "rx_len w2 = 0"
    "tx_log w2 = (if tx_busy w then tx_log w else tx_log w @ [cstr cmd @ [CHR 0x0D, CHR 0x0A]])"
    using printf_idle [OF inv, of "rx_irqs reply # rest" "cstr cmd @ [CHR 0x0D, CHR 0x0A]"] assms(4) by auto
  obtain b w3 where w3: "atk_ide01_uart_rx_get_frame w2 = Inr (Some b, w3)" "net_inv w3" "irqs w3 = rest"
    "rx_finsh w3" "rx_len w3 = length reply" "rx_buf w3 = b" "cstr b = reply" "tx_log w3 = tx_log w2"
    using get_frame_after [OF w2(2-4) assms(7,8)] by blast
  obtain n where n: "timeout = Suc n" using assms(9) by (cases timeout) auto
  have "at_wait atk_ide01_uart_rx_restart atk_ide01_uart_rx_get_frame rt_thread_delay (Some ack) timeout w2 =
      Inr (ATK_IDE01_EOK, w3)"
    unfolding n by (rule usart3.at_wait_hit [OF w2(2) w3(1)]) (use assms(5,6) w3(7) in \<open>simp_all add: ack_in_def\<close>)
  then show ?thesis using r w2(1,5) w3 assms(3,9)
    by (simp add: atk_ide01_send_at_cmd_def rt_strlen_cstr take_cstr)
qed

section \<open>Properties\<close>

text \<open>
  C27. Sending an AT command always returns, whatever interrupts arrive meanwhile: for a terminated
  command that fits the transmit buffer, the result is success or timeout, a timeout is reported
  after exactly the given number of ticks and a success never later, and the state of the port stays
  consistent.
\<close>
theorem send_at_cmd_returns:
  assumes "net_inv w" and "terminated cmd" and "length (cstr cmd) < 2046" and "terminated ack"
  shows "\<exists>ret w'. atk_ide01_send_at_cmd cmd (Some ack) timeout w = Inr (ret, w') \<and> net_inv w' \<and>
     (ret = ATK_IDE01_EOK \<and> tick w' \<le> tick w + timeout \<or>
      ret = ATK_IDE01_ETIMEOUT \<and> tick w' = tick w + timeout)"
  using send_at_cmd_total [OF assms(1-3), of "Some ack" timeout] assms(4) by auto

theorem send_at_cmd_returns_witness:
  "\<exists>ret w'. atk_ide01_send_at_cmd (''AT'' @ [NUL]) (Some (''OK'' @ [NUL])) 5000 (init_net [[], rx_irqs ''ERR'']) =
       Inr (ret, w') \<and> net_inv w' \<and>
     (ret = ATK_IDE01_EOK \<and> tick w' \<le> 5000 \<or> ret = ATK_IDE01_ETIMEOUT \<and> tick w' = 5000)"
  using send_at_cmd_returns [OF net_inv_init, of "''AT'' @ [NUL]" "''OK'' @ [NUL]" 5000 "[[], rx_irqs ''ERR'']"]
  by (simp add: init_net_def del: rx_irqs.simps)

text \<open>
  C1. Round trip of the parameter syntax: if a reply consists of some text, an equals sign and a
  comma-separated list of quoted parameters that ends within the first 255 characters,
  then asking for any parameter finds exactly the characters of that parameter, whatever follows in
  the receive buffer.
\<close>
theorem get_parameter_roundtrip:
  assumes "k < length ps" and "\<forall>p\<in>set ps. plain p"
    and "NUL \<notin> set pre" and "CHR ''='' \<notin> set pre" and "length pre + length (at_params ps) < 255"
  shows "\<exists>i. atk_ide01_get_parameter (at_reply pre ps rest @ tail) (Suc k) True =
       Inr (ATK_IDE01_EOK, Some i, Some (length (ps ! k))) \<and>
     take (length (ps ! k)) (drop i (at_reply pre ps rest @ tail)) = ps ! k"
  using get_parameter_kth [OF refl assms] by blast

theorem get_parameter_roundtrip_witness:
  "\<exists>i. atk_ide01_get_parameter (at_reply ''+UART'' [''115200'', ''1''] ''OK'' @ [NUL]) 2 True =
       Inr (ATK_IDE01_EOK, Some i, Some 1) \<and>
     take 1 (drop i (at_reply ''+UART'' [''115200'', ''1''] ''OK'' @ [NUL])) = ''1''"
  using get_parameter_roundtrip [of 1 "[''115200'', ''1'']" "''+UART''" "''OK''" "[NUL]"]
  by (simp add: plain_def quoted_def numeral_2_eq_2)

text \<open>
  A missing parameter is reported as found: if the reply has an equals sign and no quote before
  its terminator, the function returns success but has assigned neither the index nor the length.
\<close>
theorem get_parameter_missing:
  assumes "plain (pre @ CHR ''='' # rest)" and "CHR ''='' \<notin> set pre" and "length pre + length rest < 255"
    and "0 < num"
  shows "atk_ide01_get_parameter (pre @ CHR ''='' # rest @ NUL # tail) num True = Inr (ATK_IDE01_EOK, None, None)"
  using assms by (rule get_parameter_none)

theorem get_parameter_missing_witness:
  "atk_ide01_get_parameter (''+V=OK'' @ [NUL]) 1 True = Inr (ATK_IDE01_EOK, None, None)"
  using get_parameter_missing [of "''+V''" "''OK''" 1 "[]"] by (simp add: plain_def)

text \<open>
  With a terminator among the first 256 characters the function always returns, with success or
  an invalid-argument code, and the parameter it reports lies before that terminator.
\<close>
theorem get_parameter_returns:
  assumes "k < 256" and "k < length src" and "src ! k = NUL"
  shows "\<exists>ret po no. atk_ide01_get_parameter src num want = Inr (ret, po, no) \<and>
    (ret = ATK_IDE01_EOK \<or> ret = ATK_IDE01_EINVAL) \<and>
    (\<forall>n. no = Some n \<longrightarrow> (\<exists>p. po = Some p \<and> p + n \<le> k))"
  using get_parameter_total [OF assms, of num want] by (auto simp: less_Suc_eq_le)

theorem get_parameter_returns_witness:
  "\<exists>ret po no. atk_ide01_get_parameter [CHR ''='', CHR 0x22, NUL] 1 True = Inr (ret, po, no) \<and>
    (ret = ATK_IDE01_EOK \<or> ret = ATK_IDE01_EINVAL) \<and>
    (\<forall>n. no = Some n \<longrightarrow> (\<exists>p. po = Some p \<and> p + n \<le> 2))"
  using get_parameter_returns [of 2 "[CHR ''='', CHR 0x22, NUL]" 1 True] by simp

text \<open>
  The search for the equals sign hangs on long replies: its index is an 8-bit variable, so a
  reply with neither an equals sign nor a terminator in its first 256 characters is scanned for ever,
  whatever number of steps is allowed.
\<close>
theorem get_parameter_hangs:
  assumes "256 \<le> length src" and "\<forall>j<256. src ! j \<noteq> NUL \<and> src ! j \<noteq> CHR ''=''" and "0 < num"
  shows "atk_ide01_get_parameter src num want = Inl Diverges \<and> find_eq fuel src 0 = Inl Diverges"
proof -
  have "\<forall>j<256. j < length src \<and> src ! j \<noteq> NUL \<and> src ! j \<noteq> CHR ''=''" using assms(1,2) by auto
  then show ?thesis using find_eq_diverges [of src 0] assms(3) by (simp add: atk_ide01_get_parameter_def)
qed

theorem get_parameter_hangs_witness:
  "atk_ide01_get_parameter (replicate 300 CHR ''x'' @ [NUL]) 1 True = Inl Diverges"
  using get_parameter_hangs [of "replicate 300 CHR ''x'' @ [NUL]" 1 True 0] by (simp add: nth_append)

end
