(* ===== verification/Atk_Net.thy ===== *)
theory Atk_Net
  imports At_Core
begin

text \<open>
  The driver of the ATK-IDE01 module (\<^verbatim>\<open>src/applications/atk_usart_net/atk_net.c\<close>), on top of
  \<open>At_Core\<close>: one definition per function of the driver.

  An out-parameter of character type is \<open>cbuf option\<close>: \<open>None\<close> is the null pointer, \<open>Some dst\<close> the
  object it points to, and the result carries the object afterwards. An out-parameter of another type
  is a flag (not null) and the value written, if any. A setter takes \<open>None\<close> for a value outside the
  enumeration, which runs into the default branch of its switch. Local arrays are
  \<open>local_array n\<close>: their first content is never read.

  Four patterns that the driver spells out in each function are shared here: \<open>at_command\<close> (format a
  command into a local array, send it, wait for OK), \<open>at_query\<close> (the same, then fetch the frame),
  \<open>copy_parameter\<close> (locate a parameter, copy and terminate it) and \<open>strcmp_switch\<close> (a chain of
  string comparisons).
\<close>

section \<open>Enumerations\<close>

datatype atk_ide01_ethmod_t =
    ATK_IDE01_ETHMOD_UDP_CLIENT | ATK_IDE01_ETHMOD_UDP_SERVER | ATK_IDE01_ETHMOD_TCP_CLIENT
  | ATK_IDE01_ETHMOD_TCP_SERVER | ATK_IDE01_ETHMOD_TCP_CLOUD | ATK_IDE01_ETHMOD_UDP_MULTICAST

datatype atk_ide01_echo_t = ATK_IDE01_ECHO_ON | ATK_IDE01_ECHO_OFF

datatype atk_ide01_dhcp_t = ATK_IDE01_DHCP_ON | ATK_IDE01_DHCP_OFF

datatype atk_ide01_uart_baudrate_t =
    ATK_IDE01_UART_BAUDRATE_2400 | ATK_IDE01_UART_BAUDRATE_4800 | ATK_IDE01_UART_BAUDRATE_9600
  | ATK_IDE01_UART_BAUDRATE_14400 | ATK_IDE01_UART_BAUDRATE_19200 | ATK_IDE01_UART_BAUDRATE_38400
  | ATK_IDE01_UART_BAUDRATE_43000 | ATK_IDE01_UART_BAUDRATE_57600 | ATK_IDE01_UART_BAUDRATE_76800
  | ATK_IDE01_UART_BAUDRATE_115200 | ATK_IDE01_UART_BAUDRATE_128000 | ATK_IDE01_UART_BAUDRATE_230400
  | ATK_IDE01_UART_BAUDRATE_256000 | ATK_IDE01_UART_BAUDRATE_460800 | ATK_IDE01_UART_BAUDRATE_921600

datatype atk_ide01_uart_stop_t = ATK_IDE01_UART_STOP_1 | ATK_IDE01_UART_STOP_2

datatype atk_ide01_uart_data_t = ATK_IDE01_UART_DATA_8

datatype atk_ide01_uart_parity_t =
  ATK_IDE01_UART_PARITY_NONE | ATK_IDE01_UART_PARITY_EVEN | ATK_IDE01_UART_PARITY_ODD

datatype atk_ide01_cloudlink_t = ATK_IDE01_CLOUDLINK_ON | ATK_IDE01_CLOUDLINK_OFF

datatype atk_ide01_netlksta_t = ATK_IDE01_NETLKSTA_ON | ATK_IDE01_NETLKSTA_OFF

section \<open>Shared patterns\<close>

definition local_array :: "nat \<Rightarrow> cbuf" where
  "local_array n = replicate n CHR 0xAA"

definition OK_str :: cbuf where
  "OK_str = ''OK'' @ [NUL]"

definition kprintln :: "string \<Rightarrow> net \<Rightarrow> net" where
  "kprintln s w = rt_kprintf (s @ [CHR 0x0A]) w"

definition at_command :: "nat \<Rightarrow> string \<Rightarrow> varg list \<Rightarrow> net \<Rightarrow> (nat \<times> net) res" where
  \<comment> \<open>\<open>n\<close>: the size of the local array \<open>cmd\<close>\<close>
  "at_command n fmt args w =
     bnd (rt_sprintf (local_array n) fmt args) (\<lambda>(_, cmd).
     bnd (atk_ide01_send_at_cmd cmd (Some OK_str) ATK_IDE01_AT_TIMEOUT w) (\<lambda>(ret, w).
     Inr (if ret \<noteq> ATK_IDE01_EOK then ATK_IDE01_ERROR else ATK_IDE01_EOK, w)))"

definition at_query :: "nat \<Rightarrow> string \<Rightarrow> varg list \<Rightarrow> net \<Rightarrow> (cbuf option \<times> net) res" where
  \<comment> \<open>\<open>None\<close>: the command was not acknowledged; the frame is read without a check for null\<close>
  "at_query n fmt args w =
     bnd (at_command n fmt args w) (\<lambda>(ret, w).
     if ret \<noteq> ATK_IDE01_EOK then Inr (None, w)
     else bnd (atk_ide01_uart_rx_get_frame w) (\<lambda>(buf, w).
          case buf of None \<Rightarrow> Inl Null_deref | Some b \<Rightarrow> Inr (Some b, w)))"

definition copy_parameter :: "cbuf \<Rightarrow> nat \<Rightarrow> cbuf \<Rightarrow> (nat \<times> cbuf) res" where
  \<comment> \<open>the alignment flag of \<open>rt_memcpy\<close> does not change its effect\<close>
  "copy_parameter buf k dst =
     bnd (atk_ide01_get_parameter buf k True) (\<lambda>(ret, param_index, param_len).
     if ret \<noteq> ATK_IDE01_EOK then Inr (ATK_IDE01_ERROR, dst)
     else (case (param_index, param_len) of
             (Some i, Some n) \<Rightarrow>
               bnd (rt_memcpy True dst (drop i buf) n) (\<lambda>d.
               bnd (store d n NUL) (\<lambda>d. Inr (ATK_IDE01_EOK, d)))
           | _ \<Rightarrow> Inl Uninitialised))"

fun strcmp_switch :: "cbuf \<Rightarrow> (string \<times> 'e) list \<Rightarrow> 'e option res" where
  "strcmp_switch buf [] = Inr None"
| "strcmp_switch buf ((s, e) # cs) =
     bnd (rt_strcmp buf (s @ [NUL])) (\<lambda>r. if r = 0 then Inr (Some e) else strcmp_switch buf cs)"

definition at_get_string :: "nat \<Rightarrow> string \<Rightarrow> cbuf option \<Rightarrow> net \<Rightarrow> (nat \<times> cbuf option \<times> net) res" where
  \<comment> \<open>the getters of a text: the first parameter of the reply, copied to the caller\<close>
  "at_get_string n cmd ptr w =
     (case ptr of
        None \<Rightarrow> Inr (ATK_IDE01_EINVAL, None, w)
      | Some dst \<Rightarrow>
          bnd (at_query n cmd [] w) (\<lambda>(fr, w).
          case fr of
            None \<Rightarrow> Inr (ATK_IDE01_ERROR, Some dst, w)
          | Some buf \<Rightarrow> bnd (copy_parameter buf 1 dst) (\<lambda>(ret, d). Inr (ret, Some d, w))))"

definition at_get_enum ::
  "nat \<Rightarrow> string \<Rightarrow> nat \<Rightarrow> (string \<times> 'e) list \<Rightarrow> bool \<Rightarrow> net \<Rightarrow> (nat \<times> 'e option \<times> net) res" where
  \<comment> \<open>the getters of a state: the first parameter in a local array of size \<open>m\<close>, compared with the names\<close>
  "at_get_enum n cmd m table ptr w =
     (if \<not> ptr then Inr (ATK_IDE01_EINVAL, None, w)
      else bnd (at_query n cmd [] w) (\<lambda>(fr, w).
           case fr of
             None \<Rightarrow> Inr (ATK_IDE01_ERROR, None, w)
           | Some buf \<Rightarrow>
               bnd (copy_parameter buf 1 (local_array m)) (\<lambda>(ret, txt).
               if ret \<noteq> ATK_IDE01_EOK then Inr (ATK_IDE01_ERROR, None, w)
               else bnd (strcmp_switch txt table) (\<lambda>r.
                    case r of
                      Some e \<Rightarrow> Inr (ATK_IDE01_EOK, Some e, w)
                    | None \<Rightarrow> Inr (ATK_IDE01_ERROR, None, w)))))"

definition at_get_number :: "nat \<Rightarrow> string \<Rightarrow> bool \<Rightarrow> net \<Rightarrow> (nat \<times> nat option \<times> net) res" where
  \<comment> \<open>the getters of a 16-bit number: the first parameter in a local array of six bytes, through \<open>atoi\<close>\<close>
  "at_get_number n cmd ptr w =
     (if \<not> ptr then Inr (ATK_IDE01_EINVAL, None, w)
      else bnd (at_query n cmd [] w) (\<lambda>(fr, w).
           case fr of
             None \<Rightarrow> Inr (ATK_IDE01_ERROR, None, w)
           | Some buf \<Rightarrow>
               bnd (copy_parameter buf 1 (local_array 6)) (\<lambda>(ret, txt).
               if ret \<noteq> ATK_IDE01_EOK then Inr (ATK_IDE01_ERROR, None, w)
               else Inr (ATK_IDE01_EOK, Some (nat (atoi (cstr txt) mod 65536)), w))))"

section \<open>Modes, addresses, ports\<close>

definition atk_ide01_search_mac :: "cbuf option \<Rightarrow> net \<Rightarrow> (nat \<times> cbuf option \<times> net) res" where
  "atk_ide01_search_mac mac w =
     (case mac of
        None \<Rightarrow> Inr (ATK_IDE01_EINVAL, None, kprintln ''atk_net line211'' w)
      | Some dst \<Rightarrow>
          bnd (rt_sprintf (local_array 11) ''AT+SEARCH?'' []) (\<lambda>(_, cmd).
          bnd (rt_strlen cmd) (\<lambda>n.
          let w = kprintln (''cmd = '' @ take n cmd) w in
          bnd (atk_ide01_send_at_cmd cmd (Some OK_str) ATK_IDE01_AT_TIMEOUT w) (\<lambda>(ret, w).
          if ret \<noteq> 0 then Inr (ATK_IDE01_ERROR, Some dst, kprintln ''atk_net line219'' w)
          else bnd (atk_ide01_uart_rx_get_frame w) (\<lambda>(fr, w).
               case fr of
                 None \<Rightarrow> Inl Null_deref
               | Some buf \<Rightarrow>
                   bnd (atk_ide01_get_parameter buf 2 True) (\<lambda>(ret, param_index, param_len).
                   if ret \<noteq> ATK_IDE01_EOK then Inr (ATK_IDE01_ERROR, Some dst, kprintln ''atk_net line227'' w)
                   else (case (param_index, param_len) of
                           (Some i, Some n) \<Rightarrow>
                             bnd (rt_memcpy True dst (drop i buf) n) (\<lambda>d.
                             bnd (store d 17 NUL) (\<lambda>d. Inr (ATK_IDE01_EOK, Some d, w)))
                         | _ \<Rightarrow> Inl Uninitialised)))))))"

definition atk_ide01_init :: "nat \<Rightarrow> net \<Rightarrow> (nat \<times> net) res" where
  \<comment> \<open>with \<open>ATK_NET\<close> defined; the array \<open>mac\<close> is local\<close>
  "atk_ide01_init baudrate w =
     bnd (atk_ide01_search_mac (Some (local_array 18)) w) (\<lambda>(ret, _, w).
     if ret \<noteq> ATK_IDE01_EOK then Inr (ATK_IDE01_ERROR, kprintln ''atk_net line136'' w)
     else Inr (ATK_IDE01_EOK, w))"

definition atk_ide01_enter_at_mode :: "cbuf option \<Rightarrow> net \<Rightarrow> (nat \<times> net) res" where
  "atk_ide01_enter_at_mode mac w =
     bnd (at_command 32 ''AT+SEARCH?'' [] w) (\<lambda>(ret, w).
     if ret \<noteq> ATK_IDE01_EOK then Inr (ATK_IDE01_ERROR, kprintln ''atk_net line251'' w)
     else bnd (at_command 32 ''AT+AT_INTO=\"%s\"'' [Va_str mac] w) (\<lambda>(ret, w).
          if ret \<noteq> ATK_IDE01_EOK then Inr (ATK_IDE01_ERROR, kprintln ''atk_net line259'' w)
          else Inr (ATK_IDE01_EOK, w)))"

definition atk_ide01_exit_at_mode :: "cbuf option \<Rightarrow> net \<Rightarrow> (nat \<times> net) res" where
  "atk_ide01_exit_at_mode mac w = at_command 32 ''AT+AT_EXIT=\"%s\"'' [Va_str mac] w"

definition atk_ide01_get_netmask :: "cbuf option \<Rightarrow> net \<Rightarrow> (nat \<times> cbuf option \<times> net) res" where
  "atk_ide01_get_netmask netmask w = at_get_string 12 ''AT+NETMASK?'' netmask w"

definition atk_ide01_set_netmask :: "cbuf option \<Rightarrow> net \<Rightarrow> (nat \<times> net) res" where
  "atk_ide01_set_netmask netmask w = at_command 29 ''AT+NETMASK=\"%s\"'' [Va_str netmask] w"

function scan_eq :: "cbuf \<Rightarrow> nat \<Rightarrow> nat \<Rightarrow> nat res" where
  \<comment> \<open>the first loop of the getters that scan the frame themselves\<close>
  "scan_eq buf buf_len buf_index =
     bnd (fetch buf buf_index) (\<lambda>c.
     if c \<noteq> CHR ''='' \<and> buf_index < buf_len then scan_eq buf buf_len (buf_index + 1) else Inr buf_index)"
  by pat_completeness auto
termination
  by (relation "measure (\<lambda>(_, n, i). n - i)") auto

function scan_crlf :: "cbuf \<Rightarrow> nat \<Rightarrow> nat \<Rightarrow> nat res" where
  \<comment> \<open>their second loop\<close>
  "scan_crlf buf buf_len buf_index =
     bnd (fetch buf buf_index) (\<lambda>c.
     if c \<noteq> CHR 0x0D
     then bnd (fetch buf (buf_index + 1)) (\<lambda>d.
          if d \<noteq> CHR 0x0A \<and> buf_index < buf_len then scan_crlf buf buf_len (buf_index + 1)
          else Inr buf_index)
     else Inr buf_index)"
  by pat_completeness auto
termination
  by (relation "measure (\<lambda>(_, n, i). n - i)") auto

declare scan_eq.simps [simp del] scan_crlf.simps [simp del]

definition scan_value :: "cbuf \<Rightarrow> nat \<Rightarrow> (nat \<times> nat) option res" where
  \<comment> \<open>both loops: \<open>param_index\<close> and the index after the value, \<open>None\<close> for the two error returns\<close>
  "scan_value buf buf_len =
     bnd (scan_eq buf buf_len 0) (\<lambda>i.
     bnd (fetch buf i) (\<lambda>c.
     if c = NUL then Inr None
     else bnd (scan_crlf buf buf_len i) (\<lambda>j.
          bnd (fetch buf j) (\<lambda>c.
          if c = NUL then Inr None else Inr (Some (i + 2, j))))))"

definition at_frame :: "nat \<Rightarrow> string \<Rightarrow> net \<Rightarrow> ((cbuf \<times> nat) option \<times> net) res" where
  \<comment> \<open>the query of these getters: \<open>buf\<close> points into the live frame, whose length is read next\<close>
  "at_frame n cmd w =
     bnd (at_query n cmd [] w) (\<lambda>(fr, w).
     case fr of
       None \<Rightarrow> Inr (None, w)
     | Some _ \<Rightarrow> bnd (atk_ide01_uart_rx_get_frame_len w) (\<lambda>(buf_len, w). Inr (Some (rx_buf w, buf_len), w)))"

definition atk_ide01_get_mac :: "cbuf option \<Rightarrow> net \<Rightarrow> (nat \<times> cbuf option \<times> net) res" where
  "atk_ide01_get_mac mac w =
     (case mac of
        None \<Rightarrow> Inr (ATK_IDE01_EINVAL, None, w)
      | Some dst \<Rightarrow>
          bnd (at_frame 11 ''AT+MAC_ID?'' w) (\<lambda>(fr, w).
          case fr of
            None \<Rightarrow> Inr (ATK_IDE01_ERROR, Some dst, w)
          | Some (buf, buf_len) \<Rightarrow>
              bnd (scan_eq buf buf_len 0) (\<lambda>i.
              bnd (fetch buf i) (\<lambda>c.
              if c = NUL then Inr (ATK_IDE01_ERROR, Some dst, w)
              else bnd (rt_memcpy True dst (drop (i + 1) buf) 17) (\<lambda>d.
                   bnd (store d 17 NUL) (\<lambda>d. Inr (ATK_IDE01_EOK, Some d, w)))))))"

definition at_get_scanned :: "nat \<Rightarrow> string \<Rightarrow> cbuf option \<Rightarrow> net \<Rightarrow> (nat \<times> cbuf option \<times> net) res" where
  "at_get_scanned n cmd ptr w =
     (case ptr of
        None \<Rightarrow> Inr (ATK_IDE01_EINVAL, None, w)
      | Some dst \<Rightarrow>
          bnd (at_frame n cmd w) (\<lambda>(fr, w).
          case fr of
            None \<Rightarrow> Inr (ATK_IDE01_ERROR, Some dst, w)
          | Some (buf, buf_len) \<Rightarrow>
              bnd (scan_value buf buf_len) (\<lambda>r.
              case r of
                None \<Rightarrow> Inr (ATK_IDE01_ERROR, Some dst, w)
              | Some (param_index, j) \<Rightarrow>
                  let param_len = nat ((int j - int param_index) mod 65536) in
                  bnd (rt_memcpy True dst (drop param_index buf) param_len) (\<lambda>d.
                  bnd (store d param_len NUL) (\<lambda>d. Inr (ATK_IDE01_EOK, Some d, w))))))"

definition atk_ide01_set_mac :: "cbuf option \<Rightarrow> net \<Rightarrow> (nat \<times> net) res" where
  "atk_ide01_set_mac mac w = at_command 30 ''AT+MAC_ID=\"%s\"'' [Va_str mac] w"

definition atk_ide01_get_gateway :: "cbuf option \<Rightarrow> net \<Rightarrow> (nat \<times> cbuf option \<times> net) res" where
  "atk_ide01_get_gateway gateway w = at_get_string 12 ''AT+GATEWAY?'' gateway w"

definition atk_ide01_set_gateway :: "cbuf option \<Rightarrow> net \<Rightarrow> (nat \<times> net) res" where
  "atk_ide01_set_gateway gateway w = at_command 29 ''AT+GATEWAY=\"%s\"'' [Va_str gateway] w"

definition atk_ide01_get_ethmod :: "bool \<Rightarrow> net \<Rightarrow> (nat \<times> atk_ide01_ethmod_t option \<times> net) res" where
  "atk_ide01_get_ethmod ethmod w = at_get_enum 12 ''AT+ETH_MOD?'' 14
     [(''UDP_CLIENT'', ATK_IDE01_ETHMOD_UDP_CLIENT), (''UDP_SERVER'', ATK_IDE01_ETHMOD_UDP_SERVER),
      (''TCP_CLIENT'', ATK_IDE01_ETHMOD_TCP_CLIENT), (''TCP_SERVER'', ATK_IDE01_ETHMOD_TCP_SERVER),
      (''TCP_CLOUD'', ATK_IDE01_ETHMOD_TCP_CLOUD), (''UDP_MULTICAST'', ATK_IDE01_ETHMOD_UDP_MULTICAST)]
     ethmod w"

fun ethmod_name :: "atk_ide01_ethmod_t \<Rightarrow> string" where
  "ethmod_name ATK_IDE01_ETHMOD_UDP_CLIENT = ''UDP_CLIENT''"
| "ethmod_name ATK_IDE01_ETHMOD_UDP_SERVER = ''UDP_SERVER''"
| "ethmod_name ATK_IDE01_ETHMOD_TCP_CLIENT = ''TCP_CLIENT''"
| "ethmod_name ATK_IDE01_ETHMOD_TCP_SERVER = ''TCP_SERVER''"
| "ethmod_name ATK_IDE01_ETHMOD_TCP_CLOUD = ''TCP_CLOUD''"
| "ethmod_name ATK_IDE01_ETHMOD_UDP_MULTICAST = ''UDP_MULTICAST''"

definition atk_ide01_set_ethmod :: "atk_ide01_ethmod_t option \<Rightarrow> net \<Rightarrow> (nat \<times> net) res" where
  "atk_ide01_set_ethmod ethmod w =
     (case ethmod of
        None \<Rightarrow> Inr (ATK_IDE01_EINVAL, w)
      | Some m \<Rightarrow> at_command 27 ''AT+ETH_MOD=\"%s\"'' [Va_str (Some (ethmod_name m @ [NUL]))] w)"

definition atk_ide01_get_dns :: "cbuf option \<Rightarrow> net \<Rightarrow> (nat \<times> cbuf option \<times> net) res" where
  "atk_ide01_get_dns dns w = at_get_string 15 ''AT+DNS_SERVER?'' dns w"

definition atk_ide01_set_dns :: "cbuf option \<Rightarrow> net \<Rightarrow> (nat \<times> net) res" where
  "atk_ide01_set_dns dns w = at_command 32 ''AT+DNS_SERVER=\"%s\"'' [Va_str dns] w"

definition atk_ide01_get_localport :: "cbuf option \<Rightarrow> net \<Rightarrow> (nat \<times> cbuf option \<times> net) res" where
  "atk_ide01_get_localport localport w = at_get_string 15 ''AT+LOCAL_PORT?'' localport w"

definition atk_ide01_set_localport :: "cbuf option \<Rightarrow> net \<Rightarrow> (nat \<times> net) res" where
  "atk_ide01_set_localport localport w = at_command 22 ''AT+LOCAL_PORT=\"%s\"'' [Va_str localport] w"

definition atk_ide01_get_remoteport :: "cbuf option \<Rightarrow> net \<Rightarrow> (nat \<times> cbuf option \<times> net) res" where
  "atk_ide01_get_remoteport remoteport w = at_get_string 16 ''AT+REMOTE_PORT?'' remoteport w"

definition atk_ide01_set_remoteport :: "cbuf option \<Rightarrow> net \<Rightarrow> (nat \<times> net) res" where
  "atk_ide01_set_remoteport remoteport w = at_command 23 ''AT+REMOTE_PORT=\"%s\"'' [Va_str remoteport] w"

definition atk_ide01_get_remoteip :: "cbuf option \<Rightarrow> net \<Rightarrow> (nat \<times> cbuf option \<times> net) res" where
  "atk_ide01_get_remoteip remoteip w = at_get_scanned 13 ''AT+REMOTEIP?'' remoteip w"

definition atk_ide01_set_remoteip :: "cbuf option \<Rightarrow> net \<Rightarrow> (nat \<times> net) res" where
  "atk_ide01_set_remoteip remoteip w = at_command 30 ''AT+REMOTEIP=\"%s\"'' [Va_str remoteip] w"

definition atk_ide01_get_staticip :: "cbuf option \<Rightarrow> net \<Rightarrow> (nat \<times> cbuf option \<times> net) res" where
  "atk_ide01_get_staticip staticip w = at_get_string 13 ''AT+STATICIP?'' staticip w"

definition atk_ide01_set_staticip :: "cbuf option \<Rightarrow> net \<Rightarrow> (nat \<times> net) res" where
  "atk_ide01_set_staticip staticip w = at_command 30 ''AT+STATICIP=\"%s\"'' [Va_str staticip] w"

section \<open>Switches\<close>

definition atk_ide01_get_echo :: "bool \<Rightarrow> net \<Rightarrow> (nat \<times> atk_ide01_echo_t option \<times> net) res" where
  "atk_ide01_get_echo echo w =
     at_get_enum 9 ''AT+ECHO?'' 4 [(''ON'', ATK_IDE01_ECHO_ON), (''OFF'', ATK_IDE01_ECHO_OFF)] echo w"

fun echo_name :: "atk_ide01_echo_t \<Rightarrow> string" where
  "echo_name ATK_IDE01_ECHO_ON = ''ON''"
| "echo_name ATK_IDE01_ECHO_OFF = ''OFF''"

definition atk_ide01_set_echo :: "atk_ide01_echo_t option \<Rightarrow> net \<Rightarrow> (nat \<times> net) res" where
  "atk_ide01_set_echo echo w =
     (case echo of
        None \<Rightarrow> Inr (ATK_IDE01_EINVAL, w)
      | Some m \<Rightarrow> at_command 14 ''AT+ECHO=\"%s\"'' [Va_str (Some (echo_name m @ [NUL]))] w)"

definition atk_ide01_get_dhcp :: "bool \<Rightarrow> net \<Rightarrow> (nat \<times> atk_ide01_dhcp_t option \<times> net) res" where
  "atk_ide01_get_dhcp dhcp w =
     at_get_enum 9 ''AT+DHCP?'' 4 [(''ON'', ATK_IDE01_DHCP_ON), (''OFF'', ATK_IDE01_DHCP_OFF)] dhcp w"

fun dhcp_name :: "atk_ide01_dhcp_t \<Rightarrow> string" where
  "dhcp_name ATK_IDE01_DHCP_ON = ''ON''"
| "dhcp_name ATK_IDE01_DHCP_OFF = ''OFF''"

definition atk_ide01_set_dhcp :: "atk_ide01_dhcp_t option \<Rightarrow> net \<Rightarrow> (nat \<times> net) res" where
  "atk_ide01_set_dhcp dhcp w =
     (case dhcp of
        None \<Rightarrow> Inr (ATK_IDE01_EINVAL, w)
      | Some m \<Rightarrow> at_command 14 ''AT+DHCP=\"%s\"'' [Va_str (Some (dhcp_name m @ [NUL]))] w)"

definition atk_ide01_reset :: "net \<Rightarrow> (nat \<times> net) res" where
  "atk_ide01_reset w = at_command 9 ''AT+RESET'' [] w"

definition atk_ide01_update :: "net \<Rightarrow> (nat \<times> net) res" where
  "atk_ide01_update w = at_command 10 ''AT+UPDATE'' [] w"

definition atk_ide01_get_version :: "cbuf option \<Rightarrow> net \<Rightarrow> (nat \<times> cbuf option \<times> net) res" where
  \<comment> \<open>no check for the null pointer: it is dereferenced when the parameter is copied\<close>
  "atk_ide01_get_version version w =
     bnd (at_query 12 ''AT+VERSION?'' [] w) (\<lambda>(fr, w).
     case fr of
       None \<Rightarrow> Inr (ATK_IDE01_ERROR, version, w)
     | Some buf \<Rightarrow>
         (case version of
            Some dst \<Rightarrow> bnd (copy_parameter buf 1 dst) (\<lambda>(ret, d). Inr (ret, Some d, w))
          | None \<Rightarrow>
              bnd (atk_ide01_get_parameter buf 1 True) (\<lambda>(ret, _).
              if ret \<noteq> ATK_IDE01_EOK then Inr (ATK_IDE01_ERROR, None, w) else Inl Null_deref)))"

definition atk_ide01_get_moduname_len :: "bool \<Rightarrow> net \<Rightarrow> (nat \<times> nat option \<times> net) res" where
  "atk_ide01_get_moduname_len len w =
     (if \<not> len then Inr (ATK_IDE01_EINVAL, None, w)
      else bnd (at_frame 13 ''AT+MODUNAME?'' w) (\<lambda>(fr, w).
           case fr of
             None \<Rightarrow> Inr (ATK_IDE01_ERROR, None, w)
           | Some (buf, buf_len) \<Rightarrow>
               bnd (scan_value buf buf_len) (\<lambda>r.
               case r of
                 None \<Rightarrow> Inr (ATK_IDE01_ERROR, None, w)
               | Some (param_index, j) \<Rightarrow>
                   Inr (ATK_IDE01_EOK, Some (nat ((int j - int param_index + 1) mod 65536)), w))))"

definition atk_ide01_get_moduname :: "cbuf option \<Rightarrow> net \<Rightarrow> (nat \<times> cbuf option \<times> net) res" where
  "atk_ide01_get_moduname moduname w = at_get_scanned 13 ''AT+MODUNAME?'' moduname w"

definition atk_ide01_set_moduname :: "cbuf option \<Rightarrow> net \<Rightarrow> (nat \<times> net) res" where
  "atk_ide01_set_moduname moduname w = at_command 64 ''AT+MODUNAME=\"%s\"'' [Va_str moduname] w"

definition atk_ide01_get_xcomport :: "cbuf option \<Rightarrow> net \<Rightarrow> (nat \<times> cbuf option \<times> net) res" where
  "atk_ide01_get_xcomport xcomport w = at_get_string 14 ''AT+XCOM_PORT?'' xcomport w"

definition atk_ide01_set_xcomport :: "cbuf option \<Rightarrow> net \<Rightarrow> (nat \<times> net) res" where
  "atk_ide01_set_xcomport xcomport w = at_command 21 ''AT+XCOM_PORT=\"%s\"'' [Va_str xcomport] w"

section \<open>Serial parameters of the module\<close>

definition baudrate_table :: "(string \<times> atk_ide01_uart_baudrate_t) list" where
  \<comment> \<open>the comparisons of \<open>atk_ide01_get_uart\<close>, in their order\<close>
  "baudrate_table =
  [(''2400'', ATK_IDE01_UART_BAUDRATE_2400), (''4800'', ATK_IDE01_UART_BAUDRATE_4800),
   (''9600'', ATK_IDE01_UART_BAUDRATE_9600), (''14400'', ATK_IDE01_UART_BAUDRATE_14400),
   (''38400'', ATK_IDE01_UART_BAUDRATE_38400), (''43000'', ATK_IDE01_UART_BAUDRATE_43000),
   (''57600'', ATK_IDE01_UART_BAUDRATE_57600), (''76800'', ATK_IDE01_UART_BAUDRATE_76800),
   (''115200'', ATK_IDE01_UART_BAUDRATE_115200), (''128000'', ATK_IDE01_UART_BAUDRATE_128000),
   (''230400'', ATK_IDE01_UART_BAUDRATE_230400), (''256000'', ATK_IDE01_UART_BAUDRATE_256000),
   (''460800'', ATK_IDE01_UART_BAUDRATE_460800), (''921600'', ATK_IDE01_UART_BAUDRATE_921600)]"

definition at_field :: "cbuf \<Rightarrow> nat \<Rightarrow> nat \<Rightarrow> (string \<times> 'e) list \<Rightarrow> 'e option res" where
  \<comment> \<open>one field of \<open>atk_ide01_get_uart\<close>: parameter \<open>k\<close> in an array of size \<open>m\<close>; \<open>None\<close> for its error returns\<close>
  "at_field buf k m table =
     bnd (copy_parameter buf k (local_array m)) (\<lambda>(ret, txt).
     if ret \<noteq> ATK_IDE01_EOK then Inr None else strcmp_switch txt table)"

definition atk_ide01_get_uart :: "bool \<Rightarrow> bool \<Rightarrow> bool \<Rightarrow> bool \<Rightarrow> net \<Rightarrow>
    (nat \<times> (atk_ide01_uart_baudrate_t option \<times> atk_ide01_uart_stop_t option \<times>
             atk_ide01_uart_data_t option \<times> atk_ide01_uart_parity_t option) \<times> net) res" where
  "atk_ide01_get_uart baudrate stop data parity w =
     (if \<not> baudrate \<and> \<not> stop \<and> \<not> data \<and> \<not> parity then Inr (ATK_IDE01_EINVAL, (None, None, None, None), w)
      else bnd (at_query 9 ''AT+UART?'' [] w) (\<lambda>(fr, w).
      case fr of
        None \<Rightarrow> Inr (ATK_IDE01_ERROR, (None, None, None, None), w)
      | Some buf \<Rightarrow>
          bnd (if baudrate then at_field buf 1 7 baudrate_table else Inr None) (\<lambda>b.
          if baudrate \<and> b = None then Inr (ATK_IDE01_ERROR, (None, None, None, None), w)
          else bnd (if stop then at_field buf 2 2 [(''1'', ATK_IDE01_UART_STOP_1), (''2'', ATK_IDE01_UART_STOP_2)]
                    else Inr None) (\<lambda>s.
          if stop \<and> s = None then Inr (ATK_IDE01_ERROR, (b, None, None, None), w)
          else bnd (if data then at_field buf 3 2 [(''8'', ATK_IDE01_UART_DATA_8)] else Inr None) (\<lambda>d.
          if data \<and> d = None then Inr (ATK_IDE01_ERROR, (b, s, None, None), w)
          else bnd (if parity
                    then at_field buf 4 5 [(''NONE'', ATK_IDE01_UART_PARITY_NONE),
                           (''EVEN'', ATK_IDE01_UART_PARITY_EVEN), (''ODD'', ATK_IDE01_UART_PARITY_ODD)]
                    else Inr None) (\<lambda>p.
          if parity \<and> p = None then Inr (ATK_IDE01_ERROR, (b, s, d, None), w)
          else Inr (ATK_IDE01_EOK, (b, s, d, p), w)))))))"

fun baudrate_text :: "atk_ide01_uart_baudrate_t \<Rightarrow> string" where
  "baudrate_text ATK_IDE01_UART_BAUDRATE_2400 = ''2400''"
| "baudrate_text ATK_IDE01_UART_BAUDRATE_4800 = ''4800''"
| "baudrate_text ATK_IDE01_UART_BAUDRATE_9600 = ''9600''"
| "baudrate_text ATK_IDE01_UART_BAUDRATE_14400 = ''14400''"
| "baudrate_text ATK_IDE01_UART_BAUDRATE_19200 = ''19200''"
| "baudrate_text ATK_IDE01_UART_BAUDRATE_38400 = ''38400''"
| "baudrate_text ATK_IDE01_UART_BAUDRATE_43000 = ''43000''"
| "baudrate_text ATK_IDE01_UART_BAUDRATE_57600 = ''57600''"
| "baudrate_text ATK_IDE01_UART_BAUDRATE_76800 = ''76800''"
| "baudrate_text ATK_IDE01_UART_BAUDRATE_115200 = ''115200''"
| "baudrate_text ATK_IDE01_UART_BAUDRATE_128000 = ''120000''"
| "baudrate_text ATK_IDE01_UART_BAUDRATE_230400 = ''230400''"
| "baudrate_text ATK_IDE01_UART_BAUDRATE_256000 = ''256000''"
| "baudrate_text ATK_IDE01_UART_BAUDRATE_460800 = ''460800''"
| "baudrate_text ATK_IDE01_UART_BAUDRATE_921600 = ''921600''"

fun stop_text :: "atk_ide01_uart_stop_t \<Rightarrow> string" where
  "stop_text ATK_IDE01_UART_STOP_1 = ''1''"
| "stop_text ATK_IDE01_UART_STOP_2 = ''2''"

fun data_text :: "atk_ide01_uart_data_t \<Rightarrow> string" where
  "data_text ATK_IDE01_UART_DATA_8 = ''8''"

fun parity_text :: "atk_ide01_uart_parity_t \<Rightarrow> string" where
  "parity_text ATK_IDE01_UART_PARITY_NONE = ''NONE''"
| "parity_text ATK_IDE01_UART_PARITY_EVEN = ''EVEN''"
| "parity_text ATK_IDE01_UART_PARITY_ODD = ''ODD''"

definition atk_ide01_set_uart ::
  "atk_ide01_uart_baudrate_t option \<Rightarrow> atk_ide01_uart_stop_t option \<Rightarrow> atk_ide01_uart_data_t option \<Rightarrow>
   atk_ide01_uart_parity_t option \<Rightarrow> net \<Rightarrow> (nat \<times> net) res" where
  "atk_ide01_set_uart baudrate stop data parity w =
     (case baudrate of None \<Rightarrow> Inr (ATK_IDE01_EINVAL, w) | Some b \<Rightarrow>
      bnd (rt_sprintf (local_array 7) (baudrate_text b) []) (\<lambda>(_, b').
      case stop of None \<Rightarrow> Inr (ATK_IDE01_EINVAL, w) | Some s \<Rightarrow>
      bnd (rt_sprintf (local_array 2) (stop_text s) []) (\<lambda>(_, s').
      case data of None \<Rightarrow> Inr (ATK_IDE01_EINVAL, w) | Some d \<Rightarrow>
      bnd (rt_sprintf (local_array 2) (data_text d) []) (\<lambda>(_, d').
      case parity of None \<Rightarrow> Inr (ATK_IDE01_EINVAL, w) | Some p \<Rightarrow>
      bnd (rt_sprintf (local_array 5) (parity_text p) []) (\<lambda>(_, p').
      at_command 32 ''AT+UART=\"%s\",\"%s\",\"%s\",\"%s\"''
        [Va_str (Some b'), Va_str (Some s'), Va_str (Some d'), Va_str (Some p')] w)))))"

definition atk_ide01_get_uartpacktime :: "bool \<Rightarrow> net \<Rightarrow> (nat \<times> nat option \<times> net) res" where
  "atk_ide01_get_uartpacktime uartpacktime w = at_get_number 18 ''AT+UART_PACKTIME?'' uartpacktime w"

definition atk_ide01_set_uartpacktime :: "16 word \<Rightarrow> net \<Rightarrow> (nat \<times> net) res" where
  "atk_ide01_set_uartpacktime uartpacktime w =
     at_command 25 ''AT+UART_PACKTIME=\"%d\"'' [Va_int (ucast uartpacktime)] w"

definition atk_ide01_get_uartpacklen :: "bool \<Rightarrow> net \<Rightarrow> (nat \<times> nat option \<times> net) res" where
  "atk_ide01_get_uartpacklen uartpacklen w = at_get_number 17 ''AT+UART_PACKLEN?'' uartpacklen w"

definition atk_ide01_set_uartpacklen :: "16 word \<Rightarrow> net \<Rightarrow> (nat \<times> net) res" where
  "atk_ide01_set_uartpacklen uartpacklen w =
     (if uartpacklen < 1 \<or> uartpacklen > 1450 then Inr (ATK_IDE01_EINVAL, w)
      else at_command 24 ''AT+UART_PACKLEN=\"%d\"'' [Va_int (ucast uartpacklen)] w)"

section \<open>Cloud\<close>

definition atk_ide01_get_cloudlinken :: "bool \<Rightarrow> net \<Rightarrow> (nat \<times> atk_ide01_cloudlink_t option \<times> net) res" where
  "atk_ide01_get_cloudlinken cloudlink w =
     at_get_enum 18 ''AT+CLOUD_LINK_EN?'' 4 [(''ON'', ATK_IDE01_CLOUDLINK_ON), (''OFF'', ATK_IDE01_CLOUDLINK_OFF)] cloudlink w"

fun cloudlink_name :: "atk_ide01_cloudlink_t \<Rightarrow> string" where
  "cloudlink_name ATK_IDE01_CLOUDLINK_ON = ''ON''"
| "cloudlink_name ATK_IDE01_CLOUDLINK_OFF = ''OFF''"

definition atk_ide01_set_cloudlinken :: "atk_ide01_cloudlink_t option \<Rightarrow> net \<Rightarrow> (nat \<times> net) res" where
  "atk_ide01_set_cloudlinken cloudlink w =
     (case cloudlink of
        None \<Rightarrow> Inr (ATK_IDE01_EINVAL, w)
      | Some m \<Rightarrow> at_command 23 ''AT+CLOUD_LINK_EN=\"%s\"'' [Va_str (Some (cloudlink_name m @ [NUL]))] w)"

definition atk_ide01_get_cloudport :: "cbuf option \<Rightarrow> net \<Rightarrow> (nat \<times> cbuf option \<times> net) res" where
  "atk_ide01_get_cloudport cloudport w = at_get_string 15 ''AT+CLOUD_PORT?'' cloudport w"

definition atk_ide01_set_cloudport :: "cbuf option \<Rightarrow> net \<Rightarrow> (nat \<times> net) res" where
  "atk_ide01_set_cloudport cloudport w = at_command 22 ''AT+CLOUD_PORT=\"%s\"'' [Va_str cloudport] w"

definition atk_ide01_get_clouddomain_len :: "bool \<Rightarrow> net \<Rightarrow> (nat \<times> nat option \<times> net) res" where
  "atk_ide01_get_clouddomain_len len w =
     (if \<not> len then Inr (ATK_IDE01_EINVAL, None, w)
      else bnd (at_query 17 ''AT+COLUD_DOMAIN?'' [] w) (\<lambda>(fr, w).
           case fr of
             None \<Rightarrow> Inr (ATK_IDE01_ERROR, None, w)
           | Some buf \<Rightarrow>
               bnd (atk_ide01_get_parameter buf 1 True) (\<lambda>(ret, _, param_len).
               if ret \<noteq> ATK_IDE01_EOK then Inr (ATK_IDE01_ERROR, None, w)
               else (case param_len of
                       None \<Rightarrow> Inl Uninitialised
                     | Some n \<Rightarrow> Inr (ATK_IDE01_EOK, Some ((n + 1) mod 65536), w)))))"

definition atk_ide01_get_clouddomain :: "cbuf option \<Rightarrow> net \<Rightarrow> (nat \<times> cbuf option \<times> net) res" where
  "atk_ide01_get_clouddomain clouddomain w = at_get_string 17 ''AT+COLUD_DOMAIN?'' clouddomain w"

definition atk_ide01_set_clouddomain :: "cbuf option \<Rightarrow> net \<Rightarrow> (nat \<times> net) res" where
  "atk_ide01_set_clouddomain clouddomain w = at_command 64 ''AT+COLUD_DOMAIN=\"%s\"'' [Va_str clouddomain] w"

definition atk_ide01_get_atklinkpwd :: "cbuf option \<Rightarrow> net \<Rightarrow> (nat \<times> cbuf option \<times> net) res" where
  "atk_ide01_get_atklinkpwd atklinkpwd w = at_get_string 15 ''AT+ATKLINKPWD?'' atklinkpwd w"

definition atk_ide01_set_atklinkpwd :: "cbuf option \<Rightarrow> net \<Rightarrow> (nat \<times> net) res" where
  "atk_ide01_set_atklinkpwd atklinkpwd w = at_command 25 ''AT+ATKLINKPWD=\"%s\"'' [Va_str atklinkpwd] w"

definition atk_ide01_get_atkyundevid :: "cbuf option \<Rightarrow> net \<Rightarrow> (nat \<times> cbuf option \<times> net) res" where
  "atk_ide01_get_atkyundevid atkyundevid w = at_get_string 16 ''AT+ATKYUNDEVID?'' atkyundevid w"

definition atk_ide01_set_atkyundevid :: "cbuf option \<Rightarrow> net \<Rightarrow> (nat \<times> net) res" where
  "atk_ide01_set_atkyundevid atkyundevid w =
     (case atkyundevid of
        None \<Rightarrow> Inl Null_deref
      | Some s \<Rightarrow>
          bnd (rt_strlen s) (\<lambda>n.
          if n \<noteq> 20 then Inr (ATK_IDE01_EINVAL, w)
          else at_command 38 ''AT+ATKYUNDEVID=\"%s\"'' [Va_str atkyundevid] w))"

section \<open>Links\<close>

definition atk_ide01_get_netlksta :: "bool \<Rightarrow> net \<Rightarrow> (nat \<times> atk_ide01_netlksta_t option \<times> net) res" where
  "atk_ide01_get_netlksta netlksta w =
     at_get_enum 13 ''AT+NETLK_ST?'' 4 [(''ON'', ATK_IDE01_NETLKSTA_ON), (''OFF'', ATK_IDE01_NETLKSTA_OFF)] netlksta w"

definition atk_ide01_ping :: "cbuf option \<Rightarrow> net \<Rightarrow> (nat \<times> net) res" where
  "atk_ide01_ping domain w =
     (if domain = None then Inr (ATK_IDE01_EINVAL, w)
      else at_command 64 ''AT+PING=\"%s\"'' [Va_str domain] w)"

definition atk_ide01_get_linknum :: "bool \<Rightarrow> net \<Rightarrow> (nat \<times> nat option \<times> net) res" where
  "atk_ide01_get_linknum linknum w = at_get_number 12 ''AT+LINKNUM?'' linknum w"

definition at_get_link ::
  "string \<Rightarrow> 8 word \<Rightarrow> cbuf option \<Rightarrow> cbuf option \<Rightarrow> net \<Rightarrow> (nat \<times> (cbuf option \<times> cbuf option) \<times> net) res" where
  \<comment> \<open>the two link functions: address and port, each one optional\<close>
  "at_get_link fmt num ip port w =
     (if ip = None \<and> port = None then Inr (ATK_IDE01_EINVAL, (None, None), w)
      else bnd (at_query 20 fmt [Va_int (ucast num)] w) (\<lambda>(fr, w).
           case fr of
             None \<Rightarrow> Inr (ATK_IDE01_ERROR, (ip, port), w)
           | Some buf \<Rightarrow>
               bnd (case ip of
                      None \<Rightarrow> Inr (ATK_IDE01_EOK, None)
                    | Some d \<Rightarrow> bnd (copy_parameter buf 1 d) (\<lambda>(ret, d). Inr (ret, Some d))) (\<lambda>(ret, ip).
               if ret \<noteq> ATK_IDE01_EOK then Inr (ATK_IDE01_ERROR, (ip, port), w)
               else bnd (case port of
                           None \<Rightarrow> Inr (ATK_IDE01_EOK, None)
                         | Some d \<Rightarrow> bnd (copy_parameter buf 2 d) (\<lambda>(ret, d). Inr (ret, Some d))) (\<lambda>(ret, port).
                    if ret \<noteq> ATK_IDE01_EOK then Inr (ATK_IDE01_ERROR, (ip, port), w)
                    else Inr (ATK_IDE01_EOK, (ip, port), w)))))"

definition atk_ide01_get_remotelinkinfo ::
  "8 word \<Rightarrow> cbuf option \<Rightarrow> cbuf option \<Rightarrow> net \<Rightarrow> (nat \<times> (cbuf option \<times> cbuf option) \<times> net) res" where
  "atk_ide01_get_remotelinkinfo num remoteip remoteport w =
     at_get_link ''AT+LINKINF_RM=\"%d\"'' num remoteip remoteport w"

definition atk_ide01_get_locallinkinfo ::
  "8 word \<Rightarrow> cbuf option \<Rightarrow> cbuf option \<Rightarrow> net \<Rightarrow> (nat \<times> (cbuf option \<times> cbuf option) \<times> net) res" where
  "atk_ide01_get_locallinkinfo num localip localport w =
     at_get_link ''AT+LINKINF_LC=\"%d\"'' num localip localport w"

definition atk_ide01_get_multcastip :: "cbuf option \<Rightarrow> net \<Rightarrow> (nat \<times> cbuf option \<times> net) res" where
  "atk_ide01_get_multcastip multcastip w = at_get_string 16 ''AT+MULTCAST_IP?'' multcastip w"

definition atk_ide01_set_multcastip :: "cbuf option \<Rightarrow> net \<Rightarrow> (nat \<times> net) res" where
  "atk_ide01_set_multcastip multcastip w = at_command 33 ''AT+MULTCAST_IP=\"%s\"'' [Va_str multcastip] w"

definition atk_ide01_get_multcastport :: "cbuf option \<Rightarrow> net \<Rightarrow> (nat \<times> cbuf option \<times> net) res" where
  "atk_ide01_get_multcastport multcastport w = at_get_string 18 ''AT+MULTCAST_PORT?'' multcastport w"

definition atk_ide01_set_multcastport :: "cbuf option \<Rightarrow> net \<Rightarrow> (nat \<times> net) res" where
  "atk_ide01_set_multcastport multcastport w = at_command 35 ''AT+MULTCAST_PORT=\"%s\"'' [Va_str multcastport] w"

section \<open>Commands\<close>

lemma length_local_array [simp]: "length (local_array n) = n"
  by (simp add: local_array_def)

lemma terminated_OK [simp]: "terminated OK_str" and cstr_OK [simp]: "cstr OK_str = ''OK''"
  by (simp_all add: OK_str_def)

lemma sprintf_local:
  assumes "vfmt fmt args = Inr t" and "NUL \<notin> set t" and "length t < n" and "n < 2048"
  shows "\<exists>cmd. rt_sprintf (local_array n) fmt args = Inr (length t, cmd) \<and> cstr cmd = t \<and> terminated cmd"
  using rt_sprintf_spec [OF assms(1), of "local_array n"] assms(2-4)
  by (auto simp: overwrite_def)

lemma at_command_total:
  assumes "vfmt fmt args = Inr t" and "NUL \<notin> set t" and "length t < n" and "n < 2048" and "length t < 2046"
    and "net_inv w"
  shows "\<exists>ret w'. at_command n fmt args w = Inr (ret, w') \<and> net_inv w' \<and>
     (ret = ATK_IDE01_EOK \<and> rx_finsh w' \<or> ret = ATK_IDE01_ERROR) \<and> tick w' \<le> tick w + ATK_IDE01_AT_TIMEOUT"
proof -
  obtain cmd where "rt_sprintf (local_array n) fmt args = Inr (length t, cmd)" "cstr cmd = t" "terminated cmd"
    using sprintf_local [OF assms(1-4)] by blast
  then show ?thesis
    using send_at_cmd_total [OF assms(6), of cmd "Some OK_str" ATK_IDE01_AT_TIMEOUT] assms(5)
    by (auto simp: at_command_def)
qed

lemma at_query_total:
  assumes "vfmt fmt args = Inr t" and "NUL \<notin> set t" and "length t < n" and "n < 2046" and "net_inv w"
  shows "\<exists>fr w'. at_query n fmt args w = Inr (fr, w') \<and> net_inv w' \<and> (fr \<noteq> None \<longrightarrow> rx_finsh w') \<and>
     (\<forall>b. fr = Some b \<longrightarrow> terminated b \<and> length b = ATK_IDE01_UART_RX_BUF_SIZE)"
proof -
  obtain ret w1 where w1: "at_command n fmt args w = Inr (ret, w1)" "net_inv w1"
    "ret = ATK_IDE01_EOK \<and> rx_finsh w1 \<or> ret = ATK_IDE01_ERROR"
    using at_command_total [OF assms(1-3) _ _ assms(5)] assms(3,4) by auto
  then show ?thesis using get_frame_net [OF w1(2)] by (fastforce simp: at_query_def)
qed

lemma at_command_overflow:
  assumes "vfmt fmt args = Inr t" and "n \<le> length t" and "n < 2048"
  shows "at_command n fmt args w = Inl Out_of_bounds"
  using rt_sprintf_overflow [OF assms(1), of "local_array n"] assms(2,3) by (simp add: at_command_def)

lemma at_command_reply:
  assumes "vfmt fmt args = Inr t" and "NUL \<notin> set t" and "length t < n" and "n < 2046"
    and "net_inv w" and "irqs w = [] # [] # rx_irqs reply # rest" and "sublist ''OK'' reply"
    and "length reply < 2048" and "NUL \<notin> set reply"
  shows "\<exists>w'. at_command n fmt args w = Inr (ATK_IDE01_EOK, w') \<and> net_inv w' \<and> irqs w' = rest \<and>
     rx_finsh w' \<and> rx_len w' = length reply \<and> cstr (rx_buf w') = reply \<and>
     tx_log w' = (if tx_busy w then tx_log w else tx_log w @ [t @ [CHR 0x0D, CHR 0x0A]])"
proof -
  obtain cmd where "rt_sprintf (local_array n) fmt args = Inr (length t, cmd)" "cstr cmd = t" "terminated cmd"
    using sprintf_local [OF assms(1-3)] assms(4) by auto
  then show ?thesis
    using send_at_cmd_reply [OF assms(5,6), of cmd OK_str ATK_IDE01_AT_TIMEOUT] assms(3,4,7-9)
    by (auto simp: at_command_def)
qed

lemma reread_frame:
  assumes "net_inv w" and "irqs w = [] # rest" and "rx_finsh w" and "cstr (rx_buf w) = s" and "rx_len w = length s"
  shows "atk_ide01_uart_rx_get_frame w = Inr (Some (rx_buf w), w\<lparr>irqs := rest\<rparr>) \<and> terminated (rx_buf w)"
proof -
  have "length s < length (rx_buf w)" using assms(1,5) by (simp add: net_inv_def)
  then have "cstr (rx_buf w) \<noteq> rx_buf w" using assms(4) by auto
  then have t: "terminated (rx_buf w)" using cstr_id [of "rx_buf w"] by (auto simp: terminated_def)
  then obtain r where "rx_buf w = s @ NUL # r" using terminated_decomp assms(4) by metis
  then have "(rx_buf w)[rx_len w := NUL] = rx_buf w" using assms(5) by simp
  then show ?thesis using assms t \<open>length s < _\<close> by (simp add: atk_ide01_uart_rx_get_frame_def irq_point_def)
qed

lemma at_query_reply:
  assumes "vfmt fmt args = Inr t" and "NUL \<notin> set t" and "length t < n" and "n < 2046"
    and "net_inv w" and "irqs w = [] # [] # rx_irqs reply # [] # rest" and "sublist ''OK'' reply"
    and "length reply < 2048" and "NUL \<notin> set reply"
  shows "\<exists>b w'. at_query n fmt args w = Inr (Some b, w') \<and> net_inv w' \<and> irqs w' = rest \<and> cstr b = reply \<and>
     terminated b \<and> rx_buf w' = b \<and> rx_len w' = length reply \<and> rx_finsh w'"
proof -
  obtain w1 where w1: "at_command n fmt args w = Inr (ATK_IDE01_EOK, w1)" "net_inv w1" "irqs w1 = [] # rest"
     "rx_finsh w1" "rx_len w1 = length reply" "cstr (rx_buf w1) = reply"
    using at_command_reply [OF assms] by blast
  then show ?thesis using reread_frame [OF w1(2-4,6,5)] by (auto simp: at_query_def net_inv_def)
qed

lemma rt_memcpy_True:
  "n \<le> length src \<Longrightarrow> n \<le> length dst \<Longrightarrow> rt_memcpy True dst src n = Inr (overwrite dst 0 (take n src))"
  by (rule rt_memcpy_spec)

lemma copy_parameter_kth:
  assumes "cstr b = at_reply pre ps rest" and "terminated b" and "at_reply_ok pre ps rest" and "k < length ps"
    and "length (ps ! k) < length dst"
  shows "\<exists>d. copy_parameter b (Suc k) dst = Inr (ATK_IDE01_EOK, d) \<and> cstr d = ps ! k \<and> terminated d \<and>
     length d = length dst"
proof -
  obtain r where b: "b = at_reply pre ps rest @ NUL # r" using terminated_decomp [OF assms(2)] assms(1) by metis
  obtain i where i: "atk_ide01_get_parameter b (Suc k) True = Inr (ATK_IDE01_EOK, Some i, Some (length (ps ! k)))"
    "take (length (ps ! k)) (drop i b) = ps ! k" "i + length (ps ! k) < length b"
    using get_parameter_kth [OF b assms(4)] assms(3) by (auto simp: at_reply_ok_def list_all_iff)
  let ?d = "(overwrite dst 0 (ps ! k))[length (ps ! k) := NUL]"
  have "rt_memcpy True dst (drop i b) (length (ps ! k)) = Inr (overwrite dst 0 (ps ! k))"
    using rt_memcpy_True [of "length (ps ! k)" "drop i b" dst] i(2,3) assms(5) by simp
  then have c: "copy_parameter b (Suc k) dst = Inr (ATK_IDE01_EOK, ?d)"
    using i(1) assms(5) by (simp add: copy_parameter_def)
  have "?d = ps ! k @ NUL # drop (Suc (length (ps ! k))) dst"
    using assms(5) by (simp add: overwrite_def list_update_append Cons_nth_drop_Suc [symmetric])
  moreover have "NUL \<notin> set (ps ! k)" using assms(3,4) by (auto simp: plain_def at_reply_ok_def list_all_iff)
  ultimately show ?thesis using c assms(5) by simp
qed

lemma strcmp_switch_spec:
  "terminated b \<Longrightarrow> \<forall>(s, e)\<in>set table. NUL \<notin> set s \<Longrightarrow> strcmp_switch b table = Inr (map_of table (cstr b))"
proof (induction table)
  case (Cons c cs)
  obtain s e where c: "c = (s, e)" by fastforce
  obtain r where "rt_strcmp b (s @ [NUL]) = Inr r" "r = 0 \<longleftrightarrow> cstr b = s"
    using rt_strcmp_eq [OF Cons.prems(1), of "s @ [NUL]"] Cons.prems(2) c by auto
  then show ?case using Cons c by auto
qed simp

lemma at_field_kth:
  assumes "cstr b = at_reply pre ps rest" and "terminated b" and "at_reply_ok pre ps rest" and "k < length ps"
    and "length (ps ! k) < m" and "\<forall>(s, e)\<in>set table. NUL \<notin> set s"
  shows "at_field b (Suc k) m table = Inr (map_of table (ps ! k))"
  using copy_parameter_kth [OF assms(1-4), of "local_array m"] assms(5,6) strcmp_switch_spec
  by (fastforce simp: at_field_def)

lemma at_query_ok:
  assumes "vfmt cmd [] = Inr cmd" and "NUL \<notin> set cmd" and "length cmd < n" and "n < 2046"
    and "net_inv w" and "irqs w = [] # [] # rx_irqs (at_reply pre ps rest) # [] # env"
    and "at_reply_ok pre ps rest"
  shows "\<exists>b w'. at_query n cmd [] w = Inr (Some b, w') \<and> net_inv w' \<and> irqs w' = env \<and>
     cstr b = at_reply pre ps rest \<and> terminated b"
  using at_query_reply [OF assms(1-6)] at_reply_no_NUL [OF assms(7)] assms(7)
  by (auto simp: at_reply_ok_def)

section \<open>Setters and getters of a text\<close>

definition quote_fmt :: "string \<Rightarrow> bool" where
  "quote_fmt fmt \<longleftrightarrow> 4 \<le> length fmt \<and> drop (length fmt - 4) fmt = [CHR 0x22, CHR ''%'', CHR ''s'', CHR 0x22] \<and>
     list_all (\<lambda>c. c \<noteq> CHR ''%'' \<and> c \<noteq> NUL) (take (length fmt - 4) fmt)"

lemma vfmt_quote:
  assumes "quote_fmt fmt" and "terminated s"
  shows "vfmt fmt [Va_str (Some s)] = Inr (take (length fmt - 4) fmt @ quoted (cstr s))"
    and "NUL \<notin> set (take (length fmt - 4) fmt @ quoted (cstr s))"
    and "length (take (length fmt - 4) fmt @ quoted (cstr s)) = length fmt - 2 + length (cstr s)"
proof -
  let ?pre = "take (length fmt - 4) fmt" and ?q = "[CHR 0x22, CHR ''%'', CHR ''s'', CHR 0x22]"
  have fmt: "fmt = ?pre @ ?q" using assms(1) append_take_drop_id [of "length fmt - 4" fmt]
    by (simp add: quote_fmt_def)
  have "vfmt ?q [Va_str (Some s)] = Inr (quoted (cstr s))"
    using assms(2) by (simp add: directive_s quoted_def)
  moreover have "CHR ''%'' \<notin> set ?pre" using assms(1) by (auto simp: quote_fmt_def list_all_iff)
  ultimately have "vfmt (?pre @ ?q) [Va_str (Some s)] = Inr (?pre @ quoted (cstr s))"
    using vfmt_plain [of ?pre ?q "[Va_str (Some s)]"] by (simp only: bnd_Inr not_False_eq_True)
  then show "vfmt fmt [Va_str (Some s)] = Inr (?pre @ quoted (cstr s))" using fmt by simp
  show "NUL \<notin> set (?pre @ quoted (cstr s))"
    using assms(1) by (auto simp: quote_fmt_def list_all_iff quoted_def)
  have "4 \<le> length fmt" using assms(1) by (simp add: quote_fmt_def)
  then show "length (?pre @ quoted (cstr s)) = length fmt - 2 + length (cstr s)" by (simp add: quoted_def)
qed

lemma at_command_quote:
  assumes "quote_fmt fmt" and "terminated s" and "n < 2046" and "net_inv w"
  shows "if length fmt - 2 + length (cstr s) < n
     then \<exists>ret w'. at_command n fmt [Va_str (Some s)] w = Inr (ret, w') \<and> net_inv w' \<and>
       (ret = ATK_IDE01_EOK \<or> ret = ATK_IDE01_ERROR) \<and> tick w' \<le> tick w + ATK_IDE01_AT_TIMEOUT
     else at_command n fmt [Va_str (Some s)] w = Inl Out_of_bounds"
  using at_command_total [OF vfmt_quote(1,2) [OF assms(1,2)], of n w]
    at_command_overflow [OF vfmt_quote(1) [OF assms(1,2)], of n w] vfmt_quote(3) [OF assms(1,2)] assms(3,4)
  by auto

definition string_setters :: "((cbuf option \<Rightarrow> net \<Rightarrow> (nat \<times> net) res) \<times> nat) list" where
  "string_setters =
     [(atk_ide01_exit_at_mode, 18), (atk_ide01_set_netmask, 15), (atk_ide01_set_mac, 17),
      (atk_ide01_set_gateway, 15), (atk_ide01_set_dns, 15), (atk_ide01_set_localport, 5),
      (atk_ide01_set_remoteport, 5), (atk_ide01_set_remoteip, 15), (atk_ide01_set_staticip, 15),
      (atk_ide01_set_moduname, 49), (atk_ide01_set_xcomport, 5), (atk_ide01_set_cloudport, 5),
      (atk_ide01_set_clouddomain, 45), (atk_ide01_set_atklinkpwd, 8), (atk_ide01_ping, 53),
      (atk_ide01_set_multcastip, 15), (atk_ide01_set_multcastport, 15)]"

definition is_setter :: "(cbuf option \<Rightarrow> net \<Rightarrow> (nat \<times> net) res) \<Rightarrow> nat \<Rightarrow> bool" where
  "is_setter f m \<longleftrightarrow> (\<exists>n fmt. quote_fmt fmt \<and> n < 2046 \<and> n = length fmt + m - 1 \<and>
     (\<forall>s w. f (Some s) w = at_command n fmt [Va_str (Some s)] w))"

lemma is_setterI:
  "(\<And>s w. f (Some s) w = at_command n fmt [Va_str (Some s)] w) \<Longrightarrow> quote_fmt fmt \<Longrightarrow> n < 2046 \<Longrightarrow>
     n = length fmt + m - 1 \<Longrightarrow> is_setter f m"
  unfolding is_setter_def by blast

lemma ping_Some: "atk_ide01_ping (Some s) w = at_command 64 ''AT+PING=\"%s\"'' [Va_str (Some s)] w"
  by (simp add: atk_ide01_ping_def)

lemmas setter_defs = atk_ide01_exit_at_mode_def atk_ide01_set_netmask_def atk_ide01_set_mac_def
  atk_ide01_set_gateway_def atk_ide01_set_dns_def atk_ide01_set_localport_def atk_ide01_set_remoteport_def
  atk_ide01_set_remoteip_def atk_ide01_set_staticip_def atk_ide01_set_moduname_def atk_ide01_set_xcomport_def
  atk_ide01_set_cloudport_def atk_ide01_set_clouddomain_def atk_ide01_set_atklinkpwd_def ping_Some
  atk_ide01_set_multcastip_def atk_ide01_set_multcastport_def

lemma string_setters_all: "list_all (\<lambda>(f, m). is_setter f m) string_setters"
  unfolding string_setters_def list.pred_inject prod.case
  by (intro conjI list.pred_inject(1); rule is_setterI, rule setter_defs; simp add: quote_fmt_def)

lemma string_setter_bound:
  assumes "is_setter f m" and "terminated s" and "net_inv w"
  shows "if length (cstr s) \<le> m
     then \<exists>ret w'. f (Some s) w = Inr (ret, w') \<and> net_inv w' \<and>
       (ret = ATK_IDE01_EOK \<or> ret = ATK_IDE01_ERROR) \<and> tick w' \<le> tick w + ATK_IDE01_AT_TIMEOUT
     else f (Some s) w = Inl Out_of_bounds"
proof -
  obtain n fmt where n: "quote_fmt fmt" "n < 2046" "n = length fmt + m - 1"
    "f (Some s) w = at_command n fmt [Va_str (Some s)] w"
    using assms(1) by (auto simp: is_setter_def)
  have "length fmt - 2 + length (cstr s) < n \<longleftrightarrow> length (cstr s) \<le> m" using n(1,3) by (auto simp: quote_fmt_def)
  then show ?thesis using at_command_quote [OF n(1) assms(2) n(2) assms(3)] n(4) by auto
qed

definition string_getters :: "(cbuf option \<Rightarrow> net \<Rightarrow> (nat \<times> cbuf option \<times> net) res) list" where
  "string_getters =
     [atk_ide01_get_netmask, atk_ide01_get_gateway, atk_ide01_get_dns, atk_ide01_get_localport,
      atk_ide01_get_remoteport, atk_ide01_get_staticip, atk_ide01_get_version, atk_ide01_get_xcomport,
      atk_ide01_get_cloudport, atk_ide01_get_clouddomain, atk_ide01_get_atklinkpwd,
      atk_ide01_get_atkyundevid, atk_ide01_get_multcastip, atk_ide01_get_multcastport]"

definition is_getter :: "(cbuf option \<Rightarrow> net \<Rightarrow> (nat \<times> cbuf option \<times> net) res) \<Rightarrow> bool" where
  "is_getter f \<longleftrightarrow> (\<exists>n cmd. vfmt cmd [] = Inr cmd \<and> NUL \<notin> set cmd \<and> length cmd < n \<and> n < 2046 \<and>
     (\<forall>s w. f (Some s) w = at_get_string n cmd (Some s) w))"

lemma is_getterI:
  "(\<And>s w. f (Some s) w = at_get_string n cmd (Some s) w) \<Longrightarrow> vfmt cmd [] = Inr cmd \<Longrightarrow>
     NUL \<notin> set cmd \<Longrightarrow> length cmd < n \<Longrightarrow> n < 2046 \<Longrightarrow> is_getter f"
  unfolding is_getter_def by blast

lemma version_Some: "atk_ide01_get_version (Some s) w = at_get_string 12 ''AT+VERSION?'' (Some s) w"
  by (simp add: atk_ide01_get_version_def at_get_string_def cong: option.case_cong)

lemmas getter_defs = atk_ide01_get_netmask_def atk_ide01_get_gateway_def atk_ide01_get_dns_def
  atk_ide01_get_localport_def atk_ide01_get_remoteport_def atk_ide01_get_staticip_def version_Some
  atk_ide01_get_xcomport_def atk_ide01_get_cloudport_def atk_ide01_get_clouddomain_def
  atk_ide01_get_atklinkpwd_def atk_ide01_get_atkyundevid_def atk_ide01_get_multcastip_def
  atk_ide01_get_multcastport_def

lemma string_getters_all: "list_all is_getter string_getters"
  unfolding string_getters_def list.pred_inject
  by (intro conjI list.pred_inject(1); rule is_getterI, rule getter_defs; simp)

section \<open>Properties\<close>


section \<open>Serial parameters\<close>

lemma baudrate_text_facts: "plain (baudrate_text b)" "length (baudrate_text b) < 7" "CHR ''%'' \<notin> set (baudrate_text b)"
  by (cases b; simp add: plain_def)+

lemma stop_text_facts: "plain (stop_text s)" "length (stop_text s) < 2" "CHR ''%'' \<notin> set (stop_text s)"
  by (cases s; simp add: plain_def)+

lemma data_text_facts: "plain (data_text d)" "length (data_text d) < 2" "CHR ''%'' \<notin> set (data_text d)"
  by (cases d; simp add: plain_def)+

lemma parity_text_facts: "plain (parity_text p)" "length (parity_text p) < 5" "CHR ''%'' \<notin> set (parity_text p)"
  by (cases p; simp add: plain_def)+

lemmas uart_text_facts = baudrate_text_facts stop_text_facts data_text_facts parity_text_facts

lemma sprintf_plain:
  assumes "CHR ''%'' \<notin> set t" and "plain t" and "length t < n" and "n < 2048"
  shows "\<exists>b. rt_sprintf (local_array n) t [] = Inr (length t, b) \<and> cstr b = t \<and> terminated b"
  using sprintf_local [of t "[]" t n] vfmt_plain [OF assms(1), of "[]" "[]"] assms by (simp add: plain_def)

lemma set_uart_sends:
  assumes "net_inv w" and "irqs w = [] # [] # rx_irqs ''OK'' # env"
  shows "\<exists>w'. atk_ide01_set_uart (Some b) (Some s) (Some d) (Some p) w = Inr (ATK_IDE01_EOK, w') \<and> net_inv w' \<and>
    tx_log w' = (if tx_busy w then tx_log w else tx_log w @
      [(''AT+UART='' @ at_params [baudrate_text b, stop_text s, data_text d, parity_text p]) @ [CHR 0x0D, CHR 0x0A]])"
proof -
  obtain b' where b: "rt_sprintf (local_array 7) (baudrate_text b) [] = Inr (length (baudrate_text b), b')"
    "cstr b' = baudrate_text b" "terminated b'"
    using sprintf_plain [OF baudrate_text_facts(3,1,2), of b] by auto
  obtain s' where s: "rt_sprintf (local_array 2) (stop_text s) [] = Inr (length (stop_text s), s')"
    "cstr s' = stop_text s" "terminated s'"
    using sprintf_plain [OF stop_text_facts(3,1,2), of s] by auto
  obtain d' where d: "rt_sprintf (local_array 2) (data_text d) [] = Inr (length (data_text d), d')"
    "cstr d' = data_text d" "terminated d'"
    using sprintf_plain [OF data_text_facts(3,1,2), of d] by auto
  obtain p' where p: "rt_sprintf (local_array 5) (parity_text p) [] = Inr (length (parity_text p), p')"
    "cstr p' = parity_text p" "terminated p'"
    using sprintf_plain [OF parity_text_facts(3,1,2), of p] by auto
  let ?fmt = "''AT+UART=\"%s\",\"%s\",\"%s\",\"%s\"''"
  let ?args = "[Va_str (Some b'), Va_str (Some s'), Va_str (Some d'), Va_str (Some p')]"
  let ?ps = "[baudrate_text b, stop_text s, data_text d, parity_text p]"
  let ?t = "''AT+UART='' @ at_params ?ps"
  have t: "vfmt ?fmt ?args = Inr ?t" using b s d p by (simp add: directive_s quoted_def)
  have nn: "NUL \<notin> set ?t" using at_params_no_NUL [of ?ps] uart_text_facts by simp
  have ll: "length ?t < 32"
    using uart_text_facts(2) [of b] uart_text_facts(5) [of s] uart_text_facts(8) [of d] uart_text_facts(11) [of p]
    by (simp add: quoted_def)
  have r: "32 < (2046 :: nat)" "sublist ''OK'' ''OK''" "length ''OK'' < 2048" "NUL \<notin> set ''OK''" by simp_all
  obtain w' where "at_command 32 ?fmt ?args w = Inr (ATK_IDE01_EOK, w')" "net_inv w'"
    "tx_log w' = (if tx_busy w then tx_log w else tx_log w @ [?t @ [CHR 0x0D, CHR 0x0A]])"
    using at_command_reply [OF t nn ll r(1) assms r(2-4)] by blast
  then show ?thesis using b(1) s(1) d(1) p(1) by (simp add: atk_ide01_set_uart_def del: at_params.simps)
qed

lemma get_uart_fields:
  assumes "net_inv w" and "irqs w = [] # [] # rx_irqs (at_reply pre [tb, ts, td, tp] rest) # [] # env"
    and "at_reply_ok pre [tb, ts, td, tp] rest"
    and "length tb < 7" and "length ts < 2" and "length td < 2" and "length tp < 5"
  shows "\<exists>fb w'. net_inv w' \<and> at_query 9 ''AT+UART?'' [] w = Inr (Some fb, w') \<and>
    at_field fb 1 7 baudrate_table = Inr (map_of baudrate_table tb) \<and>
    at_field fb 2 2 [(''1'', ATK_IDE01_UART_STOP_1), (''2'', ATK_IDE01_UART_STOP_2)] =
      Inr (map_of [(''1'', ATK_IDE01_UART_STOP_1), (''2'', ATK_IDE01_UART_STOP_2)] ts) \<and>
    at_field fb 3 2 [(''8'', ATK_IDE01_UART_DATA_8)] = Inr (map_of [(''8'', ATK_IDE01_UART_DATA_8)] td) \<and>
    at_field fb 4 5 [(''NONE'', ATK_IDE01_UART_PARITY_NONE), (''EVEN'', ATK_IDE01_UART_PARITY_EVEN),
        (''ODD'', ATK_IDE01_UART_PARITY_ODD)] =
      Inr (map_of [(''NONE'', ATK_IDE01_UART_PARITY_NONE), (''EVEN'', ATK_IDE01_UART_PARITY_EVEN),
        (''ODD'', ATK_IDE01_UART_PARITY_ODD)] tp)"
proof -
  obtain fb w' where q: "at_query 9 ''AT+UART?'' [] w = Inr (Some fb, w')" "net_inv w'"
    "cstr fb = at_reply pre [tb, ts, td, tp] rest" "terminated fb"
    using at_query_ok [of "''AT+UART?''" 9, OF _ _ _ _ assms(1-3)] by auto
  note f = at_field_kth [OF q(3,4) assms(3)]
  show ?thesis
    using q(1,2) f [of 0 7 baudrate_table] f [of 1 2 "[(''1'', ATK_IDE01_UART_STOP_1), (''2'', ATK_IDE01_UART_STOP_2)]"]
      f [of 2 2 "[(''8'', ATK_IDE01_UART_DATA_8)]"]
      f [of 3 5 "[(''NONE'', ATK_IDE01_UART_PARITY_NONE), (''EVEN'', ATK_IDE01_UART_PARITY_EVEN),
        (''ODD'', ATK_IDE01_UART_PARITY_ODD)]"] assms(4-7)
    by (simp add: baudrate_table_def numeral_eq_Suc)
qed

section \<open>Properties of getters and configuration\<close>



text \<open>
  A reply with an equals sign but without a quoted parameter makes every getter of a text copy from
  an uninitialised index: the missing parameter is reported as found and the index and length the
  copy uses were never assigned.
\<close>
theorem string_getters_uninitialised:
  assumes "f \<in> set string_getters" and "net_inv w"
    and "irqs w = [] # [] # rx_irqs (pre @ CHR ''='' # rest) # [] # env"
    and "plain (pre @ rest)" and "CHR ''='' \<notin> set pre" and "length pre + length rest < 255"
    and "sublist ''OK'' (pre @ CHR ''='' # rest)"
  shows "f (Some dst) w = Inl Uninitialised"
proof -
  let ?r = "pre @ CHR ''='' # rest"
  obtain n cmd where f: "vfmt cmd [] = Inr cmd" "NUL \<notin> set cmd" "length cmd < n" "n < 2046"
    "f (Some dst) w = at_get_string n cmd (Some dst) w"
    using string_getters_all assms(1) by (auto simp: list_all_iff is_getter_def)
  have "NUL \<notin> set ?r" "length ?r < 2048" using assms(4,6) by (auto simp: plain_def)
  then obtain b w' where b: "at_query n cmd [] w = Inr (Some b, w')" "cstr b = ?r" "terminated b"
    using at_query_reply [OF f(1-4) assms(2,3,7)] by blast
  obtain t where "b = ?r @ NUL # t" using terminated_decomp [OF b(3)] b(2) by metis
  then have "atk_ide01_get_parameter b 1 True = Inr (ATK_IDE01_EOK, None, None)"
    using get_parameter_none [of pre rest 1 t] assms(4-6) by (simp add: plain_def)
  then show ?thesis using f(5) b(1) by (simp add: at_get_string_def copy_parameter_def)
qed

theorem string_getters_uninitialised_witness:
  "atk_ide01_get_version (Some (replicate 16 NUL)) (init_net ([] # [] # rx_irqs (''V'' @ CHR ''='' # ''1 OK'') # [] # [])) =
   Inl Uninitialised"
  by (rule string_getters_uninitialised [of _ _ "''V''" "''1 OK''" "[]"])
    (simp_all add: string_getters_def plain_def sublist_Cons_right del: rx_irqs.simps)

text \<open>
  C29. Serial parameters survive the module: for every combination other than the two baud rates 19200
  and 128000, \<open>atk_ide01_set_uart\<close> transmits the command with the four quoted parameters, and
  \<open>atk_ide01_get_uart\<close>, given a reply with these parameters, returns the same four values.
\<close>
theorem uart_config_roundtrip:
  assumes "b \<noteq> ATK_IDE01_UART_BAUDRATE_19200" and "b \<noteq> ATK_IDE01_UART_BAUDRATE_128000"
    and "ps = [baudrate_text b, stop_text s, data_text d, parity_text p]"
    and "net_inv w" and "\<not> tx_busy w" and "irqs w = [] # [] # rx_irqs ''OK'' # env"
    and "net_inv v" and "irqs v = [] # [] # rx_irqs (at_reply pre ps rest) # [] # env'"
    and "at_reply_ok pre ps rest"
  shows "(\<exists>w'. atk_ide01_set_uart (Some b) (Some s) (Some d) (Some p) w = Inr (ATK_IDE01_EOK, w') \<and>
            tx_log w' = tx_log w @ [(''AT+UART='' @ at_params ps) @ [CHR 0x0D, CHR 0x0A]]) \<and>
         (\<exists>v'. atk_ide01_get_uart True True True True v =
            Inr (ATK_IDE01_EOK, (Some b, Some s, Some d, Some p), v'))"
proof
  show "\<exists>w'. atk_ide01_set_uart (Some b) (Some s) (Some d) (Some p) w = Inr (ATK_IDE01_EOK, w') \<and>
            tx_log w' = tx_log w @ [(''AT+UART='' @ at_params ps) @ [CHR 0x0D, CHR 0x0A]]"
    using set_uart_sends [OF assms(4,6), of b s d p] assms(3,5) by auto
  have m: "map_of baudrate_table (baudrate_text b) = Some b"
    "map_of [(''1'', ATK_IDE01_UART_STOP_1), (''2'', ATK_IDE01_UART_STOP_2)] (stop_text s) = Some s"
    "map_of [(''8'', ATK_IDE01_UART_DATA_8)] (data_text d) = Some d"
    "map_of [(''NONE'', ATK_IDE01_UART_PARITY_NONE), (''EVEN'', ATK_IDE01_UART_PARITY_EVEN),
        (''ODD'', ATK_IDE01_UART_PARITY_ODD)] (parity_text p) = Some p"
    using assms(1,2) by (cases b; simp add: baudrate_table_def) (cases s; cases d; cases p; simp)+
  show "\<exists>v'. atk_ide01_get_uart True True True True v =
            Inr (ATK_IDE01_EOK, (Some b, Some s, Some d, Some p), v')"
    using get_uart_fields [OF assms(7,8,9) [unfolded assms(3)] uart_text_facts(2,5,8,11), unfolded m]
    by (auto simp: atk_ide01_get_uart_def)
qed

theorem uart_config_roundtrip_witness:
  "\<exists>w'. atk_ide01_set_uart (Some ATK_IDE01_UART_BAUDRATE_115200) (Some ATK_IDE01_UART_STOP_1) (Some ATK_IDE01_UART_DATA_8)
      (Some ATK_IDE01_UART_PARITY_NONE) (init_net ([] # [] # rx_irqs ''OK'' # [])) = Inr (ATK_IDE01_EOK, w') \<and>
    tx_log w' = [(''AT+UART='' @ at_params [''115200'', ''1'', ''8'', ''NONE'']) @ [CHR 0x0D, CHR 0x0A]]"
  using uart_config_roundtrip [of ATK_IDE01_UART_BAUDRATE_115200 "[''115200'', ''1'', ''8'', ''NONE'']"
      ATK_IDE01_UART_STOP_1 ATK_IDE01_UART_DATA_8 ATK_IDE01_UART_PARITY_NONE
      "init_net ([] # [] # rx_irqs ''OK'' # [])" "[]"
      "init_net ([] # [] # rx_irqs (at_reply ''U'' [''115200'', ''1'', ''8'', ''NONE''] ''OK'') # [] # [])" "''U''" "''OK''" "[]"]
  by (simp add: plain_def at_reply_def at_reply_ok_def quoted_def sublist_Cons_right del: rx_irqs.simps)

text \<open>
  The two baud rates that do not survive: a module running at 19200 baud makes
  \<open>atk_ide01_get_uart\<close> report an error, because the chain of comparisons leaves that rate out; and a
  request for 128000 baud transmits the rate 120000.
\<close>
theorem uart_config_lost_rates:
  assumes "ps = [''19200'', stop_text s, data_text d, parity_text p]"
    and "net_inv w" and "\<not> tx_busy w" and "irqs w = [] # [] # rx_irqs ''OK'' # env"
    and "net_inv v" and "irqs v = [] # [] # rx_irqs (at_reply pre ps rest) # [] # env'"
    and "at_reply_ok pre ps rest"
  shows "(\<exists>v'. atk_ide01_get_uart True True True True v = Inr (ATK_IDE01_ERROR, (None, None, None, None), v')) \<and>
         (\<exists>w'. atk_ide01_set_uart (Some ATK_IDE01_UART_BAUDRATE_128000) (Some s) (Some d) (Some p) w =
             Inr (ATK_IDE01_EOK, w') \<and>
            tx_log w' = tx_log w @ [(''AT+UART='' @ at_params [''120000'', stop_text s, data_text d, parity_text p]) @
              [CHR 0x0D, CHR 0x0A]])"
proof
  have m: "map_of baudrate_table ''19200'' = None" by (simp add: baudrate_table_def)
  show "\<exists>v'. atk_ide01_get_uart True True True True v = Inr (ATK_IDE01_ERROR, (None, None, None, None), v')"
    using get_uart_fields [OF assms(5-7) [unfolded assms(1)] _ uart_text_facts(5,8,11), unfolded m]
    by (auto simp: atk_ide01_get_uart_def)
  show "\<exists>w'. atk_ide01_set_uart (Some ATK_IDE01_UART_BAUDRATE_128000) (Some s) (Some d) (Some p) w =
             Inr (ATK_IDE01_EOK, w') \<and>
            tx_log w' = tx_log w @ [(''AT+UART='' @ at_params [''120000'', stop_text s, data_text d, parity_text p]) @
              [CHR 0x0D, CHR 0x0A]]"
    using set_uart_sends [OF assms(2,4), of ATK_IDE01_UART_BAUDRATE_128000 s d p] assms(3) by auto
qed

theorem uart_config_lost_rates_witness:
  "\<exists>v'. atk_ide01_get_uart True True True True
      (init_net ([] # [] # rx_irqs (at_reply ''U'' [''19200'', ''1'', ''8'', ''NONE''] ''OK'') # [] # [])) =
    Inr (ATK_IDE01_ERROR, (None, None, None, None), v')"
  using uart_config_lost_rates [of "[''19200'', ''1'', ''8'', ''NONE'']"
      ATK_IDE01_UART_STOP_1 ATK_IDE01_UART_DATA_8 ATK_IDE01_UART_PARITY_NONE
      "init_net ([] # [] # rx_irqs ''OK'' # [])" "[]"
      "init_net ([] # [] # rx_irqs (at_reply ''U'' [''19200'', ''1'', ''8'', ''NONE''] ''OK'') # [] # [])" "''U''" "''OK''" "[]"]
  by (simp add: plain_def at_reply_def at_reply_ok_def quoted_def sublist_Cons_right del: rx_irqs.simps)

end
