(* ===== verification/Atk_Values.thy ===== *)
theory Atk_Values
  imports Atk_Net
begin

text \<open>
  Further properties of the module driver: the numeric settings and the range check of the packet
  length, the enumerated states, and the getters that scan the frame themselves (module name and
  remote address).
\<close>

section \<open>Numbers\<close>

lemma plain_dec: "plain (dec n)"
proof -
  have "c \<notin> set (dec n)" if "\<And>d. d < 10 \<Longrightarrow> digit d \<noteq> c" for c using set_dec [of c n] that by metis
  then show ?thesis using digit_facts(6,7) by (simp add: plain_def)
qed

lemma sdec_nat: "sdec (int n) = dec n"
  by (simp add: sdec_def)

lemma sdec_uint: "sdec (uint (n :: 16 word)) = dec (unat n)"
  using sdec_nat [of "unat n"] by simp

lemma uint_ucast16: "uint (ucast (n :: 16 word) :: 32 word) = uint n"
  using uint_lt2p [of n] by (simp add: unsigned_ucast_eq take_bit_int_eq_self_iff)

lemma sint_ucast16: "sint (ucast (n :: 16 word) :: 32 word) = uint n"
proof -
  have "uint n < 65536" using uint_lt2p [of n] by simp
  then show ?thesis using sint32_cases [of "ucast n"] by (simp only: uint_ucast16) simp
qed

lemma unat16: "unat (n :: 16 word) < 65536"
proof -
  have "int (unat n) < 65536" using uint_lt2p [of n] by simp
  then show ?thesis by linarith
qed

lemma length_dec16: "length (dec (unat (n :: 16 word))) \<le> 5"
  using length_dec_le [of "unat n" 4] unat16 [of n] by simp

lemma get_number_reply:
  assumes "vfmt cmd [] = Inr cmd" and "NUL \<notin> set cmd" and "length cmd < n" and "n < 2046"
    and "net_inv w" and "irqs w = [] # [] # rx_irqs (at_reply pre (dec m # ps) rest) # [] # env"
    and "at_reply_ok pre (dec m # ps) rest" and "m < 65536"
  shows "\<exists>w'. at_get_number n cmd True w = Inr (ATK_IDE01_EOK, Some m, w') \<and> net_inv w'"
proof -
  obtain b w' where b: "at_query n cmd [] w = Inr (Some b, w')" "net_inv w'"
    "cstr b = at_reply pre (dec m # ps) rest" "terminated b"
    using at_query_ok [OF assms(1-7)] by blast
  have "length (dec m) < 6" using length_dec_le [of m 4] assms(8) by simp
  then obtain d where "copy_parameter b 1 (local_array 6) = Inr (ATK_IDE01_EOK, d)" "cstr d = dec m"
    using copy_parameter_kth [OF b(3,4) assms(7), of 0 "local_array 6"] by auto
  then show ?thesis using b(1,2) assms(8) atoi_sdec [of "int m"]
    by (simp add: at_get_number_def sdec_nat)
qed

lemma vfmt_packtime:
  "vfmt ''AT+UART_PACKTIME=\"%d\"'' [Va_int (ucast (n :: 16 word))] =
     Inr (''AT+UART_PACKTIME='' @ quoted (dec (unat n)))"
  by (simp add: directive_d sint_ucast16 sdec_uint quoted_def)

lemma vfmt_packlen:
  "vfmt ''AT+UART_PACKLEN=\"%d\"'' [Va_int (ucast (n :: 16 word))] =
     Inr (''AT+UART_PACKLEN='' @ quoted (dec (unat n)))"
  by (simp add: directive_d sint_ucast16 sdec_uint quoted_def)

section \<open>Frames scanned by the getter\<close>

lemma scan_eq_prefix:
  "buf = a @ pre @ CHR ''='' # r \<Longrightarrow> CHR ''='' \<notin> set pre \<Longrightarrow> length a + length pre \<le> len \<Longrightarrow>
     scan_eq buf len (length a) = Inr (length a + length pre)"
proof (induction pre arbitrary: a)
  case Nil
  then show ?case by (simp add: scan_eq.simps)
next
  case (Cons c pre)
  have "scan_eq buf len (length (a @ [c])) = Inr (length (a @ [c]) + length pre)"
    by (rule Cons.IH) (use Cons.prems in auto)
  moreover have "length a < length buf" "buf ! length a = c" using Cons.prems(1) by (auto simp: nth_append)
  ultimately show ?case using Cons.prems(2,3) by (subst scan_eq.simps) auto
qed

lemma scan_crlf_prefix:
  "buf = a @ s @ CHR 0x0D # r \<Longrightarrow> CHR 0x0D \<notin> set s \<Longrightarrow> CHR 0x0A \<notin> set s \<Longrightarrow> length a + length s \<le> len \<Longrightarrow>
     scan_crlf buf len (length a) = Inr (length a + length s)"
proof (induction s arbitrary: a)
  case Nil
  then show ?case by (simp add: scan_crlf.simps)
next
  case (Cons c s)
  have "scan_crlf buf len (length (a @ [c])) = Inr (length (a @ [c]) + length s)"
    by (rule Cons.IH) (use Cons.prems in auto)
  moreover have "length a + 1 < length buf" "buf ! length a = c" "buf ! (length a + 1) \<noteq> CHR 0x0A"
    using Cons.prems(1,3) by (cases s; auto simp: nth_append)+
  ultimately show ?case using Cons.prems(2-4) by (subst scan_crlf.simps) auto
qed

definition scan_reply :: "string \<Rightarrow> string \<Rightarrow> string \<Rightarrow> string" where
  "scan_reply pre v rest = pre @ CHR ''='' # v @ CHR 0x0D # rest"

definition scan_reply_ok :: "string \<Rightarrow> string \<Rightarrow> string \<Rightarrow> bool" where
  "scan_reply_ok pre v rest \<longleftrightarrow> CHR ''='' \<notin> set pre \<and> NUL \<notin> set (pre @ v @ rest) \<and>
     CHR 0x0D \<notin> set v \<and> CHR 0x0A \<notin> set v \<and> length (scan_reply pre v rest) < ATK_IDE01_UART_RX_BUF_SIZE \<and>
     sublist ''OK'' (scan_reply pre v rest)"

lemma scan_value_reply:
  assumes "buf = scan_reply pre v rest @ t" and "scan_reply_ok pre v rest" and "len = length (scan_reply pre v rest)"
  shows "scan_value buf len = Inr (Some (length pre + 2, length pre + 1 + length v))"
proof -
  have buf: "buf = pre @ CHR ''='' # v @ CHR 0x0D # rest @ t" using assms(1) by (simp add: scan_reply_def)
  have "scan_eq buf len 0 = Inr (length pre)"
    using scan_eq_prefix [of buf "[]" pre "v @ CHR 0x0D # rest @ t" len] buf assms(2,3)
    by (simp add: scan_reply_ok_def scan_reply_def)
  moreover have "scan_crlf buf len (length pre) = Inr (length pre + length (CHR ''='' # v))"
    by (rule scan_crlf_prefix [of buf pre _ "rest @ t"])
      (use buf assms(2,3) in \<open>auto simp: scan_reply_ok_def scan_reply_def\<close>)
  moreover have "buf ! length pre = CHR ''=''" "buf ! (length pre + length (CHR ''='' # v)) = CHR 0x0D"
    "length pre + length (CHR ''='' # v) < length buf"
    by (simp_all add: buf nth_append)
  ultimately show ?thesis by (simp add: scan_value_def)
qed

lemma at_frame_reply:
  assumes "vfmt cmd [] = Inr cmd" and "NUL \<notin> set cmd" and "length cmd < n" and "n < 2046" and "net_inv w"
    and "irqs w = [] # [] # rx_irqs (scan_reply pre v rest) # [] # [] # env" and "scan_reply_ok pre v rest"
  shows "\<exists>t w'. at_frame n cmd w =
      Inr (Some (scan_reply pre v rest @ NUL # t, length (scan_reply pre v rest)), w') \<and> net_inv w'"
proof -
  have "NUL \<notin> set (scan_reply pre v rest)" using assms(7) by (auto simp: scan_reply_ok_def scan_reply_def)
  then obtain b w1 where w1: "at_query n cmd [] w = Inr (Some b, w1)" "net_inv w1" "irqs w1 = [] # env"
    "cstr b = scan_reply pre v rest" "terminated b" "rx_buf w1 = b" "rx_len w1 = length (scan_reply pre v rest)"
    "rx_finsh w1"
    using at_query_reply [OF assms(1-6)] assms(7) by (auto simp: scan_reply_ok_def)
  obtain t where "b = scan_reply pre v rest @ NUL # t" using terminated_decomp [OF w1(5)] w1(4) by metis
  then show ?thesis using w1
    by (auto simp: at_frame_def atk_ide01_uart_rx_get_frame_len_def irq_point_def net_inv_def)
qed

lemma memcpy_loop_oob:
  "length src < off + len \<or> length dst < off + len \<Longrightarrow> 0 < len \<Longrightarrow> memcpy_loop 1 off len dst src = Inl Out_of_bounds"
proof (induction len arbitrary: off dst)
  case (Suc len)
  show ?case
  proof (cases "off < length src \<and> off < length dst")
    case True
    let ?d = "overwrite dst off (take 1 (drop off src))"
    have "memcpy_loop 1 (Suc off) len ?d src = Inl Out_of_bounds"
      using Suc.IH [of "Suc off" ?d] Suc.prems True by auto
    moreover have "slice src off 1 = Inr (take 1 (drop off src))" "blit dst off (take 1 (drop off src)) = Inr ?d"
      using True by (auto simp: blit_def)
    ultimately show ?thesis by (subst memcpy_loop.simps) simp
  next
    case False
    then show ?thesis by (subst memcpy_loop.simps) (auto simp: slice_def blit_def)
  qed
qed simp

lemma rt_memcpy_oob: "length src < n \<or> length dst < n \<Longrightarrow> rt_memcpy True dst src n = Inl Out_of_bounds"
  using memcpy_loop_oob [of src 0 n dst] by (auto simp: rt_memcpy_def)

lemma get_scanned_reply:
  assumes "vfmt cmd [] = Inr cmd" and "NUL \<notin> set cmd" and "length cmd < n" and "n < 2046" and "net_inv w"
    and "irqs w = [] # [] # rx_irqs (scan_reply pre (c # v) rest) # [] # [] # env"
    and "scan_reply_ok pre (c # v) rest" and "length v < length dst"
  shows "\<exists>d w'. at_get_scanned n cmd (Some dst) w = Inr (ATK_IDE01_EOK, Some d, w') \<and> cstr d = v \<and> net_inv w'"
proof -
  let ?r = "scan_reply pre (c # v) rest"
  obtain t w' where w': "at_frame n cmd w = Inr (Some (?r @ NUL # t, length ?r), w')" "net_inv w'"
    using at_frame_reply [OF assms(1-7)] by blast
  have s: "scan_value (?r @ NUL # t) (length ?r) = Inr (Some (length pre + 2, length pre + 1 + length (c # v)))"
    by (rule scan_value_reply [OF refl assms(7) refl])
  have l: "nat ((int (length pre + 1 + length (c # v)) - int (length pre + 2)) mod 65536) = length v"
    using assms(7) by (simp add: scan_reply_ok_def scan_reply_def)
  let ?d = "overwrite dst 0 v"
  have "take (length v) (drop (length pre + 2) (?r @ NUL # t)) = v" by (simp add: scan_reply_def)
  then have m: "rt_memcpy True dst (drop (length pre + 2) (?r @ NUL # t)) (length v) = Inr ?d"
    using rt_memcpy_True [of "length v" "drop (length pre + 2) (?r @ NUL # t)" dst] assms(8)
    by (simp add: scan_reply_def)
  have "?d[length v := NUL] = v @ NUL # drop (Suc (length v)) dst"
    using assms(8) by (simp add: overwrite_def list_update_append Cons_nth_drop_Suc [symmetric])
  moreover have "NUL \<notin> set v" using assms(7) by (simp add: scan_reply_ok_def)
  moreover have "at_get_scanned n cmd (Some dst) w = Inr (ATK_IDE01_EOK, Some (?d[length v := NUL]), w')"
    unfolding at_get_scanned_def option.case w'(1) bnd_Inr prod.case s Let_def l m using assms(8) by simp
  ultimately show ?thesis using w'(2) by auto
qed

lemma get_enum_reply:
  assumes "vfmt cmd [] = Inr cmd" and "NUL \<notin> set cmd" and "length cmd < n" and "n < 2046"
    and "net_inv w" and "irqs w = [] # [] # rx_irqs (at_reply pre [t] rest) # [] # env" and "at_reply_ok pre [t] rest"
    and "length t < l" and "\<forall>(s, e)\<in>set table. NUL \<notin> set s" and "map_of table t = Some e"
  shows "\<exists>w'. at_get_enum n cmd l table True w = Inr (ATK_IDE01_EOK, Some e, w')"
proof -
  obtain b w' where b: "at_query n cmd [] w = Inr (Some b, w')" "cstr b = at_reply pre [t] rest" "terminated b"
    using at_query_ok [OF assms(1-7)] by blast
  obtain d where d: "copy_parameter b 1 (local_array l) = Inr (ATK_IDE01_EOK, d)" "cstr d = t" "terminated d"
    using copy_parameter_kth [OF b(2,3) assms(7), of 0 "local_array l"] assms(8) by auto
  then show ?thesis using b(1) strcmp_switch_spec [OF d(3) assms(9)] assms(10) by (simp add: at_get_enum_def)
qed

section \<open>Properties\<close>

text \<open>
  The packet time survives the module: for every 16-bit value the setter transmits it in decimal,
  between quotes, in an array that just fits the largest value, and the getter reads the same value
  out of a reply that carries it.
\<close>
theorem uartpacktime_roundtrip:
  assumes "net_inv w" and "\<not> tx_busy w" and "irqs w = [] # [] # rx_irqs ''OK'' # env"
    and "net_inv v" and "irqs v = [] # [] # rx_irqs (at_reply pre [dec (unat n)] rest) # [] # env'"
    and "at_reply_ok pre [dec (unat n)] rest"
  shows "(\<exists>w'. atk_ide01_set_uartpacktime n w = Inr (ATK_IDE01_EOK, w') \<and>
            tx_log w' = tx_log w @ [(''AT+UART_PACKTIME='' @ quoted (dec (unat n))) @ [CHR 0x0D, CHR 0x0A]]) \<and>
         (\<exists>v'. atk_ide01_get_uartpacktime True v = Inr (ATK_IDE01_EOK, Some (unat n), v'))"
proof
  have r: "NUL \<notin> set (''AT+UART_PACKTIME='' @ quoted (dec (unat n)))"
    "length (''AT+UART_PACKTIME='' @ quoted (dec (unat n))) < 25" "25 < (2046 :: nat)"
    "sublist ''OK'' ''OK''" "length ''OK'' < 2048" "NUL \<notin> set ''OK''"
    using plain_dec [of "unat n"] length_dec16 [of n] by (simp_all add: quoted_def plain_def)
  show "\<exists>w'. atk_ide01_set_uartpacktime n w = Inr (ATK_IDE01_EOK, w') \<and>
      tx_log w' = tx_log w @ [(''AT+UART_PACKTIME='' @ quoted (dec (unat n))) @ [CHR 0x0D, CHR 0x0A]]"
    unfolding atk_ide01_set_uartpacktime_def
    using at_command_reply [OF vfmt_packtime r(1-3) assms(1,3) r(4-6)] assms(2) by auto
  show "\<exists>v'. atk_ide01_get_uartpacktime True v = Inr (ATK_IDE01_EOK, Some (unat n), v')"
    using get_number_reply [of "''AT+UART_PACKTIME?''" 18, OF _ _ _ _ assms(4-6)] unat16 [of n]
    by (auto simp: atk_ide01_get_uartpacktime_def)
qed

theorem uartpacktime_roundtrip_witness:
  "\<exists>w'. atk_ide01_set_uartpacktime 7 (init_net ([] # [] # rx_irqs ''OK'' # [])) = Inr (ATK_IDE01_EOK, w') \<and>
     tx_log w' = [(''AT+UART_PACKTIME='' @ quoted (dec 7)) @ [CHR 0x0D, CHR 0x0A]]"
  using uartpacktime_roundtrip [of "init_net ([] # [] # rx_irqs ''OK'' # [])" "[]"
      "init_net ([] # [] # rx_irqs (at_reply ''P'' [dec (unat (7 :: 16 word))] ''OK'') # [] # [])" "''P''" 7 "''OK''" "[]"]
    plain_dec [of 7]
  by (simp add: at_reply_def at_reply_ok_def quoted_def dec.simps [of 7] sublist_Cons_right del: rx_irqs.simps)

text \<open>
  The packet length is checked: outside 1 to 1450 the setter reports an invalid argument and leaves
  the port untouched; inside, the command fits its array and the call ends with success or an error
  within the timeout.
\<close>
theorem uartpacklen_range:
  assumes "net_inv w"
  shows "if 1 \<le> unat n \<and> unat n \<le> 1450
     then \<exists>ret w'. atk_ide01_set_uartpacklen n w = Inr (ret, w') \<and> net_inv w' \<and>
       (ret = ATK_IDE01_EOK \<or> ret = ATK_IDE01_ERROR) \<and> tick w' \<le> tick w + ATK_IDE01_AT_TIMEOUT
     else atk_ide01_set_uartpacklen n w = Inr (ATK_IDE01_EINVAL, w)"
proof -
  have g: "n < 1 \<or> n > 1450 \<longleftrightarrow> \<not> (1 \<le> unat n \<and> unat n \<le> 1450)" by (auto simp: word_less_nat_alt)
  have r: "NUL \<notin> set (''AT+UART_PACKLEN='' @ quoted (dec (unat n)))"
    using plain_dec [of "unat n"] by (simp add: quoted_def plain_def)
  have l: "length (''AT+UART_PACKLEN='' @ quoted (dec (unat n))) < 24" if "unat n \<le> 1450"
    using length_dec_le [of "unat n" 3] that by (simp add: quoted_def)
  show ?thesis
    using at_command_total [OF vfmt_packlen r, of 24 w] l assms g
    by (auto simp: atk_ide01_set_uartpacklen_def)
qed

theorem uartpacklen_range_witness:
  "atk_ide01_set_uartpacklen 1451 (init_net []) = Inr (ATK_IDE01_EINVAL, init_net [])"
  using uartpacklen_range [OF net_inv_init, of 1451 "[]"] by simp

text \<open>
  The module name and the remote address, end to end: if the reply has an equals sign, one further
  character and the value up to a carriage return, then the name and address getters store exactly the
  value, and the size reported by \<open>atk_ide01_get_moduname_len\<close> is the size the name getter needs, with
  its terminator.
\<close>
theorem scanned_getters_correct:
  assumes "net_inv w" and "irqs w = [] # [] # rx_irqs (scan_reply pre (c # v) rest) # [] # [] # env"
    and "scan_reply_ok pre (c # v) rest" and "length v < length dst"
  shows "(\<exists>w'. atk_ide01_get_moduname_len True w = Inr (ATK_IDE01_EOK, Some (length v + 1), w')) \<and>
         (\<exists>d w'. atk_ide01_get_moduname (Some dst) w = Inr (ATK_IDE01_EOK, Some d, w') \<and> cstr d = v) \<and>
         (\<exists>d w'. atk_ide01_get_remoteip (Some dst) w = Inr (ATK_IDE01_EOK, Some d, w') \<and> cstr d = v)"
proof (intro conjI)
  let ?r = "scan_reply pre (c # v) rest"
  obtain t w' where w': "at_frame 13 ''AT+MODUNAME?'' w = Inr (Some (?r @ NUL # t, length ?r), w')"
    using at_frame_reply [of "''AT+MODUNAME?''" 13, OF _ _ _ _ assms(1-3)] by auto
  have "scan_value (?r @ NUL # t) (length ?r) = Inr (Some (length pre + 2, length pre + 1 + length (c # v)))"
    by (rule scan_value_reply [OF refl assms(3) refl])
  moreover have "length v < 65535" using assms(3) by (simp add: scan_reply_ok_def scan_reply_def)
  ultimately show "\<exists>w'. atk_ide01_get_moduname_len True w = Inr (ATK_IDE01_EOK, Some (length v + 1), w')"
    using w' by (simp add: atk_ide01_get_moduname_len_def nat_add_distrib)
  show "\<exists>d w'. atk_ide01_get_moduname (Some dst) w = Inr (ATK_IDE01_EOK, Some d, w') \<and> cstr d = v"
    "\<exists>d w'. atk_ide01_get_remoteip (Some dst) w = Inr (ATK_IDE01_EOK, Some d, w') \<and> cstr d = v"
    unfolding atk_ide01_get_moduname_def atk_ide01_get_remoteip_def
    using get_scanned_reply [of "''AT+MODUNAME?''" 13, OF _ _ _ _ assms]
      get_scanned_reply [of "''AT+REMOTEIP?''" 13, OF _ _ _ _ assms] by auto
qed

theorem scanned_getters_correct_witness:
  "\<exists>w'. atk_ide01_get_moduname_len True
      (init_net ([] # [] # rx_irqs (scan_reply ''N'' (CHR 0x22 # ''ATK'') ''OK'') # [] # [] # [])) =
    Inr (ATK_IDE01_EOK, Some 4, w')"
  using scanned_getters_correct [of "init_net ([] # [] # rx_irqs (scan_reply ''N'' (CHR 0x22 # ''ATK'') ''OK'') # [] # [] # [])"
      "''N''" "CHR 0x22" "''ATK''" "''OK''" "[]" "replicate 4 NUL"]
  by (simp add: scan_reply_def scan_reply_ok_def sublist_Cons_right numeral_eq_Suc del: rx_irqs.simps)

text \<open>
  An empty value overruns the caller's buffer: when the carriage return follows the equals sign
  directly, the 16-bit difference of the two indices wraps around to 65535 and the name and address
  getters copy that many bytes.
\<close>
theorem scanned_getters_empty_value:
  assumes "net_inv w" and "irqs w = [] # [] # rx_irqs (scan_reply pre [] rest) # [] # [] # env"
    and "scan_reply_ok pre [] rest" and "length dst < 65535"
  shows "atk_ide01_get_moduname (Some dst) w = Inl Out_of_bounds \<and>
         atk_ide01_get_remoteip (Some dst) w = Inl Out_of_bounds"
proof -
  have *: "at_get_scanned 13 cmd (Some dst) w = Inl Out_of_bounds"
    if c: "vfmt cmd [] = Inr cmd" "NUL \<notin> set cmd" "length cmd < 13" for cmd
  proof -
    let ?r = "scan_reply pre [] rest"
    obtain t w' where w': "at_frame 13 cmd w = Inr (Some (?r @ NUL # t, length ?r), w')"
      using at_frame_reply [OF c _ assms(1-3)] by auto
    have s: "scan_value (?r @ NUL # t) (length ?r) = Inr (Some (length pre + 2, length pre + 1))"
      using scan_value_reply [OF refl assms(3) refl, of "NUL # t"] by simp
    have l: "nat ((int (length pre + 1) - int (length pre + 2)) mod 65536) = 65535" by simp
    show ?thesis unfolding at_get_scanned_def option.case w' bnd_Inr prod.case s Let_def l
      using rt_memcpy_oob [of _ 65535 dst] assms(4) by simp
  qed
  show ?thesis using * [of "''AT+MODUNAME?''"] * [of "''AT+REMOTEIP?''"]
    by (simp add: atk_ide01_get_moduname_def atk_ide01_get_remoteip_def)
qed

theorem scanned_getters_empty_value_witness:
  "atk_ide01_get_moduname (Some (replicate 32 NUL))
     (init_net ([] # [] # rx_irqs (scan_reply ''N'' [] ''OK'') # [] # [] # [])) = Inl Out_of_bounds"
  using scanned_getters_empty_value [of "init_net ([] # [] # rx_irqs (scan_reply ''N'' [] ''OK'') # [] # [] # [])"
      "''N''" "''OK''" "[]" "replicate 32 NUL"]
  by (simp add: scan_reply_def scan_reply_ok_def sublist_Cons_right del: rx_irqs.simps)

text \<open>
  The enumerated settings survive the module: for the working mode, the echo, DHCP and cloud
  switches, the getter maps a reply that carries the name the setter transmits back to the same value.
\<close>
theorem enum_settings_roundtrip:
  assumes "net_inv w" and "irqs w = [] # [] # rx_irqs (at_reply pre [t] rest) # [] # env" and "at_reply_ok pre [t] rest"
  shows "(t = ethmod_name m \<longrightarrow> (\<exists>w'. atk_ide01_get_ethmod True w = Inr (ATK_IDE01_EOK, Some m, w'))) \<and>
         (t = echo_name e \<longrightarrow> (\<exists>w'. atk_ide01_get_echo True w = Inr (ATK_IDE01_EOK, Some e, w'))) \<and>
         (t = dhcp_name h \<longrightarrow> (\<exists>w'. atk_ide01_get_dhcp True w = Inr (ATK_IDE01_EOK, Some h, w'))) \<and>
         (t = cloudlink_name k \<longrightarrow> (\<exists>w'. atk_ide01_get_cloudlinken True w = Inr (ATK_IDE01_EOK, Some k, w')))"
proof (intro conjI impI)
  assume t: "t = ethmod_name m"
  show "\<exists>w'. atk_ide01_get_ethmod True w = Inr (ATK_IDE01_EOK, Some m, w')"
    unfolding atk_ide01_get_ethmod_def by (rule get_enum_reply [OF _ _ _ _ assms]) (cases m; simp add: t)+
next
  assume t: "t = echo_name e"
  show "\<exists>w'. atk_ide01_get_echo True w = Inr (ATK_IDE01_EOK, Some e, w')"
    unfolding atk_ide01_get_echo_def by (rule get_enum_reply [OF _ _ _ _ assms]) (cases e; simp add: t)+
next
  assume t: "t = dhcp_name h"
  show "\<exists>w'. atk_ide01_get_dhcp True w = Inr (ATK_IDE01_EOK, Some h, w')"
    unfolding atk_ide01_get_dhcp_def by (rule get_enum_reply [OF _ _ _ _ assms]) (cases h; simp add: t)+
next
  assume t: "t = cloudlink_name k"
  show "\<exists>w'. atk_ide01_get_cloudlinken True w = Inr (ATK_IDE01_EOK, Some k, w')"
    unfolding atk_ide01_get_cloudlinken_def by (rule get_enum_reply [OF _ _ _ _ assms]) (cases k; simp add: t)+
qed

theorem enum_settings_roundtrip_witness:
  "\<exists>w'. atk_ide01_get_ethmod True (init_net ([] # [] # rx_irqs (at_reply ''M'' [''TCP_CLIENT''] ''OK'') # [] # [])) =
     Inr (ATK_IDE01_EOK, Some ATK_IDE01_ETHMOD_TCP_CLIENT, w')"
  using enum_settings_roundtrip [of "init_net ([] # [] # rx_irqs (at_reply ''M'' [''TCP_CLIENT''] ''OK'') # [] # [])"
      "''M''" "''TCP_CLIENT''" "''OK''" "[]" ATK_IDE01_ETHMOD_TCP_CLIENT]
  by (simp add: plain_def at_reply_def at_reply_ok_def quoted_def sublist_Cons_right del: rx_irqs.simps)

end
