(* ===== verification/Jsmn.thy ===== *)
theory Jsmn
  imports Prelude
begin

text \<open>
  The JSON tokenizer (\<^verbatim>\<open>src/applications/json_deal/jsmn.c\<close>, with \<open>JSMN_PARENT_LINKS\<close> and without
  \<open>JSMN_STRICT\<close>): \<open>jsmn_alloc_token\<close>, \<open>jsmn_fill_token\<close>, \<open>jsmn_parse_primitive\<close>,
  \<open>jsmn_parse_string\<close>, \<open>jsmn_parse\<close>, \<open>jsmn_init\<close>.

  The text is the object \<open>js\<close> with the length \<open>len\<close> the caller passes; the token array is
  \<open>None\<close> for the null pointer. Positions never exceed \<open>len\<close> and are decremented only after an
  increment, so natural numbers stand for the unsigned fields. The loop that walks the parent links of
  a closing bracket is bounded by the number of tokens; running out is the fault \<open>Diverges\<close>, which the
  invariant \<open>jsmn_inv\<close> excludes.
\<close>

section \<open>Data\<close>

datatype jsmntype_t = JSMN_UNDEFINED | JSMN_OBJECT | JSMN_ARRAY | JSMN_STRING | JSMN_PRIMITIVE

record jsmntok_t =
  ttype :: jsmntype_t
  tstart :: int
  tend :: int
  tsize :: int
  tparent :: int

record jsmn_parser =
  pos :: nat
  toknext :: nat
  toksuper :: int

abbreviation JSMN_ERROR_NOMEM :: int where "JSMN_ERROR_NOMEM \<equiv> -1"
abbreviation JSMN_ERROR_INVAL :: int where "JSMN_ERROR_INVAL \<equiv> -2"
abbreviation JSMN_ERROR_PART :: int where "JSMN_ERROR_PART \<equiv> -3"

type_synonym toks = "jsmntok_t list"

definition jsmn_init :: jsmn_parser where
  "jsmn_init = \<lparr>pos = 0, toknext = 0, toksuper = -1\<rparr>"

section \<open>Tokens\<close>

definition jsmn_alloc_token :: "jsmn_parser \<Rightarrow> toks \<Rightarrow> nat \<Rightarrow> (nat option \<times> jsmn_parser \<times> toks) res" where
  "jsmn_alloc_token parser tokens num_tokens =
     (if toknext parser \<ge> num_tokens then Inr (None, parser, tokens)
      else bnd (fetch tokens (toknext parser)) (\<lambda>t.
           Inr (Some (toknext parser), parser\<lparr>toknext := toknext parser + 1\<rparr>,
             tokens[toknext parser := t\<lparr>tstart := -1, tend := -1, tsize := 0, tparent := -1\<rparr>])))"

definition jsmn_fill_token :: "jsmntok_t \<Rightarrow> jsmntype_t \<Rightarrow> int \<Rightarrow> int \<Rightarrow> jsmntok_t" where
  "jsmn_fill_token token type start fin = token\<lparr>ttype := type, tstart := start, tend := fin, tsize := 0\<rparr>"

definition incr_super :: "int \<Rightarrow> toks \<Rightarrow> toks res" where
  \<comment> \<open>\<open>tokens[parser->toksuper].size++\<close>, for a superior other than -1\<close>
  "incr_super super tokens =
     (if super \<noteq> -1
      then bnd (fetch tokens (nat super)) (\<lambda>t. store tokens (nat super) (t\<lparr>tsize := tsize t + 1\<rparr>))
      else Inr tokens)"

section \<open>Primitives and strings\<close>

definition delim :: "char \<Rightarrow> bool" where
  "delim c \<longleftrightarrow> c = CHR '':'' \<or> c = CHR 0x09 \<or> c = CHR 0x0D \<or> c = CHR 0x0A \<or> c = CHR '' '' \<or>
     c = CHR '','' \<or> c = CHR '']'' \<or> c = CHR ''}''"

function prim_scan :: "cbuf \<Rightarrow> nat \<Rightarrow> nat \<Rightarrow> nat option res" where
  \<comment> \<open>the loop of \<open>jsmn_parse_primitive\<close>: the position behind the primitive, \<open>None\<close> for an invalid byte\<close>
  "prim_scan js len p =
     (if p < len
      then bnd (fetch js p) (\<lambda>c.
           if c = NUL \<or> delim c then Inr (Some p)
           else if (of_char c :: nat) < 32 \<or> (of_char c :: nat) \<ge> 127 then Inr None
           else prim_scan js len (p + 1))
      else Inr (Some p))"
  by pat_completeness auto
termination by (relation "measure (\<lambda>(js, len, p). len - p)") auto

declare prim_scan.simps [simp del]

definition new_token ::
  "jsmntype_t \<Rightarrow> int \<Rightarrow> int \<Rightarrow> jsmn_parser \<Rightarrow> toks \<Rightarrow> nat \<Rightarrow> (jsmn_parser \<times> toks) option res" where
  \<comment> \<open>allocate, fill and link a token, as both sub-parsers do; \<open>None\<close>: no token is left\<close>
  "new_token type start fin parser tokens num_tokens =
     bnd (jsmn_alloc_token parser tokens num_tokens) (\<lambda>(token, parser', tokens').
     case token of
       None \<Rightarrow> Inr None
     | Some k \<Rightarrow>
         bnd (fetch tokens' k) (\<lambda>t.
         bnd (store tokens' k ((jsmn_fill_token t type start fin)\<lparr>tparent := toksuper parser\<rparr>)) (\<lambda>ts.
         Inr (Some (parser', ts)))))"

definition jsmn_parse_primitive ::
  "jsmn_parser \<Rightarrow> cbuf \<Rightarrow> nat \<Rightarrow> toks option \<Rightarrow> nat \<Rightarrow> (int \<times> jsmn_parser \<times> toks option) res" where
  "jsmn_parse_primitive parser js len tokens num_tokens =
     bnd (prim_scan js len (pos parser)) (\<lambda>r.
     case r of
       None \<Rightarrow> Inr (JSMN_ERROR_INVAL, parser, tokens)
     | Some p \<Rightarrow>
         (case tokens of
            None \<Rightarrow> Inr (0, parser\<lparr>pos := p - 1\<rparr>, None)
          | Some ts \<Rightarrow>
              bnd (new_token JSMN_PRIMITIVE (int (pos parser)) (int p) parser ts num_tokens) (\<lambda>r.
              case r of
                None \<Rightarrow> Inr (JSMN_ERROR_NOMEM, parser, tokens)
              | Some (parser', ts) \<Rightarrow> Inr (0, parser'\<lparr>pos := p - 1\<rparr>, Some ts))))"

definition ishex :: "char \<Rightarrow> bool" where
  "ishex c \<longleftrightarrow> 48 \<le> (of_char c :: nat) \<and> (of_char c :: nat) \<le> 57 \<or>
     65 \<le> (of_char c :: nat) \<and> (of_char c :: nat) \<le> 70 \<or> 97 \<le> (of_char c :: nat) \<and> (of_char c :: nat) \<le> 102"

fun hex_scan :: "cbuf \<Rightarrow> nat \<Rightarrow> nat \<Rightarrow> nat \<Rightarrow> nat option res" where
  \<comment> \<open>the loop over the four digits of a \<open>\\u\<close> escape; \<open>None\<close>: not a hex digit\<close>
  "hex_scan js len 0 p = Inr (Some p)"
| "hex_scan js len (Suc n) p =
     (if p < len
      then bnd (fetch js p) (\<lambda>c.
           if c = NUL then Inr (Some p)
           else if ishex c then hex_scan js len n (p + 1) else Inr None)
      else Inr (Some p))"

lemma hex_scan_ge: "hex_scan js len n p = Inr (Some q) \<Longrightarrow> p \<le> q \<and> (p \<le> len \<longrightarrow> q \<le> len)"
  by (induction js len n p rule: hex_scan.induct) (force simp: bnd_eq_Inr split: if_splits)+

datatype str_result = Str_end nat | Str_inval | Str_part

definition simple_escape :: "char \<Rightarrow> bool" where
  "simple_escape c \<longleftrightarrow> c = CHR 0x22 \<or> c = CHR ''/'' \<or> c = CHR 0x5C \<or> c = CHR ''b'' \<or> c = CHR ''f'' \<or>
     c = CHR ''r'' \<or> c = CHR ''n'' \<or> c = CHR ''t''"

function str_scan :: "cbuf \<Rightarrow> nat \<Rightarrow> nat \<Rightarrow> str_result res" where
  \<comment> \<open>the loop of \<open>jsmn_parse_string\<close>, from behind the opening quote\<close>
  "str_scan js len p =
     (if p < len
      then bnd (fetch js p) (\<lambda>c.
           if c = NUL then Inr Str_part
           else if c = CHR 0x22 then Inr (Str_end p)
           else if c = CHR 0x5C \<and> p + 1 < len
           then bnd (fetch js (p + 1)) (\<lambda>d.
                if simple_escape d then str_scan js len (p + 2)
                else if d = CHR ''u''
                then bnd (hex_scan js len 4 (p + 2)) (\<lambda>r.
                     case r of None \<Rightarrow> Inr Str_inval | Some q \<Rightarrow> str_scan js len q)
                else Inr Str_inval)
           else str_scan js len (p + 1))
      else Inr Str_part)"
  by pat_completeness auto
termination by (relation "measure (\<lambda>(js, len, p). len - p)") (auto dest!: hex_scan_ge)

declare str_scan.simps [simp del]

definition jsmn_parse_string ::
  "jsmn_parser \<Rightarrow> cbuf \<Rightarrow> nat \<Rightarrow> toks option \<Rightarrow> nat \<Rightarrow> (int \<times> jsmn_parser \<times> toks option) res" where
  "jsmn_parse_string parser js len tokens num_tokens =
     bnd (str_scan js len (pos parser + 1)) (\<lambda>r.
     case r of
       Str_inval \<Rightarrow> Inr (JSMN_ERROR_INVAL, parser, tokens)
     | Str_part \<Rightarrow> Inr (JSMN_ERROR_PART, parser, tokens)
     | Str_end p \<Rightarrow>
         (case tokens of
            None \<Rightarrow> Inr (0, parser\<lparr>pos := p\<rparr>, None)
          | Some ts \<Rightarrow>
              bnd (new_token JSMN_STRING (int (pos parser) + 1) (int p) parser ts num_tokens) (\<lambda>r.
              case r of
                None \<Rightarrow> Inr (JSMN_ERROR_NOMEM, parser, tokens)
              | Some (parser', ts) \<Rightarrow> Inr (0, parser'\<lparr>pos := p\<rparr>, Some ts))))"

section \<open>The parser\<close>

fun close_scan :: "nat \<Rightarrow> jsmntype_t \<Rightarrow> jsmn_parser \<Rightarrow> toks \<Rightarrow> nat \<Rightarrow> (jsmn_parser \<times> toks) option res" where
  \<comment> \<open>the loop of a closing bracket, up the parent links; \<open>None\<close>: \<open>JSMN_ERROR_INVAL\<close>\<close>
  "close_scan 0 type parser tokens k = Inl Diverges"
| "close_scan (Suc fuel) type parser tokens k =
     bnd (fetch tokens k) (\<lambda>t.
     if tstart t \<noteq> -1 \<and> tend t = -1
     then if ttype t \<noteq> type then Inr None
          else Inr (Some (parser\<lparr>toksuper := tparent t\<rparr>, tokens[k := t\<lparr>tend := int (pos parser) + 1\<rparr>]))
     else if tparent t = -1
     then if ttype t \<noteq> type \<or> toksuper parser = -1 then Inr None else Inr (Some (parser, tokens))
     else close_scan fuel type parser tokens (nat (tparent t)))"

type_synonym pstate = "jsmn_parser \<times> toks option \<times> int"

definition open_bracket :: "char \<Rightarrow> jsmn_parser \<Rightarrow> toks \<Rightarrow> nat \<Rightarrow> (jsmn_parser \<times> toks) option res" where
  "open_bracket c parser tokens num_tokens =
     bnd (jsmn_alloc_token parser tokens num_tokens) (\<lambda>(token, parser', tokens').
     case token of
       None \<Rightarrow> Inr None
     | Some k \<Rightarrow>
         bnd (incr_super (toksuper parser') tokens') (\<lambda>ts.
         bnd (fetch ts k) (\<lambda>t.
         Inr (Some (parser'\<lparr>toksuper := int (toknext parser') - 1\<rparr>,
           ts[k := t\<lparr>tparent := (if toksuper parser' \<noteq> -1 then toksuper parser' else tparent t),
                      ttype := (if c = CHR ''{'' then JSMN_OBJECT else JSMN_ARRAY),
                      tstart := int (pos parser')\<rparr>])))))"

definition count_item :: "int \<times> jsmn_parser \<times> toks option \<Rightarrow> int \<Rightarrow> (int option \<times> pstate) res" where
  \<comment> \<open>what follows a call of a sub-parser\<close>
  "count_item r count =
     (case r of (r, parser, tokens) \<Rightarrow>
        if r < 0 then Inr (Some r, parser, tokens, count)
        else (case tokens of
                None \<Rightarrow> Inr (None, parser, None, count + 1)
              | Some ts \<Rightarrow>
                  bnd (incr_super (toksuper parser) ts) (\<lambda>ts. Inr (None, parser, Some ts, count + 1))))"

definition parse_step :: "cbuf \<Rightarrow> nat \<Rightarrow> nat \<Rightarrow> char \<Rightarrow> pstate \<Rightarrow> (int option \<times> pstate) res" where
  \<comment> \<open>the switch of \<open>jsmn_parse\<close> for the character at the position; \<open>Some r\<close>: return \<open>r\<close>\<close>
  "parse_step js len num_tokens c st =
     (case st of (parser, tokens, count) \<Rightarrow>
      if c = CHR ''{'' \<or> c = CHR ''[''
      then (case tokens of
              None \<Rightarrow> Inr (None, parser, None, count + 1)
            | Some ts \<Rightarrow>
                bnd (open_bracket c parser ts num_tokens) (\<lambda>r.
                case r of
                  None \<Rightarrow> Inr (Some JSMN_ERROR_NOMEM, parser, tokens, count + 1)
                | Some (parser, ts) \<Rightarrow> Inr (None, parser, Some ts, count + 1)))
      else if c = CHR ''}'' \<or> c = CHR '']''
      then (case tokens of
              None \<Rightarrow> Inr (None, parser, None, count)
            | Some ts \<Rightarrow>
                if toknext parser < 1 then Inr (Some JSMN_ERROR_INVAL, parser, tokens, count)
                else bnd (close_scan (toknext parser) (if c = CHR ''}'' then JSMN_OBJECT else JSMN_ARRAY) parser ts
                            (toknext parser - 1)) (\<lambda>r.
                     case r of
                       None \<Rightarrow> Inr (Some JSMN_ERROR_INVAL, parser, tokens, count)
                     | Some (parser, ts) \<Rightarrow> Inr (None, parser, Some ts, count)))
      else if c = CHR 0x22
      then bnd (jsmn_parse_string parser js len tokens num_tokens) (\<lambda>r. count_item r count)
      else if c = CHR 0x09 \<or> c = CHR 0x0D \<or> c = CHR 0x0A \<or> c = CHR '' '' then Inr (None, st)
      else if c = CHR '':'' then Inr (None, parser\<lparr>toksuper := int (toknext parser) - 1\<rparr>, tokens, count)
      else if c = CHR '',''
      then (case tokens of
              None \<Rightarrow> Inr (None, st)
            | Some ts \<Rightarrow>
                if toksuper parser \<noteq> -1
                then bnd (fetch ts (nat (toksuper parser))) (\<lambda>t.
                     if ttype t \<noteq> JSMN_ARRAY \<and> ttype t \<noteq> JSMN_OBJECT
                     then Inr (None, parser\<lparr>toksuper := tparent t\<rparr>, tokens, count)
                     else Inr (None, st))
                else Inr (None, st))
      else bnd (jsmn_parse_primitive parser js len tokens num_tokens) (\<lambda>r. count_item r count))"

lemma prim_scan_ge: "prim_scan js len p = Inr (Some q) \<Longrightarrow> p \<le> q \<and> (p \<le> len \<longrightarrow> q \<le> len)"
proof (induction js len p rule: prim_scan.induct)
  case (1 js len p)
  show ?case
  proof (cases "p < len \<and> p < length js \<and> \<not> (js ! p = NUL \<or> delim (js ! p)) \<and>
      \<not> ((of_char (js ! p) :: nat) < 32 \<or> (of_char (js ! p) :: nat) \<ge> 127)")
    case True
    then have "prim_scan js len p = prim_scan js len (p + 1)" by (subst prim_scan.simps) auto
    then show ?thesis using 1(1) [of "js ! p"] 1(2) True by auto
  next
    case False
    then have "p = q" using 1(2) by (subst (asm) prim_scan.simps) (auto simp: bnd_eq_Inr fetch_eq_Inr split: if_splits)
    then show ?thesis by simp
  qed
qed

lemma prim_scan_gt:
  assumes "prim_scan js len p = Inr (Some q)" and "p < len" and "fetch js p = Inr c" and "c \<noteq> NUL" and "\<not> delim c"
  shows "p < q"
proof -
  have "prim_scan js len (p + 1) = Inr (Some q)"
    using assms by (subst (asm) prim_scan.simps) (auto split: if_splits)
  then show ?thesis using prim_scan_ge by fastforce
qed

lemma str_scan_ge: "str_scan js len p = Inr (Str_end q) \<Longrightarrow> p \<le> q \<and> q < len"
proof (induction js len p rule: str_scan.induct)
  case (1 js len p)
  have p: "p < len" using 1(4) by (subst (asm) str_scan.simps) (auto split: if_splits)
  then obtain c where c: "fetch js p = Inr c" "c \<noteq> NUL"
    using 1(4) by (subst (asm) str_scan.simps) (auto simp: bnd_eq_Inr split: if_splits)
  show ?case
  proof (cases "c = CHR 0x22 \<or> \<not> (c = CHR 0x5C \<and> p + 1 < len)")
    case True
    then have "str_scan js len p = (if c = CHR 0x22 then Inr (Str_end p) else str_scan js len (p + 1))"
      using p c by (subst str_scan.simps) auto
    then show ?thesis using 1(4) 1(3) [OF p c] True p by (auto split: if_splits)
  next
    case False
    then obtain d where d: "fetch js (p + 1) = Inr d"
      using 1(4) p c by (subst (asm) str_scan.simps) (auto simp: bnd_eq_Inr)
    show ?thesis
    proof (cases "simple_escape d")
      case True
      then have "str_scan js len (p + 2) = Inr (Str_end q)"
        using 1(4) p c d False by (subst (asm) str_scan.simps) (auto simp: bnd_eq_Inr)
      then show ?thesis using 1(1) p c d False True by fastforce
    next
      case F: False
      then obtain r where r: "d = CHR ''u''" "hex_scan js len 4 (p + 2) = Inr (Some r)" "str_scan js len r = Inr (Str_end q)"
        using 1(4) p c d False
        by (subst (asm) str_scan.simps) (auto simp: bnd_eq_Inr split: if_splits option.splits)
      then show ?thesis using 1(2) [OF p c(1)] c d False F hex_scan_ge [OF r(2)] by fastforce
    qed
  qed
qed

section \<open>Invariant\<close>

definition tok_ok :: "nat \<Rightarrow> nat \<Rightarrow> jsmntok_t \<Rightarrow> bool" where
  \<comment> \<open>token number \<open>i\<close> links backwards and lies before position \<open>n\<close>\<close>
  "tok_ok n i t \<longleftrightarrow> -1 \<le> tparent t \<and> tparent t < int i \<and> 0 \<le> tstart t \<and> tstart t \<le> int n \<and>
     (tend t = -1 \<or> tstart t \<le> tend t \<and> tend t \<le> int n)"

definition jsmn_inv :: "nat \<Rightarrow> jsmn_parser \<Rightarrow> toks \<Rightarrow> bool" where
  "jsmn_inv n p ts \<longleftrightarrow> toknext p \<le> length ts \<and> -1 \<le> toksuper p \<and> toksuper p < int (toknext p) \<and>
     (\<forall>i<toknext p. tok_ok n i (ts ! i))"

lemma tok_ok_mono: "tok_ok n i t \<Longrightarrow> n \<le> m \<Longrightarrow> tok_ok m i t"
  by (auto simp: tok_ok_def)

lemma jsmn_inv_mono: "jsmn_inv n p ts \<Longrightarrow> n \<le> m \<Longrightarrow> jsmn_inv m p ts"
  by (auto simp: jsmn_inv_def intro: tok_ok_mono)

lemma jsmn_inv_init: "jsmn_inv n jsmn_init ts"
  by (simp add: jsmn_inv_def jsmn_init_def)

lemma jsmn_inv_pos [simp]: "jsmn_inv n (p\<lparr>pos := q\<rparr>) ts = jsmn_inv n p ts"
  by (simp add: jsmn_inv_def)

lemma new_token_inv:
  assumes "jsmn_inv n p ts" and "0 \<le> start" and "start \<le> fin" and "fin \<le> int m" and "n \<le> m" and "num = length ts"
  shows "new_token type start fin p ts num =
    (if toknext p < num
     then Inr (Some (p\<lparr>toknext := toknext p + 1\<rparr>,
       ts[toknext p := \<lparr>ttype = type, tstart = start, tend = fin, tsize = 0, tparent = toksuper p\<rparr>]))
     else Inr None)" (is ?eq)
    and "toknext p < num \<Longrightarrow> jsmn_inv m (p\<lparr>toknext := toknext p + 1\<rparr>)
       (ts[toknext p := \<lparr>ttype = type, tstart = start, tend = fin, tsize = 0, tparent = toksuper p\<rparr>])"
proof -
  show ?eq
    using assms(6) by (cases "ts ! toknext p") (auto simp: new_token_def jsmn_alloc_token_def jsmn_fill_token_def)
  show "jsmn_inv m (p\<lparr>toknext := toknext p + 1\<rparr>)
       (ts[toknext p := \<lparr>ttype = type, tstart = start, tend = fin, tsize = 0, tparent = toksuper p\<rparr>])"
    if "toknext p < num"
    using that assms tok_ok_mono [OF _ assms(5)]
    by (auto simp: jsmn_inv_def less_Suc_eq nth_list_update) (auto simp: tok_ok_def)
qed

lemma incr_super_inv:
  assumes "jsmn_inv n p ts"
  shows "\<exists>ts'. incr_super (toksuper p) ts = Inr ts' \<and> jsmn_inv n p ts' \<and> length ts' = length ts"
proof (cases "toksuper p = -1")
  case True
  then show ?thesis using assms by (simp add: incr_super_def)
next
  case False
  let ?k = "nat (toksuper p)"
  have k: "?k < toknext p" "?k < length ts" using assms False by (auto simp: jsmn_inv_def)
  let ?ts = "ts[?k := (ts ! ?k)\<lparr>tsize := tsize (ts ! ?k) + 1\<rparr>]"
  have "jsmn_inv n p ?ts" using assms k by (auto simp: jsmn_inv_def nth_list_update tok_ok_def)
  then show ?thesis using False k by (simp add: incr_super_def)
qed

lemma close_scan_inv:
  assumes "jsmn_inv (pos p) p ts" and "k < toknext p" and "k < fuel"
  shows "\<exists>r. close_scan fuel type p ts k = Inr r \<and>
    (\<forall>p' ts'. r = Some (p', ts') \<longrightarrow> pos p' = pos p \<and> toknext p' = toknext p \<and> length ts' = length ts \<and>
       jsmn_inv (pos p + 1) p' ts')"
  using assms(2,3)
proof (induction fuel arbitrary: k)
  case (Suc fuel)
  have k: "k < length ts" "tok_ok (pos p) k (ts ! k)" using assms(1) Suc.prems by (auto simp: jsmn_inv_def)
  have inv: "jsmn_inv (pos p + 1) p ts" using assms(1) by (rule jsmn_inv_mono) simp
  show ?case
  proof (cases "tstart (ts ! k) \<noteq> -1 \<and> tend (ts ! k) = -1 \<or> tparent (ts ! k) = -1")
    case True
    have "jsmn_inv (pos p + 1) (p\<lparr>toksuper := tparent (ts ! k)\<rparr>) (ts[k := (ts ! k)\<lparr>tend := int (pos p) + 1\<rparr>])"
      using inv k Suc.prems(1) by (auto simp: jsmn_inv_def nth_list_update tok_ok_def)
    then show ?thesis using True k inv by auto
  next
    case False
    then have "nat (tparent (ts ! k)) < toknext p" "nat (tparent (ts ! k)) < fuel"
      using k(2) Suc.prems by (auto simp: tok_ok_def)
    then show ?thesis using Suc.IH [of "nat (tparent (ts ! k))"] False k(1) by auto
  qed
qed simp

lemma open_bracket_inv:
  assumes "jsmn_inv (pos p) p ts" and "num = length ts"
  shows "\<exists>r. open_bracket c p ts num = Inr r \<and>
    (\<forall>p' ts'. r = Some (p', ts') \<longrightarrow> pos p' = pos p \<and> toknext p' = toknext p + 1 \<and> length ts' = length ts \<and>
       jsmn_inv (pos p + 1) p' ts')"
proof (cases "toknext p < num")
  case False
  then show ?thesis by (simp add: open_bracket_def jsmn_alloc_token_def)
next
  case True
  let ?k = "toknext p"
  let ?t0 = "(ts ! ?k)\<lparr>tstart := -1, tend := -1, tsize := 0, tparent := -1\<rparr>"
  let ?p1 = "p\<lparr>toknext := toknext p + 1\<rparr>" and ?ts1 = "ts[?k := ?t0]"
  have "jsmn_inv (pos p) p ?ts1" using assms True by (auto simp: jsmn_inv_def)
  then obtain ts2 where ts2: "incr_super (toksuper p) ?ts1 = Inr ts2" "jsmn_inv (pos p) p ts2" "length ts2 = length ts"
    using incr_super_inv by fastforce
  let ?sup = "if toksuper p \<noteq> -1 then toksuper p else tparent (ts2 ! ?k)"
  have "ts2 ! ?k = ?t0"
    using ts2(1) assms True by (auto simp: incr_super_def jsmn_inv_def bnd_eq_Inr store_eq_Inr split: if_splits)
  then have "jsmn_inv (pos p + 1) (?p1\<lparr>toksuper := int (toknext ?p1) - 1\<rparr>)
      (ts2[?k := (ts2 ! ?k)\<lparr>tparent := ?sup, ttype := (if c = CHR ''{'' then JSMN_OBJECT else JSMN_ARRAY),
        tstart := int (pos p)\<rparr>])"
    using ts2(2,3) assms True
    by (auto simp: jsmn_inv_def less_Suc_eq nth_list_update tok_ok_def)
  then show ?thesis using True assms(2) ts2 by (auto simp: open_bracket_def jsmn_alloc_token_def)
qed

section \<open>The main loop\<close>

lemma new_token_pos: "new_token type start fin p ts num = Inr (Some (p', ts')) \<Longrightarrow> pos p' = pos p"
  by (auto simp: new_token_def jsmn_alloc_token_def bnd_eq_Inr split: if_splits)

lemma open_bracket_pos: "open_bracket c p ts num = Inr (Some (p', ts')) \<Longrightarrow> pos p' = pos p"
  by (auto simp: open_bracket_def jsmn_alloc_token_def bnd_eq_Inr split: if_splits)

lemma close_scan_pos: "close_scan fuel type p ts k = Inr (Some (p', ts')) \<Longrightarrow> pos p' = pos p"
  by (induction fuel arbitrary: k) (auto simp: bnd_eq_Inr split: if_splits)

lemma parse_primitive_pos:
  assumes "jsmn_parse_primitive p js len ts num = Inr (r, p', ts')" and "0 \<le> r"
    and "pos p < len" and "fetch js (pos p) = Inr c" and "c \<noteq> NUL" and "\<not> delim c"
  shows "pos p \<le> pos p' \<and> pos p' < len"
proof -
  obtain q where q: "prim_scan js len (pos p) = Inr (Some q)"
    using assms(1,2) by (auto simp: jsmn_parse_primitive_def bnd_eq_Inr split: option.splits)
  have "pos p < q" "q \<le> len" using prim_scan_gt [OF q assms(3-6)] prim_scan_ge [OF q] assms(3) by auto
  moreover have "pos p' = q - 1"
    using assms(1,2) q by (auto simp: jsmn_parse_primitive_def bnd_eq_Inr split: option.splits)
  ultimately show ?thesis by linarith
qed

lemma parse_string_pos:
  assumes "jsmn_parse_string p js len ts num = Inr (r, p', ts')" and "0 \<le> r"
  shows "pos p \<le> pos p' \<and> pos p' < len"
proof -
  obtain x where x: "str_scan js len (pos p + 1) = Inr x"
    using assms by (auto simp: jsmn_parse_string_def bnd_eq_Inr)
  then obtain q where q: "str_scan js len (pos p + 1) = Inr (Str_end q)"
    using assms by (cases x) (auto simp: jsmn_parse_string_def)
  moreover have "pos p' = q"
    using assms q by (auto simp: jsmn_parse_string_def bnd_eq_Inr split: option.splits)
  ultimately show ?thesis using str_scan_ge [OF q] by simp
qed

lemma count_item_pos:
  "count_item (r, p, ts) n = Inr (None, p', ts', n') \<Longrightarrow> 0 \<le> r \<and> p' = p"
  by (auto simp: count_item_def bnd_eq_Inr split: if_splits option.splits)

lemma parse_step_pos:
  assumes "parse_step js len num c (p, ts, n) = Inr (None, p', ts', n')"
    and "pos p < len" and "fetch js (pos p) = Inr c" and "c \<noteq> NUL"
  shows "pos p \<le> pos p' \<and> pos p' < len"
proof -
  consider (bo) "c = CHR ''{'' \<or> c = CHR ''[''" | (bc) "c = CHR ''}'' \<or> c = CHR '']''" | (qu) "c = CHR 0x22"
    | (ws) "c = CHR 0x09 \<or> c = CHR 0x0D \<or> c = CHR 0x0A \<or> c = CHR '' '' \<or> c = CHR '':'' \<or> c = CHR '',''"
    | (pr) "\<not> delim c" "c \<noteq> CHR ''{'' \<and> c \<noteq> CHR ''['' \<and> c \<noteq> CHR 0x22"
    by (auto simp: delim_def)
  then show ?thesis
  proof cases
    case bo
    then show ?thesis using assms(1,2) open_bracket_pos
      by (auto simp: parse_step_def bnd_eq_Inr split: option.splits)
  next
    case bc
    then show ?thesis using assms(1,2) close_scan_pos
      by (fastforce simp: parse_step_def bnd_eq_Inr split: option.splits if_splits)
  next
    case qu
    then obtain r p1 ts1 where "jsmn_parse_string p js len ts num = Inr (r, p1, ts1)"
      "count_item (r, p1, ts1) n = Inr (None, p', ts', n')"
      using assms(1) by (auto simp: parse_step_def bnd_eq_Inr)
    then show ?thesis using parse_string_pos count_item_pos by blast
  next
    case ws
    then show ?thesis using assms(1,2)
      by (auto simp: parse_step_def bnd_eq_Inr split: option.splits if_splits)
  next
    case pr
    then obtain r p1 ts1 where "jsmn_parse_primitive p js len ts num = Inr (r, p1, ts1)"
      "count_item (r, p1, ts1) n = Inr (None, p', ts', n')"
      using assms(1) by (auto simp: parse_step_def bnd_eq_Inr delim_def)
    then show ?thesis using parse_primitive_pos [OF _ _ assms(2-4) pr(1)] count_item_pos by blast
  qed
qed

function parse_loop :: "cbuf \<Rightarrow> nat \<Rightarrow> nat \<Rightarrow> jsmn_parser \<Rightarrow> toks option \<Rightarrow> int \<Rightarrow> (int option \<times> pstate) res" where
  "parse_loop js len num_tokens parser tokens count =
     (if pos parser < len
      then bnd (fetch js (pos parser)) (\<lambda>c.
           if c = NUL then Inr (None, parser, tokens, count)
           else bnd (parse_step js len num_tokens c (parser, tokens, count)) (\<lambda>(r, parser', tokens', count').
                case r of
                  Some e \<Rightarrow> Inr (Some e, parser', tokens', count')
                | None \<Rightarrow> parse_loop js len num_tokens (parser'\<lparr>pos := pos parser' + 1\<rparr>) tokens' count'))
      else Inr (None, parser, tokens, count))"
  by pat_completeness auto
termination
  by (relation "measure (\<lambda>(js, len, num, p, ts, n). len - pos p)") (auto dest!: parse_step_pos)

declare parse_loop.simps [simp del]

definition unmatched :: "jsmn_parser \<Rightarrow> toks \<Rightarrow> bool" where
  \<comment> \<open>the final loop of \<open>jsmn_parse\<close>: an object or array is still open\<close>
  "unmatched parser tokens \<longleftrightarrow> list_ex (\<lambda>t. tstart t \<noteq> -1 \<and> tend t = -1) (take (toknext parser) tokens)"

definition jsmn_parse ::
  "jsmn_parser \<Rightarrow> cbuf \<Rightarrow> nat \<Rightarrow> toks option \<Rightarrow> nat \<Rightarrow> (int \<times> jsmn_parser \<times> toks option) res" where
  "jsmn_parse parser js len tokens num_tokens =
     bnd (parse_loop js len num_tokens parser tokens (int (toknext parser))) (\<lambda>(r, parser, tokens, count).
     case r of
       Some e \<Rightarrow> Inr (e, parser, tokens)
     | None \<Rightarrow>
         (case tokens of
            None \<Rightarrow> Inr (count, parser, tokens)
          | Some ts \<Rightarrow>
              if toknext parser > length ts then Inl Out_of_bounds
              else if unmatched parser ts then Inr (JSMN_ERROR_PART, parser, tokens)
              else Inr (count, parser, tokens)))"

section \<open>Safety of the parser\<close>

lemma prim_scan_total: "len \<le> length js \<Longrightarrow> \<exists>r. prim_scan js len p = Inr r"
proof (induction js len p rule: prim_scan.induct)
  case (1 js len p)
  then show ?case by (subst prim_scan.simps) auto
qed

lemma hex_scan_total: "len \<le> length js \<Longrightarrow> \<exists>r. hex_scan js len n p = Inr r"
  by (induction js len n p rule: hex_scan.induct) auto

lemma str_scan_total: "len \<le> length js \<Longrightarrow> \<exists>r. str_scan js len p = Inr r"
proof (induction js len p rule: str_scan.induct)
  case (1 js len p)
  obtain h where "hex_scan js len 4 (p + 2) = Inr h" using hex_scan_total [OF 1(4)] by blast
  then show ?case using 1 by (subst str_scan.simps) (auto split: option.split)
qed

definition step_ok :: "nat \<Rightarrow> jsmn_parser \<Rightarrow> toks \<Rightarrow> (int option \<times> pstate) res \<Rightarrow> bool" where
  "step_ok len p ts m \<longleftrightarrow> (\<exists>r p' ts' n'. m = Inr (r, p', Some ts', n') \<and> length ts' = length ts \<and>
     (case r of
        None \<Rightarrow> pos p \<le> pos p' \<and> pos p' < len \<and> jsmn_inv (pos p' + 1) p' ts' \<and> n' = int (toknext p')
      | Some e \<Rightarrow> e \<in> {JSMN_ERROR_NOMEM, JSMN_ERROR_INVAL, JSMN_ERROR_PART}))"

lemma step_okI:
  "m = Inr (None, p', Some ts', n') \<Longrightarrow> length ts' = length ts \<Longrightarrow> pos p \<le> pos p' \<Longrightarrow> pos p' < len \<Longrightarrow>
     jsmn_inv (pos p' + 1) p' ts' \<Longrightarrow> n' = int (toknext p') \<Longrightarrow> step_ok len p ts m"
  by (auto simp: step_ok_def)

lemma step_ok_item:
  assumes "jsmn_inv (pos p) p ts" and "num = length ts" and "pos p \<le> q" and "q < len"
    and "int (pos p) \<le> start" and "start \<le> fin" and "fin \<le> int q + 1"
  shows "step_ok len p ts (bnd (bnd (new_token type start fin p ts num) (\<lambda>r.
      case r of
        None \<Rightarrow> Inr (JSMN_ERROR_NOMEM, p, Some ts)
      | Some (parser', ts) \<Rightarrow> Inr (0, parser'\<lparr>pos := q\<rparr>, Some ts))) (\<lambda>r. count_item r (int (toknext p))))"
proof -
  note n = new_token_inv [OF assms(1) _ assms(6), of "q + 1" num type]
  show ?thesis
  proof (cases "toknext p < num")
    case False
    then show ?thesis using n(1) assms by (simp add: step_ok_def count_item_def)
  next
    case True
    let ?p = "p\<lparr>toknext := toknext p + 1\<rparr>"
    let ?ts = "ts[toknext p := \<lparr>ttype = type, tstart = start, tend = fin, tsize = 0, tparent = toksuper p\<rparr>]"
    have inv: "jsmn_inv (q + 1) ?p ?ts" using n(2) True assms by auto
    obtain ts' where "incr_super (toksuper ?p) ?ts = Inr ts'" "jsmn_inv (q + 1) ?p ts'" "length ts' = length ts"
      using incr_super_inv [OF inv] by auto
    then show ?thesis using n(1) True assms by (auto simp: step_ok_def count_item_def)
  qed
qed

lemma parse_step_ok:
  assumes "jsmn_inv (pos p) p ts" and "num = length ts" and "len \<le> length js" and "pos p < len"
    and "js ! pos p = c" and "c \<noteq> NUL"
  shows "step_ok len p ts (parse_step js len num c (p, Some ts, int (toknext p)))"
proof -
  have inv: "jsmn_inv (pos p + 1) p ts" using assms(1) by (rule jsmn_inv_mono) simp
  have c: "fetch js (pos p) = Inr c" using assms(3-5) by simp
  consider (bo) "c = CHR ''{'' \<or> c = CHR ''[''" | (bc) "c = CHR ''}'' \<or> c = CHR '']''" | (qu) "c = CHR 0x22"
    | (ws) "c = CHR 0x09 \<or> c = CHR 0x0D \<or> c = CHR 0x0A \<or> c = CHR '' ''" | (co) "c = CHR '':''" | (cm) "c = CHR '',''"
    | (pr) "\<not> delim c" "c \<noteq> CHR ''{'' \<and> c \<noteq> CHR ''['' \<and> c \<noteq> CHR 0x22"
    by (auto simp: delim_def)
  then show ?thesis
  proof cases
    case bo
    obtain r where r: "open_bracket c p ts num = Inr r"
      "\<forall>p' ts'. r = Some (p', ts') \<longrightarrow> pos p' = pos p \<and> toknext p' = toknext p + 1 \<and> length ts' = length ts \<and>
         jsmn_inv (pos p + 1) p' ts'"
      using open_bracket_inv [OF assms(1,2), of c] by blast
    show ?thesis
    proof (cases r)
      case None
      then show ?thesis using bo r(1) by (auto simp: parse_step_def step_ok_def)
    next
      case (Some x)
      obtain p' ts' where x: "x = (p', ts')" by fastforce
      show ?thesis by (rule step_okI [of _ p' ts']) (use bo r Some x assms(4) in \<open>auto simp: parse_step_def\<close>)
    qed
  next
    case bc
    let ?ty = "if c = CHR ''}'' then JSMN_OBJECT else JSMN_ARRAY"
    have step: "parse_step js len num c (p, Some ts, int (toknext p)) =
        (if toknext p < 1 then Inr (Some JSMN_ERROR_INVAL, p, Some ts, int (toknext p))
         else bnd (close_scan (toknext p) ?ty p ts (toknext p - 1)) (\<lambda>r.
              case r of
                None \<Rightarrow> Inr (Some JSMN_ERROR_INVAL, p, Some ts, int (toknext p))
              | Some (parser, ts) \<Rightarrow> Inr (None, parser, Some ts, int (toknext p))))"
      using bc by (auto simp: parse_step_def)
    show ?thesis
    proof (cases "toknext p < 1")
      case True
      then show ?thesis using step by (simp add: step_ok_def)
    next
      case False
      then obtain r where r: "close_scan (toknext p) ?ty p ts (toknext p - 1) = Inr r"
        "\<forall>p' ts'. r = Some (p', ts') \<longrightarrow> pos p' = pos p \<and> toknext p' = toknext p \<and> length ts' = length ts \<and>
           jsmn_inv (pos p + 1) p' ts'"
        using close_scan_inv [OF assms(1), of "toknext p - 1" "toknext p" ?ty] by auto
      show ?thesis
      proof (cases r)
        case None
        have "parse_step js len num c (p, Some ts, int (toknext p)) =
            Inr (Some JSMN_ERROR_INVAL, p, Some ts, int (toknext p))"
          unfolding step using r(1) None False by (simp only: if_False bnd_Inr option.case)
        then show ?thesis by (simp add: step_ok_def)
      next
        case (Some x)
        obtain p' ts' where x: "x = (p', ts')" by fastforce
        have "parse_step js len num c (p, Some ts, int (toknext p)) = Inr (None, p', Some ts', int (toknext p))"
          unfolding step using r(1) Some x False by (simp only: if_False bnd_Inr option.case prod.case)
        then show ?thesis by (rule step_okI) (use r(2) Some x assms(4) in auto)
      qed
    qed
  next
    case qu
    obtain r where r: "str_scan js len (pos p + 1) = Inr r" using str_scan_total [OF assms(3)] by blast
    show ?thesis
    proof (cases r)
      case (Str_end q)
      then have "pos p + 1 \<le> q" "q < len" using str_scan_ge r by auto
      then show ?thesis using step_ok_item [OF assms(1,2), of q len "int (pos p) + 1" "int q" JSMN_STRING] qu r Str_end
        by (simp add: parse_step_def jsmn_parse_string_def)
    qed (use qu r in \<open>simp_all add: parse_step_def jsmn_parse_string_def step_ok_def count_item_def\<close>)
  next
    case ws
    then show ?thesis using inv assms(4) by (auto simp: parse_step_def step_ok_def)
  next
    case co
    have "jsmn_inv (pos p + 1) (p\<lparr>toksuper := int (toknext p) - 1\<rparr>) ts" using inv by (auto simp: jsmn_inv_def)
    then show ?thesis using co assms(4) by (simp add: parse_step_def step_ok_def)
  next
    case cm
    show ?thesis
    proof (cases "toksuper p = -1")
      case True
      then show ?thesis using cm inv assms(4) by (simp add: parse_step_def step_ok_def)
    next
      case False
      let ?k = "nat (toksuper p)"
      have k: "?k < toknext p" "?k < length ts" using assms(1) False by (auto simp: jsmn_inv_def)
      then have "tok_ok (pos p) ?k (ts ! ?k)" using assms(1) by (simp add: jsmn_inv_def)
      then have "-1 \<le> tparent (ts ! ?k)" "tparent (ts ! ?k) < int (toknext p)"
        using k(1) unfolding tok_ok_def by linarith+
      then have "jsmn_inv (pos p + 1) (p\<lparr>toksuper := tparent (ts ! ?k)\<rparr>) ts"
        using inv by (simp add: jsmn_inv_def)
      then show ?thesis using cm inv assms(4) False k by (simp add: parse_step_def step_ok_def)
    qed
  next
    case pr
    obtain r where r: "prim_scan js len (pos p) = Inr r" using prim_scan_total [OF assms(3)] by blast
    have step: "parse_step js len num c (p, Some ts, int (toknext p)) =
        bnd (jsmn_parse_primitive p js len (Some ts) num) (\<lambda>r. count_item r (int (toknext p)))"
      using pr by (simp add: parse_step_def delim_def)
    show ?thesis
    proof (cases r)
      case None
      then show ?thesis using r step by (simp add: jsmn_parse_primitive_def step_ok_def count_item_def)
    next
      case (Some q)
      then have q: "pos p < q" "q \<le> len"
        using prim_scan_gt [OF _ assms(4) c assms(6) pr(1)] prim_scan_ge r assms(4) by auto
      then show ?thesis
        using step_ok_item [OF assms(1,2), of "q - 1" len "int (pos p)" "int q" JSMN_PRIMITIVE] r Some step
        by (simp add: jsmn_parse_primitive_def)
    qed
  qed
qed

lemma parse_loop_ok:
  "jsmn_inv (pos p) p ts \<Longrightarrow> num = length ts \<Longrightarrow> len \<le> length js \<Longrightarrow> pos p \<le> len \<Longrightarrow> n = int (toknext p) \<Longrightarrow>
   \<exists>r p' ts' n'. parse_loop js len num p (Some ts) n = Inr (r, p', Some ts', n') \<and> length ts' = length ts \<and>
     (case r of
        None \<Rightarrow> jsmn_inv len p' ts' \<and> n' = int (toknext p')
      | Some e \<Rightarrow> e \<in> {JSMN_ERROR_NOMEM, JSMN_ERROR_INVAL, JSMN_ERROR_PART})"
proof (induction "len - pos p" arbitrary: p ts n rule: less_induct)
  case less
  have inv: "jsmn_inv len p ts" using less.prems by (blast intro: jsmn_inv_mono)
  show ?case
  proof (cases "pos p < len \<and> js ! pos p \<noteq> NUL")
    case False
    then show ?thesis using less.prems inv by (subst parse_loop.simps) auto
  next
    case True
    let ?s = "parse_step js len num (js ! pos p) (p, Some ts, n)"
    have "step_ok len p ts ?s" using parse_step_ok [OF less.prems(1-3) _ refl] True less.prems(5) by simp
    then obtain r p1 ts1 n1 where s: "?s = Inr (r, p1, Some ts1, n1)" "length ts1 = length ts"
      "case r of None \<Rightarrow> pos p \<le> pos p1 \<and> pos p1 < len \<and> jsmn_inv (pos p1 + 1) p1 ts1 \<and> n1 = int (toknext p1)
       | Some e \<Rightarrow> e \<in> {JSMN_ERROR_NOMEM, JSMN_ERROR_INVAL, JSMN_ERROR_PART}"
      by (auto simp: step_ok_def)
    have loop: "parse_loop js len num p (Some ts) n =
        (case r of Some e \<Rightarrow> Inr (Some e, p1, Some ts1, n1)
         | None \<Rightarrow> parse_loop js len num (p1\<lparr>pos := pos p1 + 1\<rparr>) (Some ts1) n1)"
      using True less.prems(3) s(1) by (subst parse_loop.simps) simp
    show ?thesis
    proof (cases r)
      case None
      then show ?thesis
        using less.hyps [of "p1\<lparr>pos := pos p1 + 1\<rparr>" ts1 n1] s less.prems(2,3) True loop by auto
    next
      case (Some e)
      then show ?thesis using s loop by simp
    qed
  qed
qed

lemma jsmn_parse_tokens:
  assumes "len \<le> length js"
  shows "\<exists>r p' ts'. jsmn_parse jsmn_init js len (Some ts) (length ts) = Inr (r, p', Some ts') \<and>
     length ts' = length ts \<and>
     (r \<in> {JSMN_ERROR_NOMEM, JSMN_ERROR_INVAL, JSMN_ERROR_PART} \<or>
      r = int (toknext p') \<and> toknext p' \<le> length ts \<and>
      (\<forall>i<toknext p'. tok_ok len i (ts' ! i) \<and> tend (ts' ! i) \<noteq> -1))"
proof -
  have init: "pos jsmn_init = 0" "toknext jsmn_init = 0" by (simp_all add: jsmn_init_def)
  obtain r p' ts' n' where l: "parse_loop js len (length ts) jsmn_init (Some ts) (int (toknext jsmn_init)) =
      Inr (r, p', Some ts', n')" "length ts' = length ts"
     "case r of None \<Rightarrow> jsmn_inv len p' ts' \<and> n' = int (toknext p')
      | Some e \<Rightarrow> e \<in> {JSMN_ERROR_NOMEM, JSMN_ERROR_INVAL, JSMN_ERROR_PART}"
    using parse_loop_ok [OF jsmn_inv_init [of _ ts] refl assms _ refl] init by auto
  show ?thesis
  proof (cases r)
    case (Some e)
    then show ?thesis using l by (auto simp: jsmn_parse_def)
  next
    case None
    then have inv: "jsmn_inv len p' ts'" "n' = int (toknext p')" using l(3) by simp_all
    have "tend (ts' ! i) \<noteq> -1" if "\<not> unmatched p' ts'" "i < toknext p'" for i
    proof -
      have "ts' ! i \<in> set (take (toknext p') ts')"
        using that(2) inv(1) by (auto simp: jsmn_inv_def in_set_conv_nth intro!: exI [of _ i])
      moreover have "0 \<le> tstart (ts' ! i)" using inv(1) that(2) by (simp add: jsmn_inv_def tok_ok_def)
      ultimately show ?thesis using that(1) by (auto simp: unmatched_def list_ex_iff)
    qed
    then show ?thesis using None l inv by (auto simp: jsmn_parse_def jsmn_inv_def)
  qed
qed

section \<open>Properties\<close>

text \<open>
  C4. The tokenizer is safe and total: for every text of at least \<open>len\<close> bytes, of any content, and every
  token array, a fresh parser returns; it never reads outside the text nor writes outside the array. The
  result is one of the three error codes, or the number of tokens, and then no token is left open
  and every token lies inside the text (start not after end, end not after \<open>len\<close>) and its parent link
  points to an earlier token.
\<close>
theorem jsmn_parse_safe:
  assumes "len \<le> length js"
  shows "\<exists>r p' ts'. jsmn_parse jsmn_init js len (Some ts) (length ts) = Inr (r, p', Some ts') \<and>
     length ts' = length ts \<and>
     (r \<in> {JSMN_ERROR_NOMEM, JSMN_ERROR_INVAL, JSMN_ERROR_PART} \<or>
      r = int (toknext p') \<and> toknext p' \<le> length ts \<and>
      (\<forall>i<toknext p'. tok_ok len i (ts' ! i) \<and> tend (ts' ! i) \<noteq> -1))"
  using assms by (rule jsmn_parse_tokens)

theorem jsmn_parse_safe_witness:
  "\<exists>r p' ts'. jsmn_parse jsmn_init ''{]'' 2 (Some (replicate 4 \<lparr>ttype = JSMN_UNDEFINED, tstart = 0, tend = 0, tsize = 0, tparent = 0\<rparr>)) 4 =
     Inr (r, p', Some ts') \<and> length ts' = 4"
  using jsmn_parse_safe [of 2 "''{]''" "replicate 4 \<lparr>ttype = JSMN_UNDEFINED, tstart = 0, tend = 0, tsize = 0, tparent = 0\<rparr>"]
  by auto

end
