(* ===== verification/Jsmn_Util.thy ===== *)
theory Jsmn_Util
  imports Jsmn Kservice
begin

text \<open>
  Access to parsed JSON (\<^verbatim>\<open>src/applications/json_deal/jsmn_util.c\<close>): lookup of a key, of an array
  element, and extraction of a text.

  A \<open>jsmn_item_t\<close> points into the token array \<open>ts\<close>; its field \<open>tok\<close> (\<open>t\<close> in the source) is the offset of that pointer. A null
  argument is \<open>None\<close>. The C library's \<open>strncmp\<close> and \<open>strlen\<close> are used through the kernel's functions of
  the same behaviour; a size computed from a negative difference is the wrapped 32-bit value.
\<close>

section \<open>Items\<close>

record jsmn_item_t =
  tok :: nat
  index :: int
  left_num :: int

definition JSMN_ItemInit :: "nat \<Rightarrow> int \<Rightarrow> int \<Rightarrow> jsmn_item_t" where
  "JSMN_ItemInit tk ix tokens_len = \<lparr>tok = tk, index = ix, left_num = tokens_len - ix - 1\<rparr>"

definition size_of :: "int \<Rightarrow> nat" where
  "size_of n = nat (n mod 2 ^ 32)"

definition at_offset :: "cbuf \<Rightarrow> int \<Rightarrow> cbuf res" where
  \<comment> \<open>the pointer \<open>js + n\<close>\<close>
  "at_offset js n = (if 0 \<le> n \<and> n \<le> int (length js) then Inr (drop (nat n) js) else Inl Out_of_bounds)"

definition json_token_streq :: "cbuf \<Rightarrow> jsmntok_t \<Rightarrow> cbuf \<Rightarrow> bool res" where
  "json_token_streq js tk s =
     bnd (at_offset js (tstart tk)) (\<lambda>p.
     bnd (rt_strncmp p s (size_of (tend tk - tstart tk))) (\<lambda>r.
     if r = 0 then bnd (rt_strlen s) (\<lambda>n. Inr (n = size_of (tend tk - tstart tk))) else Inr False))"

function find_key :: "cbuf \<Rightarrow> toks \<Rightarrow> cbuf \<Rightarrow> jsmn_item_t \<Rightarrow> nat \<Rightarrow> (int \<times> jsmn_item_t option) res" where
  \<comment> \<open>the loop of \<open>JSMN_GetObjectItem\<close>\<close>
  "find_key js ts s ob i =
     (if int i \<le> left_num ob
      then bnd (fetch ts (tok ob + i)) (\<lambda>tk.
           bnd (if ttype tk = JSMN_STRING \<and> tparent tk = index ob then json_token_streq js tk s else Inr False) (\<lambda>eq.
           if eq then Inr (0, Some \<lparr>tok = tok ob + i, index = index ob + int i, left_num = left_num ob - int i\<rparr>)
           else find_key js ts s ob (i + 1)))
      else Inr (-1, None))"
  by pat_completeness auto
termination by (relation "measure (\<lambda>(js, ts, s, ob, i). nat (left_num ob + 1 - int i))") auto

declare find_key.simps [simp del]

definition JSMN_GetObjectItem ::
  "cbuf option \<Rightarrow> toks \<Rightarrow> jsmn_item_t option \<Rightarrow> cbuf option \<Rightarrow> bool \<Rightarrow> (int \<times> jsmn_item_t option) res" where
  \<comment> \<open>\<open>item\<close>: the out-parameter is not null; the result carries what is stored there\<close>
  "JSMN_GetObjectItem js ts object string item =
     (case (js, object, string, item) of
        (Some js, Some ob, Some s, True) \<Rightarrow>
          bnd (fetch ts (tok ob)) (\<lambda>tk.
          if ttype tk = JSMN_OBJECT
          then if left_num ob \<le> 0 then Inr (-1, None) else find_key js ts s ob 1
          else if ttype tk \<noteq> JSMN_STRING \<or> tsize tk \<noteq> 1 \<or> left_num ob \<le> 0 then Inr (-1, None)
          else bnd (fetch ts (tok ob + 1)) (\<lambda>tk.
               if ttype tk \<noteq> JSMN_OBJECT \<or> tparent tk \<noteq> index ob then Inr (-1, None)
               else let ob_item = \<lparr>tok = tok ob + 1, index = index ob + 1, left_num = left_num ob - 1\<rparr> in
                    if left_num ob_item \<le> 0 then Inr (-1, None) else find_key js ts s ob_item 1))
      | _ \<Rightarrow> Inr (-1, None))"

section \<open>Texts\<close>

definition JSMN_GetString :: "cbuf option \<Rightarrow> toks \<Rightarrow> jsmn_item_t option \<Rightarrow> (int option \<times> cbuf option) res" where
  \<comment> \<open>the offset of the returned pointer and the text, in which the end of the token is overwritten\<close>
  "JSMN_GetString js ts item =
     (case (js, item) of
        (Some js', Some it) \<Rightarrow>
          bnd (fetch ts (tok it)) (\<lambda>tk.
          if ttype tk \<noteq> JSMN_STRING \<and> ttype tk \<noteq> JSMN_PRIMITIVE then Inr (None, js)
          else if tend tk < 0 then Inl Out_of_bounds
          else bnd (store js' (nat (tend tk)) NUL) (\<lambda>b. Inr (Some (tstart tk), Some b)))
      | _ \<Rightarrow> Inr (None, js))"

definition JSMN_GetStringBuffered ::
  "cbuf option \<Rightarrow> toks \<Rightarrow> jsmn_item_t option \<Rightarrow> cbuf option \<Rightarrow> int \<Rightarrow> (int \<times> cbuf option) res" where
  \<comment> \<open>the buffer is cleared before the arguments are checked\<close>
  "JSMN_GetStringBuffered js ts item buf bufsz =
     bnd (case buf of
            None \<Rightarrow> if size_of bufsz = 0 then Inr None else Inl Null_deref
          | Some b \<Rightarrow> bnd (blit b 0 (replicate (size_of bufsz) NUL)) (\<lambda>b. Inr (Some b))) (\<lambda>buf.
     case (js, item, buf) of
       (Some js, Some it, Some b) \<Rightarrow>
         if bufsz \<le> 0 then Inr (-1, buf)
         else bnd (fetch ts (tok it)) (\<lambda>tk.
              if ttype tk \<noteq> JSMN_STRING \<and> ttype tk \<noteq> JSMN_PRIMITIVE then Inr (-1, buf)
              else let len0 = tend tk - tstart tk; len = (if len0 \<ge> bufsz then bufsz - 1 else len0) in
                   bnd (at_offset js (tstart tk)) (\<lambda>p.
                   bnd (slice p 0 (size_of len)) (\<lambda>s.
                   bnd (blit b 0 s) (\<lambda>b. Inr (len, Some b)))))
     | _ \<Rightarrow> Inr (-1, buf))"

definition value_item :: "jsmn_item_t \<Rightarrow> jsmn_item_t" where
  "value_item it = \<lparr>tok = tok it + 1, index = index it + 1, left_num = left_num it - 1\<rparr>"

definition JSMN_GetValueString :: "cbuf option \<Rightarrow> toks \<Rightarrow> jsmn_item_t option \<Rightarrow> (int option \<times> cbuf option) res" where
  "JSMN_GetValueString js ts item =
     (case (js, item) of
        (Some _, Some it) \<Rightarrow>
          bnd (fetch ts (tok it)) (\<lambda>tk.
          if ttype tk \<noteq> JSMN_STRING \<or> tsize tk \<noteq> 1 \<or> left_num it \<le> 0 then Inr (None, js)
          else JSMN_GetString js ts (Some (value_item it)))
      | _ \<Rightarrow> Inr (None, js))"

definition JSMN_GetValueStringBuffered ::
  "cbuf option \<Rightarrow> toks \<Rightarrow> jsmn_item_t option \<Rightarrow> cbuf option \<Rightarrow> int \<Rightarrow> (int \<times> cbuf option) res" where
  "JSMN_GetValueStringBuffered js ts item buf bufsz =
     (case (js, item, buf) of
        (Some _, Some it, Some _) \<Rightarrow>
          if bufsz \<le> 0 then Inr (-1, buf)
          else bnd (fetch ts (tok it)) (\<lambda>tk.
               if ttype tk \<noteq> JSMN_STRING \<or> tsize tk \<noteq> 1 \<or> left_num it \<le> 0 then Inr (-1, buf)
               else JSMN_GetStringBuffered js ts (Some (value_item it)) buf bufsz)
      | _ \<Rightarrow> Inr (-1, buf))"

section \<open>Arrays\<close>

definition JSMN_GetArraySize :: "toks \<Rightarrow> jsmn_item_t option \<Rightarrow> int res" where
  "JSMN_GetArraySize ts array =
     (case array of
        None \<Rightarrow> Inr (-1)
      | Some ar \<Rightarrow>
          bnd (fetch ts (tok ar)) (\<lambda>tk.
          if ttype tk = JSMN_ARRAY then Inr (tsize tk)
          else if ttype tk \<noteq> JSMN_STRING \<or> tsize tk \<noteq> 1 \<or> left_num ar \<le> 0 then Inr (-1)
          else bnd (fetch ts (tok ar + 1)) (\<lambda>tk.
               if ttype tk \<noteq> JSMN_ARRAY \<or> tparent tk \<noteq> index ar then Inr (-1) else Inr (tsize tk))))"

function find_element :: "toks \<Rightarrow> jsmn_item_t \<Rightarrow> int \<Rightarrow> nat \<Rightarrow> (int \<times> jsmn_item_t option) res" where
  \<comment> \<open>the loop of \<open>JSMN_GetArrayItem\<close>\<close>
  "find_element ts ar ix i =
     (if int i \<le> left_num ar
      then bnd (fetch ts (tok ar + i)) (\<lambda>tk.
           if tparent tk = index ar
           then if ix > 0 then find_element ts ar (ix - 1) (i + 1)
                else Inr (0, Some \<lparr>tok = tok ar + i, index = index ar + int i, left_num = left_num ar - int i\<rparr>)
           else find_element ts ar ix (i + 1))
      else Inr (-1, None))"
  by pat_completeness auto
termination by (relation "measure (\<lambda>(ts, ar, ix, i). nat (left_num ar + 1 - int i))") auto

declare find_element.simps [simp del]

definition JSMN_GetArrayItem :: "toks \<Rightarrow> jsmn_item_t option \<Rightarrow> int \<Rightarrow> bool \<Rightarrow> (int \<times> jsmn_item_t option) res" where
  "JSMN_GetArrayItem ts array ix item =
     (case array of
        None \<Rightarrow> Inr (-1, None)
      | Some ar \<Rightarrow>
          if ix < 0 \<or> \<not> item then Inr (-1, None)
          else bnd (JSMN_GetArraySize ts array) (\<lambda>n.
               if ix \<ge> n then Inr (-1, None)
               else bnd (fetch ts (tok ar)) (\<lambda>tk.
                    find_element ts (if ttype tk = JSMN_ARRAY then ar else value_item ar) ix 1)))"

section \<open>Lemmas\<close>

definition tok_text :: "cbuf \<Rightarrow> jsmntok_t \<Rightarrow> string" where
  "tok_text js tk = take (nat (tend tk - tstart tk)) (drop (nat (tstart tk)) js)"

definition parsed :: "cbuf \<Rightarrow> toks \<Rightarrow> nat \<Rightarrow> bool" where
  \<comment> \<open>the first \<open>n\<close> tokens describe the C string \<open>js\<close>, as \<open>jsmn_parse\<close> leaves them\<close>
  "parsed js ts n \<longleftrightarrow> terminated js \<and> length js < 2147483648 \<and> n \<le> length ts \<and>
     (\<forall>i<n. tok_ok (length (cstr js)) i (ts ! i) \<and> tend (ts ! i) \<noteq> -1)"

lemma jsmn_parse_parsed:
  assumes "terminated js" and "length js < 2147483648"
  shows "\<exists>r p ts'. jsmn_parse jsmn_init js (length (cstr js)) (Some ts) (length ts) = Inr (r, p, Some ts') \<and>
    length ts' = length ts \<and>
    (r \<in> {JSMN_ERROR_NOMEM, JSMN_ERROR_INVAL, JSMN_ERROR_PART} \<or> 0 \<le> r \<and> r \<le> int (length ts) \<and> parsed js ts' (nat r))"
  using jsmn_parse_tokens [of "length (cstr js)" js ts] terminated_length [OF assms(1)] assms
  by (auto simp: parsed_def)

lemma parsed_tok:
  assumes "parsed js ts n" and "i < n"
  shows "i < length ts" and "0 \<le> tstart (ts ! i)" and "tstart (ts ! i) \<le> tend (ts ! i)"
    and "tend (ts ! i) \<le> int (length (cstr js))" and "tend (ts ! i) < int (length js)"
    and "length (tok_text js (ts ! i)) = nat (tend (ts ! i) - tstart (ts ! i))"
    and "size_of (tend (ts ! i) - tstart (ts ! i)) = nat (tend (ts ! i) - tstart (ts ! i))"
proof -
  have ok: "tok_ok (length (cstr js)) i (ts ! i)" "tend (ts ! i) \<noteq> -1" "terminated js" "length js < 2147483648"
    using assms by (auto simp: parsed_def)
  show "i < length ts" using assms by (auto simp: parsed_def)
  show b: "0 \<le> tstart (ts ! i)" "tstart (ts ! i) \<le> tend (ts ! i)" "tend (ts ! i) \<le> int (length (cstr js))"
    using ok by (auto simp: tok_ok_def)
  then show e: "tend (ts ! i) < int (length js)" using terminated_length [OF ok(3)] by linarith
  then show "length (tok_text js (ts ! i)) = nat (tend (ts ! i) - tstart (ts ! i))"
    using b by (auto simp: tok_text_def min_def)
  show "size_of (tend (ts ! i) - tstart (ts ! i)) = nat (tend (ts ! i) - tstart (ts ! i))"
  proof -
    have "tend (ts ! i) - tstart (ts ! i) < 2 ^ 32" using b(1) e ok(4) by simp
    then show ?thesis using b(2) unfolding size_of_def by (subst mod_pos_pos_trivial) simp_all
  qed
qed

lemma cstr_drop: "k + n \<le> length (cstr js) \<Longrightarrow> take n (cstr (drop k js)) = take n (drop k js)"
proof (induction k arbitrary: js)
  case 0
  then show ?case by (simp add: take_cstr_le)
next
  case (Suc k)
  then show ?case by (cases js) (auto split: if_splits)
qed

lemma json_token_streq_spec:
  assumes "parsed js ts n" and "i < n" and "terminated s"
  shows "json_token_streq js (ts ! i) s = Inr (tok_text js (ts ! i) = cstr s)"
proof -
  note p = parsed_tok [OF assms(1,2)]
  let ?k = "nat (tstart (ts ! i))" and ?n = "nat (tend (ts ! i) - tstart (ts ! i))"
  have kn: "?k + ?n \<le> length (cstr js)" "?k + ?n \<le> length js" using p by linarith+
  have o: "at_offset js (tstart (ts ! i)) = Inr (drop ?k js)" using p by (simp add: at_offset_def)
  have "?n \<le> length (drop ?k js)" using kn by simp
  then obtain r where r: "rt_strncmp (drop ?k js) s ?n = Inr r"
    "r = 0 \<longleftrightarrow> take ?n (cstr (drop ?k js)) = take ?n (cstr s)"
    using rt_strncmp_eq [of "drop ?k js" ?n s] assms(3) by blast
  have "take ?n (cstr (drop ?k js)) = tok_text js (ts ! i)" using cstr_drop [OF kn(1)] by (simp add: tok_text_def)
  then show ?thesis using o r p(6,7) assms(3)
    by (auto simp: json_token_streq_def rt_strlen_cstr)
qed

definition is_key :: "cbuf \<Rightarrow> toks \<Rightarrow> int \<Rightarrow> string \<Rightarrow> nat \<Rightarrow> bool" where
  "is_key js ts ob s j \<longleftrightarrow> ttype (ts ! j) = JSMN_STRING \<and> tparent (ts ! j) = ob \<and> tok_text js (ts ! j) = s"

definition item_at :: "nat \<Rightarrow> nat \<Rightarrow> jsmn_item_t" where
  "item_at n j = \<lparr>tok = j, index = int j, left_num = int n - int j - 1\<rparr>"

lemma find_key_spec:
  assumes "parsed js ts n" and "terminated s" and "j < n"
  shows "find_key js ts s (item_at n j) i =
    (case List.find (is_key js ts (int j) (cstr s)) [j + i..<n] of
       None \<Rightarrow> Inr (-1, None)
     | Some k \<Rightarrow> Inr (0, Some (item_at n k)))"
proof (induction "n - i" arbitrary: i rule: less_induct)
  case less
  show ?case
  proof (cases "j + i < n")
    case False
    then show ?thesis by (simp add: find_key.simps item_at_def)
  next
    case True
    have "find_key js ts s (item_at n j) i = (if is_key js ts (int j) (cstr s) (j + i)
        then Inr (0, Some (item_at n (j + i))) else find_key js ts s (item_at n j) (i + 1))"
      using True parsed_tok(1) [OF assms(1) True] json_token_streq_spec [OF assms(1) True assms(2)]
      by (auto simp: find_key.simps [of js ts s _ i] is_key_def item_at_def)
    moreover have "[j + i..<n] = (j + i) # [j + (i + 1)..<n]" using True by (simp add: upt_conv_Cons)
    ultimately show ?thesis using less.hyps [of "i + 1"] True by simp
  qed
qed

lemma tok_text_no_NUL:
  assumes "parsed js ts n" and "i < n"
  shows "NUL \<notin> set (tok_text js (ts ! i))"
proof -
  note p = parsed_tok [OF assms]
  have "nat (tstart (ts ! i)) + nat (tend (ts ! i) - tstart (ts ! i)) \<le> length (cstr js)" using p by linarith
  then have "tok_text js (ts ! i) = take (nat (tend (ts ! i) - tstart (ts ! i))) (cstr (drop (nat (tstart (ts ! i))) js))"
    by (simp add: tok_text_def cstr_drop)
  then show ?thesis using cstr_no_NUL in_set_takeD by metis
qed

lemma find_element_spec:
  assumes "n \<le> length ts" and "j < n"
  shows "0 \<le> ix \<Longrightarrow> find_element ts (item_at n j) ix i =
    (case drop (nat ix) (filter (\<lambda>k. tparent (ts ! k) = int j) [j + i..<n]) of
       [] \<Rightarrow> Inr (-1, None)
     | k # _ \<Rightarrow> Inr (0, Some (item_at n k)))"
proof (induction "n - i" arbitrary: i ix rule: less_induct)
  case less
  show ?case
  proof (cases "j + i < n")
    case False
    then show ?thesis by (simp add: find_element.simps item_at_def)
  next
    case True
    have "find_element ts (item_at n j) ix i =
        (if tparent (ts ! (j + i)) = int j
         then if ix > 0 then find_element ts (item_at n j) (ix - 1) (i + 1) else Inr (0, Some (item_at n (j + i)))
         else find_element ts (item_at n j) ix (i + 1))"
      using True assms(1) by (auto simp: find_element.simps [of ts _ ix i] item_at_def)
    moreover have "[j + i..<n] = (j + i) # [j + (i + 1)..<n]" using True by (simp add: upt_conv_Cons)
    moreover have "ix > 0 \<Longrightarrow> nat ix = Suc (nat (ix - 1))" by simp
    ultimately show ?thesis
      using less.hyps [of "i + 1" "ix - 1"] less.hyps [of "i + 1" ix] less.prems True by (cases "ix > 0") auto
  qed
qed

lemma GetObjectItem_find:
  assumes "parsed js ts n" and "j < n" and "ttype (ts ! j) = JSMN_OBJECT" and "terminated s"
  shows "JSMN_GetObjectItem (Some js) ts (Some (item_at n j)) (Some s) True =
    (case List.find (is_key js ts (int j) (cstr s)) [j + 1..<n] of
       None \<Rightarrow> Inr (-1, None)
     | Some k \<Rightarrow> Inr (0, Some (item_at n k)))"
proof (cases "j + 1 < n")
  case True
  then show ?thesis using find_key_spec [OF assms(1,4,2), of 1] parsed_tok(1) [OF assms(1,2)] assms(3)
    by (simp add: JSMN_GetObjectItem_def item_at_def)
next
  case False
  then show ?thesis using parsed_tok(1) [OF assms(1,2)] assms(2,3)
    by (simp add: JSMN_GetObjectItem_def item_at_def)
qed

lemma GetStringBuffered_copy:
  assumes "parsed js ts n" and "k < n" and "ttype (ts ! k) = JSMN_STRING \<or> ttype (ts ! k) = JSMN_PRIMITIVE"
    and "0 < m" and "m \<le> length b" and "m < 2147483648" and "x = take (m - 1) (tok_text js (ts ! k))"
  shows "JSMN_GetStringBuffered (Some js) ts (Some (item_at n k)) (Some b) (int m) =
      Inr (int (length x), Some (overwrite b 0 (x @ replicate (m - length x) NUL))) \<and>
    cstr (overwrite b 0 (x @ replicate (m - length x) NUL)) = x"
proof
  note p = parsed_tok [OF assms(1,2)]
  let ?tk = "ts ! k" and ?b = "overwrite b 0 (replicate m NUL)"
  have sz: "size_of (int m) = m" using assms(6) by (simp add: size_of_def)
  have lx: "length x = min (m - 1) (nat (tend ?tk - tstart ?tk))" using p(6) assms(7) by simp
  then have len: "(if tend ?tk - tstart ?tk \<ge> int m then int m - 1 else tend ?tk - tstart ?tk) = int (length x)"
    using assms(4) p(3) by auto
  have szx: "size_of (int (length x)) = length x" using lx assms(6) by (simp add: size_of_def)
  have o: "at_offset js (tstart ?tk) = Inr (drop (nat (tstart ?tk)) js)" using p by (simp add: at_offset_def)
  have "length x \<le> nat (tend ?tk - tstart ?tk)" using lx by simp
  then have "length x \<le> length (drop (nat (tstart ?tk)) js)" using p(2,3,5) by simp
  then have s: "slice (drop (nat (tstart ?tk)) js) 0 (length x) = Inr x"
    using lx assms(7) by (simp add: tok_text_def min_def)
  have c1: "blit b 0 (replicate m NUL) = Inr ?b" using assms(5) by simp
  have c2: "blit ?b 0 x = Inr (overwrite ?b 0 x)" using assms(4,5) lx by simp
  have "overwrite ?b 0 x = overwrite b 0 (x @ replicate (m - length x) NUL)"
    using lx assms(4,5) by (simp add: overwrite_def)
  then show "JSMN_GetStringBuffered (Some js) ts (Some (item_at n k)) (Some b) (int m) =
      Inr (int (length x), Some (overwrite b 0 (x @ replicate (m - length x) NUL)))"
    unfolding JSMN_GetStringBuffered_def Let_def item_at_def
    using assms(3-5) sz len szx o s p(1) c1 c2 by (simp del: of_nat_less_iff cong: if_cong)
  have "NUL \<notin> set x" using tok_text_no_NUL [OF assms(1,2)] assms(7) in_set_takeD by metis
  moreover obtain l where "m - length x = Suc l" using lx assms(4) by (cases "m - length x") auto
  ultimately show "cstr (overwrite b 0 (x @ replicate (m - length x) NUL)) = x" by (simp add: overwrite_def)
qed

section \<open>Properties\<close>

text \<open>
  Looking up a key of an object finds the first string token whose parent is the object and whose
  text is the key, and reports failure exactly if there is none; the tokens and the text are never left
  for tokens that describe the text, as the tokenizer leaves them.
\<close>
theorem GetObjectItem_first_key:
  assumes "parsed js ts n" and "j < n" and "ttype (ts ! j) = JSMN_OBJECT" and "terminated s"
  shows "JSMN_GetObjectItem (Some js) ts (Some (item_at n j)) (Some s) True =
    (case List.find (is_key js ts (int j) (cstr s)) [j + 1..<n] of
       None \<Rightarrow> Inr (-1, None)
     | Some k \<Rightarrow> Inr (0, Some (item_at n k)))"
  using assms by (rule GetObjectItem_find)

theorem GetObjectItem_first_key_witness:
  "JSMN_GetObjectItem (Some (''{a}'' @ [NUL])) [\<lparr>ttype = JSMN_OBJECT, tstart = 0, tend = 3, tsize = 1, tparent = -1\<rparr>,
      \<lparr>ttype = JSMN_STRING, tstart = 1, tend = 2, tsize = 0, tparent = 0\<rparr>] (Some (item_at 2 0)) (Some (''a'' @ [NUL])) True =
   Inr (0, Some (item_at 2 1))"
proof -
  have "parsed (''{a}'' @ [NUL]) [\<lparr>ttype = JSMN_OBJECT, tstart = 0, tend = 3, tsize = 1, tparent = -1\<rparr>,
      \<lparr>ttype = JSMN_STRING, tstart = 1, tend = 2, tsize = 0, tparent = 0\<rparr>] 2"
    by (auto simp: parsed_def tok_ok_def less_Suc_eq numeral_2_eq_2)
  then show ?thesis using GetObjectItem_first_key [of "''{a}'' @ [NUL]" "[\<lparr>ttype = JSMN_OBJECT, tstart = 0, tend = 3, tsize = 1, tparent = -1\<rparr>,
      \<lparr>ttype = JSMN_STRING, tstart = 1, tend = 2, tsize = 0, tparent = 0\<rparr>]" 2 0 "''a'' @ [NUL]"]
    by (simp add: upt_rec is_key_def tok_text_def)
qed

text \<open>
  Copying the text of a string or primitive token never overruns the caller's buffer: the buffer
  receives the text, cut to one byte less than its size, followed by terminators up to its size, and the
  returned value is the number of characters copied.
\<close>
theorem GetStringBuffered_truncates:
  assumes "parsed js ts n" and "k < n" and "ttype (ts ! k) = JSMN_STRING \<or> ttype (ts ! k) = JSMN_PRIMITIVE"
    and "0 < m" and "m \<le> length b" and "m < 2147483648" and "x = take (m - 1) (tok_text js (ts ! k))"
  shows "JSMN_GetStringBuffered (Some js) ts (Some (item_at n k)) (Some b) (int m) =
      Inr (int (length x), Some (overwrite b 0 (x @ replicate (m - length x) NUL))) \<and>
    cstr (overwrite b 0 (x @ replicate (m - length x) NUL)) = x"
  using assms by (rule GetStringBuffered_copy)

theorem GetStringBuffered_truncates_witness:
  "JSMN_GetStringBuffered (Some (''abc'' @ [NUL])) [\<lparr>ttype = JSMN_PRIMITIVE, tstart = 0, tend = 3, tsize = 0, tparent = -1\<rparr>]
     (Some (item_at 1 0)) (Some ''....'') 3 = Inr (2, Some (''ab'' @ [NUL] @ ''.''))"
  using GetStringBuffered_truncates [of "''abc'' @ [NUL]" "[\<lparr>ttype = JSMN_PRIMITIVE, tstart = 0, tend = 3, tsize = 0, tparent = -1\<rparr>]"
      1 0 3 "''....''" "''ab''"]
  by (simp add: parsed_def tok_ok_def tok_text_def overwrite_def)

text \<open>
  The guard against a null buffer comes too late: \<open>JSMN_GetStringBuffered\<close> clears the buffer before it
  checks its arguments, so with a null buffer and a positive size it dereferences the null pointer
  instead of returning the error code.
\<close>
theorem GetStringBuffered_null_buffer:
  assumes "0 < bufsz" and "bufsz < 2 ^ 31"
  shows "JSMN_GetStringBuffered js ts item None bufsz = Inl Null_deref"
  using assms by (simp add: JSMN_GetStringBuffered_def size_of_def)

theorem GetStringBuffered_null_buffer_witness:
  "JSMN_GetStringBuffered None [] None None 64 = Inl Null_deref"
  by (rule GetStringBuffered_null_buffer) simp_all

text \<open>
  Array access by position: for an array token, \<open>JSMN_GetArrayItem\<close> returns the token of the given
  position among the tokens whose parent is the array, and fails for a negative position, a position
  not below the size the tokenizer counted, or when there are not that many children.
\<close>
theorem GetArrayItem_nth_child:
  assumes "parsed js ts n" and "j < n" and "ttype (ts ! j) = JSMN_ARRAY"
  shows "JSMN_GetArrayItem ts (Some (item_at n j)) ix True =
    (if ix < 0 \<or> ix \<ge> tsize (ts ! j) then Inr (-1, None)
     else case drop (nat ix) (filter (\<lambda>k. tparent (ts ! k) = int j) [j + 1..<n]) of
            [] \<Rightarrow> Inr (-1, None)
          | k # _ \<Rightarrow> Inr (0, Some (item_at n k)))"
proof -
  have f: "fetch ts (tok (item_at n j)) = Inr (ts ! j)" using parsed_tok(1) [OF assms(1,2)] by (simp add: item_at_def)
  have "n \<le> length ts" using assms(1) by (simp add: parsed_def)
  then show ?thesis using f assms(3) find_element_spec [OF _ assms(2), of ts ix 1]
    by (simp add: JSMN_GetArrayItem_def JSMN_GetArraySize_def)
qed

theorem GetArrayItem_nth_child_witness:
  "JSMN_GetArrayItem [\<lparr>ttype = JSMN_ARRAY, tstart = 0, tend = 3, tsize = 1, tparent = -1\<rparr>,
      \<lparr>ttype = JSMN_PRIMITIVE, tstart = 1, tend = 2, tsize = 0, tparent = 0\<rparr>] (Some (item_at 2 0)) 0 True =
   Inr (0, Some (item_at 2 1))"
proof -
  have "parsed (''[1]'' @ [NUL]) [\<lparr>ttype = JSMN_ARRAY, tstart = 0, tend = 3, tsize = 1, tparent = -1\<rparr>,
      \<lparr>ttype = JSMN_PRIMITIVE, tstart = 1, tend = 2, tsize = 0, tparent = 0\<rparr>] 2"
    by (auto simp: parsed_def tok_ok_def less_Suc_eq numeral_2_eq_2)
  then show ?thesis using GetArrayItem_nth_child [of "''[1]'' @ [NUL]" "[\<lparr>ttype = JSMN_ARRAY, tstart = 0, tend = 3, tsize = 1, tparent = -1\<rparr>,
      \<lparr>ttype = JSMN_PRIMITIVE, tstart = 1, tend = 2, tsize = 0, tparent = 0\<rparr>]" 2 0 0]
    by (simp add: upt_rec)
qed

end
