(* ===== verification/Json_Object.thy ===== *)
theory Json_Object
  imports Jsmn_Util
begin

text \<open>
  Tokenizing and reading a flat JSON object, end to end: the text of an object whose members have plain
  string or primitive values is tokenized into exactly the tokens of its members, and looking up a key
  and copying its value gives the member's value. This is the form of the commands that
  \<open>json_deal_cmd\<close> accepts.
\<close>

section \<open>Texts and their tokens\<close>

datatype jval = JStr string | JPrim string

definition str_ok :: "string \<Rightarrow> bool" where
  "str_ok s \<longleftrightarrow> list_all (\<lambda>c. c \<noteq> NUL \<and> c \<noteq> CHR 0x22 \<and> c \<noteq> CHR 0x5C) s"

definition prim_char :: "char \<Rightarrow> bool" where
  "prim_char c \<longleftrightarrow> c \<noteq> NUL \<and> \<not> delim c \<and> 32 \<le> (of_char c :: nat) \<and> (of_char c :: nat) < 127"

definition prim_ok :: "string \<Rightarrow> bool" where
  "prim_ok s \<longleftrightarrow> s \<noteq> [] \<and> list_all prim_char s \<and> hd s \<noteq> CHR ''{'' \<and> hd s \<noteq> CHR ''['' \<and> hd s \<noteq> CHR 0x22"

fun val_ok :: "jval \<Rightarrow> bool" where
  "val_ok (JStr s) = str_ok s"
| "val_ok (JPrim s) = prim_ok s"

fun val_chars :: "jval \<Rightarrow> string" where
  "val_chars (JStr s) = s"
| "val_chars (JPrim s) = s"

fun val_text :: "jval \<Rightarrow> string" where
  "val_text (JStr s) = CHR 0x22 # s @ [CHR 0x22]"
| "val_text (JPrim s) = s"

fun val_tok :: "nat \<Rightarrow> int \<Rightarrow> jval \<Rightarrow> jsmntok_t" where
  "val_tok off par (JStr s) = \<lparr>ttype = JSMN_STRING, tstart = int off + 1, tend = int (off + length s) + 1, tsize = 0, tparent = par\<rparr>"
| "val_tok off par (JPrim s) = \<lparr>ttype = JSMN_PRIMITIVE, tstart = int off, tend = int (off + length s), tsize = 0, tparent = par\<rparr>"

definition key_tok :: "nat \<Rightarrow> string \<Rightarrow> jsmntok_t" where
  "key_tok off k = \<lparr>ttype = JSMN_STRING, tstart = int off + 1, tend = int (off + length k) + 1, tsize = 1, tparent = 0\<rparr>"

definition memb_text :: "string \<times> jval \<Rightarrow> string" where
  "memb_text kv = CHR 0x22 # fst kv @ CHR 0x22 # CHR '':'' # val_text (snd kv)"

fun members_text :: "(string \<times> jval) list \<Rightarrow> string" where
  "members_text [] = []"
| "members_text [kv] = memb_text kv"
| "members_text (kv # kvs) = memb_text kv @ CHR '','' # members_text kvs"

fun members_toks :: "nat \<Rightarrow> nat \<Rightarrow> (string \<times> jval) list \<Rightarrow> toks" where
  \<comment> \<open>the tokens of members that start at offset \<open>off\<close>, the first of them with number \<open>i\<close>\<close>
  "members_toks off i [] = []"
| "members_toks off i (kv # kvs) =
     key_tok off (fst kv) # val_tok (off + length (fst kv) + 3) (int i) (snd kv) #
     members_toks (off + length (memb_text kv) + 1) (i + 2) kvs"

definition object_text :: "(string \<times> jval) list \<Rightarrow> string" where
  "object_text kvs = CHR ''{'' # members_text kvs @ ''}''"

definition object_toks :: "(string \<times> jval) list \<Rightarrow> toks" where
  "object_toks kvs =
     \<lparr>ttype = JSMN_OBJECT, tstart = 0, tend = int (length (object_text kvs)), tsize = int (length kvs), tparent = -1\<rparr> #
     members_toks 1 1 kvs"

definition memb_ok :: "string \<times> jval \<Rightarrow> bool" where
  "memb_ok kv \<longleftrightarrow> str_ok (fst kv) \<and> val_ok (snd kv)"

section \<open>Scanning\<close>

lemma str_scan_plain:
  "js = a @ s @ CHR 0x22 # r \<Longrightarrow> str_ok s \<Longrightarrow> length a + length s < len \<Longrightarrow>
     str_scan js len (length a) = Inr (Str_end (length a + length s))"
proof (induction s arbitrary: a)
  case Nil
  then show ?case by (simp add: str_scan.simps)
next
  case (Cons c s)
  have "str_scan js len (length (a @ [c])) = Inr (Str_end (length (a @ [c]) + length s))"
    by (rule Cons.IH) (use Cons.prems in \<open>auto simp: str_ok_def\<close>)
  moreover have "fetch js (length a) = Inr c" using Cons.prems(1) by simp
  ultimately show ?case using Cons.prems(2,3) by (subst str_scan.simps) (simp add: str_ok_def)
qed

lemma prim_scan_plain:
  "js = a @ s @ d # r \<Longrightarrow> list_all prim_char s \<Longrightarrow> delim d \<Longrightarrow> length a + length s < len \<Longrightarrow>
     prim_scan js len (length a) = Inr (Some (length a + length s))"
proof (induction s arbitrary: a)
  case Nil
  then show ?case by (simp add: prim_scan.simps)
next
  case (Cons c s)
  have "prim_scan js len (length (a @ [c])) = Inr (Some (length (a @ [c]) + length s))"
    by (rule Cons.IH) (use Cons.prems in auto)
  moreover have "fetch js (length a) = Inr c" using Cons.prems(1) by simp
  ultimately show ?case using Cons.prems(2,4) by (subst prim_scan.simps) (simp add: prim_char_def)
qed

lemma loop_step:
  assumes "fetch js (pos p) = Inr c" and "c \<noteq> NUL" and "pos p < len"
    and "parse_step js len num c (p, ts, n) = Inr (None, p', ts', n')"
  shows "parse_loop js len num p ts n = parse_loop js len num (p'\<lparr>pos := pos p' + 1\<rparr>) ts' n'"
  using assms by (subst parse_loop.simps) simp

lemma fetch_append: "fetch (a @ c # r) (length a) = Inr c"
  by simp

section \<open>Steps of the tokenizer\<close>

definition at_pos :: "nat \<Rightarrow> nat \<Rightarrow> int \<Rightarrow> jsmn_parser" where
  "at_pos q k par = \<lparr>pos = q, toknext = k, toksuper = par\<rparr>"

lemma new_token_at:
  assumes "length ts < num" and "num = length ts + length rest"
  shows "new_token ty st en (at_pos q (length ts) par) (ts @ rest) num =
    Inr (Some (at_pos q (length ts + 1) par,
      ts @ \<lparr>ttype = ty, tstart = st, tend = en, tsize = 0, tparent = par\<rparr> # tl rest))"
proof -
  obtain r0 rs where r: "rest = r0 # rs" using assms by (cases rest) auto
  show ?thesis using assms r
    by (cases r0) (simp add: new_token_def jsmn_alloc_token_def jsmn_fill_token_def at_pos_def list_update_append)
qed

definition bump :: "nat \<Rightarrow> toks \<Rightarrow> toks" where
  "bump k ts = ts[k := (ts ! k)\<lparr>tsize := tsize (ts ! k) + 1\<rparr>]"

lemma length_bump [simp]: "length (bump k ts) = length ts"
  by (simp add: bump_def)

lemma bump_append: "bump k (ts @ us) = (if k < length ts then bump k ts @ us else ts @ bump (k - length ts) us)"
  by (simp add: bump_def nth_append list_update_append)

lemma incr_super_at:
  assumes "k < length ts"
  shows "incr_super (int k) (ts @ rest) = Inr (bump k ts @ rest)"
  using assms by (simp add: incr_super_def nth_append list_update_append bump_def)

lemma count_item_at:
  assumes "k < length ts"
  shows "count_item (0, at_pos q m (int k), Some (ts @ t # rest)) n =
    Inr (None, at_pos q m (int k), Some (bump k ts @ t # rest), n + 1)"
  using assms incr_super_at [of k ts "t # rest"] by (simp add: count_item_def at_pos_def)

lemma string_step:
  assumes "js = a @ CHR 0x22 # s @ CHR 0x22 # r" and "str_ok s" and "length a + length s + 1 < len"
    and "length ts < num" and "num = length ts + length rest" and "k < length ts"
  shows "parse_loop js len num (at_pos (length a) (length ts) (int k)) (Some (ts @ rest)) n =
    parse_loop js len num (at_pos (length a + length s + 2) (length ts + 1) (int k))
      (Some (bump k ts @ val_tok (length a) (int k) (JStr s) # tl rest)) (n + 1)"
proof -
  have sc: "str_scan js len (length a + 1) = Inr (Str_end (length a + 1 + length s))"
    using str_scan_plain [of js "a @ [CHR 0x22]" s r len] assms(1-3) by simp
  have "jsmn_parse_string (at_pos (length a) (length ts) (int k)) js len (Some (ts @ rest)) num =
      Inr (0, at_pos (length a + 1 + length s) (length ts + 1) (int k),
        Some (ts @ val_tok (length a) (int k) (JStr s) # tl rest))"
    using sc new_token_at [OF assms(4,5), of JSMN_STRING "int (length a) + 1" "int (length a + 1 + length s)" "length a" "int k"]
    by (simp add: jsmn_parse_string_def at_pos_def ac_simps)
  then have "parse_step js len num CHR 0x22 (at_pos (length a) (length ts) (int k), Some (ts @ rest), n) =
      Inr (None, at_pos (length a + 1 + length s) (length ts + 1) (int k),
        Some (bump k ts @ val_tok (length a) (int k) (JStr s) # tl rest), n + 1)"
    using count_item_at [OF assms(6)] by (simp add: parse_step_def)
  moreover have "fetch js (length a) = Inr CHR 0x22" using assms(1) by simp
  ultimately show ?thesis using loop_step [of js "at_pos (length a) (length ts) (int k)" "CHR 0x22" len] assms(3)
    by (simp add: at_pos_def algebra_simps)
qed

lemma prim_step:
  assumes "js = a @ s @ d # r" and "prim_ok s" and "delim d" and "length a + length s < len"
    and "length ts < num" and "num = length ts + length rest" and "k < length ts"
  shows "parse_loop js len num (at_pos (length a) (length ts) (int k)) (Some (ts @ rest)) n =
    parse_loop js len num (at_pos (length a + length s) (length ts + 1) (int k))
      (Some (bump k ts @ val_tok (length a) (int k) (JPrim s) # tl rest)) (n + 1)"
proof -
  obtain c s' where s: "s = c # s'" "prim_char c" "c \<noteq> CHR ''{''" "c \<noteq> CHR ''[''" "c \<noteq> CHR 0x22"
    using assms(2) by (cases s) (auto simp: prim_ok_def)
  have nd: "c \<noteq> NUL" "\<not> delim c" using s(2) by (auto simp: prim_char_def)
  have sc: "prim_scan js len (length a) = Inr (Some (length a + length s))"
    using prim_scan_plain [OF assms(1) _ assms(3,4)] assms(2) by (simp add: prim_ok_def)
  have "jsmn_parse_primitive (at_pos (length a) (length ts) (int k)) js len (Some (ts @ rest)) num =
      Inr (0, at_pos (length a + length s - 1) (length ts + 1) (int k),
        Some (ts @ val_tok (length a) (int k) (JPrim s) # tl rest))"
    using sc new_token_at [OF assms(5,6), of JSMN_PRIMITIVE "int (length a)" "int (length a + length s)" "length a" "int k"]
    by (simp add: jsmn_parse_primitive_def at_pos_def)
  then have "parse_step js len num c (at_pos (length a) (length ts) (int k), Some (ts @ rest), n) =
      Inr (None, at_pos (length a + length s - 1) (length ts + 1) (int k),
        Some (bump k ts @ val_tok (length a) (int k) (JPrim s) # tl rest), n + 1)"
    using count_item_at [OF assms(7)] s(3-5) nd by (simp add: parse_step_def delim_def)
  moreover have "fetch js (length a) = Inr c" using assms(1) s(1) by simp
  ultimately show ?thesis
    using loop_step [of js "at_pos (length a) (length ts) (int k)" c len] assms(4) nd(1) s(1)
    by (simp add: at_pos_def)
qed

lemma value_step:
  assumes "js = a @ val_text v @ d # r" and "val_ok v" and "delim d" and "length a + length (val_text v) < len"
    and "length ts < num" and "num = length ts + length rest" and "k < length ts"
  shows "parse_loop js len num (at_pos (length a) (length ts) (int k)) (Some (ts @ rest)) n =
    parse_loop js len num (at_pos (length a + length (val_text v)) (length ts + 1) (int k))
      (Some (bump k ts @ val_tok (length a) (int k) v # tl rest)) (n + 1)"
proof (cases v)
  case (JStr s)
  then show ?thesis using string_step [of js a s "d # r" len ts num rest k n] assms
    by (simp del: val_tok.simps add: ac_simps)
next
  case (JPrim s)
  then show ?thesis using prim_step [of js a s d r len ts num rest k n] assms by (simp del: val_tok.simps)
qed

lemma colon_step:
  assumes "js = a @ CHR '':'' # r" and "length a < len"
  shows "parse_loop js len num (at_pos (length a) (Suc m) par) ts n =
    parse_loop js len num (at_pos (length a + 1) (Suc m) (int m)) ts n"
  using loop_step [of js "at_pos (length a) (Suc m) par" "CHR '':''" len num ts n] assms
  by (simp add: parse_step_def at_pos_def)

lemma comma_step:
  assumes "js = a @ CHR '','' # r" and "length a < len" and "k < length ts" and "ttype (ts ! k) = JSMN_STRING"
  shows "parse_loop js len num (at_pos (length a) m (int k)) (Some ts) n =
    parse_loop js len num (at_pos (length a + 1) m (tparent (ts ! k))) (Some ts) n"
  using loop_step [of js "at_pos (length a) m (int k)" "CHR '',''" len num "Some ts" n] assms
  by (simp add: parse_step_def at_pos_def)

lemma member_step:
  assumes "js = a @ memb_text kv @ d # r" and "memb_ok kv" and "delim d" and "length a + length (memb_text kv) < len"
    and "length ts + 1 < num" and "num = length ts + length rest" and "ts \<noteq> []"
  shows "parse_loop js len num (at_pos (length a) (length ts) 0) (Some (ts @ rest)) n =
    parse_loop js len num (at_pos (length a + length (memb_text kv)) (length ts + 2) (int (length ts)))
      (Some (bump 0 ts @ key_tok (length a) (fst kv) #
        val_tok (length a + length (fst kv) + 3) (int (length ts)) (snd kv) # drop 2 rest)) (n + 2)"
proof -
  let ?key = "fst kv" and ?v = "snd kv" and ?m = "length a + length (fst kv) + 2"
  let ?k0 = "val_tok (length a) 0 (JStr ?key)" and ?ts1 = "bump 0 ts @ [val_tok (length a) 0 (JStr ?key)]"
  have kv: "str_ok ?key" "val_ok ?v" using assms(2) by (simp_all add: memb_ok_def)
  have l: "length (memb_text kv) = length ?key + 3 + length (val_text ?v)" by (simp add: memb_text_def)
  have s1: "js = a @ CHR 0x22 # ?key @ CHR 0x22 # (CHR '':'' # val_text ?v @ d # r)"
    using assms(1) by (simp add: memb_text_def)
  have s2: "js = (a @ CHR 0x22 # ?key @ [CHR 0x22]) @ CHR '':'' # (val_text ?v @ d # r)" using s1 by simp
  have s3: "js = (a @ CHR 0x22 # ?key @ [CHR 0x22, CHR '':'']) @ val_text ?v @ d # r" using s1 by simp
  have "parse_loop js len num (at_pos (length a) (length ts) 0) (Some (ts @ rest)) n =
      parse_loop js len num (at_pos ?m (length ts + 1) 0) (Some (?ts1 @ tl rest)) (n + 1)"
    using string_step [OF s1 kv(1), of len ts num rest 0 n] assms(4-7) l by (cases rest) auto
  also have "\<dots> = parse_loop js len num (at_pos (?m + 1) (length ?ts1) (int (length ts))) (Some (?ts1 @ tl rest)) (n + 1)"
    using colon_step [OF s2, of len num "length ts" 0] assms(4) l by (simp add: ac_simps)
  also have "\<dots> = parse_loop js len num (at_pos (?m + 1 + length (val_text ?v)) (length ts + 2) (int (length ts)))
      (Some (bump (length ts) ?ts1 @ val_tok (?m + 1) (int (length ts)) ?v # tl (tl rest))) (n + 2)"
    using value_step [OF s3 kv(2) assms(3), of len ?ts1 num "tl rest" "length ts" "n + 1"] assms(4-6) l
    by (simp add: ac_simps)
  also have "bump (length ts) ?ts1 = bump 0 ts @ [key_tok (length a) ?key]"
    by (simp add: bump_append) (simp add: bump_def key_tok_def)
  finally show ?thesis using l by (simp add: ac_simps numeral_2_eq_2 drop_Suc numeral_3_eq_3 tl_drop)
qed

lemma bump_Cons: "bump 0 (ob # ts) = ob\<lparr>tsize := tsize ob + 1\<rparr> # ts"
  by (simp add: bump_def)

lemma length_members_toks [simp]: "length (members_toks off i kvs) = 2 * length kvs"
  by (induction kvs arbitrary: off i) auto

lemma members_loop:
  assumes "js = a @ members_text kvs @ CHR ''}'' # r" and "list_all memb_ok kvs" and "kvs \<noteq> []"
    and "length a + length (members_text kvs) < len"
    and "length (ob # ts) + 2 * length kvs \<le> num" and "num = length (ob # ts) + length rest"
  shows "parse_loop js len num (at_pos (length a) (length (ob # ts)) 0) (Some (ob # ts @ rest)) n =
    parse_loop js len num (at_pos (length a + length (members_text kvs)) (length (ob # ts) + 2 * length kvs)
        (int (length (ob # ts) + 2 * length kvs) - 2))
      (Some (ob\<lparr>tsize := tsize ob + int (length kvs)\<rparr> # ts @ members_toks (length a) (length (ob # ts)) kvs @
        drop (2 * length kvs) rest)) (n + 2 * int (length kvs))"
  using assms
proof (induction kvs arbitrary: a ob ts rest n rule: members_text.induct)
  case 1
  then show ?case by simp
next
  case (2 kv)
  then show ?case using member_step [of js a kv "CHR ''}''" r len "ob # ts" num rest n]
    by (simp add: bump_Cons delim_def)
next
  case (3 kv kv' kvs)
  let ?k = "kv' # kvs" and ?a' = "a @ memb_text kv @ [CHR '','']"
  let ?ob = "ob\<lparr>tsize := tsize ob + 1\<rparr>"
  let ?ts = "ts @ [key_tok (length a) (fst kv), val_tok (length a + length (fst kv) + 3) (int (length (ob # ts))) (snd kv)]"
  have js: "js = a @ memb_text kv @ CHR '','' # (members_text ?k @ CHR ''}'' # r)"
    "js = (a @ memb_text kv) @ CHR '','' # (members_text ?k @ CHR ''}'' # r)"
    "js = ?a' @ members_text ?k @ CHR ''}'' # r"
    using 3(2) by simp_all
  have "parse_loop js len num (at_pos (length a) (length (ob # ts)) 0) (Some (ob # ts @ rest)) n =
      parse_loop js len num (at_pos (length (a @ memb_text kv)) (length (ob # ts) + 2) (int (length (ob # ts))))
        (Some (?ob # ?ts @ drop 2 rest)) (n + 2)"
    using member_step [OF js(1), of len "ob # ts" num rest n] 3(3,5,6,7) by (simp add: bump_Cons delim_def)
  also have "\<dots> = parse_loop js len num (at_pos (length ?a') (length (?ob # ?ts)) 0) (Some (?ob # ?ts @ drop 2 rest)) (n + 2)"
    using comma_step [OF js(2), of len "length (ob # ts)" "?ob # ?ts @ drop 2 rest" num "length (ob # ts) + 2" "n + 2"] 3(5)
    by (simp add: key_tok_def nth_append)
  also have "\<dots> = parse_loop js len num (at_pos (length ?a' + length (members_text ?k)) (length (?ob # ?ts) + 2 * length ?k)
        (int (length (?ob # ?ts) + 2 * length ?k) - 2))
      (Some (?ob\<lparr>tsize := tsize ?ob + int (length ?k)\<rparr> # ?ts @ members_toks (length ?a') (length (?ob # ?ts)) ?k @
        drop (2 * length ?k) (drop 2 rest))) (n + 2 + 2 * int (length ?k))"
    by (rule 3(1) [OF js(3)]) (use 3(3-7) in auto)
  finally show ?case by (simp add: ac_simps)
qed

lemma close_step:
  assumes "js = a @ CHR ''}'' # r" and "length a < len" and "k < length ts" and "close_scan (k + 1) JSMN_OBJECT (at_pos (length a) (k + 1) par) ts k = Inr (Some (at_pos (length a) (k + 1) (-1), ts'))"
  shows "parse_loop js len num (at_pos (length a) (k + 1) par) (Some ts) n =
    parse_loop js len num (at_pos (length a + 1) (k + 1) (-1)) (Some ts') n"
  using loop_step [of js "at_pos (length a) (k + 1) par" "CHR ''}''" len num "Some ts" n] assms
  by (simp add: parse_step_def at_pos_def)

lemma members_toks_last:
  "\<exists>key v o1 o2. drop (2 * length us) (members_toks off i (us @ [kv])) =
     [key_tok o1 key, val_tok o2 (int (i + 2 * length us)) v]"
proof (induction us arbitrary: off i)
  case (Cons u us)
  show ?case using Cons [of "off + length (memb_text u) + 1" "i + 2"] by (simp add: ac_simps)
qed auto

lemma close_object:
  assumes "kvs \<noteq> []" and "tend ob = -1" and "tstart ob \<noteq> -1" and "ttype ob = JSMN_OBJECT" and "tparent ob = -1"
    and "k = 2 * length kvs"
  shows "close_scan (k + 1) JSMN_OBJECT (at_pos q m par) (ob # members_toks off 1 kvs @ rest) k =
    Inr (Some (at_pos q m (-1), ob\<lparr>tend := int q + 1\<rparr> # members_toks off 1 kvs @ rest))"
proof -
  obtain us kv where kvs: "kvs = us @ [kv]" using assms(1) by (cases kvs rule: rev_cases) auto
  define l where "l = length us"
  let ?mt = "members_toks off 1 kvs"
  obtain key v o1 o2 where t: "drop (2 * l) ?mt = [key_tok o1 key, val_tok o2 (int (1 + 2 * l)) v]"
    using members_toks_last [of us off 1 kv] kvs l_def by auto
  have len: "length ?mt = 2 * l + 2" using kvs l_def by simp
  have d: "?mt ! (2 * l) = drop (2 * l) ?mt ! 0" "?mt ! (2 * l + 1) = drop (2 * l) ?mt ! 1"
    using len by (simp_all add: nth_drop del: length_members_toks)
  have "?mt ! (2 * l) = key_tok o1 key" "?mt ! (2 * l + 1) = val_tok o2 (int (1 + 2 * l)) v"
    using d t by simp_all
  then have f: "fetch (ob # ?mt @ rest) (2 * l + 1) = Inr (key_tok o1 key)"
    "fetch (ob # ?mt @ rest) (2 * l + 2) = Inr (val_tok o2 (int (1 + 2 * l)) v)"
    using len by (simp_all add: nth_append)
  have v: "tend (val_tok o2 x v) \<noteq> -1" "tparent (val_tok o2 x v) = x" for x by (cases v; simp)+
  have k: "k = 2 * l + 2" "k + 1 = Suc (Suc (Suc (2 * l)))" using assms(6) kvs l_def by simp_all
  show ?thesis using f v assms(2-5) unfolding k
    by (simp add: key_tok_def nat_add_distrib nat_mult_distrib at_pos_def)
qed

lemma open_step:
  assumes "js = CHR ''{'' # r" and "0 < len" and "0 < num" and "num = length rest"
  shows "parse_loop js len num jsmn_init (Some rest) 0 =
    parse_loop js len num (at_pos 1 1 0)
      (Some (\<lparr>ttype = JSMN_OBJECT, tstart = 0, tend = -1, tsize = 0, tparent = -1\<rparr> # tl rest)) 1"
proof -
  obtain r0 rs where r: "rest = r0 # rs" using assms by (cases rest) auto
  show ?thesis
    using loop_step [of js jsmn_init "CHR ''{''" len num "Some rest" 0] assms r
    by (cases r0) (simp add: parse_step_def open_bracket_def jsmn_alloc_token_def incr_super_def jsmn_init_def at_pos_def)
qed

lemma members_toks_closed: "t \<in> set (members_toks off i kvs) \<Longrightarrow> tend t \<noteq> -1"
proof (induction kvs arbitrary: off i)
  case (Cons kv kvs)
  moreover have "tend (val_tok o2 x v) \<noteq> -1" for o2 x v by (cases v) simp_all
  ultimately show ?case by (auto simp: key_tok_def)
qed simp

lemma jsmn_parse_object:
  assumes "list_all memb_ok kvs" and "kvs \<noteq> []" and "length (object_toks kvs) \<le> length ts"
    and "n = length (object_text kvs)"
  shows "jsmn_parse jsmn_init (object_text kvs @ r) n (Some ts) (length ts) =
    Inr (int (length (object_toks kvs)), at_pos n (length (object_toks kvs)) (-1),
      Some (object_toks kvs @ drop (length (object_toks kvs)) ts))"
proof -
  let ?js = "object_text kvs @ r" and ?m = "members_text kvs" and ?k = "2 * length kvs" and ?num = "length ts"
  let ?ob = "\<lparr>ttype = JSMN_OBJECT, tstart = 0, tend = -1, tsize = 0, tparent = -1\<rparr>"
  let ?ob1 = "?ob\<lparr>tsize := int (length kvs)\<rparr>"
  let ?mt = "members_toks 1 1 kvs" and ?rest = "drop (?k + 1) ts"
  have js: "?js = CHR ''{'' # ?m @ CHR ''}'' # r" "?js = [CHR ''{''] @ ?m @ CHR ''}'' # r"
    "?js = (CHR ''{'' # ?m) @ CHR ''}'' # r" by (simp_all add: object_text_def)
  have n: "n = length ?m + 2" using assms(4) by (simp add: object_text_def)
  have k: "length (object_toks kvs) = ?k + 1" by (simp add: object_toks_def)
  have "parse_loop ?js n ?num jsmn_init (Some ts) 0 = parse_loop ?js n ?num (at_pos 1 1 0) (Some (?ob # tl ts)) 1"
    by (rule open_step [OF js(1)]) (use n assms(3) k in auto)
  also have "\<dots> = parse_loop ?js n ?num (at_pos (1 + length ?m) (?k + 1) (int (1 + ?k) - 2)) (Some (?ob1 # ?mt @ ?rest)) (1 + int ?k)"
    using members_loop [OF js(2) assms(1,2), of n ?ob "[]" ?num "tl ts" 1] n assms(3) unfolding k
    by (cases ts) auto
  also have "\<dots> = parse_loop ?js n ?num (at_pos n (?k + 1) (-1)) (Some (object_toks kvs @ ?rest)) (1 + int ?k)"
    using close_step [OF js(3), of n ?k "?ob1 # ?mt @ ?rest"]
      close_object [OF assms(2), of ?ob1 ?k "length ?m + 1" "?k + 1" _ 1 ?rest] n assms(4)
    by (simp add: object_toks_def)
  also have "\<dots> = Inr (None, at_pos n (?k + 1) (-1), Some (object_toks kvs @ ?rest), 1 + int ?k)"
    by (subst parse_loop.simps) (simp add: at_pos_def)
  finally have "parse_loop ?js n ?num jsmn_init (Some ts) 0 =
      Inr (None, at_pos n (?k + 1) (-1), Some (object_toks kvs @ ?rest), 1 + int ?k)" .
  moreover have "\<not> unmatched (at_pos n (?k + 1) (-1)) (object_toks kvs @ ?rest)"
    using members_toks_closed k by (auto simp: unmatched_def at_pos_def list_ex_iff object_toks_def)
  ultimately show ?thesis using k assms(3) by (simp add: jsmn_parse_def) (simp add: at_pos_def jsmn_init_def)
qed

section \<open>Members of a parsed object\<close>

lemma members_at:
  "j < length kvs \<Longrightarrow> js = a @ members_text kvs @ r \<Longrightarrow>
     \<exists>a1 r1. members_toks (length a) i kvs ! (2 * j) = key_tok (length a1) (fst (kvs ! j)) \<and>
       members_toks (length a) i kvs ! (2 * j + 1) =
         val_tok (length a1 + length (fst (kvs ! j)) + 3) (int (i + 2 * j)) (snd (kvs ! j)) \<and>
       js = a1 @ memb_text (kvs ! j) @ r1"
proof (induction kvs arbitrary: j a i rule: members_text.induct)
  case (3 kv kv' kvs)
  show ?case
  proof (cases j)
    case 0
    then show ?thesis using 3(3) by auto
  next
    case (Suc j')
    let ?a = "a @ memb_text kv @ [CHR '','']"
    have "j' < length (kv' # kvs)" "js = ?a @ members_text (kv' # kvs) @ r" using 3(2,3) Suc by simp_all
    from 3(1) [OF this, of "i + 2"] show ?thesis unfolding Suc by (simp add: ac_simps)
  qed
qed auto

lemma tok_text_key:
  "js = a @ memb_text kv @ r \<Longrightarrow> tok_text js (key_tok (length a) (fst kv)) = fst kv"
  by (simp add: tok_text_def key_tok_def memb_text_def nat_add_distrib)

lemma tok_text_val:
  "js = a @ memb_text kv @ r \<Longrightarrow>
     tok_text js (val_tok (length a + length (fst kv) + 3) x (snd kv)) = val_chars (snd kv)"
  by (cases "snd kv") (simp_all add: tok_text_def memb_text_def nat_add_distrib eval_nat_numeral)

lemma object_at:
  assumes "j < length kvs" and "js = object_text kvs @ r" and "ts = object_toks kvs @ rest"
  shows "\<exists>o1 o2. ts ! (2 * j + 1) = key_tok o1 (fst (kvs ! j)) \<and>
    ts ! (2 * j + 2) = val_tok o2 (int (2 * j + 1)) (snd (kvs ! j)) \<and>
    tok_text js (ts ! (2 * j + 1)) = fst (kvs ! j) \<and>
    tok_text js (ts ! (2 * j + 2)) = val_chars (snd (kvs ! j))"
proof -
  have js: "js = [CHR ''{''] @ members_text kvs @ CHR ''}'' # r" using assms(2) by (simp add: object_text_def)
  obtain a1 r1 where m: "members_toks 1 1 kvs ! (2 * j) = key_tok (length a1) (fst (kvs ! j))"
    "members_toks 1 1 kvs ! (2 * j + 1) = val_tok (length a1 + length (fst (kvs ! j)) + 3) (int (1 + 2 * j)) (snd (kvs ! j))"
    "js = a1 @ memb_text (kvs ! j) @ r1"
    using members_at [OF assms(1) js, of 1] by auto
  have "ts ! (2 * j + 1) = members_toks 1 1 kvs ! (2 * j)" "ts ! (2 * j + 2) = members_toks 1 1 kvs ! (2 * j + 1)"
    using assms(1,3) by (simp_all add: object_toks_def nth_append)
  then show ?thesis using m tok_text_key [OF m(3)] tok_text_val [OF m(3)] by auto
qed

definition key_index :: "(string \<times> jval) list \<Rightarrow> string \<Rightarrow> nat option" where
  \<comment> \<open>the first member with the given key\<close>
  "key_index kvs s = List.find (\<lambda>j. fst (kvs ! j) = s) [0..<length kvs]"

lemma find_map_Suc: "List.find Q (map Suc xs) = map_option Suc (List.find (\<lambda>j. Q (Suc j)) xs)"
  by (induction xs) auto

lemma find_even:
  "(\<And>j. j < n \<Longrightarrow> \<not> P (i + 2 * j + 1)) \<Longrightarrow>
     List.find P [i..<i + 2 * n] = map_option (\<lambda>j. i + 2 * j) (List.find (\<lambda>j. P (i + 2 * j)) [0..<n])"
proof (induction n arbitrary: i)
  case (Suc n)
  have odd: "\<not> P (i + 1)" "\<And>j. j < n \<Longrightarrow> \<not> P (i + 2 + 2 * j + 1)"
    using Suc.prems [of 0] Suc.prems [of "Suc j" for j] by (auto simp: ac_simps)
  have u: "[i..<i + 2 * Suc n] = i # (i + 1) # [i + 2..<i + 2 + 2 * n]" "[0..<Suc n] = 0 # map Suc [0..<n]"
    by (simp_all add: upt_conv_Cons map_Suc_upt)
  show ?case unfolding u using odd Suc.IH [OF odd(2)] 
    by (simp add: find_map_Suc option.map_comp comp_def ac_simps)
qed simp

lemma object_key:
  assumes "list_all memb_ok kvs" and "kvs \<noteq> []" and "js = object_text kvs @ r" and "ts = object_toks kvs @ rest"
  shows "List.find (is_key js ts 0 s) [1..<length (object_toks kvs)] = map_option (\<lambda>j. 2 * j + 1) (key_index kvs s)"
proof -
  have val: "tparent (val_tok o2 x v) = x" for o2 x v by (cases v) simp_all
  have odd: "\<not> is_key js ts 0 s (1 + 2 * j + 1)" if "j < length kvs" for j
    using object_at [OF that assms(3,4)] by (auto simp: is_key_def val)
  have even: "is_key js ts 0 s (1 + 2 * j) \<longleftrightarrow> fst (kvs ! j) = s" if "j < length kvs" for j
    using object_at [OF that assms(3,4)] by (auto simp: is_key_def key_tok_def)
  have "List.find (is_key js ts 0 s) [1..<1 + 2 * length kvs] =
      map_option (\<lambda>j. 1 + 2 * j) (List.find (\<lambda>j. is_key js ts 0 s (1 + 2 * j)) [0..<length kvs])"
    using odd by (rule find_even)
  also have "List.find (\<lambda>j. is_key js ts 0 s (1 + 2 * j)) [0..<length kvs] = key_index kvs s"
    unfolding key_index_def using even by (intro find_cong) auto
  finally show ?thesis by (simp add: object_toks_def)
qed

lemma key_index_less: "key_index kvs s = Some j \<Longrightarrow> j < length kvs \<and> fst (kvs ! j) = s"
  by (auto simp: key_index_def find_Some_iff)

lemma members_text_no_NUL: "list_all memb_ok kvs \<Longrightarrow> NUL \<notin> set (object_text kvs)"
proof -
  have v: "val_ok v \<Longrightarrow> NUL \<notin> set (val_text v)" for v
    by (cases v) (auto simp: str_ok_def prim_ok_def prim_char_def list_all_iff)
  have m: "memb_ok kv \<Longrightarrow> NUL \<notin> set (memb_text kv)" for kv
    using v by (auto simp: memb_ok_def memb_text_def str_ok_def list_all_iff)
  have "list_all memb_ok kvs \<Longrightarrow> NUL \<notin> set (members_text kvs)"
    by (induction kvs rule: members_text.induct) (auto simp: m)
  then show "list_all memb_ok kvs \<Longrightarrow> NUL \<notin> set (object_text kvs)" by (simp add: object_text_def)
qed

lemma object_parsed:
  assumes "list_all memb_ok kvs" and "kvs \<noteq> []" and "js = object_text kvs @ NUL # r" and "length js < 2147483648"
    and "length (object_toks kvs) \<le> length ts"
  shows "jsmn_parse jsmn_init js (length (object_text kvs)) (Some ts) (length ts) =
      Inr (int (length (object_toks kvs)), at_pos (length (object_text kvs)) (length (object_toks kvs)) (-1),
        Some (object_toks kvs @ drop (length (object_toks kvs)) ts))" (is ?parse)
    and "parsed js (object_toks kvs @ drop (length (object_toks kvs)) ts) (length (object_toks kvs))"
proof -
  show p: ?parse using jsmn_parse_object [OF assms(1,2,5) refl, of "NUL # r"] assms(3) by simp
  have c: "cstr js = object_text kvs" "terminated js" using members_text_no_NUL [OF assms(1)] assms(3) by simp_all
  show "parsed js (object_toks kvs @ drop (length (object_toks kvs)) ts) (length (object_toks kvs))"
    using jsmn_parse_parsed [OF c(2) assms(4), of ts] p c(1) by auto
qed

lemma object_lookup:
  assumes "list_all memb_ok kvs" and "kvs \<noteq> []" and "js = object_text kvs @ NUL # r"
    and "ts = object_toks kvs @ rest" and "n = length (object_toks kvs)" and "parsed js ts n" and "terminated s"
  shows "JSMN_GetObjectItem (Some js) ts (Some (item_at n 0)) (Some s) True =
    (case key_index kvs (cstr s) of None \<Rightarrow> Inr (-1, None) | Some j \<Rightarrow> Inr (0, Some (item_at n (2 * j + 1))))"
proof -
  have "0 < n" "ttype (ts ! 0) = JSMN_OBJECT" using assms(4,5) by (simp_all add: object_toks_def)
  from GetObjectItem_find [OF assms(6) this assms(7)] show ?thesis
    using object_key [OF assms(1-4), of "cstr s"] assms(5) by (simp split: option.split)
qed

lemma object_value:
  assumes "list_all memb_ok kvs" and "kvs \<noteq> []" and "js = object_text kvs @ NUL # r"
    and "ts = object_toks kvs @ rest" and "n = length (object_toks kvs)" and "parsed js ts n"
    and "j < length kvs" and "0 < m" and "m \<le> length b" and "m < 2147483648"
    and "x = take (m - 1) (val_chars (snd (kvs ! j)))"
  shows "JSMN_GetValueStringBuffered (Some js) ts (Some (item_at n (2 * j + 1))) (Some b) (int m) =
      Inr (int (length x), Some (overwrite b 0 (x @ replicate (m - length x) NUL)))"
    and "cstr (overwrite b 0 (x @ replicate (m - length x) NUL)) = x"
proof -
  have val: "ttype (val_tok o2 y v) = JSMN_STRING \<or> ttype (val_tok o2 y v) = JSMN_PRIMITIVE" for o2 y v by (cases v) simp_all
  note at = object_at [OF assms(7,3,4)]
  have n: "2 * j + 2 < n" using assms(5,7) by (simp add: object_toks_def)
  have "ttype (ts ! (2 * j + 2)) = JSMN_STRING \<or> ttype (ts ! (2 * j + 2)) = JSMN_PRIMITIVE"
    "x = take (m - 1) (tok_text js (ts ! (2 * j + 2)))"
    using at assms(11) by (metis val, auto)
  note c = GetStringBuffered_copy [OF assms(6) n this(1) assms(8-10) this(2)]
  show "cstr (overwrite b 0 (x @ replicate (m - length x) NUL)) = x" using c by simp
  have "ttype (ts ! (2 * j + 1)) = JSMN_STRING" "tsize (ts ! (2 * j + 1)) = 1" using at by (auto simp: key_tok_def)
  moreover have "2 * j + 1 < length ts" using parsed_tok(1) [OF assms(6)] n by simp
  moreover have "value_item (item_at n (2 * j + 1)) = item_at n (2 * j + 2)" by (simp add: value_item_def item_at_def)
  ultimately show "JSMN_GetValueStringBuffered (Some js) ts (Some (item_at n (2 * j + 1))) (Some b) (int m) =
      Inr (int (length x), Some (overwrite b 0 (x @ replicate (m - length x) NUL)))"
    using c n assms(8) by (simp add: JSMN_GetValueStringBuffered_def item_at_def)
qed

lemma key_index_map_of: "map_of kvs s = map_option (\<lambda>j. snd (kvs ! j)) (key_index kvs s)"
proof (induction kvs)
  case (Cons kv kvs)
  have u: "[0..<length (kv # kvs)] = 0 # map Suc [0..<length kvs]"
    by (simp add: upt_conv_Cons map_Suc_upt del: upt_Suc)
  show ?case unfolding key_index_def u using Cons
    by (simp add: find_map_Suc option.map_comp comp_def key_index_def)
qed (simp add: key_index_def)

section \<open>Properties\<close>

text \<open>
  C5. Reading a JSON object end to end: tokenizing the text of an object whose members have string or
  primitive values, looking up a key and copying its value gives the value of the first member with that
  key, cut to one byte less than the buffer, and the lookup fails exactly if no member has the key. The
  members may come in any order and number the token array holds.
\<close>
theorem json_object_roundtrip:
  assumes "list_all memb_ok kvs" and "kvs \<noteq> []" and "js = object_text kvs @ NUL # r" and "length js < 2147483648"
    and "2 * length kvs + 1 \<le> length ts" and "NUL \<notin> set s" and "0 < m" and "m \<le> length b" and "m < 2147483648"
  shows "\<exists>n p ts'. jsmn_parse jsmn_init js (length (object_text kvs)) (Some ts) (length ts) = Inr (int n, p, Some ts') \<and>
    (case map_of kvs s of
       None \<Rightarrow> JSMN_GetObjectItem (Some js) ts' (Some (JSMN_ItemInit 0 0 (int n))) (Some (s @ [NUL])) True = Inr (-1, None)
     | Some v \<Rightarrow> \<exists>it b'. JSMN_GetObjectItem (Some js) ts' (Some (JSMN_ItemInit 0 0 (int n))) (Some (s @ [NUL])) True = Inr (0, Some it) \<and>
         JSMN_GetValueStringBuffered (Some js) ts' (Some it) (Some b) (int m) = Inr (int (min (m - 1) (length (val_chars v))), Some b') \<and>
         cstr b' = take (m - 1) (val_chars v))"
proof -
  let ?n = "length (object_toks kvs)" and ?ts = "object_toks kvs @ drop (length (object_toks kvs)) ts"
  have n: "?n \<le> length ts" using assms(5) by (simp add: object_toks_def)
  have i: "JSMN_ItemInit 0 0 (int ?n) = item_at ?n 0" by (simp add: JSMN_ItemInit_def item_at_def)
  have s: "terminated (s @ [NUL])" "cstr (s @ [NUL]) = s" using assms(6) by simp_all
  note p = object_parsed [OF assms(1-4) n]
  note l = object_lookup [OF assms(1-3) refl refl p(2) s(1)]
  show ?thesis
  proof (cases "key_index kvs s")
    case None
    then have "map_of kvs s = None" using key_index_map_of [of kvs s] by simp
    then show ?thesis using p(1) l None s(2) i by auto
  next
    case (Some j)
    then have j: "j < length kvs" "map_of kvs s = Some (snd (kvs ! j))"
      using key_index_less key_index_map_of [of kvs s] by auto
    show ?thesis using p(1) l Some s(2) i j object_value [OF assms(1-3) refl refl p(2) j(1) assms(7-9) refl]
      by (auto simp: min.commute)
  qed
qed

theorem json_object_roundtrip_witness:
  "\<exists>n p ts'. jsmn_parse jsmn_init (object_text [(''led'', JPrim ''1''), (''id'', JStr ''x'')] @ [NUL])
      (length (object_text [(''led'', JPrim ''1''), (''id'', JStr ''x'')]))
      (Some (replicate 5 \<lparr>ttype = JSMN_UNDEFINED, tstart = 0, tend = 0, tsize = 0, tparent = 0\<rparr>)) 5 = Inr (int n, p, Some ts') \<and>
    (\<exists>it b'. JSMN_GetObjectItem (Some (object_text [(''led'', JPrim ''1''), (''id'', JStr ''x'')] @ [NUL])) ts'
        (Some (JSMN_ItemInit 0 0 (int n))) (Some (''id'' @ [NUL])) True = Inr (0, Some it) \<and>
      JSMN_GetValueStringBuffered (Some (object_text [(''led'', JPrim ''1''), (''id'', JStr ''x'')] @ [NUL])) ts'
        (Some it) (Some ''....'') 4 = Inr (1, Some b') \<and> cstr b' = ''x'')"
  using json_object_roundtrip [of "[(''led'', JPrim ''1''), (''id'', JStr ''x'')]" _ "[]"
    "replicate 5 \<lparr>ttype = JSMN_UNDEFINED, tstart = 0, tend = 0, tsize = 0, tparent = 0\<rparr>" "''id''" 4 "''....''", OF _ _ refl]
  by (simp add: memb_ok_def str_ok_def prim_ok_def prim_char_def delim_def object_text_def memb_text_def)

end
