(* ===== verification/Usart_Net.thy ===== *)
theory Usart_Net
  imports Atk_Values Json_Object
begin

text \<open>
  The network thread (\<^verbatim>\<open>src/applications/atk_usart_net/usart_net.c\<close>): configuration of the module,
  the heartbeat, and the JSON command of a received frame.

  The thread works on the state \<open>net\<close> of the serial port. What the configuration does outside of it (the
  pin of an LED, a shell command) is a list of effects. Local arrays have no terminator until one is
  written (\<open>local_array\<close>), so that printing one that was never filled is the fault \<open>Out_of_bounds\<close>.
  A frame is read where \<open>atk_ide01_uart_rx_get_frame\<close> returns it; no port function runs between that
  and the last use of the frame.
\<close>

section \<open>Messages\<close>

record tx_json_t =
  device_id :: cbuf
  port_status :: cbuf
  error_code :: cbuf
  timestamp :: cbuf

definition TX_DISCONNECT :: tx_json_t where
  "TX_DISCONNECT = \<lparr>device_id = ''STM32F407ZGT6'' @ [NUL], port_status = [NUL],
     error_code = ''NET_DISCONNECT'' @ [NUL], timestamp = ''LAST_TIME'' @ [NUL]\<rparr>"

definition TX_HEART :: tx_json_t where
  "TX_HEART = \<lparr>device_id = ''STM32F407ZGT6'' @ [NUL], port_status = ''NORMAL'' @ [NUL],
     error_code = ''NULL'' @ [NUL], timestamp = ''NOW'' @ [NUL]\<rparr>"

definition usart_net_json_tx :: "tx_json_t \<Rightarrow> net \<Rightarrow> net res" where
  "usart_net_json_tx json w =
     bnd (vfmt (''{\"device_id\": \"%s\",'' @ ''\"port_status\": \"%s\",'' @ ''\"error_code\": \"%s\",'' @
                ''\"timestamp\": \"%s\"}'' @ [CHR 0x0A])
            [Va_str (Some (device_id json)), Va_str (Some (port_status json)),
             Va_str (Some (error_code json)), Va_str (Some (timestamp json))]) (\<lambda>s.
     atk_ide01_uart_printf s w)"

definition disconnect_text :: string where
  \<comment> \<open>the console message of a lost connection, in UTF-8\<close>
  "disconnect_text =
     [CHR 0xE4, CHR 0xB8, CHR 0x8E, CHR 0xE6, CHR 0x9C, CHR 0x8D, CHR 0xE5, CHR 0x8A, CHR 0xA1, CHR 0xE5, CHR 0x99, CHR 0xA8,
      CHR 0xE6, CHR 0x96, CHR 0xAD, CHR 0xE8, CHR 0xBF, CHR 0x9E, CHR 0xEF, CHR 0xBC, CHR 0x8C, CHR 0xE7, CHR 0xAD, CHR 0x89,
      CHR 0xE5, CHR 0xBE, CHR 0x85, CHR 0xE9, CHR 0x87, CHR 0x8D, CHR 0xE8, CHR 0xBF, CHR 0x9E, CHR 0xE4, CHR 0xB8, CHR 0xAD] @ ''...''"

section \<open>The JSON command\<close>

definition tk_array :: toks where
  \<comment> \<open>the local array \<open>tk\<close>; its first content is never read\<close>
  "tk_array = replicate 256 \<lparr>ttype = JSMN_UNDEFINED, tstart = 0, tend = 0, tsize = 0, tparent = 0\<rparr>"

definition kprint_field :: "string \<Rightarrow> cbuf \<Rightarrow> net \<Rightarrow> net res" where
  \<comment> \<open>\<open>rt_kprintf\<close> of a label, a C string and a newline\<close>
  "kprint_field label buf w = bnd (rt_strlen buf) (\<lambda>n. Inr (kprintln (label @ take n buf) w))"

definition show_value :: "cbuf \<Rightarrow> toks \<Rightarrow> jsmn_item_t option \<Rightarrow> string \<Rightarrow> cbuf \<Rightarrow> net \<Rightarrow> (cbuf \<times> net) res" where
  \<comment> \<open>copy a value to \<open>json_age\<close>, ignoring the result code, and print it\<close>
  "show_value json ts item label json_age w =
     bnd (JSMN_GetValueStringBuffered (Some json) ts item (Some json_age) 64) (\<lambda>(_, b).
     case b of
       None \<Rightarrow> Inl Null_deref
     | Some json_age \<Rightarrow> bnd (kprint_field label json_age w) (\<lambda>w. Inr (json_age, w)))"

definition json_fields :: "cbuf \<Rightarrow> toks \<Rightarrow> int \<Rightarrow> net \<Rightarrow> (int \<times> net) res" where
  \<comment> \<open>the part of \<open>json_deal_cmd\<close> behind the parser\<close>
  "json_fields json tk ret w =
     (let item_array = JSMN_ItemInit 0 0 ret in
      bnd (JSMN_GetObjectItem (Some json) tk (Some item_array) (Some (''age'' @ [NUL])) True) (\<lambda>(ret, item_array_age).
      if ret \<noteq> 0 then Inr (ret, kprintln ''JSMN_GetObjectItem age failed'' w)
      else bnd (JSMN_GetObjectItem (Some json) tk (Some item_array) (Some (''email'' @ [NUL])) True) (\<lambda>(ret, item_array_email).
      if ret \<noteq> 0 then Inr (ret, kprintln ''JSMN_GetObjectItem email failed'' w)
      else bnd (JSMN_GetObjectItem (Some json) tk (Some item_array) (Some (''name'' @ [NUL])) True) (\<lambda>(ret, item_array_name).
      if ret \<noteq> 0 then Inr (ret, kprintln ''JSMN_GetObjectItem name failed'' w)
      else bnd (show_value json tk item_array_age ''age:'' (local_array 64) w) (\<lambda>(json_age, w).
           bnd (show_value json tk item_array_email ''email:'' json_age w) (\<lambda>(json_age, w).
           bnd (show_value json tk item_array_name ''name:'' json_age w) (\<lambda>(json_age, w).
           Inr (1, w))))))))"

definition json_deal_cmd :: "cbuf \<Rightarrow> net \<Rightarrow> (int \<times> net) res" where
  "json_deal_cmd json w =
     bnd (rt_strlen json) (\<lambda>n.
     bnd (if n \<ge> 12 then bnd (rt_strncmp json (''U2E SENT ERR'' @ [NUL]) 12) (\<lambda>r. Inr (r = 0)) else Inr False) (\<lambda>lost.
     if lost then bnd (usart_net_json_tx TX_DISCONNECT (kprintln disconnect_text w)) (\<lambda>w. Inr (-2, w))
     else bnd (jsmn_parse jsmn_init json n (Some tk_array) 256) (\<lambda>(ret, _, tokens).
          if ret < 0 then Inr (-1, kprintln (''Failed to parse JSON:'' @ sdec ret) w)
          else case tokens of
                 None \<Rightarrow> Inl Null_deref
               | Some tk \<Rightarrow>
                   bnd (if ret < 1 then Inr True else bnd (fetch tk 0) (\<lambda>t. Inr (ttype t \<noteq> JSMN_OBJECT))) (\<lambda>bad.
                   if bad then Inr (-1, kprintln ''Object expected'' w)
                   else json_fields json tk ret w))))"

section \<open>The thread\<close>

definition usart_net_show_ip :: "cbuf \<Rightarrow> net \<Rightarrow> net res" where
  "usart_net_show_ip buf w = bnd (rt_strlen buf) (\<lambda>n. Inr (rt_kprintf (''IP: '' @ take n buf @ [CHR 0x0D, CHR 0x0A]) w))"

definition usart_net_upload_data :: "net \<Rightarrow> net res" where
  "usart_net_upload_data w =
     bnd (atk_ide01_uart_rx_get_frame w) (\<lambda>(buf, w).
     case buf of
       None \<Rightarrow> Inr w
     | Some b \<Rightarrow>
         bnd (kprint_field ''usart_net_upload_data:'' b w) (\<lambda>w.
         bnd (json_deal_cmd b w) (\<lambda>(_, w).
         atk_ide01_uart_rx_restart w)))"

definition usart_net_round :: "net \<Rightarrow> net res" where
  \<comment> \<open>the body of the endless loop of \<open>usart_net_run\<close>\<close>
  "usart_net_round w =
     bnd (usart_net_json_tx TX_HEART w) (\<lambda>w.
     bnd (usart_net_upload_data w) (\<lambda>w.
     rt_thread_delay 1000 w))"

fun usart_net_rounds :: "nat \<Rightarrow> net \<Rightarrow> net res" where
  "usart_net_rounds 0 w = Inr w"
| "usart_net_rounds (Suc n) w = bnd (usart_net_round w) (usart_net_rounds n)"

definition usart_net_run :: "nat \<Rightarrow> net \<Rightarrow> net res" where
  \<comment> \<open>the first \<open>n\<close> rounds of the thread, which never ends\<close>
  "usart_net_run n w = bnd (atk_ide01_uart_rx_restart w) (usart_net_rounds n)"

section \<open>Configuration\<close>

datatype app_effect = LED1_write bool | Shell string

definition add_ret :: "nat \<Rightarrow> (nat \<times> net) res \<Rightarrow> (nat \<times> net) res" where
  \<comment> \<open>\<open>ret += ...\<close> on an 8-bit variable\<close>
  "add_ret ret m = bnd m (\<lambda>(r, w). Inr ((ret + r) mod 256, w))"

definition usart_net_init :: "net \<Rightarrow> (app_effect list \<times> net) res" where
  "usart_net_init w =
     bnd (atk_ide01_init 115200 w) (\<lambda>(ret, w).
     bnd (atk_ide01_search_mac (Some (local_array 18)) w) (\<lambda>(r, mac, w).
     let ret = (ret + r) mod 256 in
     bnd (add_ret ret (atk_ide01_enter_at_mode mac w)) (\<lambda>(ret, w).
     bnd (add_ret ret (atk_ide01_set_echo (Some ATK_IDE01_ECHO_ON) w)) (\<lambda>(ret, w).
     bnd (add_ret ret (atk_ide01_set_moduname (Some (''ATK-IDE01'' @ [NUL])) w)) (\<lambda>(ret, w).
     bnd (add_ret ret (atk_ide01_set_uart (Some ATK_IDE01_UART_BAUDRATE_115200) (Some ATK_IDE01_UART_STOP_1)
                         (Some ATK_IDE01_UART_DATA_8) (Some ATK_IDE01_UART_PARITY_NONE) w)) (\<lambda>(ret, w).
     bnd (add_ret ret (atk_ide01_set_uartpacklen 50 w)) (\<lambda>(ret, w).
     bnd (add_ret ret (atk_ide01_set_uartpacktime 50 w)) (\<lambda>(ret, w).
     bnd (add_ret ret (atk_ide01_set_ethmod (Some ATK_IDE01_ETHMOD_TCP_CLIENT) w)) (\<lambda>(ret, w).
     bnd (add_ret ret (atk_ide01_set_dhcp (Some ATK_IDE01_DHCP_OFF) w)) (\<lambda>(ret, w).
     bnd (add_ret ret (atk_ide01_set_dns (Some (''114.114.114.114'' @ [NUL])) w)) (\<lambda>(ret, w).
     bnd (add_ret ret (atk_ide01_set_remoteip (Some (''192.168.10.201'' @ [NUL])) w)) (\<lambda>(ret, w).
     bnd (add_ret ret (atk_ide01_set_remoteport (Some (''8080'' @ [NUL])) w)) (\<lambda>(ret, w).
     bnd (add_ret ret (atk_ide01_set_staticip (Some (''192.168.10.58'' @ [NUL])) w)) (\<lambda>(ret, w).
     bnd (rt_thread_delay 1000 w) (\<lambda>w.
     bnd (atk_ide01_get_staticip (Some (local_array 16)) w) (\<lambda>(r, ip, w).
     let ret = (ret + r) mod 256 in
     bnd (add_ret ret (atk_ide01_update w)) (\<lambda>(ret, w).
     bnd (if ret \<noteq> 0
          then bnd (rt_thread_delay 1000 (rt_kprintf (''ATK-IDE01 config failed!'' @ [CHR 0x0D, CHR 0x0A]) w)) (\<lambda>w.
               Inr ([LED1_write False, Shell (''led led0=1'' @ [CHR 0x0D, CHR 0x0A])], w))
          else Inr ([], w)) (\<lambda>(eff, w).
     case ip of
       None \<Rightarrow> Inl Null_deref
     | Some ip \<Rightarrow> bnd (usart_net_show_ip ip w) (\<lambda>w. Inr (eff, w))))))))))))))))))))"

section \<open>Messages, printing and values\<close>

definition json_text :: "tx_json_t \<Rightarrow> string" where
  "json_text json = ''{\"device_id\": \"'' @ cstr (device_id json) @ ''\",\"port_status\": \"'' @ cstr (port_status json) @
     ''\",\"error_code\": \"'' @ cstr (error_code json) @ ''\",\"timestamp\": \"'' @ cstr (timestamp json) @ ''\"}'' @ [CHR 0x0A]"

definition json_fields_ok :: "tx_json_t \<Rightarrow> bool" where
  "json_fields_ok json \<longleftrightarrow> terminated (device_id json) \<and> terminated (port_status json) \<and>
     terminated (error_code json) \<and> terminated (timestamp json)"

lemma json_tx_printf:
  "json_fields_ok json \<Longrightarrow> usart_net_json_tx json w = atk_ide01_uart_printf (json_text json) w"
  by (simp add: usart_net_json_tx_def json_fields_ok_def json_text_def directive_s)

lemma json_tx_net:
  assumes "net_inv w" and "json_fields_ok json" and "length (json_text json) < 2048"
  shows "\<exists>w'. usart_net_json_tx json w = Inr w' \<and> net_inv w' \<and> tick w' = tick w"
  using printf_net [OF assms(1,3)] json_tx_printf [OF assms(2)] by simp

lemma tx_messages:
  "json_fields_ok TX_HEART" "json_fields_ok TX_DISCONNECT"
  "length (json_text TX_HEART) < 2048" "length (json_text TX_DISCONNECT) < 2048"
  by (simp_all add: json_fields_ok_def TX_HEART_def TX_DISCONNECT_def json_text_def)

lemma kprintln_net [simp]: "net_inv (kprintln s w) = net_inv w" "tick (kprintln s w) = tick w"
  by (simp_all add: kprintln_def rt_kprintf_def net_inv_def)

lemma kprint_field_ok: "terminated b \<Longrightarrow> kprint_field label b w = Inr (kprintln (label @ cstr b) w)"
  by (simp add: kprint_field_def rt_strlen_cstr take_cstr)

lemma kprint_field_fault: "\<not> terminated b \<Longrightarrow> kprint_field label b w = Inl Out_of_bounds"
  by (simp add: kprint_field_def rt_strlen_unterminated)

definition has_value :: "toks \<Rightarrow> nat \<Rightarrow> nat \<Rightarrow> bool" where
  \<comment> \<open>the key with token \<open>k\<close> has exactly one value\<close>
  "has_value ts n k \<longleftrightarrow> tsize (ts ! k) = 1 \<and> k + 1 < n"

lemma local_array_unterminated: "\<not> terminated (local_array n)"
  by (simp add: local_array_def terminated_def)

lemma get_value_cases:
  assumes "parsed js ts n" and "k < n" and "ttype (ts ! k) = JSMN_STRING" and "length b = 64"
  shows "\<exists>r b'. JSMN_GetValueStringBuffered (Some js) ts (Some (item_at n k)) (Some b) 64 = Inr (r, Some b') \<and>
    length b' = 64 \<and> (if has_value ts n k then terminated b' else b' = b)"
proof (cases "has_value ts n k")
  case False
  then show ?thesis using parsed_tok(1) [OF assms(1,2)] assms(2-4)
    by (auto simp: JSMN_GetValueStringBuffered_def item_at_def has_value_def)
next
  case True
  then have k: "k + 1 < n" by (simp add: has_value_def)
  have v: "JSMN_GetValueStringBuffered (Some js) ts (Some (item_at n k)) (Some b) 64 =
      JSMN_GetStringBuffered (Some js) ts (Some (item_at n (k + 1))) (Some b) (int 64)"
    using True parsed_tok(1) [OF assms(1,2)] assms(3)
    by (simp add: JSMN_GetValueStringBuffered_def item_at_def has_value_def value_item_def add.commute)
  show ?thesis
  proof (cases "ttype (ts ! (k + 1)) = JSMN_STRING \<or> ttype (ts ! (k + 1)) = JSMN_PRIMITIVE")
    case tv: True
    define x where "x = take (64 - 1) (tok_text js (ts ! (k + 1)))"
    have "length x < 64" by (auto simp: x_def min_def)
    then have "terminated (overwrite b 0 (x @ replicate (64 - length x) NUL))"
      by (auto simp: overwrite_def terminated_def)
    then show ?thesis using GetStringBuffered_copy [OF assms(1) k tv _ _ _ x_def, of b] v True assms(4)
      \<open>length x < 64\<close> by auto
  next
    case False
    have "terminated (overwrite b 0 (replicate 64 NUL))" by (simp add: overwrite_def terminated_def)
    then show ?thesis using v True False parsed_tok(1) [OF assms(1) k] assms(4)
      by (auto simp: JSMN_GetStringBuffered_def item_at_def size_of_def)
  qed
qed

lemma show_value_cases:
  assumes "parsed js ts n" and "k < n" and "ttype (ts ! k) = JSMN_STRING" and "length b = 64" and "net_inv w"
  shows "if terminated b \<or> has_value ts n k
    then \<exists>b' w'. show_value js ts (Some (item_at n k)) label b w = Inr (b', w') \<and> length b' = 64 \<and> terminated b' \<and>
      net_inv w' \<and> tick w' = tick w
    else show_value js ts (Some (item_at n k)) label b w = Inl Out_of_bounds"
proof -
  obtain r b' where v: "JSMN_GetValueStringBuffered (Some js) ts (Some (item_at n k)) (Some b) 64 = Inr (r, Some b')"
    "length b' = 64" "if has_value ts n k then terminated b' else b' = b"
    using get_value_cases [OF assms(1-4)] by blast
  show ?thesis
  proof (cases "terminated b \<or> has_value ts n k")
    case True
    then have "terminated b'" using v(3) by (auto split: if_splits)
    then show ?thesis using v True assms(5) by (simp add: show_value_def kprint_field_ok)
  next
    case False
    then show ?thesis using v by (simp add: show_value_def kprint_field_fault)
  qed
qed

definition key_token :: "cbuf \<Rightarrow> toks \<Rightarrow> nat \<Rightarrow> string \<Rightarrow> nat option" where
  "key_token js ts n s = List.find (is_key js ts 0 s) [1..<n]"

lemma key_token_Some: "key_token js ts n s = Some k \<Longrightarrow> k < n \<and> ttype (ts ! k) = JSMN_STRING"
  by (auto simp: key_token_def find_Some_iff is_key_def)

lemma get_item_key:
  assumes "parsed js ts n" and "0 < n" and "ttype (ts ! 0) = JSMN_OBJECT" and "NUL \<notin> set s"
  shows "JSMN_GetObjectItem (Some js) ts (Some (JSMN_ItemInit 0 0 (int n))) (Some (s @ [NUL])) True =
    (case key_token js ts n s of None \<Rightarrow> Inr (-1, None) | Some k \<Rightarrow> Inr (0, Some (item_at n k)))"
proof -
  have "JSMN_ItemInit 0 0 (int n) = item_at n 0" by (simp add: JSMN_ItemInit_def item_at_def)
  then show ?thesis using GetObjectItem_find [OF assms(1-3), of "s @ [NUL]"] assms(4) by (simp add: key_token_def)
qed

definition bare_age :: "cbuf \<Rightarrow> toks \<Rightarrow> nat \<Rightarrow> bool" where
  \<comment> \<open>the three keys are there, but the first has no value\<close>
  "bare_age js ts n \<longleftrightarrow> (case key_token js ts n ''age'' of None \<Rightarrow> False | Some k \<Rightarrow> \<not> has_value ts n k) \<and>
     key_token js ts n ''email'' \<noteq> None \<and> key_token js ts n ''name'' \<noteq> None"

lemma json_fields_cases:
  assumes "parsed js ts n" and "0 < n" and "ttype (ts ! 0) = JSMN_OBJECT" and "net_inv w"
  shows "if bare_age js ts n then json_fields js ts (int n) w = Inl Out_of_bounds
    else \<exists>r w'. json_fields js ts (int n) w = Inr (r, w') \<and> r \<in> {1, -1} \<and> net_inv w' \<and> tick w' = tick w"
proof -
  let ?key = "key_token js ts n"
  note items = get_item_key [OF assms(1-3), of "''age''"] get_item_key [OF assms(1-3), of "''email''"]
    get_item_key [OF assms(1-3), of "''name''"]
  show ?thesis
  proof (cases "?key ''age'' \<noteq> None \<and> ?key ''email'' \<noteq> None \<and> ?key ''name'' \<noteq> None")
    case False
    then have "\<exists>t. json_fields js ts (int n) w = Inr (-1, kprintln t w)"
      using items by (auto simp: json_fields_def Let_def split: option.splits)
    moreover have "\<not> bare_age js ts n" using False by (auto simp: bare_age_def)
    ultimately show ?thesis using assms(4) by auto
  next
    case True
    then obtain a e m where k: "?key ''age'' = Some a" "?key ''email'' = Some e" "?key ''name'' = Some m" by blast
    note kt = k [THEN key_token_Some]
    have f: "json_fields js ts (int n) w =
        bnd (show_value js ts (Some (item_at n a)) ''age:'' (local_array 64) w) (\<lambda>(b, w).
        bnd (show_value js ts (Some (item_at n e)) ''email:'' b w) (\<lambda>(b, w).
        bnd (show_value js ts (Some (item_at n m)) ''name:'' b w) (\<lambda>(b, w). Inr (1, w))))"
      using items k by (simp add: json_fields_def Let_def)
    note sa = show_value_cases [OF assms(1), of a "local_array 64" w "''age:''"]
    show ?thesis
    proof (cases "has_value ts n a")
      case False
      then show ?thesis using sa f k kt assms(4) by (auto simp: bare_age_def local_array_unterminated)
    next
      case True
      then obtain b1 w1 where 1: "show_value js ts (Some (item_at n a)) ''age:'' (local_array 64) w = Inr (b1, w1)"
        "length b1 = 64" "terminated b1" "net_inv w1" "tick w1 = tick w"
        using sa kt(1) assms(4) by auto
      obtain b2 w2 where 2: "show_value js ts (Some (item_at n e)) ''email:'' b1 w1 = Inr (b2, w2)"
        "length b2 = 64" "terminated b2" "net_inv w2" "tick w2 = tick w"
        using show_value_cases [OF assms(1), of e b1 w1 "''email:''"] kt(2) 1 by auto
      obtain b3 w3 where "show_value js ts (Some (item_at n m)) ''name:'' b2 w2 = Inr (b3, w3)" "net_inv w3" "tick w3 = tick w"
        using show_value_cases [OF assms(1), of m b2 w2 "''name:''"] kt(3) 2 by auto
      then show ?thesis using f 1 2 k True by (auto simp: bare_age_def)
    qed
  qed
qed

definition lost_connection :: "cbuf \<Rightarrow> bool" where
  "lost_connection js \<longleftrightarrow> take 12 (cstr js) = ''U2E SENT ERR''"

lemma json_deal_cmd_test:
  assumes "terminated js"
  shows "json_deal_cmd js w =
    (if lost_connection js then bnd (usart_net_json_tx TX_DISCONNECT (kprintln disconnect_text w)) (\<lambda>w. Inr (-2, w))
     else bnd (jsmn_parse jsmn_init js (length (cstr js)) (Some tk_array) 256) (\<lambda>(ret, _, tokens).
          if ret < 0 then Inr (-1, kprintln (''Failed to parse JSON:'' @ sdec ret) w)
          else case tokens of
                 None \<Rightarrow> Inl Null_deref
               | Some tk \<Rightarrow>
                   bnd (if ret < 1 then Inr True else bnd (fetch tk 0) (\<lambda>t. Inr (ttype t \<noteq> JSMN_OBJECT))) (\<lambda>bad.
                   if bad then Inr (-1, kprintln ''Object expected'' w)
                   else json_fields js tk ret w)))"
proof -
  have s: "terminated (''U2E SENT ERR'' @ [NUL])" "cstr (''U2E SENT ERR'' @ [NUL]) = ''U2E SENT ERR''" by simp_all
  have "(if length (cstr js) \<ge> 12 then bnd (rt_strncmp js (''U2E SENT ERR'' @ [NUL]) 12) (\<lambda>r. Inr (r = 0)) else Inr False) =
      Inr (lost_connection js)"
  proof (cases "length (cstr js) \<ge> 12")
    case True
    then have "12 \<le> length js" using terminated_length [OF assms] by simp
    then obtain r where r: "rt_strncmp js (''U2E SENT ERR'' @ [NUL]) 12 = Inr r"
      "r = 0 \<longleftrightarrow> take 12 (cstr js) = take 12 (cstr (''U2E SENT ERR'' @ [NUL]))"
      using rt_strncmp_eq [of js 12 "''U2E SENT ERR'' @ [NUL]"] s(1) by blast
    then show ?thesis using True unfolding s(2) lost_connection_def by simp
  next
    case False
    then have "length (take 12 (cstr js)) \<noteq> length ''U2E SENT ERR''" by simp
    then have "take 12 (cstr js) \<noteq> ''U2E SENT ERR''" by (rule contrapos_nn) (erule arg_cong)
    then show ?thesis using False by (simp only: lost_connection_def if_False)
  qed
  then show ?thesis using assms by (simp only: json_deal_cmd_def rt_strlen_cstr bnd_Inr)
qed

definition json_bare :: "cbuf \<Rightarrow> bool" where
  \<comment> \<open>a frame on which \<open>json_deal_cmd\<close> prints a local array that was never written\<close>
  "json_bare js \<longleftrightarrow> \<not> lost_connection js \<and>
     (case jsmn_parse jsmn_init js (length (cstr js)) (Some tk_array) 256 of
        Inr (r, _, Some ts) \<Rightarrow> 1 \<le> r \<and> ttype (ts ! 0) = JSMN_OBJECT \<and> bare_age js ts (nat r)
      | _ \<Rightarrow> False)"

lemma json_deal_cmd_cases:
  assumes "terminated js" and "length js < 2147483648" and "net_inv w"
  shows "if json_bare js then json_deal_cmd js w = Inl Out_of_bounds
    else \<exists>r w'. json_deal_cmd js w = Inr (r, w') \<and> r \<in> {1, -1, -2} \<and> net_inv w' \<and> tick w' = tick w"
proof (cases "lost_connection js")
  case True
  then show ?thesis
    using json_tx_net [of "kprintln disconnect_text w" TX_DISCONNECT] tx_messages assms(3) json_deal_cmd_test [OF assms(1), of w]
    by (auto simp: json_bare_def)
next
  case False
  have "length tk_array = 256" by (simp add: tk_array_def)
  then obtain r p ts where p: "jsmn_parse jsmn_init js (length (cstr js)) (Some tk_array) 256 = Inr (r, p, Some ts)" "length ts = 256"
    "r < 0 \<or> 0 \<le> r \<and> parsed js ts (nat r)"
    using jsmn_parse_parsed [OF assms(1,2), of tk_array] by fastforce
  note d = json_deal_cmd_test [OF assms(1), of w] False p(1)
  show ?thesis
  proof (cases "1 \<le> r \<and> ttype (ts ! 0) = JSMN_OBJECT")
    case True
    then have n: "0 < nat r" "int (nat r) = r" "parsed js ts (nat r)" "ttype (ts ! 0) = JSMN_OBJECT" using p(3) by auto
    have "json_deal_cmd js w = json_fields js ts r w" using d p(2) True by simp
    moreover have "json_bare js \<longleftrightarrow> bare_age js ts (nat r)" using d True by (simp add: json_bare_def)
    ultimately show ?thesis using json_fields_cases [OF n(3,1,4) assms(3)] n(2) by auto
  next
    case bad: False
    then have "\<exists>t. json_deal_cmd js w = Inr (-1, kprintln t w)" using d p(2) by auto
    moreover have "\<not> json_bare js" using d bad by (auto simp: json_bare_def)
    ultimately show ?thesis using assms(3) by auto
  qed
qed

fun usart_net_frames :: "nat \<Rightarrow> net \<Rightarrow> cbuf list" where
  \<comment> \<open>the frames the first \<open>n\<close> rounds deliver\<close>
  "usart_net_frames 0 w = []"
| "usart_net_frames (Suc n) w =
     (case bnd (usart_net_json_tx TX_HEART w) atk_ide01_uart_rx_get_frame of Inr (Some b, _) \<Rightarrow> [b] | _ \<Rightarrow> []) @
     (case usart_net_round w of Inr w' \<Rightarrow> usart_net_frames n w' | Inl _ \<Rightarrow> [])"

lemma usart_net_round_cases:
  assumes "net_inv w"
  shows "\<exists>fr w1. bnd (usart_net_json_tx TX_HEART w) atk_ide01_uart_rx_get_frame = Inr (fr, w1) \<and>
    (if \<exists>b. fr = Some b \<and> json_bare b then usart_net_round w = Inl Out_of_bounds
     else \<exists>w'. usart_net_round w = Inr w' \<and> net_inv w' \<and> tick w' = tick w + 1000)"
proof -
  obtain w1 where 1: "usart_net_json_tx TX_HEART w = Inr w1" "net_inv w1" "tick w1 = tick w"
    using json_tx_net [OF assms tx_messages(1,3)] by blast
  obtain fr w2 where 2: "atk_ide01_uart_rx_get_frame w1 = Inr (fr, w2)" "net_inv w2" "tick w2 = tick w"
    "\<And>b. fr = Some b \<Longrightarrow> terminated b \<and> length b = 2048"
    using get_frame_net [OF 1(2)] 1(3) by auto
  have fin: "\<exists>w'. rt_thread_delay 1000 v = Inr w' \<and> net_inv w' \<and> tick w' = tick w + 1000" if "net_inv v" "tick v = tick w" for v
    using delay_net [OF that(1), of 1000] that(2) by simp
  show ?thesis
  proof (cases fr)
    case None
    then show ?thesis using 1 2 fin [OF 2(2,3)] by (simp add: usart_net_round_def usart_net_upload_data_def)
  next
    case (Some b)
    let ?w = "kprintln (''usart_net_upload_data:'' @ cstr b) w2"
    have b: "terminated b" "length b < 2147483648" "net_inv ?w" using 2 Some by auto
    have r: "usart_net_round w = bnd (json_deal_cmd b ?w) (\<lambda>(_, w). bnd (atk_ide01_uart_rx_restart w) (rt_thread_delay 1000))"
      using 1(1) 2(1) Some b(1)
      by (simp add: usart_net_round_def usart_net_upload_data_def kprint_field_ok bnd_assoc case_prod_beta')
    show ?thesis
    proof (cases "json_bare b")
      case True
      then show ?thesis using json_deal_cmd_cases [OF b] r 1(1) 2(1) Some by simp
    next
      case False
      then obtain rc w3 where 3: "json_deal_cmd b ?w = Inr (rc, w3)" "net_inv w3" "tick w3 = tick w"
        using json_deal_cmd_cases [OF b] 2(3) by auto
      obtain w4 where 4: "atk_ide01_uart_rx_restart w3 = Inr w4" "net_inv w4" "tick w4 = tick w"
        using restart_net [OF 3(2)] 3(3) by auto
      then show ?thesis using r 3 4 fin [OF 4(2,3)] 1(1) 2(1) Some False by simp
    qed
  qed
qed

lemma usart_net_rounds_cases:
  "net_inv w \<Longrightarrow>
     if list_ex json_bare (usart_net_frames n w) then usart_net_rounds n w = Inl Out_of_bounds
     else \<exists>w'. usart_net_rounds n w = Inr w' \<and> net_inv w' \<and> tick w' = tick w + 1000 * n"
proof (induction n arbitrary: w)
  case (Suc n)
  obtain fr w1 where f: "bnd (usart_net_json_tx TX_HEART w) atk_ide01_uart_rx_get_frame = Inr (fr, w1)"
    "if \<exists>b. fr = Some b \<and> json_bare b then usart_net_round w = Inl Out_of_bounds
     else \<exists>w'. usart_net_round w = Inr w' \<and> net_inv w' \<and> tick w' = tick w + 1000"
    using usart_net_round_cases [OF Suc.prems] by blast
  show ?case
  proof (cases "\<exists>b. fr = Some b \<and> json_bare b")
    case True
    then show ?thesis using f by auto
  next
    case False
    then obtain w' where w': "usart_net_round w = Inr w'" "net_inv w'" "tick w' = tick w + 1000"
      using f(2) by (simp only: if_False) blast
    have "list_ex json_bare (usart_net_frames (Suc n) w) \<longleftrightarrow> list_ex json_bare (usart_net_frames n w')"
      using f(1) w'(1) False by (cases fr) auto
    then show ?thesis using Suc.IH [OF w'(2)] w' by auto
  qed
qed simp

section \<open>Configuration without an answer\<close>

definition quiet :: "net \<Rightarrow> bool" where
  \<comment> \<open>the module sends nothing\<close>
  "quiet w \<longleftrightarrow> net_inv w \<and> irqs w = []"

lemma at_wait_quiet:
  "quiet w \<Longrightarrow> \<not> rx_finsh w \<Longrightarrow>
     \<exists>w'. at_wait atk_ide01_uart_rx_restart atk_ide01_uart_rx_get_frame rt_thread_delay ack n w = Inr (ATK_IDE01_ETIMEOUT, w') \<and> quiet w'"
proof (induction n arbitrary: w)
  case (Suc n)
  then have "quiet (w\<lparr>tick := tick w + 1\<rparr>)" by (simp add: quiet_def net_inv_def)
  then show ?case using Suc.IH [of "w\<lparr>tick := tick w + 1\<rparr>"] Suc.prems
    by (simp add: atk_ide01_uart_rx_get_frame_def rt_thread_delay_def irq_point_def quiet_def)
qed simp

lemma send_at_cmd_quiet:
  assumes "quiet w" and "terminated cmd" and "length (cstr cmd) < 2046" and "0 < timeout"
  shows "\<exists>w'. atk_ide01_send_at_cmd cmd ack timeout w = Inr (ATK_IDE01_ETIMEOUT, w') \<and> quiet w'"
proof -
  let ?s = "cstr cmd @ [CHR 0x0D, CHR 0x0A]"
  let ?w1 = "w\<lparr>rx_len := 0, rx_finsh := False\<rparr>"
  have r: "atk_ide01_uart_rx_restart w = Inr ?w1" "quiet ?w1"
    using assms(1) by (simp_all add: atk_ide01_uart_rx_restart_def irq_point_def quiet_def net_inv_def)
  obtain w2 where p: "atk_ide01_uart_printf ?s ?w1 = Inr w2" "net_inv w2"
    using printf_net [of ?w1 ?s] r(2) assms(3) by (auto simp: quiet_def)
  then have q: "quiet w2" "\<not> rx_finsh w2"
    using assms(1) by (auto simp: atk_ide01_uart_printf_def irq_point_def quiet_def mem_Inr HAL_UART_Transmit_DMA_def split: if_splits)
  obtain w3 where "at_wait atk_ide01_uart_rx_restart atk_ide01_uart_rx_get_frame rt_thread_delay ack timeout w2 =
      Inr (ATK_IDE01_ETIMEOUT, w3)" "quiet w3"
    using at_wait_quiet [OF q] by blast
  then show ?thesis using r(1) p(1) assms(2,4)
    by (auto simp: atk_ide01_send_at_cmd_def rt_strlen_cstr take_cstr rt_kprintf_def quiet_def net_inv_def)
qed

lemma at_command_quiet:
  assumes "vfmt fmt args = Inr t" and "NUL \<notin> set t" and "length t < n" and "n < 2046" and "quiet w"
  shows "\<exists>w'. at_command n fmt args w = Inr (ATK_IDE01_ERROR, w') \<and> quiet w'"
proof -
  obtain cmd where "rt_sprintf (local_array n) fmt args = Inr (length t, cmd)" "cstr cmd = t" "terminated cmd"
    using sprintf_local [OF assms(1-3)] assms(4) by auto
  then show ?thesis
    using send_at_cmd_quiet [OF assms(5), of cmd ATK_IDE01_AT_TIMEOUT "Some OK_str"] assms(3,4) by (auto simp: at_command_def)
qed

lemma kprintln_quiet [simp]: "quiet (kprintln s w) = quiet w"
  by (simp add: quiet_def) (simp add: kprintln_def rt_kprintf_def)

definition unanswered :: "(net \<Rightarrow> (nat \<times> net) res) \<Rightarrow> bool" where
  "unanswered f \<longleftrightarrow> (\<forall>w. quiet w \<longrightarrow> (\<exists>w'. f w = Inr (ATK_IDE01_ERROR, w') \<and> quiet w'))"

definition fits :: "nat \<Rightarrow> string \<Rightarrow> varg list \<Rightarrow> bool" where
  \<comment> \<open>the formatted command fits the local array of size \<open>n\<close>\<close>
  "fits n fmt args \<longleftrightarrow> (case vfmt fmt args of Inr t \<Rightarrow> NUL \<notin> set t \<and> length t < n | Inl _ \<Rightarrow> False)"

lemma unanswered_command: "fits n fmt args \<Longrightarrow> n < 2046 \<Longrightarrow> unanswered (\<lambda>w. at_command n fmt args w)"
  unfolding unanswered_def fits_def using at_command_quiet by (auto split: sum.splits)

lemmas init_setter_defs = atk_ide01_set_echo_def atk_ide01_set_moduname_def atk_ide01_set_ethmod_def atk_ide01_set_dhcp_def
  atk_ide01_set_dns_def atk_ide01_set_remoteip_def atk_ide01_set_remoteport_def atk_ide01_set_staticip_def atk_ide01_update_def

lemma unanswered_setters:
  "unanswered (\<lambda>w. atk_ide01_set_echo (Some ATK_IDE01_ECHO_ON) w)"
  "unanswered (\<lambda>w. atk_ide01_set_moduname (Some (''ATK-IDE01'' @ [NUL])) w)"
  "unanswered (\<lambda>w. atk_ide01_set_ethmod (Some ATK_IDE01_ETHMOD_TCP_CLIENT) w)"
  "unanswered (\<lambda>w. atk_ide01_set_dhcp (Some ATK_IDE01_DHCP_OFF) w)"
  "unanswered (\<lambda>w. atk_ide01_set_dns (Some (''114.114.114.114'' @ [NUL])) w)"
  "unanswered (\<lambda>w. atk_ide01_set_remoteip (Some (''192.168.10.201'' @ [NUL])) w)"
  "unanswered (\<lambda>w. atk_ide01_set_remoteport (Some (''8080'' @ [NUL])) w)"
  "unanswered (\<lambda>w. atk_ide01_set_staticip (Some (''192.168.10.58'' @ [NUL])) w)"
  "unanswered (\<lambda>w. atk_ide01_update w)"
  unfolding init_setter_defs option.case
  by (rule unanswered_command; simp add: fits_def directive_s)+

lemma unanswered_numbers:
  "unanswered (\<lambda>w. atk_ide01_set_uartpacklen 50 w)" "unanswered (\<lambda>w. atk_ide01_set_uartpacktime 50 w)"
proof -
  have "sdec (sint (ucast (50 :: 16 word) :: 32 word)) = ''50''" by code_simp
  moreover have "atk_ide01_set_uartpacklen 50 w = at_command 24 ''AT+UART_PACKLEN=\"%d\"'' [Va_int (ucast (50 :: 16 word))] w" for w
    by (simp add: atk_ide01_set_uartpacklen_def)
  ultimately show "unanswered (\<lambda>w. atk_ide01_set_uartpacklen 50 w)" "unanswered (\<lambda>w. atk_ide01_set_uartpacktime 50 w)"
    unfolding atk_ide01_set_uartpacktime_def
    by (simp_all only:) (rule unanswered_command; simp add: fits_def directive_d)+
qed

lemma unanswered_uart:
  "unanswered (\<lambda>w. atk_ide01_set_uart (Some ATK_IDE01_UART_BAUDRATE_115200) (Some ATK_IDE01_UART_STOP_1)
     (Some ATK_IDE01_UART_DATA_8) (Some ATK_IDE01_UART_PARITY_NONE) w)"
proof -
  let ?b = "ATK_IDE01_UART_BAUDRATE_115200" and ?s = "ATK_IDE01_UART_STOP_1" and ?p = "ATK_IDE01_UART_PARITY_NONE"
  obtain b' where b: "rt_sprintf (local_array 7) (baudrate_text ?b) [] = Inr (length (baudrate_text ?b), b')"
    "cstr b' = baudrate_text ?b" "terminated b'"
    using sprintf_plain [OF baudrate_text_facts(3,1,2), of ?b] by auto
  obtain s' where s: "rt_sprintf (local_array 2) (stop_text ?s) [] = Inr (length (stop_text ?s), s')"
    "cstr s' = stop_text ?s" "terminated s'"
    using sprintf_plain [OF stop_text_facts(3,1,2), of ?s] by auto
  obtain d' where d: "rt_sprintf (local_array 2) (data_text ATK_IDE01_UART_DATA_8) [] = Inr (length (data_text ATK_IDE01_UART_DATA_8), d')"
    "cstr d' = data_text ATK_IDE01_UART_DATA_8" "terminated d'"
    using sprintf_plain [OF data_text_facts(3,1,2), of ATK_IDE01_UART_DATA_8] by auto
  obtain p' where p: "rt_sprintf (local_array 5) (parity_text ?p) [] = Inr (length (parity_text ?p), p')"
    "cstr p' = parity_text ?p" "terminated p'"
    using sprintf_plain [OF parity_text_facts(3,1,2), of ?p] by auto
  have "fits 32 ''AT+UART=\"%s\",\"%s\",\"%s\",\"%s\"'' [Va_str (Some b'), Va_str (Some s'), Va_str (Some d'), Va_str (Some p')]"
    using b(2,3) s(2,3) d(2,3) p(2,3) by (simp add: fits_def directive_s)
  from unanswered_command [OF this] show ?thesis using b(1) s(1) d(1) p(1)
    by (simp only: atk_ide01_set_uart_def option.case bnd_Inr split_conv)
qed

lemma after_unanswered:
  assumes "unanswered (\<lambda>w. f w)" and "quiet w" and "\<And>ret w. quiet w \<Longrightarrow> k ret w = Inl e"
  shows "bnd (add_ret ret (f w)) (\<lambda>(ret, w). k ret w) = Inl e"
  using assms unfolding unanswered_def by (fastforce simp: add_ret_def)

lemma search_mac_quiet:
  assumes "quiet w"
  shows "\<exists>w'. atk_ide01_search_mac (Some dst) w = Inr (ATK_IDE01_ERROR, Some dst, w') \<and> quiet w'"
proof -
  obtain cmd where c: "rt_sprintf (local_array 11) ''AT+SEARCH?'' [] = Inr (length ''AT+SEARCH?'', cmd)"
    "cstr cmd = ''AT+SEARCH?''" "terminated cmd"
    using sprintf_local [of "''AT+SEARCH?''" "[]" "''AT+SEARCH?''" 11] by auto
  let ?w = "kprintln (''cmd = '' @ take (length (cstr cmd)) cmd) w"
  obtain w' where "atk_ide01_send_at_cmd cmd (Some OK_str) ATK_IDE01_AT_TIMEOUT ?w = Inr (ATK_IDE01_ETIMEOUT, w')" "quiet w'"
    using send_at_cmd_quiet [of ?w cmd ATK_IDE01_AT_TIMEOUT "Some OK_str"] assms c by auto
  then show ?thesis using c(1,3) by (simp add: atk_ide01_search_mac_def rt_strlen_cstr Let_def)
qed

lemma enter_at_mode_quiet: "unanswered (\<lambda>w. atk_ide01_enter_at_mode mac w)"
  using at_command_quiet [of "''AT+SEARCH?''" "[]" "''AT+SEARCH?''" 32]
  by (fastforce simp: unanswered_def atk_ide01_enter_at_mode_def)

lemma get_staticip_quiet:
  assumes "quiet w"
  shows "\<exists>w'. atk_ide01_get_staticip (Some ip) w = Inr (ATK_IDE01_ERROR, Some ip, w') \<and> quiet w'"
  using at_command_quiet [of "''AT+STATICIP?''" "[]" "''AT+STATICIP?''" 13] assms
  by (fastforce simp: atk_ide01_get_staticip_def at_get_string_def at_query_def)

lemma delay_quiet: "quiet w \<Longrightarrow> \<exists>w'. rt_thread_delay n w = Inr w' \<and> quiet w'"
  by (simp add: rt_thread_delay_def irq_point_def quiet_def net_inv_def)

lemma rt_kprintf_quiet [simp]: "quiet (rt_kprintf s w) = quiet w"
  by (simp add: quiet_def rt_kprintf_def net_inv_def)

lemma after_staticip:
  assumes "quiet w"
  shows "bnd (rt_thread_delay 1000 w) (\<lambda>w.
     bnd (atk_ide01_get_staticip (Some (local_array 16)) w) (\<lambda>(r, ip, w).
     let ret = (ret + r) mod 256 in
     bnd (add_ret ret (atk_ide01_update w)) (\<lambda>(ret, w).
     bnd (if ret \<noteq> 0
          then bnd (rt_thread_delay 1000 (rt_kprintf t w)) (\<lambda>w. Inr (eff1, w))
          else Inr (eff2, w)) (\<lambda>(eff, w).
     case ip of
       None \<Rightarrow> Inl Null_deref
     | Some ip \<Rightarrow> bnd (usart_net_show_ip ip w) (\<lambda>w. Inr (eff, w)))))) = Inl Out_of_bounds"
proof -
  obtain w1 where 1: "rt_thread_delay 1000 w = Inr w1" "quiet w1" using delay_quiet [OF assms] by blast
  obtain w2 where 2: "atk_ide01_get_staticip (Some (local_array 16)) w1 = Inr (ATK_IDE01_ERROR, Some (local_array 16), w2)" "quiet w2"
    using get_staticip_quiet [OF 1(2)] by blast
  have ip: "usart_net_show_ip (local_array 16) w = Inl Out_of_bounds" for w
    by (simp add: usart_net_show_ip_def rt_strlen_unterminated local_array_unterminated)
  have last: "bnd (if ret \<noteq> 0 then bnd (rt_thread_delay 1000 (rt_kprintf t w)) (\<lambda>w. Inr (eff1, w)) else Inr (eff2, w))
      (\<lambda>(eff, w). bnd (usart_net_show_ip (local_array 16) w) (\<lambda>w. Inr (eff, w))) = Inl Out_of_bounds" if "quiet w" for ret w
    using delay_quiet [of "rt_kprintf t w" 1000] that ip by auto
  show ?thesis unfolding 1(1) bnd_Inr 2(1) split_conv Let_def option.case
    by (rule after_unanswered [OF unanswered_setters(9) 2(2)]) (rule last)
qed

lemma json_fields_object:
  assumes "list_all memb_ok kvs" and "kvs \<noteq> []" and "js = object_text kvs @ NUL # r"
    and "ts = object_toks kvs @ rest" and "n = length (object_toks kvs)" and "parsed js ts n"
  shows "json_fields js ts (int n) w =
    (case (map_of kvs ''age'', map_of kvs ''email'', map_of kvs ''name'') of
       (None, _, _) \<Rightarrow> Inr (-1, kprintln ''JSMN_GetObjectItem age failed'' w)
     | (_, None, _) \<Rightarrow> Inr (-1, kprintln ''JSMN_GetObjectItem email failed'' w)
     | (_, _, None) \<Rightarrow> Inr (-1, kprintln ''JSMN_GetObjectItem name failed'' w)
     | (Some a, Some e, Some n) \<Rightarrow>
         Inr (1, kprintln (''name:'' @ take 63 (val_chars n)) (kprintln (''email:'' @ take 63 (val_chars e))
           (kprintln (''age:'' @ take 63 (val_chars a)) w))))"
proof -
  have i: "JSMN_ItemInit 0 0 (int n) = item_at n 0" by (simp add: JSMN_ItemInit_def item_at_def)
  have look: "JSMN_GetObjectItem (Some js) ts (Some (item_at n 0)) (Some (s @ [NUL])) True =
      (case key_index kvs s of None \<Rightarrow> Inr (-1, None) | Some j \<Rightarrow> Inr (0, Some (item_at n (2 * j + 1))))"
    if "NUL \<notin> set s" for s
    using object_lookup [OF assms(1-6), of "s @ [NUL]"] that by simp
  note looks = look [of "''age''"] look [of "''email''"] look [of "''name''"]
  have val: "\<exists>b'. show_value js ts (Some (item_at n (2 * j + 1))) label b w =
      Inr (b', kprintln (label @ take 63 (val_chars (snd (kvs ! j)))) w) \<and> length b' = 64"
    if "j < length kvs" "length b = 64" for j b label w
  proof -
    let ?x = "take 63 (val_chars (snd (kvs ! j)))"
    have "length ?x < 64" by (auto simp: min_def)
    then have "terminated (overwrite b 0 (?x @ replicate (64 - length ?x) NUL))" by (auto simp: overwrite_def terminated_def)
    then show ?thesis using object_value [OF assms(1-6) that(1), of 64 b ?x] that(2) \<open>length ?x < 64\<close>
      by (simp add: show_value_def kprint_field_ok)
  qed
  show ?thesis
  proof (cases "key_index kvs ''age'' \<noteq> None \<and> key_index kvs ''email'' \<noteq> None \<and> key_index kvs ''name'' \<noteq> None")
    case False
    then show ?thesis using looks
      by (auto simp: json_fields_def i key_index_map_of [of kvs] split: option.splits)
  next
    case True
    then obtain a e m where k: "key_index kvs ''age'' = Some a" "key_index kvs ''email'' = Some e" "key_index kvs ''name'' = Some m"
      by blast
    note l = k [THEN key_index_less, THEN conjunct1]
    obtain b1 where b1: "show_value js ts (Some (item_at n (2 * a + 1))) ''age:'' (local_array 64) w =
        Inr (b1, kprintln (''age:'' @ take 63 (val_chars (snd (kvs ! a)))) w)" "length b1 = 64"
      using val [OF l(1) length_local_array] by blast
    obtain b2 where b2: "show_value js ts (Some (item_at n (2 * e + 1))) ''email:'' b1 w' =
        Inr (b2 w', kprintln (''email:'' @ take 63 (val_chars (snd (kvs ! e)))) w')" "length (b2 w') = 64" for w'
      using val [OF l(2) b1(2)] by metis
    obtain b3 where b3: "show_value js ts (Some (item_at n (2 * m + 1))) ''name:'' (b2 w1) w' =
        Inr (b3 w1 w', kprintln (''name:'' @ take 63 (val_chars (snd (kvs ! m)))) w')" for w1 w'
      using val [OF l(3) b2(2)] by metis
    show ?thesis using looks k b1(1) b2(1) b3
      by (simp add: json_fields_def i key_index_map_of [of kvs])
  qed
qed

section \<open>Properties\<close>

text \<open>
  C7. The JSON command of a received object: if the object (string and primitive values, any order, up to
  127 members) has the keys age, email and name, the three values are printed in this order, each cut to
  63 characters, and the result is 1; otherwise nothing but the first missing key is reported and the
  result is -1.
\<close>
theorem json_deal_cmd_object:
  assumes "list_all memb_ok kvs" and "kvs \<noteq> []" and "length kvs \<le> 127"
    and "js = object_text kvs @ NUL # r" and "length js < 2147483648"
  shows "json_deal_cmd js w =
    (case (map_of kvs ''age'', map_of kvs ''email'', map_of kvs ''name'') of
       (None, _, _) \<Rightarrow> Inr (-1, kprintln ''JSMN_GetObjectItem age failed'' w)
     | (_, None, _) \<Rightarrow> Inr (-1, kprintln ''JSMN_GetObjectItem email failed'' w)
     | (_, _, None) \<Rightarrow> Inr (-1, kprintln ''JSMN_GetObjectItem name failed'' w)
     | (Some a, Some e, Some n) \<Rightarrow>
         Inr (1, kprintln (''name:'' @ take 63 (val_chars n)) (kprintln (''email:'' @ take 63 (val_chars e))
           (kprintln (''age:'' @ take 63 (val_chars a)) w))))"
proof -
  let ?n = "length (object_toks kvs)"
  define ts where "ts = object_toks kvs @ drop ?n tk_array"
  have tk: "length tk_array = 256" "?n \<le> length tk_array" using assms(3) by (simp_all add: tk_array_def object_toks_def)
  have c: "cstr js = object_text kvs" "terminated js" using members_text_no_NUL [OF assms(1)] assms(4) by simp_all
  have "\<not> lost_connection js" unfolding lost_connection_def c(1) by (simp add: object_text_def take_Cons')
  note p = object_parsed [OF assms(1,2,4,5) tk(2), folded ts_def]
  have t0: "fetch ts 0 = Inr (ts ! 0)" "ttype (ts ! 0) = JSMN_OBJECT" "object_toks kvs \<noteq> []"
    by (simp_all add: ts_def object_toks_def)
  have "json_deal_cmd js w = json_fields js ts (int ?n) w"
    using json_deal_cmd_test [OF c(2), of w] \<open>\<not> lost_connection js\<close> p(1) c(1) tk(1) t0 by simp
  then show ?thesis using json_fields_object [OF assms(1,2,4) ts_def refl p(2), of w] by simp
qed

theorem json_deal_cmd_object_witness:
  "json_deal_cmd (object_text [(''name'', JStr ''Ann''), (''age'', JPrim ''7''), (''email'', JStr ''a@b'')] @ [NUL]) (init_net []) =
     Inr (1, kprintln ''name:Ann'' (kprintln ''email:a@b'' (kprintln ''age:7'' (init_net []))))"
  using json_deal_cmd_object [of "[(''name'', JStr ''Ann''), (''age'', JPrim ''7''), (''email'', JStr ''a@b'')]" _ "[]", OF _ _ _ refl]
  by (simp add: memb_ok_def str_ok_def prim_ok_def prim_char_def delim_def object_text_def memb_text_def)


definition bare_frame :: cbuf where
  "bare_frame = ''{\"age\",\"email\",\"name\"}'' @ [NUL]"




text \<open>
  Configuring a module that does not answer: no command is acknowledged, the address read back is
  never stored, and \<open>usart_net_init\<close> ends by printing the local array \<open>ip\<close> that was never written.
\<close>
theorem usart_net_init_silent:
  assumes "net_inv w" and "irqs w = []"
  shows "usart_net_init w = Inl Out_of_bounds"
proof -
  have q: "quiet w" using assms by (simp add: quiet_def)
  obtain w1 where 1: "atk_ide01_init 115200 w = Inr (ATK_IDE01_ERROR, w1)" "quiet w1"
    using search_mac_quiet [OF q, of "local_array 18"] by (auto simp: atk_ide01_init_def)
  obtain w2 where 2: "atk_ide01_search_mac (Some (local_array 18)) w1 = Inr (ATK_IDE01_ERROR, Some (local_array 18), w2)" "quiet w2"
    using search_mac_quiet [OF 1(2)] by blast
  note steps = enter_at_mode_quiet unanswered_setters(1,2) unanswered_uart unanswered_numbers unanswered_setters(3-8)
  show ?thesis
    unfolding usart_net_init_def 1(1) bnd_Inr split_conv 2(1) Let_def
    by (intro steps [THEN after_unanswered] 2(2)) (assumption | rule after_staticip [unfolded Let_def])+
qed

theorem usart_net_init_silent_witness: "usart_net_init (init_net []) = Inl Out_of_bounds"
  by (rule usart_net_init_silent) simp_all

end
