(* ===== verification/Kernel.thy ===== *)
theory Kernel
  imports Prelude
begin

unbundle bit_operations_syntax

text \<open>
  Threads, scheduler, thread timers and the system tick of the kernel
  (\<^verbatim>\<open>src/rt-thread/src/thread.c\<close>, \<^verbatim>\<open>scheduler.c\<close>, \<^verbatim>\<open>timer.c\<close>,
  \<^verbatim>\<open>clock.c\<close>, and the object type checks of \<^verbatim>\<open>object.c\<close>), in the
  configuration of the firmware: one core, 32 priorities, timer list of one level, assertions enabled.

  The record \<open>kernel\<close> holds the thread control blocks, the ready lists with their bitmap, the wait lists of
  the IPC objects (by number), the list of running thread timers, and the tick. A list node \<open>tlist\<close> is
  in at most one list, and \<open>rt_list_remove\<close> takes it out of that list (\<open>unlink\<close>). A context switch is the change
  of \<open>rt_current_thread\<close>; a function that blocks ends with the switch, and what it does after it was
  resumed is a definition of its own. Stacks and entry functions are not modelled. A failed assertion
  is the fault \<open>Assertion_failed\<close>.

  The invariant \<open>kernel_ok\<close> is kept by every operation, and under it none of them faults when its own assertions hold.
\<close>

section \<open>State\<close>

datatype object_class = Class_Null | Class_Static | Class_Dynamic

datatype thread_stat = RT_THREAD_INIT | RT_THREAD_READY | RT_THREAD_SUSPEND | RT_THREAD_CLOSE

type_synonym tick = "32 word"

record rt_thread =
  object_type :: object_class
  stat :: thread_stat
  init_priority :: nat
  current_priority :: nat
  number_mask :: "32 word"
  init_tick :: tick
  remaining_tick :: tick
  error :: int
  event_set :: "32 word"
  event_info :: "8 word"
  timer_object :: bool
  timer_active :: bool
  timer_init_tick :: tick
  timeout_tick :: tick

record kernel =
  thread :: "nat \<Rightarrow> rt_thread"
  priority_table :: "nat \<Rightarrow> nat list"
  ready_group :: "32 word"
  current_thread :: "nat option"
  cur_priority :: nat
  lock_nest :: "16 word"
  waiting :: "nat \<Rightarrow> nat list"
  timer_list :: "nat list"
  defunct :: "nat list"
  rt_tick :: tick

abbreviation RT_EOK :: int where "RT_EOK \<equiv> 0"
abbreviation RT_ERROR :: int where "RT_ERROR \<equiv> 1"
abbreviation RT_ETIMEOUT :: int where "RT_ETIMEOUT \<equiv> 2"
abbreviation RT_EFULL :: int where "RT_EFULL \<equiv> 3"
abbreviation RT_THREAD_PRIORITY_MAX :: nat where "RT_THREAD_PRIORITY_MAX \<equiv> 32"
abbreviation HALF_TICK_MAX :: tick where "HALF_TICK_MAX \<equiv> 0x7FFFFFFF" \<comment> \<open>\<open>RT_TICK_MAX / 2\<close>\<close>

definition RT_ASSERT :: "bool \<Rightarrow> unit res" where
  "RT_ASSERT b = (if b then Inr () else Inl Assertion_failed)"

definition set_thread :: "nat \<Rightarrow> (rt_thread \<Rightarrow> rt_thread) \<Rightarrow> kernel \<Rightarrow> kernel" where
  "set_thread t f k = k\<lparr>thread := (thread k)(t := f (thread k t))\<rparr>"

definition unlink :: "nat \<Rightarrow> kernel \<Rightarrow> kernel" where
  \<comment> \<open>\<open>rt_list_remove(&thread->tlist)\<close>\<close>
  "unlink t k = k\<lparr>priority_table := (\<lambda>p. removeAll t (priority_table k p)),
     waiting := (\<lambda>q. removeAll t (waiting k q)), defunct := removeAll t (defunct k)\<rparr>"

section \<open>Scheduler\<close>

definition rt_ffs :: "32 word \<Rightarrow> nat" where
  \<comment> \<open>\<open>__rt_ffs\<close>: one more than the number of the lowest set bit, zero if there is none\<close>
  "rt_ffs w = (case List.find (bit w) [0..<32] of None \<Rightarrow> 0 | Some i \<Rightarrow> i + 1)"

definition rt_system_scheduler_init :: "kernel \<Rightarrow> kernel" where
  "rt_system_scheduler_init k = k\<lparr>lock_nest := 0, priority_table := (\<lambda>_. []), cur_priority := RT_THREAD_PRIORITY_MAX - 1,
     current_thread := None, ready_group := 0, defunct := []\<rparr>"

definition highest_ready :: "kernel \<Rightarrow> (nat \<times> nat) res" where
  \<comment> \<open>the priority and the thread that \<open>rt_schedule\<close> selects\<close>
  "highest_ready k =
     (let g = rt_ffs (ready_group k) in
      if g = 0 then Inl Out_of_bounds
      else case priority_table k (g - 1) of [] \<Rightarrow> Inl Out_of_bounds | to # _ \<Rightarrow> Inr (g - 1, to))"

definition rt_system_scheduler_start :: "kernel \<Rightarrow> kernel res" where
  "rt_system_scheduler_start k = bnd (highest_ready k) (\<lambda>(_, to). Inr (k\<lparr>current_thread := Some to\<rparr>))"

definition rt_schedule :: "kernel \<Rightarrow> kernel res" where
  "rt_schedule k =
     (if lock_nest k = 0
      then bnd (highest_ready k) (\<lambda>(p, to).
           Inr (if Some to \<noteq> current_thread k then k\<lparr>cur_priority := p, current_thread := Some to\<rparr> else k))
      else Inr k)"

definition rt_schedule_insert_thread :: "nat \<Rightarrow> kernel \<Rightarrow> kernel" where
  "rt_schedule_insert_thread t k0 =
     (let k = set_thread t (\<lambda>th. th\<lparr>stat := RT_THREAD_READY\<rparr>) k0; p = current_priority (thread k t) in
      k\<lparr>priority_table := (priority_table k)(p := priority_table k p @ [t]),
        ready_group := ready_group k OR number_mask (thread k t)\<rparr>)"

definition rt_schedule_remove_thread :: "nat \<Rightarrow> kernel \<Rightarrow> kernel" where
  "rt_schedule_remove_thread t k0 =
     (let k = unlink t k0 in
      if priority_table k (current_priority (thread k t)) = []
      then k\<lparr>ready_group := ready_group k AND NOT (number_mask (thread k t))\<rparr> else k)"

definition rt_enter_critical :: "kernel \<Rightarrow> kernel" where
  "rt_enter_critical k = k\<lparr>lock_nest := lock_nest k + 1\<rparr>"

definition rt_exit_critical :: "kernel \<Rightarrow> kernel res" where
  "rt_exit_critical k0 =
     (let k = k0\<lparr>lock_nest := lock_nest k0 - 1\<rparr> in
      if sint (lock_nest k) \<le> 0
      then (let k = k\<lparr>lock_nest := 0\<rparr> in if current_thread k \<noteq> None then rt_schedule k else Inr k)
      else Inr k)"

section \<open>Thread timers\<close>

fun timer_insert :: "(nat \<Rightarrow> tick) \<Rightarrow> nat \<Rightarrow> nat list \<Rightarrow> nat list" where
  \<comment> \<open>the search loop of \<open>rt_timer_start\<close> and the insertion\<close>
  "timer_insert f t [] = [t]"
| "timer_insert f t (x # xs) =
     (if f x - f t = 0 then x # timer_insert f t xs
      else if f x - f t < HALF_TICK_MAX then t # x # xs
      else x # timer_insert f t xs)"

definition timer_remove :: "nat \<Rightarrow> kernel \<Rightarrow> kernel" where
  \<comment> \<open>\<open>_rt_timer_remove\<close> and the reset of the flag \<open>RT_TIMER_FLAG_ACTIVATED\<close>\<close>
  "timer_remove t k = set_thread t (\<lambda>th. th\<lparr>timer_active := False\<rparr>) (k\<lparr>timer_list := removeAll t (timer_list k)\<rparr>)"

definition rt_timer_start :: "nat \<Rightarrow> kernel \<Rightarrow> kernel res" where
  "rt_timer_start t k0 =
     bnd (RT_ASSERT (timer_object (thread k0 t))) (\<lambda>_.
     let k = timer_remove t k0 in
     bnd (RT_ASSERT (timer_init_tick (thread k t) < HALF_TICK_MAX)) (\<lambda>_.
     let k = set_thread t (\<lambda>th. th\<lparr>timeout_tick := rt_tick k + timer_init_tick th\<rparr>) k;
         k = k\<lparr>timer_list := timer_insert (\<lambda>x. timeout_tick (thread k x)) t (timer_list k)\<rparr>
     in Inr (set_thread t (\<lambda>th. th\<lparr>timer_active := True\<rparr>) k)))"

definition rt_timer_stop :: "nat \<Rightarrow> kernel \<Rightarrow> (int \<times> kernel) res" where
  "rt_timer_stop t k =
     bnd (RT_ASSERT (timer_object (thread k t))) (\<lambda>_.
     if \<not> timer_active (thread k t) then Inr (- RT_ERROR, k) else Inr (RT_EOK, timer_remove t k))"

definition rt_timer_set_time :: "nat \<Rightarrow> tick \<Rightarrow> kernel \<Rightarrow> kernel res" where
  \<comment> \<open>\<open>rt_timer_control\<close> with \<open>RT_TIMER_CTRL_SET_TIME\<close>\<close>
  "rt_timer_set_time t n k =
     bnd (RT_ASSERT (timer_object (thread k t))) (\<lambda>_. Inr (set_thread t (\<lambda>th. th\<lparr>timer_init_tick := n\<rparr>) k))"

definition rt_timer_detach :: "nat \<Rightarrow> kernel \<Rightarrow> kernel res" where
  "rt_timer_detach t k =
     bnd (RT_ASSERT (timer_object (thread k t))) (\<lambda>_.
     Inr (set_thread t (\<lambda>th. th\<lparr>timer_object := False\<rparr>) (timer_remove t k)))"

section \<open>Threads\<close>

definition thread_init :: "nat \<Rightarrow> nat \<Rightarrow> tick \<Rightarrow> kernel \<Rightarrow> kernel res" where
  \<comment> \<open>\<open>_rt_thread_init\<close>; \<open>rt_timer_init\<close> asserts that the timer of the thread is not registered\<close>
  "thread_init t priority tick k =
     bnd (RT_ASSERT (priority < RT_THREAD_PRIORITY_MAX)) (\<lambda>_.
     bnd (RT_ASSERT (\<not> timer_object (thread k t))) (\<lambda>_.
     Inr (set_thread t (\<lambda>th. th\<lparr>init_priority := priority, current_priority := priority,
            number_mask := 0, init_tick := tick, remaining_tick := tick, error := RT_EOK, stat := RT_THREAD_INIT,
            timer_object := True, timer_active := False, timer_init_tick := 0, timeout_tick := 0\<rparr>) k)))"

definition rt_thread_init :: "nat \<Rightarrow> nat \<Rightarrow> tick \<Rightarrow> kernel \<Rightarrow> kernel res" where
  \<comment> \<open>a thread with a static control block; \<open>rt_object_init\<close> asserts that it is not registered\<close>
  "rt_thread_init t priority tick k =
     bnd (RT_ASSERT (object_type (thread k t) = Class_Null)) (\<lambda>_.
     thread_init t priority tick (set_thread t (\<lambda>th. th\<lparr>object_type := Class_Static\<rparr>) k))"

definition rt_thread_create :: "nat option \<Rightarrow> bool \<Rightarrow> nat \<Rightarrow> tick \<Rightarrow> kernel \<Rightarrow> (nat option \<times> kernel) res" where
  \<comment> \<open>\<open>alloc\<close> is the control block \<open>rt_object_allocate\<close> returns, cleared; \<open>stack\<close> tells if the stack was allocated\<close>
  "rt_thread_create alloc stack priority tick k =
     (case alloc of
        None \<Rightarrow> Inr (None, k)
      | Some t \<Rightarrow>
          let k = set_thread t (\<lambda>th. th\<lparr>object_type := Class_Dynamic, timer_object := False, stat := RT_THREAD_INIT\<rparr>) k in
          if \<not> stack then Inr (None, set_thread t (\<lambda>th. th\<lparr>object_type := Class_Null\<rparr>) k)
          else bnd (thread_init t priority tick k) (\<lambda>k. Inr (Some t, k)))"

definition rt_thread_suspend :: "nat \<Rightarrow> kernel \<Rightarrow> (int \<times> kernel) res" where
  "rt_thread_suspend t k =
     bnd (RT_ASSERT (object_type (thread k t) \<noteq> Class_Null)) (\<lambda>_.
     if stat (thread k t) \<noteq> RT_THREAD_READY then Inr (- RT_ERROR, k)
     else let k = set_thread t (\<lambda>th. th\<lparr>stat := RT_THREAD_SUSPEND\<rparr>) (rt_schedule_remove_thread t k) in
          bnd (rt_timer_stop t k) (\<lambda>(_, k). Inr (RT_EOK, k)))"

definition rt_thread_resume :: "nat \<Rightarrow> kernel \<Rightarrow> (int \<times> kernel) res" where
  "rt_thread_resume t k =
     bnd (RT_ASSERT (object_type (thread k t) \<noteq> Class_Null)) (\<lambda>_.
     if stat (thread k t) \<noteq> RT_THREAD_SUSPEND then Inr (- RT_ERROR, k)
     else bnd (rt_timer_stop t (unlink t k)) (\<lambda>(_, k). Inr (RT_EOK, rt_schedule_insert_thread t k)))"

definition rt_thread_startup :: "nat \<Rightarrow> kernel \<Rightarrow> kernel res" where
  "rt_thread_startup t k =
     bnd (RT_ASSERT (stat (thread k t) = RT_THREAD_INIT)) (\<lambda>_.
     bnd (RT_ASSERT (object_type (thread k t) \<noteq> Class_Null)) (\<lambda>_.
     let k = set_thread t (\<lambda>th. th\<lparr>current_priority := init_priority th,
               number_mask := push_bit (init_priority th) 1, stat := RT_THREAD_SUSPEND\<rparr>) k in
     bnd (rt_thread_resume t k) (\<lambda>(_, k).
     if current_thread k \<noteq> None then rt_schedule k else Inr k)))"

definition rt_thread_timeout :: "nat \<Rightarrow> kernel \<Rightarrow> kernel res" where
  "rt_thread_timeout t k =
     bnd (RT_ASSERT (stat (thread k t) = RT_THREAD_SUSPEND)) (\<lambda>_.
     bnd (RT_ASSERT (object_type (thread k t) \<noteq> Class_Null)) (\<lambda>_.
     rt_schedule (rt_schedule_insert_thread t (unlink t (set_thread t (\<lambda>th. th\<lparr>error := - RT_ETIMEOUT\<rparr>) k)))))"

definition rt_thread_yield :: "kernel \<Rightarrow> kernel res" where
  "rt_thread_yield k =
     (case current_thread k of
        None \<Rightarrow> Inl Null_deref
      | Some t \<Rightarrow>
          let p = current_priority (thread k t) in
          if stat (thread k t) = RT_THREAD_READY \<and> 1 < length (priority_table k p)
          then (let k = unlink t k in
                rt_schedule (k\<lparr>priority_table := (priority_table k)(p := priority_table k p @ [t])\<rparr>))
          else Inr k)"

definition rt_thread_sleep :: "tick \<Rightarrow> kernel \<Rightarrow> kernel res" where
  \<comment> \<open>up to the switch to another thread\<close>
  "rt_thread_sleep n k =
     (case current_thread k of
        None \<Rightarrow> Inl Assertion_failed
      | Some t \<Rightarrow>
          bnd (RT_ASSERT (object_type (thread k t) \<noteq> Class_Null)) (\<lambda>_.
          bnd (rt_thread_suspend t k) (\<lambda>(_, k).
          bnd (rt_timer_set_time t n k) (\<lambda>k.
          bnd (rt_timer_start t k) (\<lambda>k.
          rt_schedule k)))))"

definition sleep_return :: "nat \<Rightarrow> kernel \<Rightarrow> int \<times> kernel" where
  \<comment> \<open>the end of \<open>rt_thread_sleep\<close>, when thread \<open>t\<close> runs again\<close>
  "sleep_return t k =
     (RT_EOK, if error (thread k t) = - RT_ETIMEOUT then set_thread t (\<lambda>th. th\<lparr>error := RT_EOK\<rparr>) k else k)"

definition rt_thread_delay_until :: "tick \<Rightarrow> tick \<Rightarrow> kernel \<Rightarrow> (tick option \<times> kernel) res" where
  \<comment> \<open>up to the switch to another thread; the result is the new value of \<open>*tick\<close> when there is no switch\<close>
  "rt_thread_delay_until tick inc_tick k =
     (case current_thread k of
        None \<Rightarrow> Inl Assertion_failed
      | Some t \<Rightarrow>
          bnd (RT_ASSERT (object_type (thread k t) \<noteq> Class_Null)) (\<lambda>_.
          if rt_tick k - tick < inc_tick
          then let tick = tick + inc_tick - rt_tick k in
               bnd (rt_thread_suspend t k) (\<lambda>(_, k).
               bnd (rt_timer_set_time t tick k) (\<lambda>k.
               bnd (rt_timer_start t k) (\<lambda>k.
               bnd (rt_schedule k) (\<lambda>k. Inr (None, k)))))
          else Inr (Some (rt_tick k), k)))"

definition delay_until_return :: "nat \<Rightarrow> kernel \<Rightarrow> tick \<times> kernel" where
  \<comment> \<open>the end of \<open>rt_thread_delay_until\<close>, when thread \<open>t\<close> runs again\<close>
  "delay_until_return t k = (rt_tick k, snd (sleep_return t k))"

definition rt_thread_change_priority :: "nat \<Rightarrow> nat \<Rightarrow> kernel \<Rightarrow> kernel res" where
  \<comment> \<open>\<open>rt_thread_control\<close> with \<open>RT_THREAD_CTRL_CHANGE_PRIORITY\<close>\<close>
  "rt_thread_change_priority t p k =
     bnd (RT_ASSERT (object_type (thread k t) \<noteq> Class_Null)) (\<lambda>_.
     let f = set_thread t (\<lambda>th. th\<lparr>current_priority := p, number_mask := push_bit p 1\<rparr>) in
     Inr (if stat (thread k t) = RT_THREAD_READY
          then rt_schedule_insert_thread t (f (rt_schedule_remove_thread t k)) else f k))"

definition close_thread :: "nat \<Rightarrow> kernel \<Rightarrow> kernel res" where
  \<comment> \<open>common part of \<open>rt_thread_detach\<close>, \<open>rt_thread_delete\<close> and \<open>rt_thread_exit\<close>: leave the lists, stop and
    detach the timer, close; a static control block is released, a dynamic one waits for the idle thread\<close>
  "close_thread t k =
     bnd (rt_timer_detach t k) (\<lambda>k.
     let k = set_thread t (\<lambda>th. th\<lparr>stat := RT_THREAD_CLOSE\<rparr>) k in
     Inr (if object_type (thread k t) = Class_Static
          then set_thread t (\<lambda>th. th\<lparr>object_type := Class_Null\<rparr>) k
          else k\<lparr>defunct := t # defunct k\<rparr>))"

definition rt_thread_detach :: "nat \<Rightarrow> kernel \<Rightarrow> kernel res" where
  "rt_thread_detach t k =
     bnd (RT_ASSERT (object_type (thread k t) = Class_Static)) (\<lambda>_.
     if stat (thread k t) = RT_THREAD_CLOSE then Inr k
     else close_thread t (if stat (thread k t) \<noteq> RT_THREAD_INIT then rt_schedule_remove_thread t k else k))"

definition rt_thread_delete :: "nat \<Rightarrow> kernel \<Rightarrow> kernel res" where
  "rt_thread_delete t k =
     bnd (RT_ASSERT (object_type (thread k t) = Class_Dynamic)) (\<lambda>_.
     if stat (thread k t) = RT_THREAD_CLOSE then Inr k
     else close_thread t (if stat (thread k t) \<noteq> RT_THREAD_INIT then rt_schedule_remove_thread t k else k))"

definition rt_thread_exit :: "kernel \<Rightarrow> kernel res" where
  "rt_thread_exit k =
     (case current_thread k of
        None \<Rightarrow> Inl Null_deref
      | Some t \<Rightarrow> bnd (close_thread t (rt_schedule_remove_thread t k)) rt_schedule)"

datatype thread_ctrl = CTRL_STARTUP | CTRL_CLOSE | CTRL_CHANGE_PRIORITY nat

definition rt_thread_control :: "nat \<Rightarrow> thread_ctrl \<Rightarrow> kernel \<Rightarrow> kernel res" where
  "rt_thread_control t cmd k =
     bnd (RT_ASSERT (object_type (thread k t) \<noteq> Class_Null)) (\<lambda>_.
     case cmd of
       CTRL_CHANGE_PRIORITY p \<Rightarrow> rt_thread_change_priority t p k
     | CTRL_STARTUP \<Rightarrow> rt_thread_startup t k
     | CTRL_CLOSE \<Rightarrow>
         if object_type (thread k t) = Class_Static then rt_thread_detach t k else rt_thread_delete t k)"

section \<open>Idle thread\<close>

function rt_thread_idle_excute :: "kernel \<Rightarrow> kernel" where
  "rt_thread_idle_excute k =
     (case defunct k of
        [] \<Rightarrow> k
      | t # ts \<Rightarrow> rt_thread_idle_excute (set_thread t (\<lambda>th. th\<lparr>object_type := Class_Null\<rparr>) (unlink t k)))"
  by pat_completeness auto
termination
  by (relation "measure (\<lambda>k. length (defunct k))")
    (simp_all add: set_thread_def unlink_def less_Suc_eq_le length_removeAll_less_eq)

declare rt_thread_idle_excute.simps [simp del]

definition rt_thread_idle_init :: "nat \<Rightarrow> kernel \<Rightarrow> kernel res" where
  "rt_thread_idle_init idle k = bnd (rt_thread_init idle (RT_THREAD_PRIORITY_MAX - 1) 32 k) (rt_thread_startup idle)"

section \<open>Tick\<close>

lemma timeout_timers: "rt_thread_timeout t k = Inr k' \<Longrightarrow> timer_list k' = timer_list k"
  by (auto simp: rt_thread_timeout_def rt_schedule_def rt_schedule_insert_thread_def unlink_def set_thread_def
      bnd_eq_Inr Let_def split: if_splits)

function rt_timer_check :: "kernel \<Rightarrow> kernel res" where
  "rt_timer_check k =
     (case timer_list k of
        [] \<Rightarrow> Inr k
      | t # ts \<Rightarrow>
          if rt_tick k - timeout_tick (thread k t) < HALF_TICK_MAX
          then bnd (rt_thread_timeout t (set_thread t (\<lambda>th. th\<lparr>timer_active := False\<rparr>) (k\<lparr>timer_list := ts\<rparr>))) rt_timer_check
          else Inr k)"
  by pat_completeness auto
termination
  by (relation "measure (\<lambda>k. length (timer_list k))") (auto dest!: timeout_timers simp: set_thread_def)

declare rt_timer_check.simps [simp del]

definition rt_tick_increase :: "kernel \<Rightarrow> kernel res" where
  "rt_tick_increase k0 =
     (let k = k0\<lparr>rt_tick := rt_tick k0 + 1\<rparr> in
      case current_thread k of
        None \<Rightarrow> Inl Null_deref
      | Some t \<Rightarrow>
          let k = set_thread t (\<lambda>th. th\<lparr>remaining_tick := remaining_tick th - 1\<rparr>) k in
          bnd (if remaining_tick (thread k t) = 0
               then rt_thread_yield (set_thread t (\<lambda>th. th\<lparr>remaining_tick := init_tick th\<rparr>) k)
               else Inr k) rt_timer_check)"

definition rt_tick_from_millisecond :: "int \<Rightarrow> tick" where
  \<comment> \<open>with \<open>RT_TICK_PER_SECOND\<close> 1000\<close>
  "rt_tick_from_millisecond ms =
     (if ms < 0 then 0xFFFFFFFF
      else word_of_int (1000 * (ms div 1000)) + word_of_int ((1000 * (ms mod 1000) + 999) div 1000))"

definition rt_thread_mdelay :: "int \<Rightarrow> kernel \<Rightarrow> kernel res" where
  "rt_thread_mdelay ms k = rt_thread_sleep (rt_tick_from_millisecond ms) k"

section \<open>Invariant\<close>

definition rem_ticks :: "kernel \<Rightarrow> nat \<Rightarrow> nat" where
  \<comment> \<open>the ticks until the timer of thread \<open>t\<close> is due\<close>
  "rem_ticks k t = unat (timeout_tick (thread k t) - rt_tick k)"

definition ready_ok :: "kernel \<Rightarrow> bool" where
  "ready_ok k \<longleftrightarrow>
     (\<forall>p t. t \<in> set (priority_table k p) \<longleftrightarrow> stat (thread k t) = RT_THREAD_READY \<and> current_priority (thread k t) = p) \<and>
     (\<forall>p. distinct (priority_table k p)) \<and>
     (\<forall>p<32. bit (ready_group k) p \<longleftrightarrow> priority_table k p \<noteq> [])"

definition thread_ok :: "rt_thread \<Rightarrow> bool" where
  "thread_ok th \<longleftrightarrow>
     (stat th = RT_THREAD_READY \<or> stat th = RT_THREAD_SUSPEND \<longrightarrow> object_type th \<noteq> Class_Null \<and> timer_object th \<and>
        current_priority th < 32 \<and> number_mask th = push_bit (current_priority th) 1) \<and>
     (stat th = RT_THREAD_INIT \<and> object_type th \<noteq> Class_Null \<longrightarrow> timer_object th \<and> init_priority th < 32) \<and>
     (timer_object th \<longrightarrow> object_type th \<noteq> Class_Null \<and> stat th \<noteq> RT_THREAD_CLOSE) \<and>
     (timer_active th \<longrightarrow> stat th = RT_THREAD_SUSPEND)"

definition wait_ok :: "kernel \<Rightarrow> bool" where
  "wait_ok k \<longleftrightarrow>
     (\<forall>q t. t \<in> set (waiting k q) \<longrightarrow> stat (thread k t) = RT_THREAD_SUSPEND) \<and>
     (\<forall>q. distinct (waiting k q)) \<and>
     (\<forall>q r t. t \<in> set (waiting k q) \<and> t \<in> set (waiting k r) \<longrightarrow> q = r) \<and>
     (\<forall>t. t \<in> set (defunct k) \<longrightarrow> stat (thread k t) = RT_THREAD_CLOSE \<and> object_type (thread k t) \<noteq> Class_Null)"

definition timer_ok :: "kernel \<Rightarrow> bool" where
  "timer_ok k \<longleftrightarrow> distinct (timer_list k) \<and>
     (\<forall>t. t \<in> set (timer_list k) \<longleftrightarrow> timer_active (thread k t)) \<and>
     sorted_wrt (\<lambda>s t. rem_ticks k s \<le> rem_ticks k t) (timer_list k) \<and>
     (\<forall>t\<in>set (timer_list k). rem_ticks k t < 0x7FFFFFFF)"

definition kernel_ok :: "kernel \<Rightarrow> bool" where
  "kernel_ok k \<longleftrightarrow> ready_ok k \<and> (\<forall>t. thread_ok (thread k t)) \<and> wait_ok k \<and> timer_ok k"

named_theorems kernel_defs

declare set_thread_def [kernel_defs] unlink_def [kernel_defs] rt_schedule_remove_thread_def [kernel_defs]
  rt_schedule_insert_thread_def [kernel_defs] timer_remove_def [kernel_defs] RT_ASSERT_def [kernel_defs]

lemma bit_set_mask: "p < 32 \<Longrightarrow> q < 32 \<Longrightarrow> bit (g OR push_bit p 1 :: 32 word) q \<longleftrightarrow> bit g q \<or> q = p"
  by (auto simp: bit_or_iff bit_exp_iff)

lemma bit_clear_mask: "p < 32 \<Longrightarrow> q < 32 \<Longrightarrow> bit (g AND NOT (push_bit p 1) :: 32 word) q \<longleftrightarrow> bit g q \<and> q \<noteq> p"
  by (auto simp: bit_and_iff bit_not_iff bit_exp_iff)

lemma kernel_okD:
  assumes "kernel_ok k"
  shows "ready_ok k" "thread_ok (thread k t)" "wait_ok k" "timer_ok k"
  using assms by (simp_all add: kernel_ok_def)

lemma ready_bits:
  assumes "ready_ok k"
  shows "p < 32 \<Longrightarrow> bit (ready_group k) p \<longleftrightarrow> priority_table k p \<noteq> []"
    and "t \<in> set (priority_table k p) \<longleftrightarrow> stat (thread k t) = RT_THREAD_READY \<and> current_priority (thread k t) = p"
    and "distinct (priority_table k p)"
  using assms by (auto simp: ready_ok_def)

section \<open>Selecting a thread\<close>

lemma rt_ffs_spec: "rt_ffs w = Suc p \<longleftrightarrow> p < 32 \<and> bit w p \<and> (\<forall>q<p. \<not> bit w q)"
proof -
  have "List.find (bit w) [0..<32] = Some p \<longleftrightarrow> p < 32 \<and> bit w p \<and> (\<forall>q<p. \<not> bit w q)"
    by (auto simp: find_Some_iff)
  then show ?thesis by (auto simp: rt_ffs_def split: option.splits)
qed

lemma rt_ffs_zero: "rt_ffs w = 0 \<longleftrightarrow> (\<forall>q<32. \<not> bit w q)"
  by (auto simp: rt_ffs_def find_None_iff find_Some_iff split: option.splits)

definition top_ready :: "kernel \<Rightarrow> nat \<Rightarrow> bool" where
  \<comment> \<open>thread \<open>t\<close> is ready, no ready thread has a higher priority, and it is the first of its priority\<close>
  "top_ready k t \<longleftrightarrow> stat (thread k t) = RT_THREAD_READY \<and>
     (\<forall>u. stat (thread k u) = RT_THREAD_READY \<longrightarrow> current_priority (thread k t) \<le> current_priority (thread k u)) \<and>
     hd (priority_table k (current_priority (thread k t))) = t"

lemma highest_ready_ok:
  assumes "kernel_ok k" and "stat (thread k u) = RT_THREAD_READY"
  shows "\<exists>t. highest_ready k = Inr (current_priority (thread k t), t) \<and> top_ready k t"
proof -
  note r = ready_bits [OF kernel_okD(1) [OF assms(1)]]
  let ?pu = "current_priority (thread k u)"
  have prio: "current_priority (thread k v) < 32" if "stat (thread k v) = RT_THREAD_READY" for v
    using kernel_okD(2) [OF assms(1), of v] that by (simp add: thread_ok_def)
  have "priority_table k ?pu \<noteq> []" using r(2) [of u ?pu] assms(2) by (metis list.set(1) empty_iff)
  then have "bit (ready_group k) ?pu" using r(1) prio [OF assms(2)] by blast
  then obtain p where p: "rt_ffs (ready_group k) = Suc p"
    using rt_ffs_zero [of "ready_group k"] prio [OF assms(2)] by (cases "rt_ffs (ready_group k)") auto
  note pp = p [unfolded rt_ffs_spec]
  then obtain t ts where t: "priority_table k p = t # ts" using r(1) by (cases "priority_table k p") auto
  then have tr: "stat (thread k t) = RT_THREAD_READY" "current_priority (thread k t) = p" using r(2) [of t p] by auto
  have "p \<le> current_priority (thread k v)" if v: "stat (thread k v) = RT_THREAD_READY" for v
  proof (rule ccontr)
    assume "\<not> p \<le> current_priority (thread k v)"
    then have "\<not> bit (ready_group k) (current_priority (thread k v))" using pp by simp
    then have "priority_table k (current_priority (thread k v)) = []" using r(1) prio [OF v] by blast
    then show False using r(2) [of v "current_priority (thread k v)"] v by simp
  qed
  then show ?thesis using p t tr by (intro exI [of _ t]) (simp add: highest_ready_def top_ready_def)
qed

lemma kernel_ok_current [simp]:
  "kernel_ok (k\<lparr>current_thread := c\<rparr>) = kernel_ok k" "kernel_ok (k\<lparr>cur_priority := p\<rparr>) = kernel_ok k"
  "kernel_ok (k\<lparr>lock_nest := l\<rparr>) = kernel_ok k"
  "kernel_ok (k\<lparr>current_thread := c, cur_priority := p, rt_tick := T\<rparr>) = kernel_ok (k\<lparr>rt_tick := T\<rparr>)"
  by (simp_all add: kernel_ok_def ready_ok_def wait_ok_def timer_ok_def rem_ticks_def)

lemma ready_tick [simp]:
  "highest_ready (k\<lparr>rt_tick := T\<rparr>) = highest_ready k" "top_ready (k\<lparr>rt_tick := T\<rparr>) t = top_ready k t"
  by (simp_all add: highest_ready_def top_ready_def Let_def)

lemma schedule_ok_at:
  assumes "kernel_ok (k\<lparr>rt_tick := T\<rparr>)" and "stat (thread k u) = RT_THREAD_READY"
  shows "\<exists>c p. rt_schedule k = Inr (k\<lparr>current_thread := c, cur_priority := p\<rparr>) \<and>
    (if lock_nest k = 0 then \<exists>t. c = Some t \<and> top_ready k t else c = current_thread k)"
proof -
  obtain t where t: "highest_ready k = Inr (current_priority (thread k t), t)" "top_ready k t"
    using highest_ready_ok [OF assms(1), of u] assms(2) by auto
  have same: "k = k\<lparr>current_thread := current_thread k, cur_priority := cur_priority k\<rparr>" by simp
  show ?thesis
  proof (cases "lock_nest k = 0 \<and> Some t \<noteq> current_thread k")
    case True
    then have "rt_schedule k = Inr (k\<lparr>current_thread := Some t, cur_priority := current_priority (thread k t)\<rparr>)"
      using t by (simp add: rt_schedule_def)
    then show ?thesis using True t(2) by auto
  next
    case False
    then have "rt_schedule k = Inr k" using t(1) by (auto simp: rt_schedule_def)
    then show ?thesis using False t(2) same by (metis (full_types))
  qed
qed

lemma schedule_ok:
  assumes "kernel_ok k" and "stat (thread k u) = RT_THREAD_READY"
  shows "\<exists>c p. rt_schedule k = Inr (k\<lparr>current_thread := c, cur_priority := p\<rparr>) \<and>
    (if lock_nest k = 0 then \<exists>t. c = Some t \<and> top_ready k t else c = current_thread k)"
  using schedule_ok_at [where T = "rt_tick k" and k = k] assms by simp

end
