(* ===== verification/Kernel_Run.thy ===== *)
theory Kernel_Run
  imports Kernel_Ok
begin

text \<open>
  Runs of the kernel: every operation a thread or the system tick performs keeps the invariant and
  leaves a ready thread running, for every order of operations. A sleeping thread becomes ready with exactly the tick it asked
  for, whatever the other threads do.
\<close>

section \<open>Operations on one thread\<close>

definition kept :: "nat \<Rightarrow> kernel \<Rightarrow> kernel \<Rightarrow> bool" where
  \<comment> \<open>the invariant holds afterwards, and only the control block of thread \<open>t\<close> changed\<close>
  "kept t k k' \<longleftrightarrow> kernel_ok k' \<and> (\<forall>u. u \<noteq> t \<longrightarrow> thread k' u = thread k u) \<and> rt_tick k' = rt_tick k \<and>
     current_thread k' = current_thread k \<and> lock_nest k' = lock_nest k"

lemma suspend_kept:
  assumes "kernel_ok k" and "object_type (thread k t) \<noteq> Class_Null"
  shows "\<exists>r k'. rt_thread_suspend t k = Inr (r, k') \<and> kept t k k'"
proof (cases "stat (thread k t) = RT_THREAD_READY")
  case True
  then show ?thesis using suspend_ready [OF assms(1)] suspended_ok [OF assms(1)] by (simp add: kept_def)
next
  case False
  then show ?thesis using assms by (simp add: rt_thread_suspend_def RT_ASSERT_def kept_def)
qed

lemma readied_fields [simp]:
  "thread (readied t k) = (thread k)(t := (thread k t)\<lparr>stat := RT_THREAD_READY, timer_active := False\<rparr>)"
  "rt_tick (readied t k) = rt_tick k" "lock_nest (readied t k) = lock_nest k" "current_thread (readied t k) = current_thread k"
  by (simp_all add: readied_def Let_def)

lemma resume_kept:
  assumes "kernel_ok k" and "object_type (thread k t) \<noteq> Class_Null"
  shows "\<exists>r k'. rt_thread_resume t k = Inr (r, k') \<and> kept t k k' \<and> (stat (thread k' t) = stat (thread k t) \<or> stat (thread k' t) = RT_THREAD_READY)"
proof (cases "stat (thread k t) = RT_THREAD_SUSPEND")
  case True
  then show ?thesis using resume_suspended [OF assms(1)] readied_ok [OF assms(1)] by (simp add: kept_def)
next
  case False
  then show ?thesis using assms by (simp add: rt_thread_resume_def RT_ASSERT_def kept_def)
qed

lemma set_idle_ok:
  \<comment> \<open>a thread that is neither ready nor suspended before and after, and has no running timer\<close>
  assumes "kernel_ok k" and "stat (thread k t) \<noteq> RT_THREAD_READY" "stat (thread k t) \<noteq> RT_THREAD_SUSPEND"
    and "thread_ok (f (thread k t))" "stat (f (thread k t)) \<noteq> RT_THREAD_READY" "\<not> timer_active (f (thread k t))"
    and "t \<notin> set (defunct k)"
  shows "kernel_ok (set_thread t f k)"
proof -
  have na: "\<not> timer_active (thread k t)" using kernel_okD(2) [OF assms(1), of t] assms(3) by (auto simp: thread_ok_def)
  note tm = kernel_okD(4) [OF assms(1), unfolded timer_ok_def]
  have "ready_ok (set_thread t f k)" using kernel_okD(1) [OF assms(1)] assms(2,5) by (auto simp: ready_ok_def set_thread_def)
  moreover have "thread_ok (thread (set_thread t f k) u)" for u using kernel_okD(2) [OF assms(1)] assms(4) by (simp add: set_thread_def)
  moreover have "wait_ok (set_thread t f k)" using kernel_okD(3) [OF assms(1)] assms(3,7) by (auto simp: wait_ok_def set_thread_def)
  moreover have "rem_ticks (set_thread t f k) u = rem_ticks k u" if "u \<in> set (timer_list k)" for u
    using that tm na by (auto simp: rem_ticks_def set_thread_def)
  then have "timer_ok (set_thread t f k)" using tm na assms(6)
    by (auto simp: timer_ok_def set_thread_def intro: sorted_wrt_mono_rel [rotated])
  ultimately show ?thesis by (simp add: kernel_ok_def)
qed

lemma not_defunct: "kernel_ok k \<Longrightarrow> object_type (thread k t) = Class_Null \<or> stat (thread k t) \<noteq> RT_THREAD_CLOSE \<Longrightarrow> t \<notin> set (defunct k)"
  by (auto simp: kernel_ok_def wait_ok_def)

lemma null_stat:
  assumes "kernel_ok k" and "object_type (thread k t) = Class_Null"
  shows "stat (thread k t) \<noteq> RT_THREAD_READY" "stat (thread k t) \<noteq> RT_THREAD_SUSPEND" "\<not> timer_object (thread k t)"
  using kernel_okD(2) [OF assms(1), of t] assms(2) by (auto simp: thread_ok_def)

lemma init_kept:
  assumes "kernel_ok k" and "object_type (thread k t) = Class_Null" and "p < 32"
  shows "\<exists>k'. rt_thread_init t p n k = Inr k' \<and> kept t k k' \<and> stat (thread k' t) = RT_THREAD_INIT \<and> object_type (thread k' t) = Class_Static"
    and "\<exists>k'. rt_thread_create (Some t) True p n k = Inr (Some t, k') \<and> kept t k k' \<and> stat (thread k' t) = RT_THREAD_INIT \<and> object_type (thread k' t) = Class_Dynamic"
proof -
  let ?f = "\<lambda>c th. th\<lparr>object_type := c, init_priority := p, current_priority := p, number_mask := 0, init_tick := n,
    remaining_tick := n, error := RT_EOK, stat := RT_THREAD_INIT, timer_object := True, timer_active := False,
    timer_init_tick := 0, timeout_tick := 0\<rparr>"
  have ok: "kernel_ok (set_thread t (?f c) k)" if "c \<noteq> Class_Null" for c
    using that assms(3) by (intro set_idle_ok [OF assms(1) null_stat(1,2) [OF assms(1,2)]] not_defunct assms)
      (simp_all add: thread_ok_def assms(2))
  have "rt_thread_init t p n k = Inr (set_thread t (?f Class_Static) k)"
    using assms(2,3) null_stat(3) [OF assms(1,2)]
    by (simp add: rt_thread_init_def thread_init_def RT_ASSERT_def set_thread_def)
  moreover have "rt_thread_create (Some t) True p n k = Inr (Some t, set_thread t (?f Class_Dynamic) k)"
    using assms(2,3) null_stat(3) [OF assms(1,2)]
    by (simp add: rt_thread_create_def thread_init_def RT_ASSERT_def set_thread_def Let_def)
  ultimately show "\<exists>k'. rt_thread_init t p n k = Inr k' \<and> kept t k k' \<and> stat (thread k' t) = RT_THREAD_INIT \<and> object_type (thread k' t) = Class_Static"
    and "\<exists>k'. rt_thread_create (Some t) True p n k = Inr (Some t, k') \<and> kept t k k' \<and> stat (thread k' t) = RT_THREAD_INIT \<and> object_type (thread k' t) = Class_Dynamic"
    using ok [of Class_Static] ok [of Class_Dynamic] by (auto simp: kept_def set_thread_def)
qed

lemma startup_kept:
  assumes "kernel_ok k" and "object_type (thread k t) \<noteq> Class_Null" and "stat (thread k t) = RT_THREAD_INIT"
  shows "\<exists>k'. rt_thread_startup t k = (if current_thread k' \<noteq> None then rt_schedule k' else Inr k') \<and> kept t k k' \<and> stat (thread k' t) = RT_THREAD_READY"
proof -
  let ?f = "\<lambda>th. th\<lparr>current_priority := init_priority th, number_mask := push_bit (init_priority th) 1, stat := RT_THREAD_SUSPEND\<rparr>"
  let ?k = "set_thread t ?f k"
  have th: "timer_object (thread k t)" "init_priority (thread k t) < 32" "\<not> timer_active (thread k t)"
    using kernel_okD(2) [OF assms(1), of t] assms(2,3) by (auto simp: thread_ok_def)
  have ok: "kernel_ok ?k" using th assms(2,3)
    by (intro set_idle_ok [OF assms(1)] not_defunct [OF assms(1)]) (simp_all add: thread_ok_def)
  have st: "stat (thread ?k t) = RT_THREAD_SUSPEND" by (simp add: set_thread_def)
  have "rt_thread_startup t k = (if current_thread (readied t ?k) \<noteq> None then rt_schedule (readied t ?k) else Inr (readied t ?k))"
    using assms(2,3) resume_suspended [OF ok st] by (simp add: rt_thread_startup_def RT_ASSERT_def Let_def)
  then show ?thesis using readied_ok [OF ok st]
    by (intro exI [of _ "readied t ?k"]) (simp add: kept_def set_thread_def)
qed

lemma priority_ok:
  assumes "kernel_ok k" and "stat (thread k t) \<noteq> RT_THREAD_READY" and "p < 32"
  shows "kernel_ok (set_thread t (\<lambda>th. th\<lparr>current_priority := p, number_mask := push_bit p 1\<rparr>) k)" (is "kernel_ok ?k")
proof -
  have "ready_ok ?k" using kernel_okD(1) [OF assms(1)] assms(2) by (auto simp: ready_ok_def set_thread_def)
  moreover have "thread_ok (thread ?k u)" for u using kernel_okD(2) [OF assms(1), of u] assms(3) by (auto simp: set_thread_def thread_ok_def)
  moreover have "wait_ok ?k" using kernel_okD(3) [OF assms(1)] by (auto simp: wait_ok_def set_thread_def)
  moreover have "timeout_tick (thread ?k u) = timeout_tick (thread k u)" "timer_active (thread ?k u) = timer_active (thread k u)" for u
    by (simp_all add: set_thread_def)
  then have "timer_ok ?k" using kernel_okD(4) [OF assms(1)] by (simp add: timer_ok_def rem_ticks_def)
  ultimately show ?thesis by (simp add: kernel_ok_def)
qed

lemma priority_kept:
  assumes "kernel_ok k" and "object_type (thread k t) \<noteq> Class_Null" and "p < 32"
  shows "\<exists>k'. rt_thread_change_priority t p k = Inr k' \<and> kept t k k' \<and> stat (thread k' t) = stat (thread k t)"
proof (cases "stat (thread k t) = RT_THREAD_READY")
  case True
  let ?f = "\<lambda>th. th\<lparr>current_priority := p, number_mask := push_bit p 1\<rparr>"
  let ?k = "set_thread t ?f (suspended t k)"
  have ok: "kernel_ok ?k" by (rule priority_ok [OF suspended_ok [OF assms(1) True] _ assms(3)]) simp
  have st: "stat (thread ?k t) = RT_THREAD_SUSPEND" by (simp add: set_thread_def)
  have nt: "t \<notin> set (timer_list k)" "\<And>q. t \<notin> set (waiting k q)" "\<not> timer_active (thread k t)"
    using kernel_okD(2) [OF assms(1), of t] kernel_okD(3,4) [OF assms(1)] True
    by (auto simp: thread_ok_def timer_ok_def wait_ok_def)
  have "rt_thread_change_priority t p k = Inr (readied t ?k)"
    using assms(2) True nt
    by (auto simp: rt_thread_change_priority_def rt_schedule_remove_thread_def unlink_ready [OF assms(1) True] suspended_def
        readied_def RT_ASSERT_def rt_schedule_insert_thread_def set_thread_def Let_def removeAll_id fun_eq_iff
        simp del: push_bit_of_1 intro!: kernel.equality rt_thread.equality)
  then show ?thesis using readied_ok [OF ok st] True by (auto simp: kept_def set_thread_def)
next
  case False
  then show ?thesis using priority_ok [OF assms(1) False assms(3)] assms(2)
    by (auto simp: rt_thread_change_priority_def RT_ASSERT_def kept_def set_thread_def Let_def)
qed

section \<open>Closing a thread\<close>

lemma off_suspended:
  \<comment> \<open>a suspended thread leaves its wait list\<close>
  assumes "kernel_ok k" and "stat (thread k t) = RT_THREAD_SUSPEND"
  shows "rt_schedule_remove_thread t k = k\<lparr>waiting := (\<lambda>q. removeAll t (waiting k q))\<rparr>"
    and "kernel_ok (k\<lparr>waiting := (\<lambda>q. removeAll t (waiting k q))\<rparr>)"
proof -
  let ?p = "current_priority (thread k t)"
  have th: "?p < 32" "number_mask (thread k t) = push_bit ?p 1"
    using kernel_okD(2) [OF assms(1), of t] assms(2) by (auto simp: thread_ok_def)
  have "ready_group k AND NOT (push_bit ?p 1) = ready_group k" if "priority_table k ?p = []"
  proof (rule bit_word_eqI)
    fix n assume "n < LENGTH(32)"
    then show "bit (ready_group k AND NOT (push_bit ?p 1)) n \<longleftrightarrow> bit (ready_group k) n"
      using ready_bits(1) [OF kernel_okD(1) [OF assms(1)] th(1)] that bit_clear_mask [OF th(1), of n "ready_group k"] by auto
  qed
  then show "rt_schedule_remove_thread t k = k\<lparr>waiting := (\<lambda>q. removeAll t (waiting k q))\<rparr>"
    using th(2) by (auto simp: rt_schedule_remove_thread_def unlink_suspended [OF assms] Let_def simp del: push_bit_of_1 intro!: kernel.equality)
  have w: "wait_ok (k\<lparr>waiting := (\<lambda>q. removeAll t (waiting k q))\<rparr>)" using kernel_okD(3) [OF assms(1)] assms(2)
    by (auto simp: wait_ok_def distinct_removeAll; blast)
  then show "kernel_ok (k\<lparr>waiting := (\<lambda>q. removeAll t (waiting k q))\<rparr>)" using assms(1)
    by (simp add: kernel_ok_def ready_ok_def timer_ok_def rem_ticks_def)
qed

lemma timer_remove_fields [simp]:
  "priority_table (timer_remove t k) = priority_table k" "ready_group (timer_remove t k) = ready_group k"
  "waiting (timer_remove t k) = waiting k" "defunct (timer_remove t k) = defunct k"
  "timer_list (timer_remove t k) = removeAll t (timer_list k)" "rt_tick (timer_remove t k) = rt_tick k"
  "current_thread (timer_remove t k) = current_thread k" "lock_nest (timer_remove t k) = lock_nest k"
  "thread (timer_remove t k) = (thread k)(t := (thread k t)\<lparr>timer_active := False\<rparr>)"
  by (simp_all add: timer_remove_def set_thread_def)

lemma timer_remove_ok:
  assumes "kernel_ok k"
  shows "kernel_ok (timer_remove t k)"
proof -
  have e: "rem_ticks (timer_remove t k) u = rem_ticks k u" for u by (simp add: rem_ticks_def)
  have "timer_ok (timer_remove t k)" using kernel_okD(4) [OF assms]
    by (auto simp: timer_ok_def e removeAll_filter_not_eq sorted_wrt_filter)
  moreover have "ready_ok (timer_remove t k)" "wait_ok (timer_remove t k)" "thread_ok (thread (timer_remove t k) u)" for u
    using assms by (auto simp: kernel_ok_def ready_ok_def wait_ok_def thread_ok_def timer_remove_def set_thread_def)
  ultimately show ?thesis by (simp add: kernel_ok_def)
qed

definition closed :: "object_class \<Rightarrow> rt_thread \<Rightarrow> rt_thread" where
  "closed c th = th\<lparr>timer_object := False, stat := RT_THREAD_CLOSE, object_type := c\<rparr>"

lemma closed_ok:
  assumes "kernel_ok k" and "stat (thread k t) = RT_THREAD_INIT \<or> stat (thread k t) = RT_THREAD_SUSPEND" and "\<And>q. t \<notin> set (waiting k q)"
  shows "kernel_ok (set_thread t (closed c) (timer_remove t k))" (is "kernel_ok ?k") and "t \<notin> set (defunct k)"
proof -
  show nd: "t \<notin> set (defunct k)" using not_defunct [OF assms(1), of t] assms(2) by auto
  have e: "rem_ticks ?k u = rem_ticks (timer_remove t k) u" for u
    by (simp add: rem_ticks_def set_thread_def closed_def)
  have th: "thread ?k u = (if u = t then closed c ((thread k t)\<lparr>timer_active := False\<rparr>) else thread k u)" for u
    by (simp add: set_thread_def)
  have "ready_ok ?k" using kernel_okD(1) [OF assms(1)] assms(2) by (auto simp: ready_ok_def th closed_def)
  moreover have "wait_ok ?k" using kernel_okD(3) [OF assms(1)] assms(3) nd by (auto simp: wait_ok_def th)
  moreover have "thread_ok (thread ?k u)" for u using kernel_okD(2) [OF assms(1), of u] by (auto simp: thread_ok_def th closed_def)
  moreover have "timer_ok ?k" using kernel_okD(4) [OF timer_remove_ok [OF assms(1), of t]]
    by (simp add: timer_ok_def e th closed_def del: removeAll_filter_not_eq)
  ultimately show "kernel_ok ?k" by (simp add: kernel_ok_def)
qed

lemma close_kept:
  assumes "kernel_ok k" and "object_type (thread k t) \<noteq> Class_Null" "timer_object (thread k t)"
    and "stat (thread k t) = RT_THREAD_INIT \<or> stat (thread k t) = RT_THREAD_SUSPEND" and "\<And>q. t \<notin> set (waiting k q)"
  shows "\<exists>k'. close_thread t k = Inr k' \<and> kept t k k'"
proof (cases "object_type (thread k t) = Class_Static")
  case True
  then have "close_thread t k = Inr (set_thread t (closed Class_Null) (timer_remove t k))" using assms(3)
    by (simp add: close_thread_def rt_timer_detach_def RT_ASSERT_def timer_remove_def set_thread_def closed_def Let_def)
  then show ?thesis using closed_ok(1) [OF assms(1,4,5), of Class_Null] by (simp add: kept_def set_thread_def)
next
  case False
  let ?k = "set_thread t (closed (object_type (thread k t))) (timer_remove t k)"
  have "close_thread t k = Inr (?k\<lparr>defunct := t # defunct ?k\<rparr>)" using assms(3) False
    by (simp add: close_thread_def rt_timer_detach_def RT_ASSERT_def timer_remove_def set_thread_def closed_def Let_def)
  moreover have "stat (thread ?k t) = RT_THREAD_CLOSE" "object_type (thread ?k t) \<noteq> Class_Null" using assms(2)
    by (simp_all add: set_thread_def closed_def)
  then have "kernel_ok (?k\<lparr>defunct := t # defunct ?k\<rparr>)"
    using closed_ok(1) [OF assms(1,4,5), of "object_type (thread k t)"]
    by (auto simp: kernel_ok_def ready_ok_def wait_ok_def timer_ok_def rem_ticks_def)
  ultimately show ?thesis by (simp add: kept_def set_thread_def)
qed

lemma close_stat: "close_thread t (set_thread t (\<lambda>th. th\<lparr>stat := s\<rparr>) k) = close_thread t k"
  by (cases "timer_object (thread k t)") (simp_all add: close_thread_def rt_timer_detach_def RT_ASSERT_def timer_remove_def set_thread_def Let_def)

lemma remove_close_kept:
  assumes "kernel_ok k" and "stat (thread k t) = RT_THREAD_READY \<or> stat (thread k t) = RT_THREAD_SUSPEND"
  shows "\<exists>k'. close_thread t (rt_schedule_remove_thread t k) = Inr k' \<and> kept t k k'"
proof -
  have th: "object_type (thread k t) \<noteq> Class_Null" "timer_object (thread k t)"
    using kernel_okD(2) [OF assms(1), of t] assms(2) by (auto simp: thread_ok_def)
  show ?thesis
  proof (cases "stat (thread k t) = RT_THREAD_READY")
    case True
    have "set_thread t (\<lambda>th. th\<lparr>stat := RT_THREAD_SUSPEND\<rparr>) (rt_schedule_remove_thread t k) = suspended t k"
      by (simp add: rt_schedule_remove_thread_def unlink_ready [OF assms(1) True] suspended_def set_thread_def Let_def)
    then have "close_thread t (rt_schedule_remove_thread t k) = close_thread t (suspended t k)" using close_stat by metis
    moreover have "t \<notin> set (waiting k q)" for q using kernel_okD(3) [OF assms(1)] True by (auto simp: wait_ok_def)
    ultimately show ?thesis using close_kept [OF suspended_ok [OF assms(1) True], of t] th by (auto simp: kept_def)
  next
    case False
    then have s: "stat (thread k t) = RT_THREAD_SUSPEND" using assms(2) by simp
    show ?thesis unfolding off_suspended(1) [OF assms(1) s]
      using close_kept [OF off_suspended(2) [OF assms(1) s], of t] th s by (auto simp: kept_def)
  qed
qed

lemma detach_kept:
  assumes "kernel_ok k" and "object_type (thread k t) \<noteq> Class_Null"
  shows "\<exists>k'. rt_thread_control t CTRL_CLOSE k = Inr k' \<and> kept t k k'"
proof -
  have init: "timer_object (thread k t) \<and> (\<forall>q. t \<notin> set (waiting k q))" if "stat (thread k t) = RT_THREAD_INIT"
    using kernel_okD(2) [OF assms(1), of t] kernel_okD(3) [OF assms(1)] that assms(2) by (auto simp: thread_ok_def wait_ok_def)
  consider "stat (thread k t) = RT_THREAD_CLOSE" | "stat (thread k t) = RT_THREAD_INIT"
    | "stat (thread k t) = RT_THREAD_READY \<or> stat (thread k t) = RT_THREAD_SUSPEND" by (cases "stat (thread k t)") auto
  then have "\<exists>k'. (if stat (thread k t) = RT_THREAD_CLOSE then Inr k
      else close_thread t (if stat (thread k t) \<noteq> RT_THREAD_INIT then rt_schedule_remove_thread t k else k)) = Inr k' \<and> kept t k k'"
  proof cases
    case 1 then show ?thesis using assms(1) by (simp add: kept_def)
  next
    case 2 then show ?thesis using close_kept [OF assms] init by simp
  next
    case 3 then show ?thesis using remove_close_kept [OF assms(1) 3] by auto
  qed
  then show ?thesis using assms(2)
    by (cases "object_type (thread k t)") (simp_all add: rt_thread_control_def rt_thread_detach_def rt_thread_delete_def RT_ASSERT_def)
qed

section \<open>Yielding, the tick, and the idle thread\<close>

lemma rotate_ok:
  assumes "kernel_ok (k\<lparr>rt_tick := T\<rparr>)" and "stat (thread k t) = RT_THREAD_READY"
  shows "\<exists>k'. unlink t k\<lparr>priority_table := (priority_table (unlink t k))(current_priority (thread k t) :=
      priority_table (unlink t k) (current_priority (thread k t)) @ [t])\<rparr> = k' \<and> kernel_ok (k'\<lparr>rt_tick := T\<rparr>) \<and>
    thread k' = thread k \<and> rt_tick k' = rt_tick k \<and> lock_nest k' = lock_nest k \<and> current_thread k' = current_thread k"
proof -
  let ?p = "current_priority (thread k t)"
  let ?l = "removeAll t (priority_table k ?p) @ [t]"
  let ?k = "k\<lparr>priority_table := (priority_table k)(?p := ?l)\<rparr>"
  have m: "t \<in> set (priority_table k ?p)" "distinct (priority_table k ?p)" "set ?l = set (priority_table k ?p)"
    using ready_bits(2) [OF kernel_okD(1) [OF assms(1)], of t ?p] ready_bits(3) [OF kernel_okD(1) [OF assms(1)], of ?p] assms(2) by auto
  have "ready_ok (?k\<lparr>rt_tick := T\<rparr>)" using kernel_okD(1) [OF assms(1)] m by (auto simp: ready_ok_def distinct_removeAll)
  then have "kernel_ok (?k\<lparr>rt_tick := T\<rparr>)" using assms(1) by (simp add: kernel_ok_def wait_ok_def timer_ok_def rem_ticks_def)
  moreover note unlink_ready_at [OF assms]
  ultimately show ?thesis by (intro exI [of _ ?k]) simp
qed

lemma schedule_running:
  assumes "kernel_ok (k\<lparr>rt_tick := T\<rparr>)" and "stat (thread k i) = RT_THREAD_READY" and "lock_nest k = 0 \<or> cur_ready k"
  shows "\<exists>k'. rt_schedule k = Inr k' \<and> kernel_ok (k'\<lparr>rt_tick := T\<rparr>) \<and> cur_ready k' \<and> thread k' = thread k \<and> rt_tick k' = rt_tick k \<and>
    lock_nest k' = lock_nest k"
proof -
  obtain c p where s: "rt_schedule k = Inr (k\<lparr>current_thread := c, cur_priority := p\<rparr>)"
    "if lock_nest k = 0 then \<exists>t. c = Some t \<and> top_ready k t else c = current_thread k"
    using schedule_ok_at [OF assms(1,2)] by blast
  then have "cur_ready (k\<lparr>current_thread := c, cur_priority := p\<rparr>)" using assms(3)
    by (auto simp: cur_ready_def top_ready_def split: if_splits option.splits)
  then show ?thesis using s(1) assms(1) by simp
qed

lemma yield_at:
  assumes "kernel_ok (k\<lparr>rt_tick := T\<rparr>)" and "stat (thread k i) = RT_THREAD_READY" and "cur_ready k"
  shows "\<exists>k'. rt_thread_yield k = Inr k' \<and> kernel_ok (k'\<lparr>rt_tick := T\<rparr>) \<and> cur_ready k' \<and> thread k' = thread k \<and> rt_tick k' = rt_tick k \<and>
    lock_nest k' = lock_nest k"
proof -
  obtain t where t: "current_thread k = Some t" "stat (thread k t) = RT_THREAD_READY"
    using assms(3) by (auto simp: cur_ready_def split: option.splits)
  obtain k1 where k1: "unlink t k\<lparr>priority_table := (priority_table (unlink t k))(current_priority (thread k t) :=
      priority_table (unlink t k) (current_priority (thread k t)) @ [t])\<rparr> = k1" "kernel_ok (k1\<lparr>rt_tick := T\<rparr>)"
    "thread k1 = thread k" "rt_tick k1 = rt_tick k" "lock_nest k1 = lock_nest k" "current_thread k1 = current_thread k"
    using rotate_ok [OF assms(1) t(2)] by blast
  have "cur_ready k1" using t k1(3,6) by (simp add: cur_ready_def)
  then show ?thesis using schedule_running [OF k1(2), of i] assms t k1 by (auto simp: rt_thread_yield_def Let_def)
qed

definition running :: "nat \<Rightarrow> kernel \<Rightarrow> bool" where
  \<comment> \<open>the invariant of a started system with idle thread \<open>i\<close>: the current thread and the idle thread are ready\<close>
  "running i k \<longleftrightarrow> kernel_ok k \<and> stat (thread k i) = RT_THREAD_READY \<and> cur_ready k"

lemma tick_ok:
  assumes "running i k"
  shows "\<exists>k'. rt_tick_increase k = Inr k' \<and> running i k' \<and> rt_tick k' = rt_tick k + 1 \<and> lock_nest k' = lock_nest k \<and>
    (\<forall>u. current_thread k \<noteq> Some u \<longrightarrow> thread k' u = tick_thread (rt_tick k) (thread k u))"
proof -
  obtain t where t: "current_thread k = Some t" "stat (thread k t) = RT_THREAD_READY"
    using assms by (auto simp: running_def cur_ready_def split: option.splits)
  let ?k = "\<lambda>r. set_thread t (\<lambda>th. th\<lparr>remaining_tick := r\<rparr>) (k\<lparr>rt_tick := rt_tick k + 1\<rparr>)"
  have k: "kernel_ok ((?k r)\<lparr>rt_tick := rt_tick k\<rparr>)" for r
  proof -
    have "(?k r)\<lparr>rt_tick := rt_tick k\<rparr> = set_thread t (\<lambda>th. th\<lparr>remaining_tick := r\<rparr>) k" by (simp add: set_thread_def)
    then show ?thesis using assms set_thread_ok [of "\<lambda>th. th\<lparr>remaining_tick := r\<rparr>" t k] by (simp add: running_def same_thread_def)
  qed
  have rdy: "stat (thread (?k r) i) = RT_THREAD_READY" "cur_ready (?k r)" for r
    using assms t by (auto simp: running_def cur_ready_def set_thread_def)
  have "\<exists>r k1. rt_tick_increase k = rt_timer_check k1 \<and> kernel_ok (k1\<lparr>rt_tick := rt_tick k\<rparr>) \<and> cur_ready k1 \<and> thread k1 = thread (?k r) \<and>
    rt_tick k1 = rt_tick k + 1 \<and> lock_nest k1 = lock_nest k"
  proof (cases "remaining_tick (thread k t) - 1 = 0")
    case True
    let ?r = "init_tick (thread k t)"
    obtain k1 where "rt_thread_yield (?k ?r) = Inr k1" "kernel_ok (k1\<lparr>rt_tick := rt_tick k\<rparr>)" "cur_ready k1" "thread k1 = thread (?k ?r)"
      "rt_tick k1 = rt_tick k + 1" "lock_nest k1 = lock_nest k"
      using yield_at [OF k [of ?r] rdy] by auto
    then show ?thesis using t True by (intro exI [of _ ?r] exI [of _ k1]) (simp add: rt_tick_increase_def Let_def set_thread_def)
  next
    case False
    then show ?thesis using t k rdy(2)
      by (intro exI [of _ "remaining_tick (thread k t) - 1"] exI [of _ "?k (remaining_tick (thread k t) - 1)"])
        (simp add: rt_tick_increase_def Let_def set_thread_def)
  qed
  then obtain r k1 where k1: "rt_tick_increase k = rt_timer_check k1" "kernel_ok (k1\<lparr>rt_tick := rt_tick k\<rparr>)" "cur_ready k1"
    "thread k1 = thread (?k r)" "rt_tick k1 = rt_tick k + 1" "lock_nest k1 = lock_nest k" by blast
  have "stat (thread k1 i) = RT_THREAD_READY" using rdy(1) [of r] k1(4) by simp
  from timer_check_ok [OF k1(2,5) this k1(3)] show ?thesis
    using k1 t assms by (auto simp: running_def tick_thread_def set_thread_def)
qed

lemma idle_kept:
  assumes "kernel_ok k"
  shows "kernel_ok (rt_thread_idle_excute k) \<and> (\<forall>u. stat (thread k u) \<noteq> RT_THREAD_CLOSE \<longrightarrow> thread (rt_thread_idle_excute k) u = thread k u) \<and>
    rt_tick (rt_thread_idle_excute k) = rt_tick k \<and> current_thread (rt_thread_idle_excute k) = current_thread k \<and>
    lock_nest (rt_thread_idle_excute k) = lock_nest k \<and> defunct (rt_thread_idle_excute k) = []"
  using assms
proof (induction k rule: rt_thread_idle_excute.induct)
  case (1 k)
  show ?case
  proof (cases "defunct k")
    case Nil
    then show ?thesis using 1(2) by (simp add: rt_thread_idle_excute.simps [of k])
  next
    case (Cons t ts)
    let ?k = "set_thread t (\<lambda>th. th\<lparr>object_type := Class_Null\<rparr>) (unlink t k)"
    have st: "stat (thread k t) = RT_THREAD_CLOSE" using 1(2) Cons by (auto simp: kernel_ok_def wait_ok_def)
    have nl: "t \<notin> set (priority_table k p)" "t \<notin> set (waiting k q)" for p q
      using st 1(2) by (auto simp: kernel_ok_def wait_ok_def ready_ok_def)
    have u: "unlink t k = k\<lparr>defunct := removeAll t (defunct k)\<rparr>" using nl by (simp add: unlink_def removeAll_id)
    have "kernel_ok (k\<lparr>defunct := removeAll t (defunct k)\<rparr>)" using 1(2)
      by (auto simp: kernel_ok_def ready_ok_def wait_ok_def timer_ok_def rem_ticks_def)
    then have "kernel_ok ?k" unfolding u using st kernel_okD(2) [OF 1(2), of t]
      by (intro set_idle_ok) (auto simp: thread_ok_def)
    note IH = 1(1) [OF Cons this]
    have e: "rt_thread_idle_excute k = rt_thread_idle_excute ?k" using Cons by (simp add: rt_thread_idle_excute.simps [of k])
    have "stat (thread ?k v) = stat (thread k v)" "stat (thread k v) \<noteq> RT_THREAD_CLOSE \<Longrightarrow> thread ?k v = thread k v" for v
      using st by (auto simp: u set_thread_def)
    then show ?thesis unfolding e using IH by (simp add: u)
  qed
qed

section \<open>Runs\<close>

datatype kop = Tick | Sleep tick | Delay_Until tick tick | Yield | Schedule | Suspend nat | Resume nat | Init nat nat tick
  | Create nat nat tick | Startup nat | Priority nat nat | Close nat | Exit | Idle | Enter_Critical | Exit_Critical

fun exec :: "kop \<Rightarrow> kernel \<Rightarrow> kernel res" where
  "exec Tick k = rt_tick_increase k"
| "exec (Sleep n) k = rt_thread_sleep n k"
| "exec (Delay_Until tick inc) k = bnd (rt_thread_delay_until tick inc k) (\<lambda>(_, k). Inr k)"
| "exec Yield k = rt_thread_yield k"
| "exec Schedule k = rt_schedule k"
| "exec (Suspend t) k = bnd (rt_thread_suspend t k) (\<lambda>(_, k). Inr k)"
| "exec (Resume t) k = bnd (rt_thread_resume t k) (\<lambda>(_, k). Inr k)"
| "exec (Init t p n) k = rt_thread_init t p n k"
| "exec (Create t p n) k = bnd (rt_thread_create (Some t) True p n k) (\<lambda>(_, k). Inr k)"
| "exec (Startup t) k = rt_thread_startup t k"
| "exec (Priority t p) k = rt_thread_control t (CTRL_CHANGE_PRIORITY p) k"
| "exec (Close t) k = rt_thread_control t CTRL_CLOSE k"
| "exec Exit k = rt_thread_exit k"
| "exec Idle k = Inr (rt_thread_idle_excute k)"
| "exec Enter_Critical k = Inr (rt_enter_critical k)"
| "exec Exit_Critical k = rt_exit_critical k"

fun allowed :: "nat \<Rightarrow> kop \<Rightarrow> kernel \<Rightarrow> bool" where
  \<comment> \<open>what the kernel asks of its callers: control blocks are registered (or not yet, to be initialised), priorities
    and times are in range, the idle thread stays ready, and a thread gives up the processor only with the scheduler unlocked\<close>
  "allowed i (Sleep n) k \<longleftrightarrow> lock_nest k = 0 \<and> current_thread k \<noteq> Some i \<and> n < HALF_TICK_MAX"
| "allowed i (Delay_Until tick inc) k \<longleftrightarrow> lock_nest k = 0 \<and> current_thread k \<noteq> Some i \<and>
     (rt_tick k - tick < inc \<longrightarrow> tick + inc - rt_tick k < HALF_TICK_MAX)"
| "allowed i (Suspend t) k \<longleftrightarrow> object_type (thread k t) \<noteq> Class_Null \<and> t \<noteq> i \<and> current_thread k \<noteq> Some t"
| "allowed i (Resume t) k \<longleftrightarrow> object_type (thread k t) \<noteq> Class_Null"
| "allowed i (Init t p n) k \<longleftrightarrow> object_type (thread k t) = Class_Null \<and> p < RT_THREAD_PRIORITY_MAX"
| "allowed i (Create t p n) k \<longleftrightarrow> object_type (thread k t) = Class_Null \<and> p < RT_THREAD_PRIORITY_MAX"
| "allowed i (Startup t) k \<longleftrightarrow> object_type (thread k t) \<noteq> Class_Null \<and> stat (thread k t) = RT_THREAD_INIT"
| "allowed i (Priority t p) k \<longleftrightarrow> object_type (thread k t) \<noteq> Class_Null \<and> p < RT_THREAD_PRIORITY_MAX"
| "allowed i (Close t) k \<longleftrightarrow> object_type (thread k t) \<noteq> Class_Null \<and> t \<noteq> i \<and> current_thread k \<noteq> Some t"
| "allowed i Exit k \<longleftrightarrow> lock_nest k = 0 \<and> current_thread k \<noteq> Some i"
| "allowed i _ k \<longleftrightarrow> True"

fun target :: "kop \<Rightarrow> nat option" where
  "target (Suspend t) = Some t" | "target (Resume t) = Some t" | "target (Init t p n) = Some t" | "target (Create t p n) = Some t"
| "target (Startup t) = Some t" | "target (Priority t p) = Some t" | "target (Close t) = Some t" | "target _ = None"

definition stepped :: "nat \<Rightarrow> kop \<Rightarrow> kernel \<Rightarrow> kernel \<Rightarrow> bool" where
  \<comment> \<open>what every operation ensures: the invariant, and a suspended thread that is not its target changes only by the tick\<close>
  "stepped i op k k' \<longleftrightarrow> running i k' \<and> rt_tick k' = (if op = Tick then rt_tick k + 1 else rt_tick k) \<and>
     (\<forall>u. stat (thread k u) = RT_THREAD_SUSPEND \<and> target op \<noteq> Some u \<longrightarrow>
        thread k' u = (if op = Tick then tick_thread (rt_tick k) (thread k u) else thread k u))"

lemma runningE:
  assumes "running i k"
  obtains c where "kernel_ok k" "stat (thread k i) = RT_THREAD_READY" "current_thread k = Some c" "stat (thread k c) = RT_THREAD_READY"
  using assms by (auto simp: running_def cur_ready_def split: option.splits)

lemma kept_stepped:
  assumes "running i k" and "kept t k k'" and "target op = Some t"
    and "stat (thread k' t) = stat (thread k t) \<or> stat (thread k' t) = RT_THREAD_READY \<or> (t \<noteq> i \<and> current_thread k \<noteq> Some t)"
  shows "stepped i op k k'"
proof -
  obtain c where c: "stat (thread k i) = RT_THREAD_READY" "current_thread k = Some c" "stat (thread k c) = RT_THREAD_READY"
    using runningE [OF assms(1)] .
  have same: "thread k' u = thread k u" if "u \<noteq> t" for u using assms(2) that by (simp add: kept_def)
  have "stat (thread k' i) = RT_THREAD_READY" using c(1) assms(4) same [of i] by (cases "i = t") auto
  moreover have "stat (thread k' c) = RT_THREAD_READY" using c(2,3) assms(4) same [of c] by (cases "c = t") auto
  ultimately have "running i k'" using assms(2) c(2) by (simp add: kept_def running_def cur_ready_def)
  moreover have "op \<noteq> Tick" using assms(3) by auto
  ultimately show ?thesis using assms(2,3) by (auto simp: stepped_def kept_def)
qed

lemma schedule_stepped:
  assumes "running i k" and "op \<noteq> Tick" and "rt_tick k1 = rt_tick k" and "kernel_ok k1" and "stat (thread k1 i) = RT_THREAD_READY"
    and "lock_nest k1 = 0 \<or> cur_ready k1"
    and "\<And>u. stat (thread k u) = RT_THREAD_SUSPEND \<Longrightarrow> target op \<noteq> Some u \<Longrightarrow> thread k1 u = thread k u"
  shows "\<exists>k'. rt_schedule k1 = Inr k' \<and> stepped i op k k'"
proof -
  obtain k' where k': "rt_schedule k1 = Inr k'" "kernel_ok (k'\<lparr>rt_tick := rt_tick k1\<rparr>)" "cur_ready k'" "thread k' = thread k1"
    "rt_tick k' = rt_tick k1"
    using schedule_running [where k = k1 and T = "rt_tick k1" and i = i] assms(4-6) by auto
  have "kernel_ok k'" using k'(2) unfolding k'(5) [symmetric] by simp
  then show ?thesis using k' assms(2,3,5,7) by (auto simp: stepped_def running_def)
qed

lemma sleep_stepped:
  assumes "running i k" and "current_thread k \<noteq> Some i" and "lock_nest k = 0" and "n < HALF_TICK_MAX" and "op \<noteq> Tick"
  shows "\<exists>k'. rt_thread_sleep n k = Inr k' \<and> stepped i op k k'"
proof -
  obtain c where c: "kernel_ok k" "stat (thread k i) = RT_THREAD_READY" "current_thread k = Some c" "stat (thread k c) = RT_THREAD_READY"
    using runningE [OF assms(1)] .
  then have "i \<noteq> c" using assms(2) by auto
  from sleep_ok [OF c(1,3,4,2) this assms(4)] obtain k' v where k': "rt_thread_sleep n k = Inr k'" "kernel_ok k'" "rt_tick k' = rt_tick k"
    "thread k' = (thread k)(c := (thread k c)\<lparr>stat := RT_THREAD_SUSPEND, timer_init_tick := n, timeout_tick := rt_tick k + n, timer_active := True\<rparr>)"
    "current_thread k' = Some v" "top_ready k' v" using assms(3) by auto
  then have "cur_ready k'" by (simp add: cur_ready_def top_ready_def)
  then show ?thesis using k' c \<open>i \<noteq> c\<close> assms(5) by (auto simp: stepped_def running_def)
qed

lemma delay_until_sleep:
  "current_thread k = Some c \<Longrightarrow> object_type (thread k c) \<noteq> Class_Null \<Longrightarrow> rt_thread_delay_until tick inc k =
     (if rt_tick k - tick < inc then bnd (rt_thread_sleep (tick + inc - rt_tick k) k) (\<lambda>k. Inr (None, k)) else Inr (Some (rt_tick k), k))"
  by (simp add: rt_thread_delay_until_def rt_thread_sleep_def RT_ASSERT_def Let_def bnd_assoc case_prod_unfold)

lemma running_stepped: "running i k \<Longrightarrow> op \<noteq> Tick \<Longrightarrow> stepped i op k k"
  by (simp add: stepped_def)

lemma running_registered: "running i k \<Longrightarrow> current_thread k = Some c \<Longrightarrow> object_type (thread k c) \<noteq> Class_Null"
  by (auto simp: running_def cur_ready_def kernel_ok_def thread_ok_def)

lemma exec_critical:
  assumes "running i k"
  shows "stepped i Enter_Critical k (rt_enter_critical k)" "\<exists>k'. rt_exit_critical k = Inr k' \<and> stepped i Exit_Critical k k'"
proof -
  have r: "running i (k\<lparr>lock_nest := l\<rparr>)" for l using assms by (simp add: running_def cur_ready_def split: option.splits)
  then show "stepped i Enter_Critical k (rt_enter_critical k)" by (simp add: stepped_def rt_enter_critical_def)
  show "\<exists>k'. rt_exit_critical k = Inr k' \<and> stepped i Exit_Critical k k'"
  proof (cases "sint (lock_nest k - 1) \<le> 0")
    case True
    have "\<exists>k'. rt_schedule (k\<lparr>lock_nest := 0\<rparr>) = Inr k' \<and> stepped i Exit_Critical k k'"
      using r [of 0] by (intro schedule_stepped [OF assms]) (simp_all add: running_def)
    then show ?thesis using True assms by (auto simp: rt_exit_critical_def Let_def running_def cur_ready_def)
  next
    case False
    then show ?thesis using r by (simp add: rt_exit_critical_def Let_def stepped_def)
  qed
qed

lemma exec_startup:
  assumes "running i k" and "object_type (thread k t) \<noteq> Class_Null" and "stat (thread k t) = RT_THREAD_INIT"
  shows "\<exists>k'. rt_thread_startup t k = Inr k' \<and> stepped i (Startup t) k k'"
proof -
  obtain c where c: "kernel_ok k" "stat (thread k i) = RT_THREAD_READY" "current_thread k = Some c" "stat (thread k c) = RT_THREAD_READY"
    using runningE [OF assms(1)] .
  obtain k1 where k1: "rt_thread_startup t k = rt_schedule k1" "kept t k k1" "stat (thread k1 t) = RT_THREAD_READY"
    using startup_kept [OF c(1) assms(2,3)] c(3) by (auto simp: kept_def)
  have "i \<noteq> t" "c \<noteq> t" using c assms(3) by auto
  then show ?thesis unfolding k1(1) using k1(2) c
    by (intro schedule_stepped [OF assms(1)]) (auto simp: kept_def cur_ready_def)
qed

lemma exec_exit:
  assumes "running i k" and "current_thread k \<noteq> Some i" and "lock_nest k = 0"
  shows "\<exists>k'. rt_thread_exit k = Inr k' \<and> stepped i Exit k k'"
proof -
  obtain c where c: "kernel_ok k" "stat (thread k i) = RT_THREAD_READY" "current_thread k = Some c" "stat (thread k c) = RT_THREAD_READY"
    using runningE [OF assms(1)] .
  obtain k1 where k1: "close_thread c (rt_schedule_remove_thread c k) = Inr k1" "kept c k k1"
    using remove_close_kept [OF c(1), of c] c(4) by blast
  have e: "rt_thread_exit k = rt_schedule k1" using c(3) k1(1) by (simp add: rt_thread_exit_def)
  have "i \<noteq> c" using c assms(2) by auto
  moreover have "thread k1 u = thread k u" if "stat (thread k u) = RT_THREAD_SUSPEND" for u
    using that k1(2) c(4) by (cases "u = c") (simp_all add: kept_def)
  ultimately show ?thesis unfolding e using k1(2) c assms(3)
    by (intro schedule_stepped [OF assms(1)]) (auto simp: kept_def)
qed

lemma exec_stepped:
  assumes "running i k" and "allowed i op k"
  shows "\<exists>k'. exec op k = Inr k' \<and> stepped i op k k'"
proof -
  obtain c where c: "kernel_ok k" "stat (thread k i) = RT_THREAD_READY" "current_thread k = Some c" "stat (thread k c) = RT_THREAD_READY"
    using runningE [OF assms(1)] .
  note kst = kept_stepped [OF assms(1)]
  show ?thesis
  proof (cases op)
    case Tick
    have "stat (thread k u) = RT_THREAD_SUSPEND \<Longrightarrow> current_thread k \<noteq> Some u" for u using c by auto
    then show ?thesis using tick_ok [OF assms(1)] Tick by (auto simp: stepped_def)
  next
    case (Sleep n)
    then show ?thesis using sleep_stepped [OF assms(1)] assms(2) by auto
  next
    case (Delay_Until tick inc)
    then show ?thesis using sleep_stepped [OF assms(1), of "tick + inc - rt_tick k" op] running_stepped [OF assms(1), of op] assms(2) c(3)
        running_registered [OF assms(1) c(3)] by (auto simp: delay_until_sleep)
  next
    case Yield
    have "kernel_ok (k\<lparr>rt_tick := rt_tick k\<rparr>)" using c(1) by simp
    from yield_at [OF this c(2)] obtain k' where k': "rt_thread_yield k = Inr k'" "kernel_ok (k'\<lparr>rt_tick := rt_tick k'\<rparr>)" "cur_ready k'"
      "thread k' = thread k" "rt_tick k' = rt_tick k" using assms(1) by (auto simp: running_def)
    have "kernel_ok k'" using k'(2) by simp
    then show ?thesis using k' Yield c(2) by (simp add: stepped_def running_def)
  next
    case Schedule
    then show ?thesis using schedule_stepped [OF assms(1), of Schedule k] assms(1) by (auto simp: running_def)
  next
    case (Suspend t)
    then show ?thesis using suspend_kept [OF c(1), of t] kst [where t = t and op = op] assms(2) by fastforce
  next
    case (Resume t)
    then show ?thesis using resume_kept [OF c(1), of t] kst [where t = t and op = op] assms(2) by fastforce
  next
    case (Init t p n)
    then have "t \<noteq> i" "current_thread k \<noteq> Some t" using assms(2) null_stat(1) [OF c(1), of t] c by auto
    then show ?thesis using init_kept(1) [OF c(1), of t p n] kst [where t = t and op = op] assms(2) Init by fastforce
  next
    case (Create t p n)
    then have "t \<noteq> i" "current_thread k \<noteq> Some t" using assms(2) null_stat(1) [OF c(1), of t] c by auto
    then show ?thesis using init_kept(2) [OF c(1), of t p n] kst [where t = t and op = op] assms(2) Create by fastforce
  next
    case (Startup t)
    then show ?thesis using exec_startup [OF assms(1)] assms(2) by simp
  next
    case (Priority t p)
    then show ?thesis using priority_kept [OF c(1), of t p] kst [where t = t and op = op] assms(2)
      by (fastforce simp: rt_thread_control_def RT_ASSERT_def)
  next
    case (Close t)
    then show ?thesis using detach_kept [OF c(1), of t] kst [where t = t and op = op] assms(2) by fastforce
  next
    case Exit
    then show ?thesis using exec_exit [OF assms(1)] assms(2) by simp
  next
    case Idle
    then show ?thesis using idle_kept [OF c(1)] c by (auto simp: stepped_def running_def cur_ready_def)
  next
    case Enter_Critical
    then show ?thesis using exec_critical(1) [OF assms(1)] by simp
  next
    case Exit_Critical
    then show ?thesis using exec_critical(2) [OF assms(1)] by simp
  qed
qed

inductive kernel_run :: "nat \<Rightarrow> kernel \<Rightarrow> kop list \<Rightarrow> kernel \<Rightarrow> bool" for i :: nat and k :: kernel where
  start: "kernel_run i k [] k"
| step: "kernel_run i k ops k1 \<Longrightarrow> allowed i op k1 \<Longrightarrow> exec op k1 = Inr k2 \<Longrightarrow> kernel_run i k (ops @ [op]) k2"

inductive_cases kernel_run_snocE: "kernel_run i k (ops @ [op]) k'"

definition boot :: kernel where
  \<comment> \<open>the cleared memory of the control blocks and lists\<close>
  "boot = \<lparr>thread = (\<lambda>_. \<lparr>object_type = Class_Null, stat = RT_THREAD_INIT, init_priority = 0, current_priority = 0, number_mask = 0,
        init_tick = 0, remaining_tick = 0, error = 0, event_set = 0, event_info = 0, timer_object = False, timer_active = False, timer_init_tick = 0, timeout_tick = 0\<rparr>),
      priority_table = (\<lambda>_. []), ready_group = 0, current_thread = None, cur_priority = 0, lock_nest = 0, waiting = (\<lambda>_. []),
      timer_list = [], defunct = [], rt_tick = 0\<rparr>"

definition rt_system_timer_init :: "kernel \<Rightarrow> kernel" where
  "rt_system_timer_init k = k\<lparr>timer_list := []\<rparr>"

definition rt_application_init :: "nat option \<Rightarrow> bool \<Rightarrow> kernel \<Rightarrow> kernel res" where
  "rt_application_init alloc stack k =
     bnd (rt_thread_create alloc stack 10 20 k) (\<lambda>(tid, k).
     case tid of None \<Rightarrow> Inl Assertion_failed | Some tid \<Rightarrow> rt_thread_startup tid k)"

definition rt_system_timer_thread_init :: "nat \<Rightarrow> kernel \<Rightarrow> kernel res" where
  \<comment> \<open>the thread part\<close>
  "rt_system_timer_thread_init timer_thread k = bnd (rt_thread_init timer_thread 4 10 k) (rt_thread_startup timer_thread)"

definition rtthread_startup :: "nat \<Rightarrow> nat \<Rightarrow> nat option \<Rightarrow> bool \<Rightarrow> kernel \<Rightarrow> kernel res" where
  \<comment> \<open>after the board initialisation; \<open>alloc\<close> and \<open>stack\<close> are the results of the heap for the main thread\<close>
  "rtthread_startup idle timer_thread alloc stack k =
     bnd (rt_application_init alloc stack (rt_system_scheduler_init (rt_system_timer_init k))) (\<lambda>k.
     bnd (rt_system_timer_thread_init timer_thread k) (\<lambda>k.
     bnd (rt_thread_idle_init idle k) rt_system_scheduler_start))"

lemma boot_ok: "kernel_ok (rt_system_scheduler_init (rt_system_timer_init boot))"
  by (simp add: boot_def rt_system_timer_init_def rt_system_scheduler_init_def kernel_ok_def ready_ok_def thread_ok_def wait_ok_def timer_ok_def)

lemma startup_before_start:
  assumes "kernel_ok k" and "object_type (thread k t) \<noteq> Class_Null" and "stat (thread k t) = RT_THREAD_INIT" and "current_thread k = None"
  shows "\<exists>k'. rt_thread_startup t k = Inr k' \<and> kept t k k' \<and> stat (thread k' t) = RT_THREAD_READY"
  using startup_kept [OF assms(1-3)] assms(4) by (fastforce simp: kept_def)

lemma init_startup:
  assumes "kernel_ok k" and "object_type (thread k t) = Class_Null" and "p < 32" and "current_thread k = None"
  shows "\<exists>k'. bnd (rt_thread_init t p n k) (rt_thread_startup t) = Inr k' \<and> kept t k k' \<and> stat (thread k' t) = RT_THREAD_READY"
    and "\<exists>k'. bnd (rt_thread_create (Some t) True p n k) (\<lambda>(_, k). rt_thread_startup t k) = Inr k' \<and> kept t k k'"
proof -
  obtain k1 where k1: "rt_thread_init t p n k = Inr k1" "kept t k k1" "stat (thread k1 t) = RT_THREAD_INIT" "object_type (thread k1 t) = Class_Static"
    using init_kept(1) [OF assms(1-3)] by blast
  then show "\<exists>k'. bnd (rt_thread_init t p n k) (rt_thread_startup t) = Inr k' \<and> kept t k k' \<and> stat (thread k' t) = RT_THREAD_READY"
    using startup_before_start [of k1 t] assms(4) by (auto simp: kept_def)
  obtain k2 where k2: "rt_thread_create (Some t) True p n k = Inr (Some t, k2)" "kept t k k2" "stat (thread k2 t) = RT_THREAD_INIT" "object_type (thread k2 t) = Class_Dynamic"
    using init_kept(2) [OF assms(1-3)] by blast
  then show "\<exists>k'. bnd (rt_thread_create (Some t) True p n k) (\<lambda>(_, k). rt_thread_startup t k) = Inr k' \<and> kept t k k'"
    using startup_before_start [of k2 t] assms(4) by (auto simp: kept_def)
qed

lemma startup_running:
  assumes "distinct [i, s, m]"
  shows "\<exists>k. rtthread_startup i s (Some m) True boot = Inr k \<and> running i k"
proof -
  let ?k0 = "rt_system_scheduler_init (rt_system_timer_init boot)"
  have b: "object_type (thread ?k0 u) = Class_Null" "current_thread ?k0 = None" for u
    by (simp_all add: boot_def rt_system_timer_init_def rt_system_scheduler_init_def)
  obtain k1 where k1: "bnd (rt_thread_create (Some m) True 10 20 ?k0) (\<lambda>(_, k). rt_thread_startup m k) = Inr k1" "kept m ?k0 k1"
    using init_startup(2) [OF boot_ok b(1), of 10 m 20] b(2) by auto
  have a: "rt_application_init (Some m) True ?k0 = Inr k1"
    using k1(1) init_kept(2) [OF boot_ok b(1), of 10 m 20] by (auto simp: rt_application_init_def)
  obtain k2 where k2: "rt_system_timer_thread_init s k1 = Inr k2" "kept s k1 k2"
    using init_startup(1) [of k1 s 4 10] k1(2) b assms by (auto simp: kept_def rt_system_timer_thread_init_def)
  obtain k3 where k3: "rt_thread_idle_init i k2 = Inr k3" "kept i k2 k3" "stat (thread k3 i) = RT_THREAD_READY"
    using init_startup(1) [of k2 i 31 32] k1(2) k2(2) b assms by (auto simp: kept_def rt_thread_idle_init_def)
  then obtain t where t: "highest_ready k3 = Inr (current_priority (thread k3 t), t)" "top_ready k3 t"
    using highest_ready_ok [of k3 i] by (auto simp: kept_def)
  have "rtthread_startup i s (Some m) True boot = Inr (k3\<lparr>current_thread := Some t\<rparr>)"
    using a k2(1) k3(1) t(1) by (simp add: rtthread_startup_def rt_system_scheduler_start_def)
  then show ?thesis using k3 t(2) by (simp add: running_def kept_def cur_ready_def top_ready_def)
qed

lemma kernel_run_running: "kernel_run i k ops k' \<Longrightarrow> running i k \<Longrightarrow> running i k'"
proof (induction rule: kernel_run.induct)
  case (step ops k1 op k2)
  then show ?case using exec_stepped [of i k1 op] by (auto simp: stepped_def)
qed



section \<open>Sleeping\<close>

abbreviation ticks :: "kop list \<Rightarrow> nat" where
  "ticks ops \<equiv> count_list ops Tick"

lemma sleeping_run:
  assumes "kernel_run i k ops k'" and "running i k" and "stat (thread k t) = RT_THREAD_SUSPEND" "timer_active (thread k t)"
  shows "\<forall>op\<in>set ops. target op \<noteq> Some t \<Longrightarrow> ticks ops < max 1 (rem_ticks k t) \<Longrightarrow>
    thread k' t = thread k t \<and> rem_ticks k' t = rem_ticks k t - ticks ops"
  using assms(1)
proof (induction rule: kernel_run.induct)
  case (step ops k1 op k2)
  then have IH: "thread k1 t = thread k t" "rem_ticks k1 t = rem_ticks k t - ticks ops" by (auto split: if_splits)
  have "running i k1" using kernel_run_running [OF step.hyps(1) assms(2)] .
  from exec_stepped [OF this step.hyps(2)] have s: "stepped i op k1 k2" using step.hyps(3) by auto
  have "target op \<noteq> Some t" using step.prems(1) by simp
  then have th: "thread k2 t = (if op = Tick then tick_thread (rt_tick k1) (thread k1 t) else thread k1 t)"
    using s IH(1) assms(3) by (simp add: stepped_def)
  show ?case
  proof (cases "op = Tick")
    case True
    then have two: "2 \<le> unat (timeout_tick (thread k1 t) - rt_tick k1)" using step.prems(2) IH(2) by (simp add: rem_ticks_def)
    then have "thread k2 t = thread k1 t" using th True by (simp add: tick_thread_def)
    then show ?thesis using next_tick [OF two] s IH True by (simp add: stepped_def rem_ticks_def)
  next
    case False
    then show ?thesis using th s IH by (simp add: stepped_def rem_ticks_def)
  qed
qed simp

text \<open>
  C11. A thread that sleeps for \<open>n\<close> ticks stays suspended, whatever the other threads do, for exactly \<open>n\<close> ticks (one tick if \<open>n\<close> is zero),
  for every value of the tick counter, also when it wraps around: before, it is suspended, and with the last tick it becomes ready
  with the error code of a time-out. Only another thread that names it explicitly (to resume, suspend or close it or to change its priority) is excluded.
\<close>
theorem rt_thread_sleep_exact:
  assumes "running i k" and "current_thread k = Some t" and "t \<noteq> i" and "lock_nest k = 0" and "n < HALF_TICK_MAX"
  shows "\<exists>k0. rt_thread_sleep n k = Inr k0 \<and>
    (\<forall>ops k'. kernel_run i k0 ops k' \<and> (\<forall>op\<in>set ops. target op \<noteq> Some t) \<and> ticks ops < max 1 (unat n) \<longrightarrow>
       stat (thread k' t) = RT_THREAD_SUSPEND \<and>
       (Suc (ticks ops) = max 1 (unat n) \<longrightarrow>
          (\<exists>k''. rt_tick_increase k' = Inr k'' \<and> stat (thread k'' t) = RT_THREAD_READY \<and> error (thread k'' t) = - RT_ETIMEOUT)))"
proof -
  have r: "kernel_ok k" "stat (thread k i) = RT_THREAD_READY" "stat (thread k t) = RT_THREAD_READY" "i \<noteq> t"
    using assms by (auto simp: running_def cur_ready_def)
  obtain k0 where k0: "rt_thread_sleep n k = Inr k0" "rt_tick k0 = rt_tick k"
    "thread k0 = (thread k)(t := (thread k t)\<lparr>stat := RT_THREAD_SUSPEND, timer_init_tick := n, timeout_tick := rt_tick k + n, timer_active := True\<rparr>)"
    using sleep_ok [OF r(1) assms(2) r(3,2,4) assms(5)] by blast
  have run0: "running i k0" using sleep_stepped [OF assms(1) _ assms(4,5), of Yield] assms(2,3) k0(1) by (auto simp: stepped_def)
  have th: "stat (thread k0 t) = RT_THREAD_SUSPEND" "timer_active (thread k0 t)" "rem_ticks k0 t = unat n"
    using k0(2,3) by (simp_all add: rem_ticks_def)
  {
    fix ops k' assume run: "kernel_run i k0 ops k'" "\<forall>op\<in>set ops. target op \<noteq> Some t" "ticks ops < max 1 (unat n)"
    then have t': "thread k' t = thread k0 t" "rem_ticks k' t = unat n - ticks ops" using sleeping_run [OF run(1) run0 th(1,2)] th(3) by auto
    obtain k'' where k'': "rt_tick_increase k' = Inr k''" "current_thread k' \<noteq> Some t \<Longrightarrow> thread k'' t = tick_thread (rt_tick k') (thread k' t)"
      using tick_ok [OF kernel_run_running [OF run(1) run0]] by blast
    have "current_thread k' \<noteq> Some t" using kernel_run_running [OF run(1) run0] t'(1) th(1) by (auto simp: running_def cur_ready_def)
    then have "thread k'' t = (if rem_ticks k' t \<le> 1 then (thread k' t)\<lparr>stat := RT_THREAD_READY, timer_active := False, error := - RT_ETIMEOUT\<rparr> else thread k' t)"
      using k''(2) t'(1) th(2) by (simp add: tick_thread_def rem_ticks_def)
    then have "stat (thread k' t) = RT_THREAD_SUSPEND \<and> (Suc (ticks ops) = max 1 (unat n) \<longrightarrow>
      (\<exists>k''. rt_tick_increase k' = Inr k'' \<and> stat (thread k'' t) = RT_THREAD_READY \<and> error (thread k'' t) = - RT_ETIMEOUT))"
      using k''(1) t' th(1) by auto
  }
  then show ?thesis using k0(1) by blast
qed

definition two_threads :: kernel where
  \<comment> \<open>a state with an idle thread 0 and a running thread 1, two ticks before the tick counter wraps around\<close>
  "two_threads =
     (let th = \<lambda>p. \<lparr>object_type = Class_Static, stat = RT_THREAD_READY, init_priority = p, current_priority = p, number_mask = push_bit p 1,
        init_tick = 20, remaining_tick = 20, error = 0, event_set = 0, event_info = 0, timer_object = True, timer_active = False, timer_init_tick = 0, timeout_tick = 0\<rparr>
      in boot\<lparr>thread := (thread boot)(0 := th 31, 1 := th 10), priority_table := (\<lambda>_. [])(31 := [0], 10 := [1]),
        ready_group := push_bit 31 1 OR push_bit 10 1, current_thread := Some 1, rt_tick := 0xFFFFFFFE\<rparr>)"

lemma two_threads_running: "running 0 two_threads"
proof -
  have "bit (ready_group two_threads) p \<longleftrightarrow> p = 10 \<or> p = 31" if "p < 32" for p
  proof -
    have "ready_group two_threads = push_bit 31 1 OR push_bit 10 1" by (simp add: two_threads_def Let_def)
    then show ?thesis using bit_set_mask [of 10 p "push_bit 31 1"] bit_set_mask [of 31 p 0] that by (auto simp del: push_bit_of_1)
  qed
  then have "ready_ok two_threads" by (auto simp: two_threads_def boot_def ready_ok_def Let_def)
  moreover have "thread_ok (thread two_threads t)" for t
    by (simp add: two_threads_def boot_def thread_ok_def Let_def)
  moreover have "wait_ok two_threads" "timer_ok two_threads" "cur_ready two_threads" "stat (thread two_threads 0) = RT_THREAD_READY"
    by (simp_all add: two_threads_def boot_def wait_ok_def timer_ok_def cur_ready_def Let_def)
  ultimately show ?thesis by (simp add: running_def kernel_ok_def)
qed

lemma two_threads_fields: "current_thread two_threads = Some 1" "lock_nest two_threads = 0"
  by (simp_all add: two_threads_def boot_def Let_def)

theorem rt_thread_sleep_exact_witness:
  "\<exists>k0 k''. rt_thread_sleep 1 two_threads = Inr k0 \<and> stat (thread k0 1) = RT_THREAD_SUSPEND \<and>
     rt_tick_increase k0 = Inr k'' \<and> stat (thread k'' 1) = RT_THREAD_READY \<and> error (thread k'' 1) = - RT_ETIMEOUT"
proof -
  obtain k0 where k0: "rt_thread_sleep 1 two_threads = Inr k0" "\<And>ops k'. kernel_run 0 k0 ops k' \<and> (\<forall>op\<in>set ops. target op \<noteq> Some 1) \<and>
      ticks ops < max 1 (unat (1 :: tick)) \<longrightarrow> stat (thread k' 1) = RT_THREAD_SUSPEND \<and> (Suc (ticks ops) = max 1 (unat (1 :: tick)) \<longrightarrow>
        (\<exists>k''. rt_tick_increase k' = Inr k'' \<and> stat (thread k'' 1) = RT_THREAD_READY \<and> error (thread k'' 1) = - RT_ETIMEOUT))"
    using rt_thread_sleep_exact [OF two_threads_running two_threads_fields(1) _ two_threads_fields(2), of 1] by (auto simp: word_less_nat_alt)
  show ?thesis using k0(1) k0(2) [of "[]" k0] kernel_run.start by auto
qed

lemma tick_from_millisecond:
  assumes "0 \<le> ms" and "ms < 2 ^ 31"
  shows "rt_tick_from_millisecond ms = word_of_int ms"
proof -
  have "(1000 * (ms mod 1000) + 999) div 1000 = ms mod 1000" by simp
  moreover have "(word_of_int (1000 * (ms div 1000)) + word_of_int (ms mod 1000) :: tick) = word_of_int (1000 * (ms div 1000) + ms mod 1000)"
    by (simp only: wi_hom_add)
  ultimately show ?thesis using assms(1) by (simp add: rt_tick_from_millisecond_def)
qed

lemma sleep_too_long:
  assumes "running i k" and "current_thread k = Some t" and "\<not> n < HALF_TICK_MAX"
  shows "rt_thread_sleep n k = Inl Assertion_failed"
proof -
  have st: "kernel_ok k" "stat (thread k t) = RT_THREAD_READY" using assms by (auto simp: running_def cur_ready_def)
  have "timer_object (thread k t)" using kernel_okD(2) [OF st(1), of t] st(2) by (simp add: thread_ok_def)
  then show ?thesis using assms(2,3) running_registered [OF assms(1,2)] suspend_ready [OF st]
    by (simp add: rt_thread_sleep_def RT_ASSERT_def rt_timer_set_time_def rt_timer_start_def timer_remove_def set_thread_def Let_def)
qed

text \<open>
  A delay of \<open>ms\<close> milliseconds is a sleep of \<open>ms\<close> ticks, for every delay up to 24 days; a negative delay and the
  longest one of the type are stopped by the assertion of the timer.
\<close>
theorem rt_thread_mdelay_range:
  assumes "running i k" and "current_thread k = Some t" and "t \<noteq> i" and "lock_nest k = 0" and "ms < 2 ^ 31"
  shows "if 0 \<le> ms \<and> ms < 0x7FFFFFFF
    then rt_thread_mdelay ms k = rt_thread_sleep (word_of_int ms) k \<and> (\<exists>k'. rt_thread_mdelay ms k = Inr k' \<and> running i k')
    else rt_thread_mdelay ms k = Inl Assertion_failed"
proof (cases "0 \<le> ms \<and> ms < 0x7FFFFFFF")
  case True
  then have w: "rt_tick_from_millisecond ms = word_of_int ms" using tick_from_millisecond by simp
  have "(word_of_int ms :: tick) < HALF_TICK_MAX" using True by (simp add: word_less_def unsigned_of_int take_bit_int_eq_self)
  then show ?thesis using True w sleep_stepped [OF assms(1) _ assms(4), of "word_of_int ms" Yield] assms(2,3)
    by (auto simp: rt_thread_mdelay_def stepped_def)
next
  case False
  have "\<not> rt_tick_from_millisecond ms < HALF_TICK_MAX"
  proof (cases "ms < 0")
    case False
    then have "ms = 0x7FFFFFFF" using \<open>\<not> (0 \<le> ms \<and> ms < 0x7FFFFFFF)\<close> assms(5) by simp
    then show ?thesis by (simp add: tick_from_millisecond)
  qed (simp add: rt_tick_from_millisecond_def)
  then show ?thesis using False sleep_too_long [OF assms(1,2)] by (simp add: rt_thread_mdelay_def)
qed

theorem rt_thread_mdelay_range_witness:
  "rt_thread_mdelay 1000 two_threads = rt_thread_sleep 1000 two_threads \<and> rt_thread_mdelay (- 1) two_threads = Inl Assertion_failed"
  using rt_thread_mdelay_range [OF two_threads_running two_threads_fields(1) _ two_threads_fields(2), of 1000]
    rt_thread_mdelay_range [OF two_threads_running two_threads_fields(1) _ two_threads_fields(2), of "- 1"] by simp

text \<open>
  C24. The scheduler selects by priority: with the scheduler unlocked, the thread that runs after \<open>rt_schedule\<close> is ready, no ready
  thread has a higher priority, and it is the one of its priority that became ready first. With the scheduler locked the current thread goes on.
\<close>
theorem rt_schedule_highest:
  assumes "kernel_ok k" and "stat (thread k u) = RT_THREAD_READY"
  shows "\<exists>k'. rt_schedule k = Inr k' \<and> kernel_ok k' \<and> thread k' = thread k \<and>
    (if lock_nest k = 0
     then \<exists>t. current_thread k' = Some t \<and> stat (thread k t) = RT_THREAD_READY \<and>
       (\<forall>v. stat (thread k v) = RT_THREAD_READY \<longrightarrow> current_priority (thread k t) \<le> current_priority (thread k v)) \<and>
       hd (priority_table k (current_priority (thread k t))) = t
     else current_thread k' = current_thread k)"
  using schedule_ok [OF assms] assms(1) by (auto simp: top_ready_def split: if_splits)

theorem rt_schedule_highest_witness: "\<exists>k'. rt_schedule two_threads = Inr k' \<and> kernel_ok k'"
  using rt_schedule_highest [of two_threads 0] two_threads_running by (auto simp: running_def)

end
