(* ===== verification/Ipc.thy ===== *)
theory Ipc
  imports Kernel_Run
begin

text \<open>
  Waiting and waking in \<^verbatim>\<open>src/rt-thread/src/ipc.c\<close>: the suspend lists of the IPC objects, and the semaphore.

  An IPC object has the number of its suspend list in the kernel. An operation that may block ends either with
  a result (\<open>Done\<close>) or with the switch to another thread (\<open>Blocked\<close>); what the blocked thread does when it runs again is a definition of its
  own (\<open>_return\<close>). A negative time means to wait for ever.
\<close>

section \<open>Suspend lists\<close>

datatype ipc_flag = RT_IPC_FLAG_FIFO | RT_IPC_FLAG_PRIO

datatype outcome = Done int | Blocked

fun prio_insert :: "(nat \<Rightarrow> nat) \<Rightarrow> nat \<Rightarrow> nat list \<Rightarrow> nat list" where
  "prio_insert f t [] = [t]"
| "prio_insert f t (x # xs) = (if f t < f x then t # x # xs else x # prio_insert f t xs)"

definition queue_thread :: "ipc_flag \<Rightarrow> (nat \<Rightarrow> rt_thread) \<Rightarrow> nat \<Rightarrow> nat list \<Rightarrow> nat list" where
  "queue_thread flag th t l = (case flag of RT_IPC_FLAG_FIFO \<Rightarrow> l @ [t] | RT_IPC_FLAG_PRIO \<Rightarrow> prio_insert (\<lambda>u. current_priority (th u)) t l)"

definition rt_ipc_list_suspend :: "nat \<Rightarrow> nat \<Rightarrow> ipc_flag \<Rightarrow> kernel \<Rightarrow> kernel res" where
  "rt_ipc_list_suspend q t flag k =
     bnd (rt_thread_suspend t k) (\<lambda>(_, k).
     Inr (k\<lparr>waiting := (waiting k)(q := queue_thread flag (thread k) t (waiting k q))\<rparr>))"

definition rt_ipc_list_resume :: "nat \<Rightarrow> kernel \<Rightarrow> kernel res" where
  "rt_ipc_list_resume q k =
     (case waiting k q of [] \<Rightarrow> Inl Out_of_bounds | t # _ \<Rightarrow> bnd (rt_thread_resume t k) (\<lambda>(_, k). Inr k))"

fun resume_all :: "nat \<Rightarrow> nat \<Rightarrow> kernel \<Rightarrow> kernel res" where
  \<comment> \<open>the loop of \<open>rt_ipc_list_resume_all\<close>; a round that does not shorten the list would be repeated for ever\<close>
  "resume_all 0 q k = Inl Diverges"
| "resume_all (Suc n) q k =
     (case waiting k q of
        [] \<Rightarrow> Inr k
      | t # _ \<Rightarrow> bnd (rt_thread_resume t (set_thread t (\<lambda>th. th\<lparr>error := - RT_ERROR\<rparr>) k)) (\<lambda>(_, k). resume_all n q k))"

definition rt_ipc_list_resume_all :: "nat \<Rightarrow> kernel \<Rightarrow> kernel res" where
  "rt_ipc_list_resume_all q k = resume_all (Suc (length (waiting k q))) q k"

definition wait_on :: "nat \<Rightarrow> ipc_flag \<Rightarrow> nat \<Rightarrow> int \<Rightarrow> kernel \<Rightarrow> kernel res" where
  \<comment> \<open>the steps all blocking operations share: join the list, start the timer if there is a time limit, switch\<close>
  "wait_on q flag t time k =
     bnd (rt_ipc_list_suspend q t flag k) (\<lambda>k.
     bnd (if time > 0 then bnd (rt_timer_set_time t (word_of_int time) k) (rt_timer_start t) else Inr k) rt_schedule)"

section \<open>Semaphores\<close>

record rt_semaphore =
  sem_class :: object_class
  sem_value :: "16 word"
  sem_list :: nat
  sem_flag :: ipc_flag

abbreviation RT_SEM_VALUE_MAX :: "16 word" where "RT_SEM_VALUE_MAX \<equiv> 0xFFFF"

definition rt_sem_init :: "nat \<Rightarrow> nat \<Rightarrow> ipc_flag \<Rightarrow> rt_semaphore \<Rightarrow> kernel \<Rightarrow> (rt_semaphore \<times> kernel) res" where
  \<comment> \<open>\<open>rt_object_init\<close> asserts that the object is not registered; \<open>q\<close> is the number of its list\<close>
  "rt_sem_init q value flag sem k =
     bnd (RT_ASSERT (value < 0x10000)) (\<lambda>_.
     bnd (RT_ASSERT (sem_class sem = Class_Null)) (\<lambda>_.
     Inr (\<lparr>sem_class = Class_Static, sem_value = word_of_nat value, sem_list = q, sem_flag = flag\<rparr>, k\<lparr>waiting := (waiting k)(q := [])\<rparr>)))"

definition rt_sem_create :: "rt_semaphore option \<Rightarrow> nat \<Rightarrow> nat \<Rightarrow> ipc_flag \<Rightarrow> kernel \<Rightarrow> (rt_semaphore option \<times> kernel) res" where
  \<comment> \<open>\<open>alloc\<close> is the object \<open>rt_object_allocate\<close> returns\<close>
  "rt_sem_create alloc q value flag k =
     bnd (RT_ASSERT (value < 0x10000)) (\<lambda>_.
     Inr (case alloc of None \<Rightarrow> (None, k)
          | Some sem \<Rightarrow> (Some \<lparr>sem_class = Class_Dynamic, sem_value = word_of_nat value, sem_list = q, sem_flag = flag\<rparr>, k\<lparr>waiting := (waiting k)(q := [])\<rparr>)))"

definition rt_sem_detach :: "rt_semaphore \<Rightarrow> kernel \<Rightarrow> (rt_semaphore \<times> kernel) res" where
  "rt_sem_detach sem k =
     bnd (RT_ASSERT (sem_class sem = Class_Static)) (\<lambda>_.
     bnd (rt_ipc_list_resume_all (sem_list sem) k) (\<lambda>k. Inr (sem\<lparr>sem_class := Class_Null\<rparr>, k)))"

definition rt_sem_delete :: "rt_semaphore \<Rightarrow> kernel \<Rightarrow> (rt_semaphore \<times> kernel) res" where
  "rt_sem_delete sem k =
     bnd (RT_ASSERT (sem_class sem = Class_Dynamic)) (\<lambda>_.
     bnd (rt_ipc_list_resume_all (sem_list sem) k) (\<lambda>k. Inr (sem\<lparr>sem_class := Class_Null\<rparr>, k)))"

definition rt_sem_take :: "rt_semaphore \<Rightarrow> int \<Rightarrow> kernel \<Rightarrow> (outcome \<times> rt_semaphore \<times> kernel) res" where
  "rt_sem_take sem time k =
     bnd (RT_ASSERT (sem_class sem \<noteq> Class_Null)) (\<lambda>_.
     if sem_value sem > 0 then Inr (Done RT_EOK, sem\<lparr>sem_value := sem_value sem - 1\<rparr>, k)
     else if time = 0 then Inr (Done (- RT_ETIMEOUT), sem, k)
     else case current_thread k of
            None \<Rightarrow> Inl Assertion_failed
          | Some t \<Rightarrow>
              bnd (wait_on (sem_list sem) (sem_flag sem) t time (set_thread t (\<lambda>th. th\<lparr>error := RT_EOK\<rparr>) k)) (\<lambda>k.
              Inr (Blocked, sem, k)))"

definition sem_take_return :: "nat \<Rightarrow> kernel \<Rightarrow> int" where
  \<comment> \<open>the result of \<open>rt_sem_take\<close> when the thread \<open>t\<close> that was blocked runs again\<close>
  "sem_take_return t k = (if error (thread k t) \<noteq> RT_EOK then error (thread k t) else RT_EOK)"

definition rt_sem_trytake :: "rt_semaphore \<Rightarrow> kernel \<Rightarrow> (outcome \<times> rt_semaphore \<times> kernel) res" where
  "rt_sem_trytake sem k = rt_sem_take sem 0 k"

definition rt_sem_release :: "rt_semaphore \<Rightarrow> kernel \<Rightarrow> (int \<times> rt_semaphore \<times> kernel) res" where
  "rt_sem_release sem k =
     bnd (RT_ASSERT (sem_class sem \<noteq> Class_Null)) (\<lambda>_.
     if waiting k (sem_list sem) \<noteq> []
     then bnd (rt_ipc_list_resume (sem_list sem) k) (\<lambda>k. bnd (rt_schedule k) (\<lambda>k. Inr (RT_EOK, sem, k)))
     else if sem_value sem < RT_SEM_VALUE_MAX then Inr (RT_EOK, sem\<lparr>sem_value := sem_value sem + 1\<rparr>, k)
     else Inr (- RT_EFULL, sem, k))"

definition rt_sem_reset :: "32 word \<Rightarrow> rt_semaphore \<Rightarrow> kernel \<Rightarrow> (int \<times> rt_semaphore \<times> kernel) res" where
  \<comment> \<open>\<open>rt_sem_control\<close> with \<open>RT_IPC_CMD_RESET\<close>\<close>
  "rt_sem_reset value sem k =
     bnd (RT_ASSERT (sem_class sem \<noteq> Class_Null)) (\<lambda>_.
     bnd (rt_ipc_list_resume_all (sem_list sem) k) (\<lambda>k.
     bnd (rt_schedule k) (\<lambda>k. Inr (RT_EOK, sem\<lparr>sem_value := ucast value\<rparr>, k))))"

section \<open>Joining a suspend list\<close>

lemma prio_insert_set: "set (prio_insert f t l) = insert t (set l)"
  by (induction l) auto

lemma prio_insert_distinct: "distinct l \<Longrightarrow> t \<notin> set l \<Longrightarrow> distinct (prio_insert f t l)"
  by (induction l) (auto simp: prio_insert_set)

lemma queue_thread_set [simp]: "set (queue_thread flag th t l) = insert t (set l)"
  by (auto simp: queue_thread_def prio_insert_set split: ipc_flag.split)

lemma queue_thread_distinct: "distinct l \<Longrightarrow> t \<notin> set l \<Longrightarrow> distinct (queue_thread flag th t l)"
  by (auto simp: queue_thread_def prio_insert_distinct split: ipc_flag.split)

lemma join_list_ok:
  assumes "kernel_ok k" and "stat (thread k t) = RT_THREAD_SUSPEND" and "\<And>r. t \<notin> set (waiting k r)"
    and "distinct l" and "set l = insert t (set (waiting k q))"
  shows "kernel_ok (k\<lparr>waiting := (waiting k)(q := l)\<rparr>)"
proof -
  have "wait_ok (k\<lparr>waiting := (waiting k)(q := l)\<rparr>)"
    using kernel_okD(3) [OF assms(1)] assms(2-5) by (auto simp: wait_ok_def) blast+
  then show ?thesis using assms(1) by (simp add: kernel_ok_def ready_ok_def timer_ok_def rem_ticks_def)
qed

lemma timer_waiting: "rt_timer_set_time t n k = Inr k' \<Longrightarrow> waiting k' = waiting k" "rt_timer_start t k = Inr k' \<Longrightarrow> waiting k' = waiting k"
  by (auto simp: rt_timer_set_time_def rt_timer_start_def RT_ASSERT_def timer_remove_def set_thread_def Let_def split: if_splits)

lemma schedule_waiting: "rt_schedule k = Inr k' \<Longrightarrow> waiting k' = waiting k"
  by (auto simp: rt_schedule_def bnd_eq_Inr split: if_splits)

lemma schedule_run:
  assumes "kernel_ok k" and "stat (thread k i) = RT_THREAD_READY" and "lock_nest k = 0 \<or> cur_ready k"
  shows "\<exists>k'. rt_schedule k = Inr k' \<and> running i k' \<and> thread k' = thread k \<and> waiting k' = waiting k \<and> rt_tick k' = rt_tick k \<and>
    lock_nest k' = lock_nest k"
proof -
  obtain k' where k': "rt_schedule k = Inr k'" "kernel_ok (k'\<lparr>rt_tick := rt_tick k\<rparr>)" "cur_ready k'" "thread k' = thread k"
    "rt_tick k' = rt_tick k" "lock_nest k' = lock_nest k"
    using schedule_running [where k = k and T = "rt_tick k" and i = i] assms by auto
  have "kernel_ok k'" using k'(2) unfolding k'(5) [symmetric] by simp
  then show ?thesis using k' assms(2) schedule_waiting [OF k'(1)] by (simp add: running_def)
qed

lemma set_error_running [simp]: "running i (set_thread t (\<lambda>th. th\<lparr>error := e\<rparr>) k) = running i k"
proof -
  have "stat (thread (set_thread t (\<lambda>th. th\<lparr>error := e\<rparr>) k) u) = stat (thread k u)" for u by (simp add: set_thread_def)
  then show ?thesis by (simp add: running_def cur_ready_def split: option.split)
qed

definition wait_info :: "rt_thread \<Rightarrow> int \<times> 32 word \<times> 8 word" where
  \<comment> \<open>what a waiting thread keeps for its return\<close>
  "wait_info th = (error th, event_set th, event_info th)"

lemma schedule_again:
  assumes "running i k"
  shows "\<exists>k'. rt_schedule k = Inr k' \<and> running i k' \<and> thread k' = thread k \<and> waiting k' = waiting k"
proof -
  have "kernel_ok k" "stat (thread k i) = RT_THREAD_READY" "cur_ready k" using assms by (simp_all add: running_def)
  then show ?thesis using schedule_run by blast
qed

text \<open>The current thread has joined a list at some place; then its timer is started and another thread is selected.\<close>

lemma wait_joined:
  assumes "running i k" and "current_thread k = Some t" and "t \<noteq> i" and "lock_nest k = 0" and "time < 0x7FFFFFFF"
    and "distinct l" and "set l = insert t (set (waiting k q))"
  defines "k1 \<equiv> (suspended t k)\<lparr>waiting := (waiting k)(q := l)\<rparr>"
  shows "\<exists>k'. bnd (if time > 0 then bnd (rt_timer_set_time t (word_of_int time) k1) (rt_timer_start t) else Inr k1) rt_schedule = Inr k' \<and>
    running i k' \<and> rt_tick k' = rt_tick k \<and> lock_nest k' = 0 \<and>
    waiting k' = (waiting k)(q := l) \<and> stat (thread k' t) = RT_THREAD_SUSPEND \<and>
    wait_info (thread k' t) = wait_info (thread k t) \<and> current_priority (thread k' t) = current_priority (thread k t) \<and> (\<forall>u. u \<noteq> t \<longrightarrow> thread k' u = thread k u)"
proof -
  let ?w = "(waiting k)(q := l)"
  have r: "kernel_ok k" "stat (thread k i) = RT_THREAD_READY" "stat (thread k t) = RT_THREAD_READY"
    using assms by (auto simp: running_def cur_ready_def)
  have th: "\<not> timer_active (thread k t)" "\<And>r. t \<notin> set (waiting k r)"
    using kernel_okD(2) [OF r(1), of t] kernel_okD(3) [OF r(1)] r(3) by (auto simp: thread_ok_def wait_ok_def)
  let ?k1 = "(suspended t k)\<lparr>waiting := ?w\<rparr>"
  have k1: "kernel_ok ?k1"
    using join_list_ok [OF suspended_ok [OF r(1,3)], of t l q] th(2) assms(6,7) by simp
  have st: "stat (thread ?k1 t) = RT_THREAD_SUSPEND" "\<not> timer_active (thread ?k1 t)" using th(1) by simp_all
  obtain k2 where k2: "(if time > 0 then bnd (rt_timer_set_time t (word_of_int time) ?k1) (rt_timer_start t) else Inr ?k1) = Inr k2"
    "kernel_ok k2" "rt_tick k2 = rt_tick k" "lock_nest k2 = 0" "waiting k2 = ?w" "stat (thread k2 t) = RT_THREAD_SUSPEND"
    "wait_info (thread k2 t) = wait_info (thread k t)" "current_priority (thread k2 t) = current_priority (thread k t)" "\<And>u. u \<noteq> t \<Longrightarrow> thread k2 u = thread k u"
  proof (cases "time > 0")
    case True
    then have "(word_of_int time :: tick) < HALF_TICK_MAX" using assms(5) by (simp add: word_less_def unsigned_of_int take_bit_int_eq_self)
    from start_timer [OF k1 st this] obtain k2 where k2: "bnd (rt_timer_set_time t (word_of_int time) ?k1) (rt_timer_start t) = Inr k2"
      "kernel_ok k2" and e: "k2 = ?k1\<lparr>thread := (thread ?k1)(t := (thread ?k1 t)\<lparr>timer_init_tick := word_of_int time,
        timeout_tick := rt_tick ?k1 + word_of_int time, timer_active := True\<rparr>), timer_list := timer_list k2\<rparr>" by blast
    show ?thesis by (rule that [of k2]) (use True k2 in simp, rule k2(2), (subst e, simp add: assms(4) wait_info_def)+)
  next
    case False
    then show ?thesis using that [of ?k1] k1 assms(4) by (simp add: wait_info_def)
  qed
  have "stat (thread k2 i) = RT_THREAD_READY" using k2(9) [of i] r(2) assms(3) by simp
  then obtain k3 where k3: "rt_schedule k2 = Inr k3" "running i k3" "thread k3 = thread k2" "waiting k3 = waiting k2"
    "rt_tick k3 = rt_tick k2" "lock_nest k3 = lock_nest k2" using schedule_run [OF k2(2)] k2(4) by blast
  then show ?thesis using k2 k3 unfolding k1_def by (intro exI [of _ k3]) auto
qed

lemma wait_on_ok:
  assumes "running i k" and "current_thread k = Some t" and "t \<noteq> i" and "lock_nest k = 0" and "time < 0x7FFFFFFF"
  shows "\<exists>k'. wait_on q flag t time k = Inr k' \<and> running i k' \<and> rt_tick k' = rt_tick k \<and> lock_nest k' = 0 \<and>
    waiting k' = (waiting k)(q := queue_thread flag (thread k) t (waiting k q)) \<and> stat (thread k' t) = RT_THREAD_SUSPEND \<and>
    wait_info (thread k' t) = wait_info (thread k t) \<and> current_priority (thread k' t) = current_priority (thread k t) \<and> (\<forall>u. u \<noteq> t \<longrightarrow> thread k' u = thread k u)"
proof -
  have r: "kernel_ok k" "stat (thread k t) = RT_THREAD_READY" using assms by (auto simp: running_def cur_ready_def)
  have "t \<notin> set (waiting k q)" "distinct (waiting k q)"
    using kernel_okD(3) [OF r(1)] r(2) by (auto simp: wait_ok_def)
  then have d: "distinct (queue_thread flag (thread k) t (waiting k q))" by (simp add: queue_thread_distinct)
  have "queue_thread flag (thread (suspended t k)) t l = queue_thread flag (thread k) t l" for l
    by (auto simp: queue_thread_def split: ipc_flag.split) (rule arg_cong [of _ _ "\<lambda>f. prio_insert f t l"], auto)
  then have "rt_ipc_list_suspend q t flag k = Inr ((suspended t k)\<lparr>waiting := (waiting k)(q := queue_thread flag (thread k) t (waiting k q))\<rparr>)"
    using suspend_ready [OF r] by (simp add: rt_ipc_list_suspend_def)
  then show ?thesis using wait_joined [OF assms d queue_thread_set] by (simp add: wait_on_def)
qed

section \<open>Waking\<close>

lemma resume_first:
  assumes "kernel_ok k" and "waiting k q = t # ts"
  shows "rt_ipc_list_resume q k = Inr (readied t k)" and "kernel_ok (readied t k)" and "waiting (readied t k) q = ts"
    and "stat (thread k t) = RT_THREAD_SUSPEND"
proof -
  have "t \<in> set (waiting k q)" using assms(2) by simp
  then show st: "stat (thread k t) = RT_THREAD_SUSPEND" using kernel_okD(3) [OF assms(1)] unfolding wait_ok_def by blast
  show "rt_ipc_list_resume q k = Inr (readied t k)" using resume_suspended [OF assms(1) st] assms(2) by (simp add: rt_ipc_list_resume_def)
  show "kernel_ok (readied t k)" by (rule readied_ok [OF assms(1) st])
  have "distinct (t # ts)" using kernel_okD(3) [OF assms(1)] assms(2) unfolding wait_ok_def by metis
  then show "waiting (readied t k) q = ts" using assms(2) by (simp add: readied_def Let_def removeAll_id)
qed

lemma readied_running:
  assumes "running i k" and "waiting k q = t # ts"
  shows "running i (readied t k)"
proof -
  note r = resume_first [OF _ assms(2)]
  show ?thesis using assms r(2,4) by (auto simp: running_def cur_ready_def split: option.splits)
qed

lemma wake_first:
  assumes "running i k" and "waiting k q = t # ts"
  shows "\<exists>k'. bnd (rt_ipc_list_resume q k) rt_schedule = Inr k' \<and> running i k' \<and> thread k' = thread (readied t k) \<and>
    waiting k' = waiting (readied t k) \<and> rt_tick k' = rt_tick k \<and> lock_nest k' = lock_nest k"
proof -
  have k: "kernel_ok k" using assms(1) by (simp add: running_def)
  note r = resume_first [OF k assms(2)]
  have run: "running i (readied t k)" by (rule readied_running [OF assms])
  then show ?thesis using schedule_run [of "readied t k" i] r(1) by (auto simp: running_def simp del: readied_fields(1))
qed

lemma resume_all_ok:
  "kernel_ok k \<Longrightarrow> length (waiting k q) < n \<Longrightarrow> \<exists>k'. resume_all n q k = Inr k' \<and> kernel_ok k' \<and> waiting k' q = [] \<and>
     (\<forall>u. if u \<in> set (waiting k q) then stat (thread k' u) = RT_THREAD_READY \<and> error (thread k' u) = - RT_ERROR else thread k' u = thread k u) \<and>
     rt_tick k' = rt_tick k \<and> lock_nest k' = lock_nest k \<and> current_thread k' = current_thread k"
proof (induction n arbitrary: k)
  case (Suc n)
  show ?case
  proof (cases "waiting k q")
    case Nil
    then show ?thesis using Suc.prems(1) by simp
  next
    case (Cons t ts)
    let ?k = "set_thread t (\<lambda>th. th\<lparr>error := - RT_ERROR\<rparr>) k"
    have ok: "kernel_ok ?k" "waiting ?k q = t # ts" using Suc.prems(1) Cons by simp_all
    note r = resume_first [OF ok]
    have res: "rt_thread_resume t ?k = Inr (RT_EOK, readied t ?k)" using resume_suspended [OF ok(1) r(4)] .
    have "length (waiting (readied t ?k) q) < n" using r(3) Suc.prems(2) Cons by simp
    from Suc.IH [OF r(2) this] obtain k' where k': "resume_all n q (readied t ?k) = Inr k'" "kernel_ok k'" "waiting k' q = []"
      "\<And>u. if u \<in> set ts then stat (thread k' u) = RT_THREAD_READY \<and> error (thread k' u) = - RT_ERROR else thread k' u = thread (readied t ?k) u"
      "rt_tick k' = rt_tick k" "lock_nest k' = lock_nest k" "current_thread k' = current_thread k" using r(3) by auto
    have "if u \<in> set (waiting k q) then stat (thread k' u) = RT_THREAD_READY \<and> error (thread k' u) = - RT_ERROR else thread k' u = thread k u" for u
      using k'(4) [of u] Cons by (auto simp: set_thread_def split: if_splits)
    then show ?thesis using k' res Cons by simp
  qed
qed simp

lemma resume_all_list:
  assumes "running i k"
  shows "\<exists>k'. rt_ipc_list_resume_all q k = Inr k' \<and> running i k' \<and> waiting k' q = [] \<and>
    (\<forall>u\<in>set (waiting k q). stat (thread k' u) = RT_THREAD_READY \<and> error (thread k' u) = - RT_ERROR)"
proof -
  obtain k' where k': "rt_ipc_list_resume_all q k = Inr k'" "kernel_ok k'" "waiting k' q = []" "current_thread k' = current_thread k"
    "\<And>u. if u \<in> set (waiting k q) then stat (thread k' u) = RT_THREAD_READY \<and> error (thread k' u) = - RT_ERROR else thread k' u = thread k u"
    using resume_all_ok [of k q "Suc (length (waiting k q))"] assms by (auto simp: rt_ipc_list_resume_all_def running_def simp del: resume_all.simps)
  have st: "stat (thread k' u) = RT_THREAD_READY" if "stat (thread k u) = RT_THREAD_READY" for u using k'(5) [of u] that by (auto split: if_splits)
  have "running i k'" using assms k'(2,4) st by (auto simp: running_def cur_ready_def split: option.splits)
  then show ?thesis using k' by (metis (full_types))
qed

section \<open>Kernel operations and suspend lists\<close>

definition shrunk :: "kernel \<Rightarrow> kernel \<Rightarrow> bool" where
  \<comment> \<open>threads may have left the suspend lists, nothing else changed there\<close>
  "shrunk k k' \<longleftrightarrow> (\<exists>P. \<forall>q. waiting k' q = filter P (waiting k q))"

lemma shrunk_refl: "waiting k' = waiting k \<Longrightarrow> shrunk k k'"
  unfolding shrunk_def by (rule exI [of _ "\<lambda>_. True"]) simp

lemma filter_self [simp]: "\<exists>P. \<forall>q. f q = filter P (f q)"
  by (rule exI [of _ "\<lambda>_. True"]) simp

lemma shrunk_remove: "waiting k' = (\<lambda>q. removeAll t (waiting k q)) \<Longrightarrow> shrunk k k'"
  unfolding shrunk_def by (rule exI [of _ "\<lambda>u. t \<noteq> u"]) (simp add: removeAll_filter_not_eq)

lemma shrunk_trans: "shrunk k k1 \<Longrightarrow> shrunk k1 k2 \<Longrightarrow> shrunk k k2"
  unfolding shrunk_def by (elim exE, rule_tac x = "\<lambda>u. P u \<and> Pa u" in exI) (simp add: conj_commute)

lemma shrunk_subset: "shrunk k k' \<Longrightarrow> set (waiting k' q) \<subseteq> set (waiting k q)"
  by (auto simp: shrunk_def)

lemma set_thread_waiting [simp]: "waiting (rt_schedule_insert_thread t k) = waiting k" "waiting (timer_remove t k) = waiting k"
  "waiting (unlink t k) = (\<lambda>q. removeAll t (waiting k q))" "waiting (rt_schedule_remove_thread t k) = (\<lambda>q. removeAll t (waiting k q))"
  by (simp_all add: rt_schedule_insert_thread_def rt_schedule_remove_thread_def timer_remove_def unlink_def set_thread_def Let_def)

lemma close_waiting: "close_thread t k = Inr k' \<Longrightarrow> waiting k' = waiting k"
  by (auto simp: close_thread_def rt_timer_detach_def RT_ASSERT_def Let_def bnd_eq_Inr split: if_splits)

lemma suspend_shrunk: "rt_thread_suspend t k = Inr (r, k') \<Longrightarrow> shrunk k k'"
  by (auto simp: rt_thread_suspend_def rt_timer_stop_def RT_ASSERT_def Let_def bnd_eq_Inr split: if_splits intro: shrunk_refl shrunk_remove)

lemma resume_shrunk: "rt_thread_resume t k = Inr (r, k') \<Longrightarrow> shrunk k k'"
  by (auto simp: rt_thread_resume_def rt_timer_stop_def RT_ASSERT_def Let_def bnd_eq_Inr split: if_splits intro: shrunk_refl shrunk_remove)

lemma timeout_shrunk: "rt_thread_timeout t k = Inr k' \<Longrightarrow> shrunk k k'"
  by (auto simp: rt_thread_timeout_def RT_ASSERT_def bnd_eq_Inr dest!: schedule_waiting split: if_splits intro: shrunk_remove)

lemma yield_shrunk: "rt_thread_yield k = Inr k' \<Longrightarrow> shrunk k k'"
  by (auto simp: rt_thread_yield_def Let_def dest!: schedule_waiting split: if_splits option.splits intro: shrunk_refl shrunk_remove)

lemma timer_check_shrunk: "rt_timer_check k = Inr k' \<Longrightarrow> shrunk k k'"
proof (induction k arbitrary: k' rule: rt_timer_check.induct)
  case (1 k)
  show ?case
  proof (cases "timer_list k = [] \<or> \<not> rt_tick k - timeout_tick (thread k (hd (timer_list k))) < HALF_TICK_MAX")
    case True
    then show ?thesis using 1(2) by (auto simp: rt_timer_check.simps [of k] split: list.splits if_splits intro: shrunk_refl)
  next
    case False
    then obtain t ts where t: "timer_list k = t # ts" "rt_tick k - timeout_tick (thread k t) < HALF_TICK_MAX" by (cases "timer_list k") auto
    let ?k = "set_thread t (\<lambda>th. th\<lparr>timer_active := False\<rparr>) (k\<lparr>timer_list := ts\<rparr>)"
    obtain k1 where k1: "rt_thread_timeout t ?k = Inr k1" "rt_timer_check k1 = Inr k'"
      using 1(2) t by (auto simp: rt_timer_check.simps [of k] bnd_eq_Inr)
    have "shrunk k ?k" by (rule shrunk_refl) simp
    then show ?thesis using timeout_shrunk [OF k1(1)] 1(1) [OF t k1] shrunk_trans by blast
  qed
qed

lemma idle_shrunk: "shrunk k (rt_thread_idle_excute k)"
proof (induction k rule: rt_thread_idle_excute.induct)
  case (1 k)
  show ?case
  proof (cases "defunct k")
    case (Cons t ts)
    have "shrunk k (set_thread t (\<lambda>th. th\<lparr>object_type := Class_Null\<rparr>) (unlink t k))" by (rule shrunk_remove) simp
    then show ?thesis using 1 [OF Cons] Cons shrunk_trans by (simp add: rt_thread_idle_excute.simps [of k])
  qed (simp add: rt_thread_idle_excute.simps [of k] shrunk_refl)
qed

lemma sleep_shrunk: "rt_thread_sleep n k = Inr k' \<Longrightarrow> shrunk k k'"
  by (auto simp: rt_thread_sleep_def bnd_eq_Inr split: option.splits
      dest!: schedule_waiting timer_waiting suspend_shrunk simp: shrunk_def)

lemma startup_shrunk: "rt_thread_startup t k = Inr k' \<Longrightarrow> shrunk k k'"
  by (auto simp: rt_thread_startup_def bnd_eq_Inr Let_def split: if_splits dest!: schedule_waiting resume_shrunk simp: shrunk_def)

lemma control_shrunk: "rt_thread_control t cmd k = Inr k' \<Longrightarrow> shrunk k k'"
  by (auto simp: rt_thread_control_def rt_thread_detach_def rt_thread_delete_def rt_thread_change_priority_def RT_ASSERT_def
      bnd_eq_Inr Let_def split: thread_ctrl.splits if_splits dest!: startup_shrunk close_waiting intro: shrunk_refl shrunk_remove)

lemma tick_shrunk: "rt_tick_increase k = Inr k' \<Longrightarrow> shrunk k k'"
proof -
  assume a: "rt_tick_increase k = Inr k'"
  obtain t where t: "current_thread k = Some t" using a by (auto simp: rt_tick_increase_def split: option.splits)
  obtain k1 where k1: "rt_timer_check k1 = Inr k'" "shrunk k k1"
    using a t by (auto simp: rt_tick_increase_def Let_def bnd_eq_Inr split: if_splits intro: shrunk_refl dest!: yield_shrunk simp: shrunk_def)
  then show ?thesis using timer_check_shrunk shrunk_trans by blast
qed

lemma exec_shrunk: "exec op k = Inr k' \<Longrightarrow> shrunk k k'"
proof (cases op)
  case (Delay_Until tick inc)
  assume "exec op k = Inr k'"
  then show ?thesis using Delay_Until
    by (auto simp: rt_thread_delay_until_def bnd_eq_Inr Let_def split: option.splits if_splits
        dest!: schedule_waiting timer_waiting suspend_shrunk intro: shrunk_refl simp: shrunk_def)
next
  case Exit
  assume "exec op k = Inr k'"
  then show ?thesis using Exit
    by (auto simp: rt_thread_exit_def bnd_eq_Inr split: option.splits dest!: schedule_waiting close_waiting intro: shrunk_remove)
next
  case Exit_Critical
  assume "exec op k = Inr k'"
  then show ?thesis using Exit_Critical
    by (auto simp: rt_exit_critical_def Let_def split: if_splits dest!: schedule_waiting intro: shrunk_refl)
qed (auto simp: bnd_eq_Inr rt_thread_init_def rt_thread_create_def thread_init_def RT_ASSERT_def rt_enter_critical_def Let_def
    split: if_splits dest!: schedule_waiting tick_shrunk sleep_shrunk yield_shrunk suspend_shrunk resume_shrunk startup_shrunk control_shrunk
    intro: shrunk_refl idle_shrunk)

lemma exec_info:
  assumes "running i k" and "allowed i op k" and "exec op k = Inr k'" and "stat (thread k u) = RT_THREAD_SUSPEND"
    and "stat (thread k' u) = RT_THREAD_SUSPEND"
  shows "wait_info (thread k' u) = wait_info (thread k u)"
proof -
  have s: "stepped i op k k'" using exec_stepped [OF assms(1,2)] assms(3) by auto
  have ok: "kernel_ok k" using assms(1) by (simp add: running_def)
  have null: "object_type (thread k u) \<noteq> Class_Null" using null_stat(2) [OF ok] assms(4) by blast
  show ?thesis
  proof (cases "target op = Some u")
    case False
    then show ?thesis using s assms(4,5) by (auto simp: stepped_def tick_thread_def split: if_splits)
  next
    case True
    then show ?thesis
    proof (cases op)
      case (Priority t p)
      then show ?thesis using True assms(3,4) null
        by (auto simp: rt_thread_control_def rt_thread_change_priority_def RT_ASSERT_def set_thread_def wait_info_def Let_def)
    next
      case (Resume t)
      then show ?thesis using True assms(3-5) resume_suspended [OF ok, of t] by auto
    next
      case (Close t)
      then obtain k1 where "kernel_ok k'" "close_thread u (rt_schedule_remove_thread u k) = Inr k'"
        using True assms(3,4) null detach_kept [OF ok null]
        by (cases "object_type (thread k u)") (auto simp: rt_thread_control_def rt_thread_detach_def rt_thread_delete_def RT_ASSERT_def kept_def)
      then show ?thesis using assms(5)
        by (auto simp: close_thread_def rt_timer_detach_def RT_ASSERT_def set_thread_def bnd_eq_Inr Let_def split: if_splits)
    qed (use assms null in \<open>auto simp: rt_thread_suspend_def RT_ASSERT_def\<close>)
  qed
qed

section \<open>Runs with a semaphore\<close>

definition others :: "nat \<Rightarrow> nat set \<Rightarrow> kernel \<Rightarrow> kernel \<Rightarrow> bool" where
  \<comment> \<open>what the kernel operations, and the operations on other IPC objects, may do as seen by an object with the lists \<open>Q\<close>: threads leave the
    lists, and the error codes and event data of the threads that stay are untouched\<close>
  "others i Q k k' \<longleftrightarrow> running i k' \<and> (\<forall>q\<in>Q. (\<exists>P. waiting k' q = filter P (waiting k q)) \<and>
     (\<forall>u\<in>set (waiting k' q). wait_info (thread k' u) = wait_info (thread k u)))"

lemma others_refl: "running i k \<Longrightarrow> others i Q k k"
  by (auto simp: others_def intro!: exI [of _ "\<lambda>_. True"])

lemma exec_others:
  assumes "running i k" and "allowed i op k" and "exec op k = Inr k'"
  shows "others i Q k k'"
proof -
  have r: "running i k'" using exec_stepped [OF assms(1,2)] assms(3) by (auto simp: stepped_def)
  have ok: "kernel_ok k" "kernel_ok k'" using assms(1) r by (simp_all add: running_def)
  have sub: "set (waiting k' q) \<subseteq> set (waiting k q)" for q using shrunk_subset [OF exec_shrunk [OF assms(3)]] .
  have "wait_info (thread k' u) = wait_info (thread k u)" if "u \<in> set (waiting k' q)" for u q
    using exec_info [OF assms] that sub [of q] kernel_okD(3) [OF ok(1)] kernel_okD(3) [OF ok(2)] unfolding wait_ok_def by blast
  then show ?thesis using r exec_shrunk [OF assms(3)] unfolding others_def shrunk_def by blast
qed

lemma wait_on_others:
  assumes "running i k" and "current_thread k = Some t" and "t \<noteq> i" and "lock_nest k = 0" and "time < 0x7FFFFFFF" and "r \<notin> Q"
    and "wait_on r flag t time k = Inr k'"
  shows "others i Q k k'"
proof -
  have w: "running i k'" "waiting k' = (waiting k)(r := queue_thread flag (thread k) t (waiting k r))" "wait_info (thread k' t) = wait_info (thread k t)"
    "\<And>u. u \<noteq> t \<Longrightarrow> thread k' u = thread k u" using wait_on_ok [OF assms(1-5), of r flag] assms(7) by auto
  have "wait_info (thread k' u) = wait_info (thread k u)" for u using w(3) w(4) [of u] by (cases "u = t") auto
  moreover have "\<forall>q\<in>Q. waiting k' q = filter (\<lambda>_. True) (waiting k q)" using w(2) assms(6) by auto
  ultimately show ?thesis using w(1) unfolding others_def by blast
qed

definition sem_ok :: "nat \<Rightarrow> rt_semaphore \<Rightarrow> kernel \<Rightarrow> bool" where
  \<comment> \<open>tokens are left only if nobody waits, and nobody who waits has an error code\<close>
  "sem_ok i s k \<longleftrightarrow> running i k \<and> sem_class s \<noteq> Class_Null \<and> (sem_value s > 0 \<longrightarrow> waiting k (sem_list s) = []) \<and>
     (\<forall>u\<in>set (waiting k (sem_list s)). error (thread k u) = RT_EOK)"

datatype sem_event = Granted nat | Released

inductive sem_run :: "nat \<Rightarrow> rt_semaphore \<times> kernel \<Rightarrow> sem_event list \<Rightarrow> rt_semaphore \<times> kernel \<Rightarrow> bool" for i :: nat and s0 :: "rt_semaphore \<times> kernel" where
  sem_start: "sem_run i s0 [] s0"
| sem_take: "sem_run i s0 es (s, k) \<Longrightarrow> current_thread k = Some t \<Longrightarrow> rt_sem_take s time k = Inr (Done r, s', k') \<Longrightarrow>
    sem_run i s0 (es @ (if r = RT_EOK then [Granted t] else [])) (s', k')"
| sem_block: "sem_run i s0 es (s, k) \<Longrightarrow> current_thread k = Some t \<Longrightarrow> t \<noteq> i \<Longrightarrow> lock_nest k = 0 \<Longrightarrow> time < 0x7FFFFFFF \<Longrightarrow>
    rt_sem_take s time k = Inr (Blocked, s', k') \<Longrightarrow> sem_run i s0 es (s', k')"
| sem_release: "sem_run i s0 es (s, k) \<Longrightarrow> rt_sem_release s k = Inr (r, s', k') \<Longrightarrow>
    sem_run i s0 (es @ (if r = RT_EOK then Released # (case waiting k (sem_list s) of [] \<Rightarrow> [] | t # _ \<Rightarrow> [Granted t]) else [])) (s', k')"
| sem_others: "sem_run i s0 es (s, k) \<Longrightarrow> others i {sem_list s} k k' \<Longrightarrow> sem_run i s0 es (s, k')"

definition granted :: "sem_event list \<Rightarrow> nat" where
  "granted es = length (filter (\<lambda>e. e \<noteq> Released) es)"

definition released :: "sem_event list \<Rightarrow> nat" where
  "released es = length (filter (\<lambda>e. e = Released) es)"

lemma events_append [simp]: "granted (es @ fs) = granted es + granted fs" "released (es @ fs) = released es + released fs"
  "granted [] = 0" "released [] = 0" "granted (Granted t # es) = Suc (granted es)" "granted (Released # es) = granted es"
  "released (Granted t # es) = released es" "released (Released # es) = Suc (released es)"
  by (simp_all add: granted_def released_def)

lemma take_ok:
  assumes "sem_ok i s k" and "rt_sem_take s time k = Inr (Done r, s', k')"
  shows "sem_ok i s' k'" and "if r = RT_EOK then unat (sem_value s) = Suc (unat (sem_value s')) else sem_value s' = sem_value s"
proof -
  have "sem_value s > 0 \<and> s' = s\<lparr>sem_value := sem_value s - 1\<rparr> \<and> k' = k \<and> r = RT_EOK \<or> s' = s \<and> k' = k \<and> r = - RT_ETIMEOUT"
    using assms by (auto simp: rt_sem_take_def sem_ok_def RT_ASSERT_def bnd_eq_Inr split: if_splits option.splits)
  then show "sem_ok i s' k'" "if r = RT_EOK then unat (sem_value s) = Suc (unat (sem_value s')) else sem_value s' = sem_value s"
    using assms(1) by (auto simp: sem_ok_def unat_minus_one word_gt_0 unat_gt_0)
qed

lemma block_ok:
  assumes "sem_ok i s k" and "current_thread k = Some t" "t \<noteq> i" "lock_nest k = 0" "time < 0x7FFFFFFF"
    and "rt_sem_take s time k = Inr (Blocked, s', k')"
  shows "sem_ok i s' k'" and "s' = s"
proof -
  let ?k = "set_thread t (\<lambda>th. th\<lparr>error := RT_EOK\<rparr>) k"
  have s: "sem_value s = 0" "s' = s" "wait_on (sem_list s) (sem_flag s) t time ?k = Inr k'"
    using assms by (auto simp: rt_sem_take_def sem_ok_def RT_ASSERT_def bnd_eq_Inr word_gt_0 split: if_splits)
  have "running i ?k" using assms(1) by (simp add: sem_ok_def)
  from wait_on_ok [OF this _ assms(3) _ assms(5), of "sem_list s" "sem_flag s"] s(3) assms(2,4)
  have w: "running i k'" "waiting k' = (waiting k)(sem_list s := queue_thread (sem_flag s) (thread ?k) t (waiting k (sem_list s)))"
    "wait_info (thread k' t) = wait_info (thread ?k t)" "\<And>u. u \<noteq> t \<Longrightarrow> thread k' u = thread ?k u" by auto
  have "error (thread k' t) = RT_EOK" using w(3) by (simp add: set_thread_def wait_info_def)
  moreover have "error (thread k' u) = RT_EOK" if "u \<in> set (waiting k (sem_list s))" "u \<noteq> t" for u
    using w(4) [OF that(2)] assms(1) that by (simp add: sem_ok_def set_thread_def)
  ultimately show "sem_ok i s' k'" using w(1,2) s assms(1) by (auto simp: sem_ok_def)
  show "s' = s" by (rule s)
qed

lemma release_ok:
  assumes "sem_ok i s k"
  shows "\<exists>r s' k'. rt_sem_release s k = Inr (r, s', k') \<and> sem_ok i s' k' \<and>
    (case waiting k (sem_list s) of
       [] \<Rightarrow> if sem_value s = RT_SEM_VALUE_MAX then r = - RT_EFULL \<and> s' = s else r = RT_EOK \<and> unat (sem_value s') = Suc (unat (sem_value s))
     | t # ts \<Rightarrow> r = RT_EOK \<and> s' = s \<and> waiting k' (sem_list s) = ts \<and> stat (thread k' t) = RT_THREAD_READY \<and> sem_take_return t k' = RT_EOK)"
proof (cases "waiting k (sem_list s)")
  case Nil
  have "\<not> sem_value s < RT_SEM_VALUE_MAX \<longleftrightarrow> sem_value s = RT_SEM_VALUE_MAX"
    using unsigned_less [of "sem_value s", where 'a = nat] by (auto simp: word_less_nat_alt word_unat_eq_iff)
  moreover have "unat (sem_value s + 1) = Suc (unat (sem_value s))" if "sem_value s < RT_SEM_VALUE_MAX"
    using that by (simp add: unat_word_ariths word_less_nat_alt)
  ultimately show ?thesis using assms Nil by (auto simp: rt_sem_release_def sem_ok_def RT_ASSERT_def)
next
  case (Cons t ts)
  have run: "running i k" and ok: "kernel_ok k" using assms by (simp_all add: sem_ok_def running_def)
  obtain k' where k': "bnd (rt_ipc_list_resume (sem_list s) k) rt_schedule = Inr k'" "running i k'" "thread k' = thread (readied t k)"
    "waiting k' = waiting (readied t k)" using wake_first [OF run Cons] by blast
  have wts: "waiting k' (sem_list s) = ts" using resume_first(3) [OF ok Cons] k'(4) by simp
  have err: "\<forall>u\<in>set (t # ts). error (thread k' u) = RT_EOK" using assms Cons k'(3) by (auto simp: sem_ok_def)
  have "rt_sem_release s k = Inr (RT_EOK, s, k')"
    using k'(1) assms Cons by (auto simp: rt_sem_release_def sem_ok_def RT_ASSERT_def bnd_assoc [symmetric] bnd_eq_Inr)
  then show ?thesis using k' wts err assms Cons by (auto simp: sem_ok_def sem_take_return_def)
qed

lemma sem_run_inv:
  assumes "sem_run i s0 es s" and "sem_ok i (fst s0) (snd s0)"
  shows "sem_ok i (fst s) (snd s) \<and> unat (sem_value (fst s)) + granted es = unat (sem_value (fst s0)) + released es"
  using assms(1)
proof (induction rule: sem_run.induct)
  case sem_start
  then show ?case using assms(2) by simp
next
  case (sem_take es s k t time r s' k')
  then have ok: "sem_ok i s k" by simp
  show ?case using take_ok [OF ok sem_take.hyps(3)] sem_take.IH by (auto split: if_splits)
next
  case (sem_block es s k t time s' k')
  then have ok: "sem_ok i s k" by simp
  show ?case using block_ok [OF ok sem_block.hyps(2-6)] sem_block.IH by auto
next
  case (sem_release es s k r s' k')
  then have ok: "sem_ok i s k" by simp
  show ?case using release_ok [OF ok] sem_release.hyps(2) sem_release.IH by (auto split: list.splits if_splits)
next
  case (sem_others es s k k')
  then have "sem_ok i s k'" by (auto simp: sem_ok_def others_def wait_info_def)
  then show ?case using sem_others.IH by simp
qed


definition one_token :: rt_semaphore where
  "one_token = \<lparr>sem_class = Class_Static, sem_value = 1, sem_list = 7, sem_flag = RT_IPC_FLAG_PRIO\<rparr>"

lemma two_threads_waiting: "waiting two_threads q = []"
  by (simp add: two_threads_def boot_def Let_def)


end
