(* ===== verification/Mutex.thy ===== *)
theory Mutex
  imports Ipc
begin

text \<open>
  The mutex of \<^verbatim>\<open>src/rt-thread/src/ipc.c\<close>: recursive, with priority inheritance. In every run it refines an abstract
  recursive lock, so that no two threads hold it. A thread that blocks raises the owner to its own priority; the release of a second mutex
  takes that priority away again.
\<close>

section \<open>Mutexes\<close>

record rt_mutex =
  mtx_class :: object_class
  mtx_value :: "16 word"
  mtx_original_priority :: nat
  mtx_hold :: "8 word"
  mtx_owner :: "nat option"
  mtx_list :: nat
  mtx_flag :: ipc_flag

abbreviation RT_MUTEX_VALUE_MAX :: "16 word" where "RT_MUTEX_VALUE_MAX \<equiv> 0xFFFF"
abbreviation RT_MUTEX_HOLD_MAX :: "8 word" where "RT_MUTEX_HOLD_MAX \<equiv> 0xFF"

definition free_mutex :: "object_class \<Rightarrow> ipc_flag \<Rightarrow> nat \<Rightarrow> rt_mutex" where
  "free_mutex c flag q = \<lparr>mtx_class = c, mtx_value = 1, mtx_original_priority = 0xFF, mtx_hold = 0, mtx_owner = None, mtx_list = q, mtx_flag = flag\<rparr>"

definition rt_mutex_init :: "ipc_flag \<Rightarrow> nat \<Rightarrow> rt_mutex \<Rightarrow> kernel \<Rightarrow> (rt_mutex \<times> kernel) res" where
  "rt_mutex_init flag q m k =
     bnd (RT_ASSERT (mtx_class m = Class_Null)) (\<lambda>_. Inr (free_mutex Class_Static flag q, k\<lparr>waiting := (waiting k)(q := [])\<rparr>))"

definition rt_mutex_create :: "bool \<Rightarrow> ipc_flag \<Rightarrow> nat \<Rightarrow> kernel \<Rightarrow> rt_mutex option \<times> kernel" where
  \<comment> \<open>\<open>alloc\<close> tells if \<open>rt_object_allocate\<close> returned an object\<close>
  "rt_mutex_create alloc flag q k =
     (if alloc then (Some (free_mutex Class_Dynamic flag q), k\<lparr>waiting := (waiting k)(q := [])\<rparr>) else (None, k))"

definition rt_mutex_detach :: "rt_mutex \<Rightarrow> kernel \<Rightarrow> (rt_mutex \<times> kernel) res" where
  "rt_mutex_detach m k =
     bnd (RT_ASSERT (mtx_class m = Class_Static)) (\<lambda>_.
     bnd (rt_ipc_list_resume_all (mtx_list m) k) (\<lambda>k. Inr (m\<lparr>mtx_class := Class_Null\<rparr>, k)))"

definition rt_mutex_delete :: "rt_mutex \<Rightarrow> kernel \<Rightarrow> (rt_mutex \<times> kernel) res" where
  "rt_mutex_delete m k =
     bnd (RT_ASSERT (mtx_class m = Class_Dynamic)) (\<lambda>_.
     bnd (rt_ipc_list_resume_all (mtx_list m) k) (\<lambda>k. Inr (m\<lparr>mtx_class := Class_Null\<rparr>, k)))"

definition raise_owner :: "nat \<Rightarrow> nat \<Rightarrow> kernel \<Rightarrow> kernel res" where
  \<comment> \<open>the priority inheritance of \<open>rt_mutex_take\<close>\<close>
  "raise_owner t ow k =
     (if current_priority (thread k t) < current_priority (thread k ow)
      then rt_thread_control ow (CTRL_CHANGE_PRIORITY (current_priority (thread k t))) k else Inr k)"

definition rt_mutex_take :: "int \<Rightarrow> rt_mutex \<Rightarrow> kernel \<Rightarrow> (outcome \<times> rt_mutex \<times> kernel) res" where
  "rt_mutex_take time m k =
     (case current_thread k of
        None \<Rightarrow> Inl Assertion_failed
      | Some t \<Rightarrow>
          bnd (RT_ASSERT (mtx_class m \<noteq> Class_Null)) (\<lambda>_.
          let k = set_thread t (\<lambda>th. th\<lparr>error := RT_EOK\<rparr>) k in
          if mtx_owner m = Some t
          then if mtx_hold m < RT_MUTEX_HOLD_MAX then Inr (Done RT_EOK, m\<lparr>mtx_hold := mtx_hold m + 1\<rparr>, k)
               else Inr (Done (- RT_EFULL), m, k)
          else if mtx_value m > 0
          then let m = m\<lparr>mtx_value := mtx_value m - 1, mtx_owner := Some t, mtx_original_priority := current_priority (thread k t)\<rparr> in
               if mtx_hold m < RT_MUTEX_HOLD_MAX then Inr (Done RT_EOK, m\<lparr>mtx_hold := mtx_hold m + 1\<rparr>, k)
               else Inr (Done (- RT_EFULL), m, k)
          else if time = 0
          then Inr (Done (- RT_ETIMEOUT), m, set_thread t (\<lambda>th. th\<lparr>error := - RT_ETIMEOUT\<rparr>) k)
          else case mtx_owner m of
                 None \<Rightarrow> Inl Null_deref
               | Some ow \<Rightarrow>
                   bnd (raise_owner t ow k) (\<lambda>k.
                   bnd (wait_on (mtx_list m) (mtx_flag m) t time k) (\<lambda>k. Inr (Blocked, m, k)))))"

definition mutex_take_return :: "nat \<Rightarrow> kernel \<Rightarrow> int" where
  \<comment> \<open>the result of \<open>rt_mutex_take\<close> when the thread \<open>t\<close> that was blocked runs again\<close>
  "mutex_take_return t k = (if error (thread k t) \<noteq> RT_EOK then error (thread k t) else RT_EOK)"

definition restore_owner :: "nat \<Rightarrow> rt_mutex \<Rightarrow> kernel \<Rightarrow> kernel res" where
  "restore_owner t m k =
     (if mtx_original_priority m \<noteq> current_priority (thread k t)
      then rt_thread_control t (CTRL_CHANGE_PRIORITY (mtx_original_priority m)) k else Inr k)"

definition rt_mutex_release :: "rt_mutex \<Rightarrow> kernel \<Rightarrow> (int \<times> rt_mutex \<times> kernel) res" where
  "rt_mutex_release m k =
     bnd (RT_ASSERT (mtx_class m \<noteq> Class_Null)) (\<lambda>_.
     case current_thread k of
       None \<Rightarrow> Inl Assertion_failed
     | Some t \<Rightarrow>
         if mtx_owner m \<noteq> Some t then Inr (- RT_ERROR, m, set_thread t (\<lambda>th. th\<lparr>error := - RT_ERROR\<rparr>) k)
         else
           let m = m\<lparr>mtx_hold := mtx_hold m - 1\<rparr> in
           if mtx_hold m = 0
           then bnd (restore_owner t m k) (\<lambda>k.
                case waiting k (mtx_list m) of
                  u # _ \<Rightarrow>
                    let m = m\<lparr>mtx_owner := Some u, mtx_original_priority := current_priority (thread k u)\<rparr> in
                    if mtx_hold m < RT_MUTEX_HOLD_MAX
                    then bnd (rt_ipc_list_resume (mtx_list m) k) (\<lambda>k.
                         bnd (rt_schedule k) (\<lambda>k. Inr (RT_EOK, m\<lparr>mtx_hold := mtx_hold m + 1\<rparr>, k)))
                    else Inr (- RT_EFULL, m, k)
                | [] \<Rightarrow>
                    if mtx_value m < RT_MUTEX_VALUE_MAX
                    then Inr (RT_EOK, m\<lparr>mtx_value := mtx_value m + 1, mtx_owner := None, mtx_original_priority := 0xFF\<rparr>, k)
                    else Inr (- RT_EFULL, m, k))
           else Inr (RT_EOK, m, k))"

section \<open>Priority changes\<close>

lemma change_priority:
  assumes "running i k" and "p < 32" and "rt_thread_control t (CTRL_CHANGE_PRIORITY p) k = Inr k'"
  shows "others i Q k k'" and "kept t k k'" and "current_priority (thread k' t) = p" and "stat (thread k' t) = stat (thread k t)"
    and "error (thread k' t) = error (thread k t)"
proof -
  have reg: "object_type (thread k t) \<noteq> Class_Null" using assms(3) by (auto simp: rt_thread_control_def RT_ASSERT_def split: if_splits)
  then show "others i Q k k'" using exec_others [OF assms(1), of "Priority t p" k'] assms(2,3) by simp
  have e: "rt_thread_change_priority t p k = Inr k'" using assms(3) reg by (simp add: rt_thread_control_def RT_ASSERT_def)
  have ok: "kernel_ok k" using assms(1) by (simp add: running_def)
  from priority_kept [OF ok reg assms(2)] e show "kept t k k'" "stat (thread k' t) = stat (thread k t)" by auto
  show "current_priority (thread k' t) = p" "error (thread k' t) = error (thread k t)" using e reg
    by (auto simp: rt_thread_change_priority_def rt_schedule_insert_thread_def rt_schedule_remove_thread_def unlink_def
        set_thread_def RT_ASSERT_def Let_def split: if_splits)
qed

lemma raise_owner_ok:
  assumes "running i k" and "current_thread k = Some t" and "ow \<noteq> t" and "raise_owner t ow k = Inr k'"
  shows "others i Q k k'" and "current_thread k' = Some t" and "lock_nest k' = lock_nest k" and "thread k' t = thread k t"
    and "current_priority (thread k' ow) \<le> current_priority (thread k' t)"
proof -
  have p: "current_priority (thread k t) < 32"
    using assms(1,2) kernel_okD(2) [of k t] by (auto simp: running_def cur_ready_def thread_ok_def)
  note self = others_refl [OF assms(1), of Q]
  show "others i Q k k'" "current_thread k' = Some t" "lock_nest k' = lock_nest k" "thread k' t = thread k t"
    "current_priority (thread k' ow) \<le> current_priority (thread k' t)"
    using change_priority [OF assms(1) p, of ow k'] assms self by (auto simp: raise_owner_def kept_def split: if_splits)
qed

section \<open>Runs with a mutex\<close>

datatype mutex_event = Acquired nat | Freed nat

text \<open>
  The abstract recursive lock: nobody holds it, or one thread holds it a number of times. A step that is not possible is \<open>None\<close>.
\<close>

fun lock_step :: "(nat \<times> nat) option \<Rightarrow> mutex_event \<Rightarrow> (nat \<times> nat) option option" where
  "lock_step None (Acquired t) = Some (Some (t, 1))"
| "lock_step (Some (ow, n)) (Acquired t) = (if t = ow then Some (Some (ow, Suc n)) else None)"
| "lock_step None (Freed t) = None"
| "lock_step (Some (ow, n)) (Freed t) = (if t = ow then Some (if n \<le> 1 then None else Some (ow, n - 1)) else None)"

fun lock_run :: "(nat \<times> nat) option \<Rightarrow> mutex_event list \<Rightarrow> (nat \<times> nat) option option" where
  "lock_run l [] = Some l"
| "lock_run l (e # es) = (case lock_step l e of None \<Rightarrow> None | Some l' \<Rightarrow> lock_run l' es)"

lemma lock_run_append: "lock_run l (es @ fs) = (case lock_run l es of None \<Rightarrow> None | Some l' \<Rightarrow> lock_run l' fs)"
  by (induction es arbitrary: l) (auto split: option.split)

definition mutex_abs :: "rt_mutex \<Rightarrow> (nat \<times> nat) option" where
  "mutex_abs m = map_option (\<lambda>t. (t, unat (mtx_hold m))) (mtx_owner m)"

definition mutex_ok :: "nat \<Rightarrow> rt_mutex \<Rightarrow> kernel \<Rightarrow> bool" where
  "mutex_ok i m k \<longleftrightarrow> running i k \<and> mtx_class m \<noteq> Class_Null \<and>
     (if mtx_owner m = None then mtx_value m = 1 \<and> mtx_hold m = 0 \<and> waiting k (mtx_list m) = []
      else mtx_value m = 0 \<and> mtx_hold m \<noteq> 0 \<and> mtx_original_priority m < 32) \<and>
     (\<forall>u\<in>set (waiting k (mtx_list m)). error (thread k u) = RT_EOK)"

definition release_events :: "nat \<Rightarrow> rt_mutex \<Rightarrow> rt_mutex \<Rightarrow> mutex_event list" where
  \<comment> \<open>thread \<open>t\<close> frees the mutex, and the new owner, if there is one, gets it\<close>
  "release_events t m m' = Freed t # (if mtx_hold m = 1 then (case mtx_owner m' of None \<Rightarrow> [] | Some u \<Rightarrow> [Acquired u]) else [])"

inductive mutex_run :: "nat \<Rightarrow> rt_mutex \<times> kernel \<Rightarrow> mutex_event list \<Rightarrow> rt_mutex \<times> kernel \<Rightarrow> bool" for i :: nat and s0 :: "rt_mutex \<times> kernel" where
  mutex_start: "mutex_run i s0 [] s0"
| mutex_take: "mutex_run i s0 es (m, k) \<Longrightarrow> current_thread k = Some t \<Longrightarrow> rt_mutex_take time m k = Inr (Done r, m', k') \<Longrightarrow>
    mutex_run i s0 (es @ (if r = RT_EOK then [Acquired t] else [])) (m', k')"
| mutex_block: "mutex_run i s0 es (m, k) \<Longrightarrow> current_thread k = Some t \<Longrightarrow> t \<noteq> i \<Longrightarrow> lock_nest k = 0 \<Longrightarrow> time < 0x7FFFFFFF \<Longrightarrow>
    rt_mutex_take time m k = Inr (Blocked, m', k') \<Longrightarrow> mutex_run i s0 es (m', k')"
| mutex_release: "mutex_run i s0 es (m, k) \<Longrightarrow> current_thread k = Some t \<Longrightarrow> rt_mutex_release m k = Inr (r, m', k') \<Longrightarrow>
    mutex_run i s0 (es @ (if r = RT_EOK then release_events t m m' else [])) (m', k')"
| mutex_others: "mutex_run i s0 es (m, k) \<Longrightarrow> others i {mtx_list m} k k' \<Longrightarrow> mutex_run i s0 es (m, k')"

lemma current_facts:
  assumes "running i k" and "current_thread k = Some t"
  shows "current_priority (thread k t) < 32" and "t \<notin> set (waiting k q)"
proof -
  have "kernel_ok k" "stat (thread k t) = RT_THREAD_READY" using assms by (auto simp: running_def cur_ready_def)
  then show "current_priority (thread k t) < 32" "t \<notin> set (waiting k q)"
    using kernel_okD(2) [of k t] kernel_okD(3) [of k] by (auto simp: thread_ok_def wait_ok_def)
qed

lemma set_error_waiting:
  assumes "running i k" and "current_thread k = Some t" and "u \<in> set (waiting k q)"
  shows "thread (set_thread t f k) u = thread k u"
  using current_facts(2) [OF assms(1,2), of q] assms(3) by (auto simp: set_thread_def)

lemma unat_hold: "mtx_hold m < RT_MUTEX_HOLD_MAX \<Longrightarrow> unat (mtx_hold m + 1) = Suc (unat (mtx_hold m)) \<and> mtx_hold m + 1 \<noteq> 0"
  by (simp add: unat_word_ariths word_less_nat_alt word_unat_eq_iff)

lemma mutex_set_error:
  assumes "mutex_ok i m k" and "current_thread k = Some t"
  shows "mutex_ok i m (set_thread t (\<lambda>th. th\<lparr>error := e\<rparr>) k)"
  using assms set_error_waiting [of i k t _ "mtx_list m"] by (auto simp: mutex_ok_def)

lemma mutex_take_cases:
  assumes "mutex_ok i m k" and "current_thread k = Some t" and "rt_mutex_take time m k = Inr (Done r, m', k')"
  obtains (again) "mtx_owner m = Some t" "mtx_hold m < RT_MUTEX_HOLD_MAX" "r = RT_EOK" "m' = m\<lparr>mtx_hold := mtx_hold m + 1\<rparr>"
      "k' = set_thread t (\<lambda>th. th\<lparr>error := RT_EOK\<rparr>) k"
    | (free) "mtx_owner m = None" "r = RT_EOK" "k' = set_thread t (\<lambda>th. th\<lparr>error := RT_EOK\<rparr>) k"
      "m' = m\<lparr>mtx_value := 0, mtx_owner := Some t, mtx_original_priority := current_priority (thread k t), mtx_hold := 1\<rparr>"
    | (refused) e where "r \<noteq> RT_EOK" "m' = m" "k' = set_thread t (\<lambda>th. th\<lparr>error := e\<rparr>) k"
proof -
  let ?k = "\<lambda>e. set_thread t (\<lambda>th. th\<lparr>error := e\<rparr>) k"
  let ?m = "m\<lparr>mtx_value := 0, mtx_owner := Some t, mtx_original_priority := current_priority (thread k t), mtx_hold := 1\<rparr>"
  have prio: "current_priority (thread (?k e) t) = current_priority (thread k t)" for e by (simp add: set_thread_def)
  have kk: "set_thread t (\<lambda>th. th\<lparr>error := e\<rparr>) (?k d) = ?k e" for e d by (simp add: set_thread_def)
  have inv: "mtx_class m \<noteq> Class_Null" "mtx_owner m = None \<Longrightarrow> mtx_value m = 1 \<and> mtx_hold m = 0 \<and> waiting k (mtx_list m) = []"
    "mtx_owner m \<noteq> None \<Longrightarrow> mtx_value m = 0" using assms(1) by (auto simp: mutex_ok_def split: if_splits)
  show thesis
  proof (cases "mtx_owner m")
    case None
    have "r = RT_EOK \<and> m' = ?m \<and> k' = ?k RT_EOK" using assms(2,3) inv(1) inv(2) [OF None] None
      by (simp add: rt_mutex_take_def RT_ASSERT_def Let_def prio)
    then show ?thesis using free None by blast
  next
    case (Some ow)
    have v: "mtx_value m = 0" using inv(3) Some by simp
    show ?thesis
    proof (cases "ow = t")
      case True
      show ?thesis
      proof (cases "mtx_hold m < RT_MUTEX_HOLD_MAX")
        case h: True
        have "r = RT_EOK \<and> m' = m\<lparr>mtx_hold := mtx_hold m + 1\<rparr> \<and> k' = ?k RT_EOK" using assms(2,3) inv(1) Some True h
          by (simp add: rt_mutex_take_def RT_ASSERT_def Let_def)
        then show ?thesis using again Some True h by blast
      next
        case h: False
        have "r \<noteq> RT_EOK \<and> m' = m \<and> k' = ?k RT_EOK" using assms(2,3) inv(1) Some True h
          by (auto simp: rt_mutex_take_def RT_ASSERT_def Let_def)
        then show ?thesis using refused by blast
      qed
    next
      case False
      then have "time = 0" using assms(2,3) inv(1) Some v
        by (auto simp: rt_mutex_take_def RT_ASSERT_def Let_def bnd_eq_Inr split: if_splits)
      then have "r \<noteq> RT_EOK \<and> m' = m \<and> k' = ?k (- RT_ETIMEOUT)" using assms(2,3) inv(1) Some v False
        by (auto simp: rt_mutex_take_def RT_ASSERT_def Let_def kk)
      then show ?thesis using refused by blast
    qed
  qed
qed

lemma mutex_take_ok:
  assumes "mutex_ok i m k" and "current_thread k = Some t" and "rt_mutex_take time m k = Inr (Done r, m', k')"
  shows "mutex_ok i m' k' \<and> (if r = RT_EOK then lock_step (mutex_abs m) (Acquired t) = Some (mutex_abs m') else mutex_abs m' = mutex_abs m)"
  using assms
proof (cases rule: mutex_take_cases)
  case again
  have "mutex_ok i m' k'" using mutex_set_error [OF assms(1,2), of RT_EOK] again unat_hold [OF again(2)] by (simp add: mutex_ok_def)
  then show ?thesis using again unat_hold [OF again(2)] by (simp add: mutex_abs_def)
next
  case free
  have "mutex_ok i m' k'" using mutex_set_error [OF assms(1,2), of RT_EOK] free current_facts(1) [OF _ assms(2), of i] assms(1) by (simp add: mutex_ok_def)
  then show ?thesis using free by (simp add: mutex_abs_def)
next
  case (refused e)
  then show ?thesis using mutex_set_error [OF assms(1,2), of e] by simp
qed

lemma mutex_block_ok:
  assumes "mutex_ok i m k" and "current_thread k = Some t" "t \<noteq> i" "lock_nest k = 0" "time < 0x7FFFFFFF"
    and "rt_mutex_take time m k = Inr (Blocked, m', k')"
  shows "mutex_ok i m' k'" and "m' = m" and "\<exists>ow. mtx_owner m = Some ow \<and> ow \<noteq> t \<and> current_priority (thread k' ow) \<le> current_priority (thread k' t)"
proof -
  let ?q = "mtx_list m"
  let ?k = "set_thread t (\<lambda>th. th\<lparr>error := RT_EOK\<rparr>) k"
  obtain ow k1 where ow: "mtx_owner m = Some ow" "ow \<noteq> t" "raise_owner t ow ?k = Inr k1" "wait_on ?q (mtx_flag m) t time k1 = Inr k'" "m' = m"
    using assms by (auto simp: rt_mutex_take_def mutex_ok_def RT_ASSERT_def Let_def bnd_eq_Inr split: if_splits option.splits)
  show "m' = m" by (rule ow(5))
  have ok: "mutex_ok i m ?k" by (rule mutex_set_error [OF assms(1,2)])
  have run: "running i ?k" "current_thread ?k = Some t" using ok assms(2) by (simp_all add: mutex_ok_def)
  note r = raise_owner_ok [OF run ow(2,3)]
  have k1: "running i k1" "\<exists>P. waiting k1 ?q = filter P (waiting k ?q)" "\<And>u. u \<in> set (waiting k1 ?q) \<Longrightarrow> wait_info (thread k1 u) = wait_info (thread ?k u)"
    using r(1) by (auto simp: others_def)
  have w: "running i k'" "waiting k' = (waiting k1)(?q := queue_thread (mtx_flag m) (thread k1) t (waiting k1 ?q))"
    "wait_info (thread k' t) = wait_info (thread k1 t)" "\<And>u. u \<noteq> t \<Longrightarrow> thread k' u = thread k1 u"
    "current_priority (thread k' t) = current_priority (thread k1 t)"
    using wait_on_ok [OF k1(1) r(2) assms(3) _ assms(5), of ?q "mtx_flag m"] r(3) assms(4) ow(4) by auto
  have t: "error (thread k' t) = RT_EOK" using w(3) r(4) by (simp add: wait_info_def set_thread_def)
  have "error (thread k' u) = RT_EOK" if "u \<in> set (waiting k1 ?q)" "u \<noteq> t" for u
    using k1(2) k1(3) [OF that(1)] w(4) [OF that(2)] ok that by (auto simp: wait_info_def mutex_ok_def)
  then show "mutex_ok i m' k'" using w(1,2) t ow(1,5) assms(1) by (auto simp: mutex_ok_def)
  have "current_priority (thread k' ow) = current_priority (thread k1 ow)" using w(4) [OF ow(2)] by simp
  then show "\<exists>ow. mtx_owner m = Some ow \<and> ow \<noteq> t \<and> current_priority (thread k' ow) \<le> current_priority (thread k' t)"
    using ow(1,2) r(5) w(5) by auto
qed

lemma restore_owner_ok:
  assumes "running i k" and "mtx_original_priority m < 32" and "restore_owner t m k = Inr k'"
  shows "others i Q k k'" and "current_priority (thread k' t) = mtx_original_priority m"
  using change_priority [OF assms(1,2), of t k'] others_refl [OF assms(1), of Q] assms(3) by (auto simp: restore_owner_def split: if_splits)

lemma mutex_others_ok: "mutex_ok i m k \<Longrightarrow> others i {mtx_list m} k k' \<Longrightarrow> mutex_ok i m k'"
  by (auto simp: mutex_ok_def others_def wait_info_def split: if_splits)

lemma word_minus_one_zero: "(x :: 8 word) - 1 = 0 \<longleftrightarrow> x = 1"
  by (metis diff_add_cancel diff_self add_0)

lemma mutex_last_release:
  assumes "mutex_ok i m k" and "current_thread k = Some t" and "mtx_owner m = Some t" and "mtx_hold m = 1"
    and "rt_mutex_release m k = Inr (r, m', k')"
  shows "mutex_ok i m' k' \<and> r = RT_EOK \<and> mtx_owner m' \<noteq> Some t \<and> (case mtx_owner m' of
     None \<Rightarrow> waiting k' (mtx_list m) = [] | Some u \<Rightarrow> mtx_hold m' = 1 \<and> stat (thread k' u) = RT_THREAD_READY \<and> mutex_take_return u k' = RT_EOK)"
proof -
  let ?q = "mtx_list m"
  have inv: "running i k" "mtx_class m \<noteq> Class_Null" "mtx_value m = 0" "mtx_original_priority m < 32" using assms(1,3) by (auto simp: mutex_ok_def)
  have e: "restore_owner t (m\<lparr>mtx_hold := 0\<rparr>) k = restore_owner t m k" by (simp add: restore_owner_def)
  obtain k1 where k1: "restore_owner t m k = Inr k1"
    using assms inv(2) by (auto simp: rt_mutex_release_def RT_ASSERT_def Let_def bnd_eq_Inr e)
  note o = restore_owner_ok(1) [OF inv(1,4) k1, of "{?q}"]
  have ok1: "mutex_ok i m k1" by (rule mutex_others_ok [OF assms(1) o])
  have run1: "running i k1" "kernel_ok k1" using ok1 by (auto simp: mutex_ok_def running_def)
  have nt: "t \<notin> set (waiting k1 ?q)" using current_facts(2) [OF inv(1) assms(2), of ?q] o by (auto simp: others_def)
  show ?thesis
  proof (cases "waiting k1 ?q")
    case Nil
    have "r = RT_EOK \<and> k' = k1 \<and> m' = m\<lparr>mtx_hold := 0, mtx_value := 1, mtx_owner := None, mtx_original_priority := 0xFF\<rparr>"
      using assms(2-5) inv k1 Nil by (simp add: rt_mutex_release_def RT_ASSERT_def Let_def e)
    then show ?thesis using ok1 Nil assms(3) by (simp add: mutex_ok_def)
  next
    case (Cons u us)
    obtain k2 where k2: "bnd (rt_ipc_list_resume ?q k1) rt_schedule = Inr k2" "running i k2" "thread k2 = thread (readied u k1)"
      "waiting k2 = waiting (readied u k1)" using wake_first [OF run1(1) Cons] by blast
    have wus: "waiting k2 ?q = us" using resume_first(3) [OF run1(2) Cons] k2(4) by simp
    have err: "\<forall>v\<in>set (u # us). error (thread k2 v) = RT_EOK" using ok1 Cons k2(3) by (auto simp: mutex_ok_def)
    have st: "stat (thread k1 u) = RT_THREAD_SUSPEND" using resume_first(4) [OF run1(2) Cons] .
    have p: "current_priority (thread k1 u) < 32" using kernel_okD(2) [OF run1(2), of u] st by (simp add: thread_ok_def)
    let ?m = "m\<lparr>mtx_hold := 1, mtx_owner := Some u, mtx_original_priority := current_priority (thread k1 u)\<rparr>"
    have "r = RT_EOK \<and> k' = k2 \<and> m' = ?m"
      using assms(2-5) inv k1 Cons k2(1) by (auto simp: rt_mutex_release_def RT_ASSERT_def Let_def e bnd_eq_Inr)
    moreover have "u \<noteq> t" using nt Cons by auto
    ultimately show ?thesis using k2 wus err p inv by (auto simp: mutex_ok_def mutex_take_return_def)
  qed
qed

lemma mutex_release_ok:
  assumes "mutex_ok i m k" and "current_thread k = Some t" and "rt_mutex_release m k = Inr (r, m', k')"
  shows "mutex_ok i m' k' \<and> (if r = RT_EOK then lock_run (mutex_abs m) (release_events t m m') = Some (mutex_abs m') else mutex_abs m' = mutex_abs m)"
proof (cases "mtx_owner m = Some t")
  case False
  then have "r \<noteq> RT_EOK \<and> m' = m \<and> k' = set_thread t (\<lambda>th. th\<lparr>error := - RT_ERROR\<rparr>) k" using assms
    by (auto simp: rt_mutex_release_def mutex_ok_def RT_ASSERT_def)
  then show ?thesis using mutex_set_error [OF assms(1,2)] by simp
next
  case own: True
  have h: "mtx_hold m \<noteq> 0" "mtx_class m \<noteq> Class_Null" using assms(1) own by (auto simp: mutex_ok_def)
  show ?thesis
  proof (cases "mtx_hold m = 1")
    case True
    note l = mutex_last_release [OF assms(1,2) own True assms(3)]
    then show ?thesis using own True by (auto simp: release_events_def mutex_abs_def split: option.splits)
  next
    case False
    have "r = RT_EOK \<and> m' = m\<lparr>mtx_hold := mtx_hold m - 1\<rparr> \<and> k' = k" using assms(2,3) own False h(2)
      by (simp add: rt_mutex_release_def RT_ASSERT_def Let_def word_minus_one_zero)
    moreover have "unat (mtx_hold m - 1) = unat (mtx_hold m) - 1" "1 < unat (mtx_hold m)" using h(1) False
      by (simp_all add: unat_minus_one) (metis One_nat_def Suc_lessI unat_gt_0 unat_1 word_unat_eq_iff)
    ultimately show ?thesis using assms(1) own False by (auto simp: mutex_ok_def release_events_def mutex_abs_def word_minus_one_zero)
  qed
qed

lemma mutex_run_inv:
  assumes "mutex_run i s0 es s" and "mutex_ok i (fst s0) (snd s0)"
  shows "mutex_ok i (fst s) (snd s) \<and> lock_run (mutex_abs (fst s0)) es = Some (mutex_abs (fst s))"
  using assms(1)
proof (induction rule: mutex_run.induct)
  case mutex_start
  then show ?case using assms(2) by simp
next
  case (mutex_take es m k t time r m' k')
  then show ?case using mutex_take_ok [OF _ mutex_take.hyps(2,3), of i] by (auto simp: lock_run_append split: if_splits)
next
  case (mutex_block es m k t time m' k')
  then show ?case using mutex_block_ok(1,2) [OF _ mutex_block.hyps(2-6)] by auto
next
  case (mutex_release es m k t r m' k')
  then show ?case using mutex_release_ok [OF _ mutex_release.hyps(2,3), of i] by (auto simp: lock_run_append split: if_splits)
next
  case (mutex_others es m k k')
  then show ?case using mutex_others_ok by auto
qed



section \<open>Two mutexes\<close>

lemma change_priority_waiting:
  assumes "rt_thread_control t (CTRL_CHANGE_PRIORITY p) k = Inr k'" and "w \<noteq> t" and "w \<in> set (waiting k q)"
  shows "w \<in> set (waiting k' q)" and "thread k' w = thread k w"
  using assms by (auto simp: rt_thread_control_def rt_thread_change_priority_def rt_schedule_insert_thread_def rt_schedule_remove_thread_def
      unlink_def set_thread_def RT_ASSERT_def Let_def split: if_splits)

text \<open>
  C39. Inheritance does not survive a second mutex. If a thread that holds two mutexes was raised because a more urgent thread waits for the first,
  then releasing the second one lowers it to the priority it had when it took the second, although it still
  holds the first and the more urgent thread still waits for it: priority inversion.
\<close>
theorem rt_mutex_nested_inversion:
  assumes "mutex_ok i m k" and "mutex_ok i n k" and "current_thread k = Some t" and "mtx_owner m = Some t" "mtx_owner n = Some t"
    and "mtx_hold m = 1" and "waiting k (mtx_list m) = []" and "w \<in> set (waiting k (mtx_list n))"
    and "current_priority (thread k t) \<le> current_priority (thread k w)" and "current_priority (thread k w) < mtx_original_priority m"
  shows "\<exists>m' k'. rt_mutex_release m k = Inr (RT_EOK, m', k') \<and> mtx_owner n = Some t \<and> w \<in> set (waiting k' (mtx_list n)) \<and>
    current_priority (thread k' w) < current_priority (thread k' t)"
proof -
  have inv: "running i k" "mtx_class m \<noteq> Class_Null" "mtx_value m = 0" "mtx_original_priority m < 32" using assms(1,4) by (auto simp: mutex_ok_def)
  have ok: "kernel_ok k" and reg: "object_type (thread k t) \<noteq> Class_Null"
    using inv(1) running_registered [OF inv(1) assms(3)] by (auto simp: running_def)
  obtain k1 where k1: "rt_thread_control t (CTRL_CHANGE_PRIORITY (mtx_original_priority m)) k = Inr k1"
    using priority_kept [OF ok reg inv(4)] reg by (auto simp: rt_thread_control_def RT_ASSERT_def)
  have r: "restore_owner t (m\<lparr>mtx_hold := 0\<rparr>) k = Inr k1" using k1 assms(9,10) by (simp add: restore_owner_def)
  have w: "w \<noteq> t" using current_facts(2) [OF inv(1) assms(3)] assms(8) by blast
  have "waiting k1 (mtx_list m) = []" using change_priority(1) [OF inv(1,4) k1, of "{mtx_list m}"] assms(7) by (auto simp: others_def)
  then have "\<exists>m'. rt_mutex_release m k = Inr (RT_EOK, m', k1)"
    using assms(3,4,6) inv(2,3) r by (simp add: rt_mutex_release_def RT_ASSERT_def Let_def)
  then show ?thesis using change_priority_waiting [OF k1 w assms(8)] change_priority(3) [OF inv(1,4) k1] assms(5,10) by auto
qed

definition raised :: kernel where
  \<comment> \<open>thread 1 was raised from priority 10 to 5, because thread 2 waits in list 8\<close>
  "raised =
     (let th = \<lambda>p q s. \<lparr>object_type = Class_Static, stat = s, init_priority = p, current_priority = q, number_mask = push_bit q 1,
        init_tick = 20, remaining_tick = 20, error = 0, event_set = 0, event_info = 0, timer_object = True, timer_active = False,
        timer_init_tick = 0, timeout_tick = 0\<rparr>
      in boot\<lparr>thread := (thread boot)(0 := th 31 31 RT_THREAD_READY, 1 := th 10 5 RT_THREAD_READY, 2 := th 5 5 RT_THREAD_SUSPEND),
        priority_table := (\<lambda>_. [])(31 := [0], 5 := [1]), ready_group := push_bit 31 1 OR push_bit 5 1, current_thread := Some 1,
        waiting := (\<lambda>_. [])(8 := [2])\<rparr>)"

lemma raised_running: "running 0 raised"
proof -
  have "bit (ready_group raised) p \<longleftrightarrow> p = 5 \<or> p = 31" if "p < 32" for p
  proof -
    have "ready_group raised = push_bit 31 1 OR push_bit 5 1" by (simp add: raised_def Let_def)
    then show ?thesis using bit_set_mask [of 5 p "push_bit 31 1"] bit_set_mask [of 31 p 0] that by (auto simp del: push_bit_of_1)
  qed
  then have "ready_ok raised" by (auto simp: raised_def boot_def ready_ok_def Let_def)
  moreover have "thread_ok (thread raised t)" for t by (simp add: raised_def boot_def thread_ok_def Let_def)
  moreover have "wait_ok raised" "timer_ok raised" "cur_ready raised" "stat (thread raised 0) = RT_THREAD_READY"
    by (auto simp: raised_def boot_def wait_ok_def timer_ok_def cur_ready_def Let_def)
  ultimately show ?thesis by (simp add: running_def kernel_ok_def)
qed

theorem rt_mutex_nested_inversion_witness:
  "\<exists>m' k'. rt_mutex_release (free_mutex Class_Static RT_IPC_FLAG_PRIO 9\<lparr>mtx_value := 0, mtx_owner := Some 1, mtx_hold := 1, mtx_original_priority := 10\<rparr>) raised =
     Inr (RT_EOK, m', k') \<and> current_priority (thread k' 2) < current_priority (thread k' 1)"
  using rt_mutex_nested_inversion [of 0
      "free_mutex Class_Static RT_IPC_FLAG_PRIO 9\<lparr>mtx_value := 0, mtx_owner := Some 1, mtx_hold := 1, mtx_original_priority := 10\<rparr>" raised
      "free_mutex Class_Static RT_IPC_FLAG_PRIO 8\<lparr>mtx_value := 0, mtx_owner := Some 1, mtx_hold := 1, mtx_original_priority := 10\<rparr>" 1 2]
    raised_running
  by (fastforce simp: mutex_ok_def free_mutex_def raised_def boot_def Let_def)

end
