(* ===== verification/Event.thy ===== *)
theory Event
  imports Ipc
begin

unbundle bit_operations_syntax

text \<open>
  The event of \<^verbatim>\<open>src/rt-thread/src/ipc.c\<close>: a set of 32 flags; a thread waits for all or for one of the flags it
  names, and may clear what it received. No wake-up is lost: a thread waits only as long as its condition does not hold.
\<close>

section \<open>Events\<close>

record rt_event =
  ev_class :: object_class
  ev_set :: "32 word"
  ev_list :: nat
  ev_flag :: ipc_flag

abbreviation RT_EVENT_FLAG_AND :: "8 word" where "RT_EVENT_FLAG_AND \<equiv> 1"
abbreviation RT_EVENT_FLAG_OR :: "8 word" where "RT_EVENT_FLAG_OR \<equiv> 2"
abbreviation RT_EVENT_FLAG_CLEAR :: "8 word" where "RT_EVENT_FLAG_CLEAR \<equiv> 4"
abbreviation RT_EINVAL :: int where "RT_EINVAL \<equiv> 10"

definition has_flag :: "8 word \<Rightarrow> 8 word \<Rightarrow> bool" where
  "has_flag option flag \<longleftrightarrow> option AND flag \<noteq> 0"

definition rt_event_init :: "ipc_flag \<Rightarrow> nat \<Rightarrow> rt_event \<Rightarrow> kernel \<Rightarrow> (rt_event \<times> kernel) res" where
  "rt_event_init flag q e k =
     bnd (RT_ASSERT (ev_class e = Class_Null)) (\<lambda>_.
     Inr (\<lparr>ev_class = Class_Static, ev_set = 0, ev_list = q, ev_flag = flag\<rparr>, k\<lparr>waiting := (waiting k)(q := [])\<rparr>))"

definition rt_event_create :: "bool \<Rightarrow> ipc_flag \<Rightarrow> nat \<Rightarrow> kernel \<Rightarrow> rt_event option \<times> kernel" where
  \<comment> \<open>\<open>alloc\<close> tells if \<open>rt_object_allocate\<close> returned an object\<close>
  "rt_event_create alloc flag q k =
     (if alloc then (Some \<lparr>ev_class = Class_Dynamic, ev_set = 0, ev_list = q, ev_flag = flag\<rparr>, k\<lparr>waiting := (waiting k)(q := [])\<rparr>) else (None, k))"

definition rt_event_detach :: "rt_event \<Rightarrow> kernel \<Rightarrow> (rt_event \<times> kernel) res" where
  "rt_event_detach e k =
     bnd (RT_ASSERT (ev_class e = Class_Static)) (\<lambda>_.
     bnd (rt_ipc_list_resume_all (ev_list e) k) (\<lambda>k. Inr (e\<lparr>ev_class := Class_Null\<rparr>, k)))"

definition rt_event_delete :: "rt_event \<Rightarrow> kernel \<Rightarrow> (rt_event \<times> kernel) res" where
  "rt_event_delete e k =
     bnd (RT_ASSERT (ev_class e = Class_Dynamic)) (\<lambda>_.
     bnd (rt_ipc_list_resume_all (ev_list e) k) (\<lambda>k. Inr (e\<lparr>ev_class := Class_Null\<rparr>, k)))"

fun send_loop :: "nat list \<Rightarrow> 32 word \<Rightarrow> bool \<Rightarrow> kernel \<Rightarrow> (bool \<times> 32 word \<times> bool \<times> kernel) res" where
  \<comment> \<open>the loop of \<open>rt_event_send\<close> over the suspended threads; the first result tells if it reached the end of the list\<close>
  "send_loop [] s need k = Inr (True, s, need, k)"
| "send_loop (t # ts) s need k =
     (let want = event_set (thread k t); info = event_info (thread k t) in
      if has_flag info RT_EVENT_FLAG_AND \<or> has_flag info RT_EVENT_FLAG_OR
      then if (if has_flag info RT_EVENT_FLAG_AND then want AND s = want else want AND s \<noteq> 0)
           then let got = (if has_flag info RT_EVENT_FLAG_AND then want else want AND s);
                    s' = (if has_flag info RT_EVENT_FLAG_CLEAR then s AND NOT got else s) in
                bnd (rt_thread_resume t (set_thread t (\<lambda>th. th\<lparr>event_set := got\<rparr>) k)) (\<lambda>(_, k). send_loop ts s' True k)
           else send_loop ts s need k
      else Inr (False, s, need, k))"

definition rt_event_send :: "32 word \<Rightarrow> rt_event \<Rightarrow> kernel \<Rightarrow> (int \<times> rt_event \<times> kernel) res" where
  "rt_event_send set_bits e k =
     bnd (RT_ASSERT (ev_class e \<noteq> Class_Null)) (\<lambda>_.
     if set_bits = 0 then Inr (- RT_ERROR, e, k)
     else bnd (send_loop (waiting k (ev_list e)) (ev_set e OR set_bits) False k) (\<lambda>(valid, s, need, k).
          let e = e\<lparr>ev_set := s\<rparr> in
          if \<not> valid then Inr (- RT_EINVAL, e, k)
          else if need then bnd (rt_schedule k) (\<lambda>k. Inr (RT_EOK, e, k))
          else Inr (RT_EOK, e, k)))"

definition rt_event_recv :: "32 word \<Rightarrow> 8 word \<Rightarrow> int \<Rightarrow> rt_event \<Rightarrow> kernel \<Rightarrow> (outcome \<times> 32 word option \<times> rt_event \<times> kernel) res" where
  \<comment> \<open>the second result is what is stored in \<open>*recved\<close>\<close>
  "rt_event_recv set_bits option timeout e k =
     (case current_thread k of
        None \<Rightarrow> Inl Assertion_failed
      | Some t \<Rightarrow>
          bnd (RT_ASSERT (ev_class e \<noteq> Class_Null)) (\<lambda>_.
          if set_bits = 0 then Inr (Done (- RT_ERROR), None, e, k)
          else
            let k = set_thread t (\<lambda>th. th\<lparr>error := RT_EOK\<rparr>) k in
            bnd (RT_ASSERT (has_flag option RT_EVENT_FLAG_AND \<or> has_flag option RT_EVENT_FLAG_OR)) (\<lambda>_.
            if (if has_flag option RT_EVENT_FLAG_AND then ev_set e AND set_bits = set_bits else ev_set e AND set_bits \<noteq> 0)
            then Inr (Done RT_EOK, Some (ev_set e AND set_bits),
                      if has_flag option RT_EVENT_FLAG_CLEAR then e\<lparr>ev_set := ev_set e AND NOT set_bits\<rparr> else e,
                      set_thread t (\<lambda>th. th\<lparr>event_set := ev_set e AND set_bits, event_info := option\<rparr>) k)
            else if timeout = 0 then Inr (Done (- RT_ETIMEOUT), None, e, set_thread t (\<lambda>th. th\<lparr>error := - RT_ETIMEOUT\<rparr>) k)
            else bnd (wait_on (ev_list e) (ev_flag e) t timeout (set_thread t (\<lambda>th. th\<lparr>event_set := set_bits, event_info := option\<rparr>) k)) (\<lambda>k.
                 Inr (Blocked, None, e, k)))))"

definition event_recv_return :: "nat \<Rightarrow> kernel \<Rightarrow> int \<times> 32 word option" where
  \<comment> \<open>the end of \<open>rt_event_recv\<close> when the thread \<open>t\<close> that was blocked runs again\<close>
  "event_recv_return t k = (if error (thread k t) \<noteq> RT_EOK then (error (thread k t), None) else (error (thread k t), Some (event_set (thread k t))))"

definition rt_event_reset :: "rt_event \<Rightarrow> kernel \<Rightarrow> (int \<times> rt_event \<times> kernel) res" where
  \<comment> \<open>\<open>rt_event_control\<close> with \<open>RT_IPC_CMD_RESET\<close>\<close>
  "rt_event_reset e k =
     bnd (RT_ASSERT (ev_class e \<noteq> Class_Null)) (\<lambda>_.
     bnd (rt_ipc_list_resume_all (ev_list e) k) (\<lambda>k.
     bnd (rt_schedule k) (\<lambda>k. Inr (RT_EOK, e\<lparr>ev_set := 0\<rparr>, k))))"

section \<open>Conditions\<close>

definition satisfied :: "32 word \<Rightarrow> 8 word \<Rightarrow> 32 word \<Rightarrow> bool" where
  \<comment> \<open>the condition of a thread that waits for the flags \<open>want\<close> with the given option\<close>
  "satisfied want option s \<longleftrightarrow> (if has_flag option RT_EVENT_FLAG_AND then want AND s = want else want AND s \<noteq> 0)"

definition subset_of :: "32 word \<Rightarrow> 32 word \<Rightarrow> bool" where
  "subset_of a b \<longleftrightarrow> a AND b = a"

lemma bit_32: "bit (w :: 32 word) n \<Longrightarrow> n < 32"
  using bit_imp_le_length [of w n] by simp

lemma subset_of_bits: "subset_of a b \<longleftrightarrow> (\<forall>n. bit a n \<longrightarrow> bit b n)"
  by (auto simp: subset_of_def bit_eq_iff bit_and_iff dest: bit_32)

lemma satisfied_bits:
  "satisfied want option s \<longleftrightarrow> (if has_flag option RT_EVENT_FLAG_AND then \<forall>n. bit want n \<longrightarrow> bit s n else \<exists>n. bit want n \<and> bit s n)"
  by (auto simp: satisfied_def bit_eq_iff bit_and_iff dest: bit_32)

lemma satisfied_mono: "satisfied want option s \<Longrightarrow> subset_of s s' \<Longrightarrow> satisfied want option s'"
  by (auto simp: satisfied_bits subset_of_bits split: if_splits)

lemma subset_of_refl: "subset_of s s" and subset_of_trans: "subset_of a b \<Longrightarrow> subset_of b c \<Longrightarrow> subset_of a c"
  and subset_of_diff: "subset_of (s AND NOT g) s" and subset_of_and: "subset_of (a AND b) a"
  by (auto simp: subset_of_bits bit_and_iff)

definition waiter_ok :: "rt_thread \<Rightarrow> bool" where
  "waiter_ok th \<longleftrightarrow> error th = RT_EOK \<and> (has_flag (event_info th) RT_EVENT_FLAG_AND \<or> has_flag (event_info th) RT_EVENT_FLAG_OR) \<and> event_set th \<noteq> 0"

definition served :: "32 word \<Rightarrow> rt_thread \<Rightarrow> rt_thread \<Rightarrow> bool" where
  \<comment> \<open>a thread that waited as \<open>th\<close> is ready as \<open>th'\<close> with flags it asked for and that were set: all of them with the option AND, some with OR\<close>
  "served s th th' \<longleftrightarrow> stat th' = RT_THREAD_READY \<and> error th' = RT_EOK \<and> event_set th' \<noteq> 0 \<and> subset_of (event_set th') (event_set th) \<and>
     subset_of (event_set th') s \<and> (has_flag (event_info th) RT_EVENT_FLAG_AND \<longrightarrow> event_set th' = event_set th)"

lemma served_mono: "served s th th' \<Longrightarrow> subset_of s s' \<Longrightarrow> served s' th th'"
  using subset_of_trans by (auto simp: served_def)

lemma set_event_ok [simp]:
  "running i (set_thread t (\<lambda>th. th\<lparr>event_set := a\<rparr>) k) = running i k"
  "running i (set_thread t (\<lambda>th. th\<lparr>event_set := a, event_info := b\<rparr>) k) = running i k"
proof -
  have st: "stat (thread (set_thread t (\<lambda>th. th\<lparr>event_set := a\<rparr>) k) u) = stat (thread k u)"
    "stat (thread (set_thread t (\<lambda>th. th\<lparr>event_set := a, event_info := b\<rparr>) k) u) = stat (thread k u)" for u by (simp_all add: set_thread_def)
  have ok: "kernel_ok (set_thread t (\<lambda>th. th\<lparr>event_set := a\<rparr>) k) = kernel_ok k"
    "kernel_ok (set_thread t (\<lambda>th. th\<lparr>event_set := a, event_info := b\<rparr>) k) = kernel_ok k"
    by (rule set_thread_ok, simp add: same_thread_def)+
  show "running i (set_thread t (\<lambda>th. th\<lparr>event_set := a\<rparr>) k) = running i k"
    "running i (set_thread t (\<lambda>th. th\<lparr>event_set := a, event_info := b\<rparr>) k) = running i k"
    by (simp_all add: running_def cur_ready_def ok st split: option.split)
qed

section \<open>Sending\<close>

lemma send_serve:
  assumes "running i k" and "waiting k q = ws @ t # ts" and "waiter_ok (thread k t)" and "satisfied (event_set (thread k t)) (event_info (thread k t)) s"
  shows "\<exists>got k1. send_loop (t # ts) s need k =
      send_loop ts (if has_flag (event_info (thread k t)) RT_EVENT_FLAG_CLEAR then s AND NOT got else s) True k1 \<and>
    running i k1 \<and> waiting k1 q = ws @ ts \<and> served s (thread k t) (thread k1 t) \<and> (\<forall>u. u \<noteq> t \<longrightarrow> thread k1 u = thread k u) \<and> lock_nest k1 = lock_nest k"
proof -
  let ?th = "thread k t"
  let ?got = "if has_flag (event_info ?th) RT_EVENT_FLAG_AND then event_set ?th else event_set ?th AND s"
  let ?k = "set_thread t (\<lambda>th. th\<lparr>event_set := ?got\<rparr>) k"
  have run: "running i ?k" using assms(1) by simp
  then have ok: "kernel_ok ?k" by (simp add: running_def)
  have "t \<in> set (waiting ?k q)" using assms(2) by simp
  then have st: "stat (thread ?k t) = RT_THREAD_SUSPEND" using kernel_okD(3) [OF ok] unfolding wait_ok_def by blast
  have d: "distinct (ws @ t # ts)" using kernel_okD(3) [OF ok] assms(2) unfolding wait_ok_def by (metis set_thread_fields(3))
  have "rt_thread_resume t ?k = Inr (RT_EOK, readied t ?k)" by (rule resume_suspended [OF ok st])
  then have l: "send_loop (t # ts) s need k = send_loop ts (if has_flag (event_info ?th) RT_EVENT_FLAG_CLEAR then s AND NOT ?got else s) True (readied t ?k)"
    using assms(3,4) by (auto simp: waiter_ok_def satisfied_def Let_def)
  have r: "running i (readied t ?k)" using run readied_ok [OF ok st] st by (auto simp: running_def cur_ready_def split: option.splits)
  have w: "waiting (readied t ?k) q = ws @ ts" using d assms(2) by (simp add: readied_def Let_def removeAll_id)
  have "served s ?th (thread (readied t ?k) t)" using assms(3,4)
    by (auto simp: served_def waiter_ok_def satisfied_def set_thread_def subset_of_refl subset_of_and)
      (auto simp: subset_of_def and.commute and.left_commute)
  then show ?thesis using l r w by (intro exI [of _ ?got] exI [of _ "readied t ?k"]) (simp add: set_thread_def)
qed

lemma send_loop_ok:
  "running i k \<Longrightarrow> waiting k q = ws @ ts \<Longrightarrow> (\<forall>u\<in>set (ws @ ts). waiter_ok (thread k u)) \<Longrightarrow>
   (\<forall>u\<in>set ws. \<not> satisfied (event_set (thread k u)) (event_info (thread k u)) s) \<Longrightarrow>
   \<exists>s' need' k'. send_loop ts s need k = Inr (True, s', need', k') \<and> running i k' \<and> subset_of s' s \<and> lock_nest k' = lock_nest k \<and>
     (\<forall>u\<in>set (waiting k' q). u \<in> set (ws @ ts) \<and> thread k' u = thread k u \<and> \<not> satisfied (event_set (thread k u)) (event_info (thread k u)) s') \<and>
     (\<forall>u\<in>set (ws @ ts) - set (waiting k' q). served s (thread k u) (thread k' u)) \<and> (\<forall>u. u \<notin> set (ws @ ts) \<longrightarrow> thread k' u = thread k u)"
proof (induction ts arbitrary: ws s need k)
  case Nil
  then show ?case by (auto simp: subset_of_refl)
next
  case (Cons t ts)
  have wt: "waiter_ok (thread k t)" using Cons.prems(3) by simp
  show ?case
  proof (cases "satisfied (event_set (thread k t)) (event_info (thread k t)) s")
    case False
    then have "send_loop (t # ts) s need k = send_loop ts s need k" using wt by (auto simp: waiter_ok_def satisfied_def Let_def)
    then show ?thesis using Cons.IH [of k "ws @ [t]" s need] Cons.prems False by simp
  next
    case True
    obtain got k1 where k1: "send_loop (t # ts) s need k =
        send_loop ts (if has_flag (event_info (thread k t)) RT_EVENT_FLAG_CLEAR then s AND NOT got else s) True k1"
      "running i k1" "waiting k1 q = ws @ ts" "served s (thread k t) (thread k1 t)" "\<And>u. u \<noteq> t \<Longrightarrow> thread k1 u = thread k u" "lock_nest k1 = lock_nest k"
      using send_serve [OF Cons.prems(1,2) wt True, of need] by blast
    define s1 where "s1 = (if has_flag (event_info (thread k t)) RT_EVENT_FLAG_CLEAR then s AND NOT got else s)"
    have sub: "subset_of s1 s" by (simp add: s1_def subset_of_refl subset_of_diff)
    have d: "distinct (ws @ t # ts)" using kernel_okD(3) [of k] Cons.prems(1,2) unfolding running_def wait_ok_def by metis
    have nt: "u \<noteq> t" if "u \<in> set (ws @ ts)" for u using d that by auto
    have "\<forall>u\<in>set (ws @ ts). waiter_ok (thread k1 u)" "\<forall>u\<in>set ws. \<not> satisfied (event_set (thread k1 u)) (event_info (thread k1 u)) s1"
      using Cons.prems(3,4) k1(5) nt satisfied_mono [OF _ sub] by auto
    from Cons.IH [OF k1(2,3) this, of True] obtain s' need' k' where k': "send_loop ts s1 True k1 = Inr (True, s', need', k')" "running i k'"
      "subset_of s' s1" "lock_nest k' = lock_nest k1"
      "\<And>u. u \<in> set (waiting k' q) \<Longrightarrow> u \<in> set (ws @ ts) \<and> thread k' u = thread k1 u \<and> \<not> satisfied (event_set (thread k1 u)) (event_info (thread k1 u)) s'"
      "\<And>u. u \<in> set (ws @ ts) - set (waiting k' q) \<Longrightarrow> served s1 (thread k1 u) (thread k' u)"
      "\<And>u. u \<notin> set (ws @ ts) \<Longrightarrow> thread k' u = thread k1 u" by blast
    have tk: "t \<notin> set (ws @ ts)" "t \<notin> set (waiting k' q)" using d k'(5) [of t] by auto
    have "served s (thread k u) (thread k' u)" if "u \<in> set (ws @ t # ts) - set (waiting k' q)" for u
    proof (cases "u = t")
      case True
      then show ?thesis using k1(4) k'(7) [OF tk(1)] by simp
    next
      case False
      then show ?thesis using served_mono [OF k'(6) sub, of u] k1(5) [OF False] that by auto
    qed
    moreover have "u \<in> set (ws @ t # ts) \<and> thread k' u = thread k u \<and> \<not> satisfied (event_set (thread k u)) (event_info (thread k u)) s'"
      if "u \<in> set (waiting k' q)" for u using k'(5) [OF that] k1(5) [OF nt, of u] by auto
    moreover have "thread k' u = thread k u" if "u \<notin> set (ws @ t # ts)" for u using k'(7) [of u] k1(5) [of u] that by auto
    ultimately show ?thesis using k1(1,6) k'(1-4) subset_of_trans [OF k'(3) sub] unfolding s1_def [symmetric] by auto
  qed
qed

section \<open>Runs with an event\<close>

definition event_ok :: "nat \<Rightarrow> rt_event \<Rightarrow> kernel \<Rightarrow> bool" where
  \<comment> \<open>every waiting thread waits for something that is not there\<close>
  "event_ok i e k \<longleftrightarrow> running i k \<and> ev_class e \<noteq> Class_Null \<and>
     (\<forall>u\<in>set (waiting k (ev_list e)). waiter_ok (thread k u) \<and> \<not> satisfied (event_set (thread k u)) (event_info (thread k u)) (ev_set e))"

inductive event_run :: "nat \<Rightarrow> rt_event \<times> kernel \<Rightarrow> rt_event \<times> kernel \<Rightarrow> bool" for i :: nat and s0 :: "rt_event \<times> kernel" where
  event_start: "event_run i s0 s0"
| event_send: "event_run i s0 (e, k) \<Longrightarrow> rt_event_send bits e k = Inr (r, e', k') \<Longrightarrow> event_run i s0 (e', k')"
| event_recv: "event_run i s0 (e, k) \<Longrightarrow> current_thread k = Some t \<Longrightarrow> t \<noteq> i \<Longrightarrow> lock_nest k = 0 \<Longrightarrow> timeout < 0x7FFFFFFF \<Longrightarrow>
    rt_event_recv bits option timeout e k = Inr (r, got, e', k') \<Longrightarrow> event_run i s0 (e', k')"
| event_others: "event_run i s0 (e, k) \<Longrightarrow> others i {ev_list e} k k' \<Longrightarrow> event_run i s0 (e, k')"

lemma current_waiting:
  assumes "running i k" and "current_thread k = Some t"
  shows "t \<notin> set (waiting k q)"
  using assms kernel_okD(3) [of k] by (auto simp: running_def cur_ready_def wait_ok_def)

lemma event_ok_current:
  \<comment> \<open>changes of the running thread's own data do not matter to the waiting threads\<close>
  assumes "event_ok i e k" and "current_thread k = Some t" and "running i (set_thread t f k)"
  shows "event_ok i e (set_thread t f k)"
proof -
  have "running i k" using assms(1) by (simp add: event_ok_def)
  then have "thread (set_thread t f k) u = thread k u" if "u \<in> set (waiting k (ev_list e))" for u
    using current_waiting [OF _ assms(2)] that by (auto simp: set_thread_def)
  then show ?thesis using assms(1,3) by (simp add: event_ok_def)
qed

lemma event_ok_subset:
  assumes "event_ok i e k" and "subset_of s (ev_set e)"
  shows "event_ok i (e\<lparr>ev_set := s\<rparr>) k"
  using assms satisfied_mono [OF _ assms(2)] by (auto simp: event_ok_def)

lemma event_send_ok:
  assumes "event_ok i e k" and "bits \<noteq> 0"
  shows "\<exists>e' k'. rt_event_send bits e k = Inr (RT_EOK, e', k') \<and> event_ok i e' k' \<and> ev_list e' = ev_list e \<and> subset_of (ev_set e') (ev_set e OR bits) \<and>
    set (waiting k' (ev_list e)) \<subseteq> set (waiting k (ev_list e)) \<and>
    (\<forall>u\<in>set (waiting k (ev_list e)) - set (waiting k' (ev_list e)). served (ev_set e OR bits) (thread k u) (thread k' u))"
proof -
  let ?q = "ev_list e"
  have run: "running i k" and c: "ev_class e \<noteq> Class_Null" and w: "\<forall>u\<in>set ([] @ waiting k ?q). waiter_ok (thread k u)" using assms(1) by (simp_all add: event_ok_def)
  have l: "waiting k ?q = [] @ waiting k ?q" and none: "\<forall>u\<in>set []. \<not> satisfied (event_set (thread k u)) (event_info (thread k u)) (ev_set e OR bits)" by simp_all
  obtain s need k1 where k1: "send_loop (waiting k ?q) (ev_set e OR bits) False k = Inr (True, s, need, k1)" "running i k1"
    "subset_of s (ev_set e OR bits)"
    "\<And>u. u \<in> set (waiting k1 ?q) \<Longrightarrow> u \<in> set (waiting k ?q) \<and> thread k1 u = thread k u \<and> \<not> satisfied (event_set (thread k u)) (event_info (thread k u)) s"
    "\<And>u. u \<in> set (waiting k ?q) - set (waiting k1 ?q) \<Longrightarrow> served (ev_set e OR bits) (thread k u) (thread k1 u)"
    using send_loop_ok [OF run l w none, of False] unfolding append_Nil by blast
  obtain k2 where k2: "(if need then rt_schedule k1 else Inr k1) = Inr k2" "running i k2" "thread k2 = thread k1" "waiting k2 = waiting k1"
    using schedule_again [OF k1(2)] k1(2) that by (cases need) auto
  have "rt_event_send bits e k = Inr (RT_EOK, e\<lparr>ev_set := s\<rparr>, k2)"
    using c assms(2) k1(1) k2(1) by (cases need) (simp_all add: rt_event_send_def RT_ASSERT_def Let_def)
  moreover have "event_ok i (e\<lparr>ev_set := s\<rparr>) k2" using k1(4) k2(2-4) w assms(1) by (auto simp: event_ok_def)
  ultimately show ?thesis using k1(3-5) k2(3,4) by auto
qed

lemma event_wait_ok:
  assumes "event_ok i e k" and "current_thread k = Some t" "t \<noteq> i" "lock_nest k = 0" "timeout < 0x7FFFFFFF"
    and "waiter_ok (thread k t)" and "\<not> satisfied (event_set (thread k t)) (event_info (thread k t)) (ev_set e)"
  shows "\<exists>k'. wait_on (ev_list e) (ev_flag e) t timeout k = Inr k' \<and> event_ok i e k'"
proof -
  obtain k' where k': "wait_on (ev_list e) (ev_flag e) t timeout k = Inr k'" "running i k'"
    "waiting k' = (waiting k)(ev_list e := queue_thread (ev_flag e) (thread k) t (waiting k (ev_list e)))"
    "wait_info (thread k' t) = wait_info (thread k t)" "\<And>u. u \<noteq> t \<Longrightarrow> thread k' u = thread k u"
    using wait_on_ok [of i k t timeout "ev_list e" "ev_flag e"] assms(1-5) by (auto simp: event_ok_def)
  have "waiter_ok (thread k' u) \<and> \<not> satisfied (event_set (thread k' u)) (event_info (thread k' u)) (ev_set e)"
    if "u \<in> set (waiting k' (ev_list e))" for u
  proof (cases "u = t")
    case True
    then show ?thesis using k'(4) assms(6,7) by (simp add: wait_info_def waiter_ok_def)
  next
    case False
    then show ?thesis using k'(3) k'(5) [OF False] that assms(1) by (simp add: event_ok_def)
  qed
  then show ?thesis using k'(1,2) assms(1) by (auto simp: event_ok_def)
qed

lemma event_recv_ok:
  assumes "event_ok i e k" and "current_thread k = Some t" "t \<noteq> i" "lock_nest k = 0" "timeout < 0x7FFFFFFF"
    and "has_flag option RT_EVENT_FLAG_AND \<or> has_flag option RT_EVENT_FLAG_OR" and "bits \<noteq> 0"
  shows "\<exists>r got e' k'. rt_event_recv bits option timeout e k = Inr (r, got, e', k') \<and> event_ok i e' k' \<and>
    (if satisfied bits option (ev_set e)
     then r = Done RT_EOK \<and> got = Some (ev_set e AND bits) \<and> ev_set e' = (if has_flag option RT_EVENT_FLAG_CLEAR then ev_set e AND NOT bits else ev_set e)
     else got = None \<and> e' = e \<and> r = (if timeout = 0 then Done (- RT_ETIMEOUT) else Blocked))"
proof -
  let ?k = "set_thread t (\<lambda>th. th\<lparr>error := RT_EOK\<rparr>) k"
  have c: "ev_class e \<noteq> Class_Null" and run: "running i k" using assms(1) by (simp_all add: event_ok_def)
  have ok: "event_ok i e ?k" by (rule event_ok_current [OF assms(1,2)]) (use run in simp)
  have sat: "satisfied bits option (ev_set e) \<longleftrightarrow> (if has_flag option RT_EVENT_FLAG_AND then ev_set e AND bits = bits else ev_set e AND bits \<noteq> 0)"
    by (simp add: satisfied_def and.commute)
  consider "satisfied bits option (ev_set e)" | "\<not> satisfied bits option (ev_set e)" "timeout = 0" | "\<not> satisfied bits option (ev_set e)" "timeout \<noteq> 0" by blast
  then show ?thesis
  proof cases
    case 1
    let ?e = "if has_flag option RT_EVENT_FLAG_CLEAR then e\<lparr>ev_set := ev_set e AND NOT bits\<rparr> else e"
    have "event_ok i e (set_thread t (\<lambda>th. th\<lparr>event_set := ev_set e AND bits, event_info := option\<rparr>) ?k)"
      by (rule event_ok_current [OF ok]) (use assms(2) run in simp_all)
    then have "event_ok i ?e (set_thread t (\<lambda>th. th\<lparr>event_set := ev_set e AND bits, event_info := option\<rparr>) ?k)"
      using event_ok_subset [OF _ subset_of_diff] by simp
    then show ?thesis using 1 assms(2,6,7) c by (auto simp: rt_event_recv_def sat RT_ASSERT_def Let_def)
  next
    case 2
    have "event_ok i e (set_thread t (\<lambda>th. th\<lparr>error := - RT_ETIMEOUT\<rparr>) ?k)" by (rule event_ok_current [OF ok]) (use assms(2) run in simp_all)
    then show ?thesis using 2 assms(2,6,7) c by (auto simp: rt_event_recv_def sat RT_ASSERT_def Let_def)
  next
    case 3
    let ?k1 = "set_thread t (\<lambda>th. th\<lparr>event_set := bits, event_info := option\<rparr>) ?k"
    have ok1: "event_ok i e ?k1" by (rule event_ok_current [OF ok]) (use assms(2) run in simp_all)
    have "waiter_ok (thread ?k1 t)" "\<not> satisfied (event_set (thread ?k1 t)) (event_info (thread ?k1 t)) (ev_set e)"
      using 3(1) assms(6,7) by (simp_all add: waiter_ok_def set_thread_def)
    then obtain k' where k': "wait_on (ev_list e) (ev_flag e) t timeout ?k1 = Inr k'" "event_ok i e k'"
      using event_wait_ok [OF ok1 _ assms(3) _ assms(5)] assms(2,4) by auto
    then show ?thesis using 3 k' assms(2,6,7) c by (auto simp: rt_event_recv_def sat RT_ASSERT_def Let_def)
  qed
qed

lemma event_run_ok: "event_run i s0 s \<Longrightarrow> event_ok i (fst s0) (snd s0) \<Longrightarrow> event_ok i (fst s) (snd s)"
proof (induction rule: event_run.induct)
  case (event_send e k bits r e' k')
  then have ok: "event_ok i e k" by simp
  show ?case
  proof (cases "bits = 0")
    case True
    then show ?thesis using event_send.hyps(2) ok by (auto simp: rt_event_send_def RT_ASSERT_def event_ok_def)
  next
    case False
    then show ?thesis using event_send_ok [OF ok] event_send.hyps(2) by fastforce
  qed
next
  case (event_recv e k t timeout bits option r got e' k')
  then have ok: "event_ok i e k" by simp
  have opt: "bits \<noteq> 0 \<Longrightarrow> has_flag option RT_EVENT_FLAG_AND \<or> has_flag option RT_EVENT_FLAG_OR"
    using event_recv.hyps(2,6) ok by (auto simp: rt_event_recv_def RT_ASSERT_def event_ok_def Let_def split: if_splits)
  show ?case
  proof (cases "bits = 0")
    case True
    then show ?thesis using event_recv.hyps(2,6) ok by (auto simp: rt_event_recv_def RT_ASSERT_def event_ok_def)
  next
    case False
    from event_recv_ok [OF ok event_recv.hyps(2-5) opt [OF False] False] show ?thesis using event_recv.hyps(6) by auto
  qed
next
  case (event_others e k k')
  then show ?case by (auto simp: event_ok_def others_def wait_info_def waiter_ok_def)
qed simp

text \<open>
  C17. No wake-up is lost. In every run in which threads send to an event and receive from it with all combinations of options, block, time
  out, and other kernel operations happen in between, in any order, no thread waits although its condition holds. Sending succeeds, and every thread that stops
  waiting by it becomes ready and returns success with flags it asked for and that were set, all of them if it asked for all.
\<close>
theorem rt_event_no_lost_wakeup:
  assumes "event_run i (e0, k0) (e, k)" and "running i k0" and "ev_class e0 \<noteq> Class_Null" and "waiting k0 (ev_list e0) = []"
  shows "(\<forall>u\<in>set (waiting k (ev_list e)). \<not> satisfied (event_set (thread k u)) (event_info (thread k u)) (ev_set e)) \<and>
    (bits \<noteq> 0 \<longrightarrow> (\<exists>e' k'. rt_event_send bits e k = Inr (RT_EOK, e', k') \<and>
      (\<forall>u\<in>set (waiting k (ev_list e)). u \<notin> set (waiting k' (ev_list e)) \<longrightarrow> stat (thread k' u) = RT_THREAD_READY \<and>
         (\<exists>got. event_recv_return u k' = (RT_EOK, Some got) \<and> got \<noteq> 0 \<and> got AND event_set (thread k u) = got \<and> got AND (ev_set e OR bits) = got \<and>
            (has_flag (event_info (thread k u)) RT_EVENT_FLAG_AND \<longrightarrow> got = event_set (thread k u))))))"
proof -
  have "event_ok i e0 k0" using assms(2-4) by (simp add: event_ok_def)
  then have ok: "event_ok i e k" using event_run_ok [OF assms(1)] by simp
  have "event_recv_return u k' = (RT_EOK, Some (event_set (thread k' u)))" if "served s th (thread k' u)" for s th u k'
    using that by (simp add: served_def event_recv_return_def)
  then show ?thesis using ok event_send_ok [OF ok, of bits] unfolding event_ok_def served_def subset_of_def by (metis (no_types, lifting) DiffI)
qed

definition some_event :: rt_event where
  "some_event = \<lparr>ev_class = Class_Static, ev_set = 0, ev_list = 7, ev_flag = RT_IPC_FLAG_FIFO\<rparr>"

theorem rt_event_no_lost_wakeup_witness:
  "\<exists>e' k'. rt_event_send 5 some_event two_threads = Inr (RT_EOK, e', k')"
  using rt_event_no_lost_wakeup [OF event_run.event_start two_threads_running, of some_event 5]
  by (simp add: some_event_def two_threads_def boot_def Let_def)

end
