(* ===== verification/Mailbox.thy ===== *)
theory Mailbox
  imports Ipc
begin

text \<open>
  The mailbox of \<^verbatim>\<open>src/rt-thread/src/ipc.c\<close>: a circular array of words with one suspend list for receivers and one
  for senders. A blocked call continues with \<open>mb_send_return\<close> or \<open>mb_recv_return\<close>, which go round the loop of the source again.
  Sent and received messages agree in every interleaving of threads; the calls that do not wait are a bounded queue.
\<close>

section \<open>Mailboxes\<close>

type_synonym msg_word = "32 word"

record rt_mailbox =
  mb_class :: object_class
  msg_pool :: "msg_word list"
  mb_size :: nat
  mb_entry :: nat
  mb_in_offset :: nat
  mb_out_offset :: nat
  mb_list :: nat
  mb_sender_list :: nat
  mb_flag :: ipc_flag

abbreviation RT_MB_ENTRY_MAX :: nat where "RT_MB_ENTRY_MAX \<equiv> 65535"

definition rt_mb_init :: "msg_word list \<Rightarrow> nat \<Rightarrow> ipc_flag \<Rightarrow> nat \<Rightarrow> nat \<Rightarrow> rt_mailbox \<Rightarrow> kernel \<Rightarrow> (rt_mailbox \<times> kernel) res" where
  \<comment> \<open>\<open>q\<close> and \<open>r\<close> are the numbers of the two lists; the size \<open>n\<close> is stored in 16 bits\<close>
  "rt_mb_init msgpool n flag q r mb k =
     bnd (RT_ASSERT (mb_class mb = Class_Null)) (\<lambda>_.
     Inr (\<lparr>mb_class = Class_Static, msg_pool = msgpool, mb_size = n mod 65536, mb_entry = 0, mb_in_offset = 0, mb_out_offset = 0,
           mb_list = q, mb_sender_list = r, mb_flag = flag\<rparr>, k\<lparr>waiting := (waiting k)(q := [], r := [])\<rparr>))"

definition rt_mb_create :: "bool \<Rightarrow> msg_word list option \<Rightarrow> nat \<Rightarrow> ipc_flag \<Rightarrow> nat \<Rightarrow> nat \<Rightarrow> kernel \<Rightarrow> (rt_mailbox option \<times> kernel) res" where
  \<comment> \<open>\<open>alloc\<close> and \<open>pool\<close> are the results of \<open>rt_object_allocate\<close> and of the allocation of the pool\<close>
  "rt_mb_create alloc pool n flag q r k =
     (if \<not> alloc then Inr (None, k)
      else case pool of
             None \<Rightarrow> Inr (None, k)
           | Some p \<Rightarrow>
               Inr (Some \<lparr>mb_class = Class_Dynamic, msg_pool = p, mb_size = n mod 65536, mb_entry = 0, mb_in_offset = 0, mb_out_offset = 0,
                     mb_list = q, mb_sender_list = r, mb_flag = flag\<rparr>, k\<lparr>waiting := (waiting k)(q := [], r := [])\<rparr>))"

definition mb_close :: "rt_mailbox \<Rightarrow> kernel \<Rightarrow> (rt_mailbox \<times> kernel) res" where
  \<comment> \<open>the common part of \<open>rt_mb_detach\<close> and \<open>rt_mb_delete\<close>\<close>
  "mb_close mb k =
     bnd (rt_ipc_list_resume_all (mb_list mb) k) (\<lambda>k.
     bnd (rt_ipc_list_resume_all (mb_sender_list mb) k) (\<lambda>k. Inr (mb\<lparr>mb_class := Class_Null\<rparr>, k)))"

definition rt_mb_detach :: "rt_mailbox \<Rightarrow> kernel \<Rightarrow> (rt_mailbox \<times> kernel) res" where
  "rt_mb_detach mb k = bnd (RT_ASSERT (mb_class mb = Class_Static)) (\<lambda>_. mb_close mb k)"

definition rt_mb_delete :: "rt_mailbox \<Rightarrow> kernel \<Rightarrow> (rt_mailbox \<times> kernel) res" where
  "rt_mb_delete mb k = bnd (RT_ASSERT (mb_class mb = Class_Dynamic)) (\<lambda>_. mb_close mb k)"

definition mb_next :: "rt_mailbox \<Rightarrow> nat \<Rightarrow> nat" where
  \<comment> \<open>the next offset in 16 bits\<close>
  "mb_next mb i = (let j = (i + 1) mod 65536 in if j \<ge> mb_size mb then 0 else j)"

definition mb_wake :: "nat \<Rightarrow> kernel \<Rightarrow> kernel res" where
  "mb_wake q k = (if waiting k q \<noteq> [] then bnd (rt_ipc_list_resume q k) rt_schedule else Inr k)"

definition mb_put :: "msg_word \<Rightarrow> rt_mailbox \<Rightarrow> kernel \<Rightarrow> (outcome \<times> rt_mailbox \<times> kernel) res" where
  \<comment> \<open>\<open>rt_mb_send_wait\<close> after its loop\<close>
  "mb_put value mb k =
     bnd (store (msg_pool mb) (mb_in_offset mb) value) (\<lambda>pool.
     let mb = mb\<lparr>msg_pool := pool, mb_in_offset := mb_next mb (mb_in_offset mb)\<rparr> in
     if mb_entry mb < RT_MB_ENTRY_MAX
     then bnd (mb_wake (mb_list mb) k) (\<lambda>k. Inr (Done RT_EOK, mb\<lparr>mb_entry := mb_entry mb + 1\<rparr>, k))
     else Inr (Done (- RT_EFULL), mb, k))"

definition mb_send_loop :: "msg_word \<Rightarrow> int \<Rightarrow> rt_mailbox \<Rightarrow> kernel \<Rightarrow> (outcome \<times> rt_mailbox \<times> kernel) res" where
  \<comment> \<open>one round of the loop of \<open>rt_mb_send_wait\<close>, up to the switch to another thread\<close>
  "mb_send_loop value timeout mb k =
     (if mb_entry mb = mb_size mb
      then case current_thread k of
             None \<Rightarrow> Inl Null_deref
           | Some t \<Rightarrow>
               let k = set_thread t (\<lambda>th. th\<lparr>error := RT_EOK\<rparr>) k in
               if timeout = 0 then Inr (Done (- RT_EFULL), mb, k)
               else bnd (wait_on (mb_sender_list mb) (mb_flag mb) t timeout k) (\<lambda>k. Inr (Blocked, mb, k))
      else mb_put value mb k)"

definition rt_mb_send_wait :: "msg_word \<Rightarrow> int \<Rightarrow> rt_mailbox \<Rightarrow> kernel \<Rightarrow> (outcome \<times> rt_mailbox \<times> kernel) res" where
  "rt_mb_send_wait value timeout mb k =
     bnd (RT_ASSERT (mb_class mb \<noteq> Class_Null)) (\<lambda>_.
     if mb_entry mb = mb_size mb \<and> timeout = 0 then Inr (Done (- RT_EFULL), mb, k)
     else mb_send_loop value timeout mb k)"

definition time_left :: "int \<Rightarrow> tick \<Rightarrow> kernel \<Rightarrow> int" where
  \<comment> \<open>\<open>timeout -= tick_delta\<close> in 32 bits, not below zero; \<open>start\<close> is the tick at which the thread was suspended\<close>
  "time_left timeout start k = (if timeout > 0 then max 0 (sint (word_of_int timeout - (rt_tick k - start))) else timeout)"

definition mb_send_return :: "nat \<Rightarrow> tick \<Rightarrow> msg_word \<Rightarrow> int \<Rightarrow> rt_mailbox \<Rightarrow> kernel \<Rightarrow> (outcome \<times> rt_mailbox \<times> kernel) res" where
  \<comment> \<open>\<open>rt_mb_send_wait\<close> when the thread \<open>t\<close> that was blocked runs again\<close>
  "mb_send_return t start value timeout mb k =
     (if error (thread k t) \<noteq> RT_EOK then Inr (Done (error (thread k t)), mb, k)
      else mb_send_loop value (time_left timeout start k) mb k)"

definition rt_mb_send :: "msg_word \<Rightarrow> rt_mailbox \<Rightarrow> kernel \<Rightarrow> (outcome \<times> rt_mailbox \<times> kernel) res" where
  "rt_mb_send value mb k = rt_mb_send_wait value 0 mb k"

definition mb_get :: "rt_mailbox \<Rightarrow> kernel \<Rightarrow> (outcome \<times> msg_word option \<times> rt_mailbox \<times> kernel) res" where
  \<comment> \<open>\<open>rt_mb_recv\<close> after its loop\<close>
  "mb_get mb k =
     bnd (fetch (msg_pool mb) (mb_out_offset mb)) (\<lambda>value.
     let mb = mb\<lparr>mb_out_offset := mb_next mb (mb_out_offset mb)\<rparr>;
         mb = (if mb_entry mb > 0 then mb\<lparr>mb_entry := mb_entry mb - 1\<rparr> else mb) in
     bnd (mb_wake (mb_sender_list mb) k) (\<lambda>k. Inr (Done RT_EOK, Some value, mb, k)))"

definition mb_recv_loop :: "int \<Rightarrow> rt_mailbox \<Rightarrow> kernel \<Rightarrow> (outcome \<times> msg_word option \<times> rt_mailbox \<times> kernel) res" where
  "mb_recv_loop timeout mb k =
     (if mb_entry mb = 0
      then case current_thread k of
             None \<Rightarrow> Inl Null_deref
           | Some t \<Rightarrow>
               if timeout = 0 then Inr (Done (- RT_ETIMEOUT), None, mb, set_thread t (\<lambda>th. th\<lparr>error := - RT_ETIMEOUT\<rparr>) k)
               else bnd (wait_on (mb_list mb) (mb_flag mb) t timeout (set_thread t (\<lambda>th. th\<lparr>error := RT_EOK\<rparr>) k)) (\<lambda>k. Inr (Blocked, None, mb, k))
      else mb_get mb k)"

definition rt_mb_recv :: "int \<Rightarrow> rt_mailbox \<Rightarrow> kernel \<Rightarrow> (outcome \<times> msg_word option \<times> rt_mailbox \<times> kernel) res" where
  "rt_mb_recv timeout mb k =
     bnd (RT_ASSERT (mb_class mb \<noteq> Class_Null)) (\<lambda>_.
     if mb_entry mb = 0 \<and> timeout = 0 then Inr (Done (- RT_ETIMEOUT), None, mb, k)
     else mb_recv_loop timeout mb k)"

definition mb_recv_return :: "nat \<Rightarrow> tick \<Rightarrow> int \<Rightarrow> rt_mailbox \<Rightarrow> kernel \<Rightarrow> (outcome \<times> msg_word option \<times> rt_mailbox \<times> kernel) res" where
  \<comment> \<open>\<open>rt_mb_recv\<close> when the thread \<open>t\<close> that was blocked runs again\<close>
  "mb_recv_return t start timeout mb k =
     (if error (thread k t) \<noteq> RT_EOK then Inr (Done (error (thread k t)), None, mb, k)
      else mb_recv_loop (time_left timeout start k) mb k)"

definition rt_mb_reset :: "rt_mailbox \<Rightarrow> kernel \<Rightarrow> (int \<times> rt_mailbox \<times> kernel) res" where
  \<comment> \<open>\<open>rt_mb_control\<close> with \<open>RT_IPC_CMD_RESET\<close>\<close>
  "rt_mb_reset mb k =
     bnd (RT_ASSERT (mb_class mb \<noteq> Class_Null)) (\<lambda>_.
     bnd (rt_ipc_list_resume_all (mb_list mb) k) (\<lambda>k.
     bnd (rt_ipc_list_resume_all (mb_sender_list mb) k) (\<lambda>k.
     bnd (rt_schedule k) (\<lambda>k. Inr (RT_EOK, mb\<lparr>mb_entry := 0, mb_in_offset := 0, mb_out_offset := 0\<rparr>, k)))))"

section \<open>Content\<close>

definition mb_inv :: "rt_mailbox \<Rightarrow> bool" where
  "mb_inv mb \<longleftrightarrow> mb_class mb \<noteq> Class_Null \<and> 0 < mb_size mb \<and> mb_size mb < 65536 \<and> mb_size mb \<le> length (msg_pool mb) \<and> mb_entry mb \<le> mb_size mb \<and>
     mb_out_offset mb < mb_size mb \<and> mb_in_offset mb = (mb_out_offset mb + mb_entry mb) mod mb_size mb"

definition mb_msgs :: "rt_mailbox \<Rightarrow> msg_word list" where
  \<comment> \<open>the messages in the mailbox, the oldest first\<close>
  "mb_msgs mb = map (\<lambda>j. msg_pool mb ! ((mb_out_offset mb + j) mod mb_size mb)) [0..<mb_entry mb]"

lemma length_mb_msgs [simp]: "length (mb_msgs mb) = mb_entry mb"
  by (simp add: mb_msgs_def)

lemma mb_next_mod: "i < mb_size mb \<Longrightarrow> mb_size mb < 65536 \<Longrightarrow> mb_next mb i = Suc i mod mb_size mb"
  by (auto simp: mb_next_def Let_def mod_Suc)

lemma mb_wake_ok:
  assumes "running i k"
  shows "\<exists>k'. mb_wake q k = Inr k' \<and> running i k'"
proof (cases "waiting k q")
  case (Cons t ts)
  then show ?thesis using wake_first [OF assms Cons] by (auto simp: mb_wake_def)
qed (use assms in \<open>simp add: mb_wake_def\<close>)

lemma mb_put_ok:
  assumes "mb_inv mb" and "running i k" and "mb_entry mb < mb_size mb"
  shows "\<exists>mb' k'. mb_put v mb k = Inr (Done RT_EOK, mb', k') \<and> mb_inv mb' \<and> running i k' \<and> mb_msgs mb' = mb_msgs mb @ [v] \<and> mb_size mb' = mb_size mb \<and>
    mb_list mb' = mb_list mb \<and> mb_sender_list mb' = mb_sender_list mb"
proof -
  let ?mb = "mb\<lparr>msg_pool := (msg_pool mb)[mb_in_offset mb := v], mb_in_offset := Suc (mb_in_offset mb) mod mb_size mb, mb_entry := mb_entry mb + 1\<rparr>"
  have i: "mb_in_offset mb < mb_size mb" "mb_in_offset mb < length (msg_pool mb)" "mb_size mb < 65536"
    using assms(1) by (auto simp: mb_inv_def intro: less_le_trans [OF mod_less_divisor])
  obtain k' where k': "mb_wake (mb_list mb) k = Inr k'" "running i k'" using mb_wake_ok [OF assms(2)] by blast
  have r: "mb_put v mb k = Inr (Done RT_EOK, ?mb, k')" using assms(3) i k'(1) mb_next_mod [OF i(1,3)]
    by (simp add: mb_put_def Let_def)
  have "mb_inv ?mb" using assms(1,3) by (auto simp: mb_inv_def mod_Suc_eq)
  moreover have "mb_msgs ?mb = mb_msgs mb @ [v]"
  proof -
    have "mb_in_offset mb \<noteq> (mb_out_offset mb + j) mod mb_size mb" if "j < mb_entry mb" for j
      using assms(1,3) that by (auto simp: mb_inv_def mod_if split: if_splits)
    then show ?thesis using assms(1) i by (auto simp: mb_msgs_def mb_inv_def)
  qed
  ultimately show ?thesis using r k' by (intro exI [of _ ?mb] exI [of _ k']) simp
qed

lemma mb_get_ok:
  assumes "mb_inv mb" and "running i k" and "mb_entry mb \<noteq> 0"
  shows "\<exists>v mb' k'. mb_get mb k = Inr (Done RT_EOK, Some v, mb', k') \<and> mb_inv mb' \<and> running i k' \<and> mb_msgs mb = v # mb_msgs mb' \<and>
    mb_size mb' = mb_size mb \<and> mb_list mb' = mb_list mb \<and> mb_sender_list mb' = mb_sender_list mb"
proof -
  let ?o = "mb_out_offset mb"
  let ?mb = "mb\<lparr>mb_out_offset := Suc ?o mod mb_size mb, mb_entry := mb_entry mb - 1\<rparr>"
  have o: "?o < mb_size mb" "?o < length (msg_pool mb)" using assms(1) by (auto simp: mb_inv_def)
  obtain k' where k': "mb_wake (mb_sender_list mb) k = Inr k'" "running i k'" using mb_wake_ok [OF assms(2)] by blast
  have "mb_get mb k = Inr (Done RT_EOK, Some (msg_pool mb ! ?o), ?mb, k')" using assms(1,3) o k'(1) mb_next_mod [OF o(1)]
    by (auto simp: mb_get_def mb_inv_def Let_def)
  moreover have "mb_inv ?mb"
  proof -
    have "(Suc ?o mod mb_size mb + (mb_entry mb - 1)) mod mb_size mb = (?o + mb_entry mb) mod mb_size mb"
      using mod_add_left_eq [of "Suc ?o" "mb_size mb" "mb_entry mb - 1"] assms(3) by (simp del: mod_add_left_eq)
    then show ?thesis using assms(1) by (auto simp: mb_inv_def)
  qed
  moreover have "mb_msgs mb = msg_pool mb ! ?o # mb_msgs ?mb"
  proof -
    obtain e where e: "mb_entry mb = Suc e" using assms(3) by (cases "mb_entry mb") auto
    have "[0..<Suc e] = 0 # map Suc [0..<e]" by (simp add: map_Suc_upt upt_conv_Cons)
    then show ?thesis using e o by (simp add: mb_msgs_def mod_add_left_eq)
  qed
  ultimately show ?thesis using k'(2) by (intro exI [of _ "msg_pool mb ! ?o"] exI [of _ ?mb] exI [of _ k']) simp
qed

section \<open>Calls that do not wait\<close>

definition mb_try_put :: "rt_mailbox \<times> kernel \<Rightarrow> msg_word \<Rightarrow> (bool \<times> rt_mailbox \<times> kernel) res" where
  "mb_try_put s v = bnd (rt_mb_send v (fst s) (snd s)) (\<lambda>(r, s). Inr (r = Done RT_EOK, s))"

definition mb_try_get :: "rt_mailbox \<times> kernel \<Rightarrow> (msg_word option \<times> rt_mailbox \<times> kernel) res" where
  "mb_try_get s = bnd (rt_mb_recv 0 (fst s) (snd s)) (\<lambda>(r, v, s). Inr (v, s))"

interpretation mbq: bounded_queue "\<lambda>s. mb_inv (fst s) \<and> (\<exists>i. running i (snd s))" "\<lambda>s. mb_msgs (fst s)" "\<lambda>s. mb_size (fst s)" mb_try_put mb_try_get
proof
  fix s :: "rt_mailbox \<times> kernel" and v
  assume a: "mb_inv (fst s) \<and> (\<exists>i. running i (snd s))" "length (mb_msgs (fst s)) < mb_size (fst s)"
  then obtain i where i: "mb_inv (fst s)" "running i (snd s)" by blast
  have "rt_mb_send v (fst s) (snd s) = mb_put v (fst s) (snd s)"
    using a by (auto simp: rt_mb_send_def rt_mb_send_wait_def mb_send_loop_def mb_inv_def RT_ASSERT_def)
  then show "\<exists>s'. mb_try_put s v = Inr (True, s') \<and> (mb_inv (fst s') \<and> (\<exists>i. running i (snd s'))) \<and> mb_size (fst s') = mb_size (fst s) \<and>
      mb_msgs (fst s') = mb_msgs (fst s) @ [v]"
    using mb_put_ok [OF i, of v] a(2) by (auto simp: mb_try_put_def)
next
  fix s :: "rt_mailbox \<times> kernel" and v
  assume "mb_inv (fst s) \<and> (\<exists>i. running i (snd s))" "\<not> length (mb_msgs (fst s)) < mb_size (fst s)"
  then show "\<exists>s'. mb_try_put s v = Inr (False, s') \<and> (mb_inv (fst s') \<and> (\<exists>i. running i (snd s'))) \<and> mb_size (fst s') = mb_size (fst s) \<and>
      mb_msgs (fst s') = mb_msgs (fst s)"
    by (auto simp: mb_try_put_def rt_mb_send_def rt_mb_send_wait_def mb_inv_def RT_ASSERT_def)
next
  fix s :: "rt_mailbox \<times> kernel"
  assume "mb_inv (fst s) \<and> (\<exists>i. running i (snd s))" "mb_msgs (fst s) = []"
  moreover from this have "mb_entry (fst s) = 0" by (metis length_mb_msgs list.size(3))
  ultimately show "\<exists>s'. mb_try_get s = Inr (None, s') \<and> (mb_inv (fst s') \<and> (\<exists>i. running i (snd s'))) \<and> mb_size (fst s') = mb_size (fst s) \<and>
      mb_msgs (fst s') = []"
    by (auto simp: mb_try_get_def rt_mb_recv_def mb_inv_def RT_ASSERT_def)
next
  fix s :: "rt_mailbox \<times> kernel" and v vs
  assume a: "mb_inv (fst s) \<and> (\<exists>i. running i (snd s))" "mb_msgs (fst s) = v # vs"
  then obtain i where i: "mb_inv (fst s)" "running i (snd s)" by blast
  have e: "mb_entry (fst s) \<noteq> 0" using a(2) length_mb_msgs [of "fst s"] by auto
  then have "rt_mb_recv 0 (fst s) (snd s) = mb_get (fst s) (snd s)"
    using a by (auto simp: rt_mb_recv_def mb_recv_loop_def mb_inv_def RT_ASSERT_def)
  then show "\<exists>s'. mb_try_get s = Inr (Some v, s') \<and> (mb_inv (fst s') \<and> (\<exists>i. running i (snd s'))) \<and> mb_size (fst s') = mb_size (fst s) \<and>
      mb_msgs (fst s') = vs"
    using mb_get_ok [OF i e] a(2) by (auto simp: mb_try_get_def)
qed

section \<open>Runs with a mailbox\<close>

definition may_block :: "nat \<Rightarrow> int \<Rightarrow> kernel \<Rightarrow> bool" where
  \<comment> \<open>the caller is not the idle thread, the scheduler is not locked, the time limit is in the range of the timer\<close>
  "may_block i timeout k \<longleftrightarrow> current_thread k \<noteq> Some i \<and> lock_nest k = 0 \<and> timeout < 0x7FFFFFFF"

fun opt_list :: "'a option \<Rightarrow> 'a list" where
  "opt_list None = []" | "opt_list (Some v) = [v]"

lemma mb_send_loop_ok:
  assumes "mb_inv mb" and "running i k" and "mb_entry mb = mb_size mb \<Longrightarrow> may_block i timeout k"
  shows "\<exists>r mb' k'. mb_send_loop v timeout mb k = Inr (r, mb', k') \<and> mb_inv mb' \<and> running i k' \<and>
    mb_msgs mb' = (if r = Done RT_EOK then mb_msgs mb @ [v] else mb_msgs mb) \<and> mb_list mb' = mb_list mb \<and> mb_sender_list mb' = mb_sender_list mb"
proof (cases "mb_entry mb = mb_size mb")
  case False
  then have "mb_entry mb < mb_size mb" using assms(1) by (simp add: mb_inv_def)
  from mb_put_ok [OF assms(1,2) this, of v] show ?thesis using False by (auto simp: mb_send_loop_def)
next
  case True
  obtain t where t: "current_thread k = Some t" "t \<noteq> i" "lock_nest k = 0" "timeout < 0x7FFFFFFF"
    using assms(2) assms(3) [OF True] by (auto simp: running_def cur_ready_def may_block_def split: option.splits)
  let ?k = "set_thread t (\<lambda>th. th\<lparr>error := RT_EOK\<rparr>) k"
  have "\<exists>k'. wait_on (mb_sender_list mb) (mb_flag mb) t timeout ?k = Inr k' \<and> running i k'"
    using wait_on_ok [of i ?k t timeout "mb_sender_list mb" "mb_flag mb"] assms(2) t by auto
  then show ?thesis using True t assms by (auto simp: mb_send_loop_def Let_def)
qed

lemma mb_recv_loop_ok:
  assumes "mb_inv mb" and "running i k" and "mb_entry mb = 0 \<Longrightarrow> may_block i timeout k"
  shows "\<exists>r w mb' k'. mb_recv_loop timeout mb k = Inr (r, w, mb', k') \<and> mb_inv mb' \<and> running i k' \<and>
    mb_msgs mb = opt_list w @ mb_msgs mb' \<and>
    mb_list mb' = mb_list mb \<and> mb_sender_list mb' = mb_sender_list mb"
proof (cases "mb_entry mb = 0")
  case False
  from mb_get_ok [OF assms(1,2) this] show ?thesis using False by (auto simp: mb_recv_loop_def)
next
  case True
  obtain t where t: "current_thread k = Some t" "t \<noteq> i" "lock_nest k = 0" "timeout < 0x7FFFFFFF"
    using assms(2) assms(3) [OF True] by (auto simp: running_def cur_ready_def may_block_def split: option.splits)
  let ?k = "set_thread t (\<lambda>th. th\<lparr>error := RT_EOK\<rparr>) k"
  have "\<exists>k'. wait_on (mb_list mb) (mb_flag mb) t timeout ?k = Inr k' \<and> running i k'"
    using wait_on_ok [of i ?k t timeout "mb_list mb" "mb_flag mb"] assms(2) t by auto
  then show ?thesis using True t assms by (auto simp: mb_recv_loop_def)
qed

datatype mb_event = Sent msg_word | Received msg_word

inductive mb_run :: "nat \<Rightarrow> rt_mailbox \<times> kernel \<Rightarrow> mb_event list \<Rightarrow> rt_mailbox \<times> kernel \<Rightarrow> bool" for i :: nat and s0 :: "rt_mailbox \<times> kernel" where
  mb_start: "mb_run i s0 [] s0"
| mb_send: "mb_run i s0 es (mb, k) \<Longrightarrow> timeout = 0 \<or> may_block i timeout k \<Longrightarrow> rt_mb_send_wait v timeout mb k = Inr (r, mb', k') \<Longrightarrow>
    mb_run i s0 (es @ (if r = Done RT_EOK then [Sent v] else [])) (mb', k')"
| mb_send_more: "mb_run i s0 es (mb, k) \<Longrightarrow> may_block i (time_left timeout start k) k \<Longrightarrow> mb_send_return t start v timeout mb k = Inr (r, mb', k') \<Longrightarrow>
    mb_run i s0 (es @ (if r = Done RT_EOK then [Sent v] else [])) (mb', k')"
| mb_recv: "mb_run i s0 es (mb, k) \<Longrightarrow> timeout = 0 \<or> may_block i timeout k \<Longrightarrow> rt_mb_recv timeout mb k = Inr (r, w, mb', k') \<Longrightarrow>
    mb_run i s0 (es @ (case w of None \<Rightarrow> [] | Some v \<Rightarrow> [Received v])) (mb', k')"
| mb_recv_more: "mb_run i s0 es (mb, k) \<Longrightarrow> may_block i (time_left timeout start k) k \<Longrightarrow> mb_recv_return t start timeout mb k = Inr (r, w, mb', k') \<Longrightarrow>
    mb_run i s0 (es @ (case w of None \<Rightarrow> [] | Some v \<Rightarrow> [Received v])) (mb', k')"
| mb_others: "mb_run i s0 es (mb, k) \<Longrightarrow> others i {mb_list mb, mb_sender_list mb} k k' \<Longrightarrow> mb_run i s0 es (mb, k')"

fun sent :: "mb_event list \<Rightarrow> msg_word list" where
  "sent [] = []" | "sent (Sent v # es) = v # sent es" | "sent (Received v # es) = sent es"

fun received :: "mb_event list \<Rightarrow> msg_word list" where
  "received [] = []" | "received (Sent v # es) = received es" | "received (Received v # es) = v # received es"

lemma sent_append [simp]: "sent (es @ fs) = sent es @ sent fs"
  by (induction es rule: sent.induct) simp_all

lemma received_append [simp]: "received (es @ fs) = received es @ received fs"
  by (induction es rule: received.induct) simp_all

definition mb_ok :: "nat \<Rightarrow> rt_mailbox \<times> kernel \<Rightarrow> bool" where
  "mb_ok i s \<longleftrightarrow> mb_inv (fst s) \<and> running i (snd s)"

lemma mb_ok_pair [simp]: "mb_ok i (mb, k) \<longleftrightarrow> mb_inv mb \<and> running i k"
  by (simp add: mb_ok_def)

lemma send_step:
  assumes "mb_ok i (mb, k)" and "timeout = 0 \<or> may_block i timeout k"
  shows "\<exists>r mb' k'. rt_mb_send_wait v timeout mb k = Inr (r, mb', k') \<and> mb_ok i (mb', k') \<and>
    mb_msgs mb' = (if r = Done RT_EOK then mb_msgs mb @ [v] else mb_msgs mb)"
proof (cases "mb_entry mb = mb_size mb \<and> timeout = 0")
  case True
  then show ?thesis using assms(1) by (simp add: rt_mb_send_wait_def mb_ok_def mb_inv_def RT_ASSERT_def)
next
  case False
  have e: "rt_mb_send_wait v timeout mb k = mb_send_loop v timeout mb k" using assms(1) False
    by (auto simp: rt_mb_send_wait_def mb_inv_def RT_ASSERT_def)
  have "mb_entry mb = mb_size mb \<Longrightarrow> may_block i timeout k" using False assms(2) by blast
  then show ?thesis unfolding e mb_ok_pair using mb_send_loop_ok [of mb i k timeout v] assms(1) unfolding mb_ok_pair by blast
qed

lemma send_more_step:
  assumes "mb_ok i (mb, k)" and "may_block i (time_left timeout start k) k"
  shows "\<exists>r mb' k'. mb_send_return t start v timeout mb k = Inr (r, mb', k') \<and> mb_ok i (mb', k') \<and>
    mb_msgs mb' = (if r = Done RT_EOK then mb_msgs mb @ [v] else mb_msgs mb)"
proof (cases "error (thread k t) = RT_EOK")
  case True
  then have e: "mb_send_return t start v timeout mb k = mb_send_loop v (time_left timeout start k) mb k" by (simp add: mb_send_return_def)
  show ?thesis unfolding e mb_ok_pair using mb_send_loop_ok [of mb i k "time_left timeout start k" v] assms unfolding mb_ok_pair by blast
next
  case False
  then show ?thesis using assms(1) by (simp add: mb_send_return_def)
qed

lemma recv_step:
  assumes "mb_ok i (mb, k)" and "timeout = 0 \<or> may_block i timeout k"
  shows "\<exists>r w mb' k'. rt_mb_recv timeout mb k = Inr (r, w, mb', k') \<and> mb_ok i (mb', k') \<and>
    mb_msgs mb = opt_list w @ mb_msgs mb'"
proof (cases "mb_entry mb = 0 \<and> timeout = 0")
  case True
  then have "rt_mb_recv timeout mb k = Inr (Done (- RT_ETIMEOUT), None, mb, k)"
    using assms(1) by (simp add: rt_mb_recv_def mb_inv_def RT_ASSERT_def)
  then show ?thesis using assms(1) by auto
next
  case False
  have e: "rt_mb_recv timeout mb k = mb_recv_loop timeout mb k" using assms(1) False
    by (auto simp: rt_mb_recv_def mb_inv_def RT_ASSERT_def)
  have m: "mb_entry mb = 0 \<Longrightarrow> may_block i timeout k" using False assms(2) by blast
  have ok: "mb_inv mb" "running i k" using assms(1) by simp_all
  show ?thesis unfolding e mb_ok_pair using mb_recv_loop_ok [of mb i k timeout, OF ok m] by blast
qed

lemma recv_more_step:
  assumes "mb_ok i (mb, k)" and "may_block i (time_left timeout start k) k"
  shows "\<exists>r w mb' k'. mb_recv_return t start timeout mb k = Inr (r, w, mb', k') \<and> mb_ok i (mb', k') \<and>
    mb_msgs mb = opt_list w @ mb_msgs mb'"
proof (cases "error (thread k t) = RT_EOK")
  case True
  then have e: "mb_recv_return t start timeout mb k = mb_recv_loop (time_left timeout start k) mb k" by (simp add: mb_recv_return_def)
  show ?thesis unfolding e mb_ok_pair using mb_recv_loop_ok [of mb i k "time_left timeout start k"] assms unfolding mb_ok_pair by blast
next
  case False
  then show ?thesis using assms(1) by (simp add: mb_recv_return_def)
qed

lemma mb_run_inv:
  assumes "mb_run i s0 es s" and "mb_ok i s0"
  shows "mb_ok i s \<and> mb_msgs (fst s0) @ sent es = received es @ mb_msgs (fst s)"
  using assms(1)
proof (induction rule: mb_run.induct)
  case mb_start
  then show ?case using assms(2) by simp
next
  case (mb_send es mb k timeout v r mb' k')
  then show ?case using send_step [of i mb k timeout v] by (auto split: if_splits)
next
  case (mb_send_more es mb k timeout start t v r mb' k')
  then show ?case using send_more_step [of i mb k timeout start t v] by (auto split: if_splits)
next
  case (mb_recv es mb k timeout r w mb' k')
  then show ?case using recv_step [of i mb k timeout] by (auto split: option.splits)
next
  case (mb_recv_more es mb k timeout start t r w mb' k')
  then show ?case using recv_more_step [of i mb k timeout start t] by (auto split: option.splits)
next
  case (mb_others es mb k k')
  then show ?case by (simp add: mb_ok_def others_def)
qed

text \<open>
  C13. A mailbox loses, duplicates and reorders nothing. In every run in which threads send and receive with or without a time limit, block, are
  woken or time out, and other kernel operations happen in between, in any order, the messages received so far followed by the ones in the mailbox
  are the messages sent so far. No call faults, and the mailbox never holds more messages than its size.
\<close>
theorem rt_mb_fifo:
  assumes "mb_run i (mb0, k0) es (mb, k)" and "running i k0" and "mb_inv mb0" and "mb_entry mb0 = 0"
  shows "sent es = received es @ mb_msgs mb \<and> length (mb_msgs mb) \<le> mb_size mb \<and> running i k \<and>
    (timeout = 0 \<or> may_block i timeout k \<longrightarrow>
       (\<exists>r mb' k'. rt_mb_send_wait v timeout mb k = Inr (r, mb', k')) \<and> (\<exists>r w mb' k'. rt_mb_recv timeout mb k = Inr (r, w, mb', k')))"
proof -
  have "mb_ok i (mb0, k0)" using assms(2,3) by (simp add: mb_ok_def)
  then have inv: "mb_ok i (mb, k)" "mb_msgs mb0 @ sent es = received es @ mb_msgs mb" using mb_run_inv [OF assms(1)] by simp_all
  have "mb_msgs mb0 = []" using assms(4) by (simp add: mb_msgs_def)
  then show ?thesis using inv send_step [OF inv(1), of timeout v] recv_step [OF inv(1), of timeout]
    by (auto simp: mb_ok_def mb_inv_def)
qed

definition sample_box :: rt_mailbox where
  "sample_box = \<lparr>mb_class = Class_Static, msg_pool = replicate 16 0, mb_size = 16, mb_entry = 0, mb_in_offset = 15, mb_out_offset = 15,
     mb_list = 3, mb_sender_list = 4, mb_flag = RT_IPC_FLAG_FIFO\<rparr>"

theorem rt_mb_fifo_witness:
  "\<exists>mb. rt_mb_send 42 sample_box two_threads = Inr (Done RT_EOK, mb, two_threads) \<and> mb_msgs mb = [42]"
proof -
  have i: "mb_inv sample_box" "mb_entry sample_box = 0" by (simp_all add: sample_box_def mb_inv_def)
  obtain mb where s: "rt_mb_send_wait 42 0 sample_box two_threads = Inr (Done RT_EOK, mb, two_threads)"
    by (simp add: rt_mb_send_wait_def mb_send_loop_def mb_put_def mb_wake_def sample_box_def two_threads_waiting RT_ASSERT_def Let_def)
  have "mb_run 0 (sample_box, two_threads) ([] @ (if Done RT_EOK = Done RT_EOK then [Sent 42] else [])) (mb, two_threads)"
    by (rule mb_run.mb_send [OF mb_run.mb_start _ s]) simp
  then show ?thesis using rt_mb_fifo [OF _ two_threads_running i, of "[Sent 42]" mb two_threads] s by (simp add: rt_mb_send_def)
qed

end
