(* ===== verification/Spi_Flash.thy ===== *)
theory Spi_Flash
  imports Prelude
begin

unbundle bit_operations_syntax

text \<open>
  The driver of the serial flash (\<^verbatim>\<open>src/applications/spi_flash/spi_flash.c\<close>, over
  \<open>SPI1_ReadWriteByte\<close> of \<^verbatim>\<open>src/cubemx/Src/spi.c\<close>).

  The chip is hardware: \<open>cs\<close> sets its select line and \<open>xfer\<close> exchanges one byte with it; both are
  arguments of every definition. The locale \<open>w25q\<close> states the behaviour the data sheet of the W25Q family
  documents and the driver relies on, for each command as one transaction between two edges of the
  select line: reading, programming a page (bits can only be cleared), erasing a sector, the write enable
  latch and the busy flag. The locale is interpreted for \<open>w25q_cs\<close> and \<open>w25q_xfer\<close>, a chip with the geometry of the
  W25Q128.

  16-bit counters are natural numbers, 32-bit addresses natural numbers with the wrap-around written out.
  The wait for the busy flag has no bound in the source; its bound \<open>polls\<close> is an argument, running out is the
  fault \<open>Diverges\<close>, and the properties show that it does not happen when the chip gets ready within that
  many polls.
\<close>

section \<open>The bus\<close>

type_synonym byte = "8 word"
type_synonym 'c chip_cs = "bool \<Rightarrow> 'c \<Rightarrow> 'c"
type_synonym 'c chip_xfer = "byte \<Rightarrow> 'c \<Rightarrow> byte \<times> 'c"

record 'c flash =
  chip :: 'c
  W25QXX_TYPE :: "16 word"
  W25QXX_BUFFER :: "byte list"

abbreviation W25Q128 :: "16 word" where "W25Q128 \<equiv> 0xEF17"
abbreviation W25Q256 :: "16 word" where "W25Q256 \<equiv> 0xEF18"

definition W25QXX_CS :: "'c chip_cs \<Rightarrow> bool \<Rightarrow> 'c flash \<Rightarrow> 'c flash" where
  "W25QXX_CS cs n s = s\<lparr>chip := cs n (chip s)\<rparr>"

definition SPI1_ReadWriteByte :: "'c chip_xfer \<Rightarrow> byte \<Rightarrow> 'c flash \<Rightarrow> byte \<times> 'c flash" where
  "SPI1_ReadWriteByte xfer TxData s = (let (Rxdata, c) = xfer TxData (chip s) in (Rxdata, s\<lparr>chip := c\<rparr>))"

fun spi_bytes :: "'c chip_xfer \<Rightarrow> byte list \<Rightarrow> 'c flash \<Rightarrow> byte list \<times> 'c flash" where
  \<comment> \<open>a sequence of \<open>SPI1_ReadWriteByte\<close>\<close>
  "spi_bytes xfer [] s = ([], s)"
| "spi_bytes xfer (b # bs) s =
     (let (r, s1) = SPI1_ReadWriteByte xfer b s; (rs, s2) = spi_bytes xfer bs s1 in (r # rs, s2))"

definition transaction :: "'c chip_cs \<Rightarrow> 'c chip_xfer \<Rightarrow> byte list \<Rightarrow> 'c flash \<Rightarrow> byte list \<times> 'c flash" where
  \<comment> \<open>select the chip, exchange the bytes, deselect it\<close>
  "transaction cs xfer bs s =
     (let (rx, s1) = spi_bytes xfer bs (W25QXX_CS cs False s) in (rx, W25QXX_CS cs True s1))"

definition address_bytes :: "16 word \<Rightarrow> nat \<Rightarrow> byte list" where
  "address_bytes type addr =
     (if type = W25Q256 then [word_of_nat (addr div 2 ^ 24)] else []) @
     [word_of_nat (addr div 2 ^ 16), word_of_nat (addr div 2 ^ 8), word_of_nat addr]"

section \<open>Commands\<close>

definition W25QXX_ReadSR :: "'c chip_cs \<Rightarrow> 'c chip_xfer \<Rightarrow> nat \<Rightarrow> 'c flash \<Rightarrow> byte \<times> 'c flash" where
  "W25QXX_ReadSR cs xfer regno s =
     (let command = (if regno = 1 then 0x05 else if regno = 2 then 0x35 else if regno = 3 then 0x15 else 0x05);
          (rx, s) = transaction cs xfer [command, 0xFF] s
      in (rx ! 1, s))"

definition W25QXX_Write_SR :: "'c chip_cs \<Rightarrow> 'c chip_xfer \<Rightarrow> nat \<Rightarrow> byte \<Rightarrow> 'c flash \<Rightarrow> 'c flash" where
  "W25QXX_Write_SR cs xfer regno sr s =
     (let command = (if regno = 1 then 0x01 else if regno = 2 then 0x31 else if regno = 3 then 0x11 else 0x01)
      in snd (transaction cs xfer [command, sr] s))"

definition W25QXX_Write_Enable :: "'c chip_cs \<Rightarrow> 'c chip_xfer \<Rightarrow> 'c flash \<Rightarrow> 'c flash" where
  "W25QXX_Write_Enable cs xfer s = snd (transaction cs xfer [0x06] s)"

definition W25QXX_Write_Disable :: "'c chip_cs \<Rightarrow> 'c chip_xfer \<Rightarrow> 'c flash \<Rightarrow> 'c flash" where
  "W25QXX_Write_Disable cs xfer s = snd (transaction cs xfer [0x04] s)"

definition W25QXX_ReadID :: "'c chip_cs \<Rightarrow> 'c chip_xfer \<Rightarrow> 'c flash \<Rightarrow> 16 word \<times> 'c flash" where
  "W25QXX_ReadID cs xfer s =
     (let (rx, s) = transaction cs xfer [0x90, 0x00, 0x00, 0x00, 0xFF, 0xFF] s
      in (push_bit 8 (ucast (rx ! 4)) OR ucast (rx ! 5), s))"

definition W25QXX_PowerDown :: "'c chip_cs \<Rightarrow> 'c chip_xfer \<Rightarrow> 'c flash \<Rightarrow> 'c flash" where
  "W25QXX_PowerDown cs xfer s = snd (transaction cs xfer [0xB9] s)"

definition W25QXX_WAKEUP :: "'c chip_cs \<Rightarrow> 'c chip_xfer \<Rightarrow> 'c flash \<Rightarrow> 'c flash" where
  "W25QXX_WAKEUP cs xfer s = snd (transaction cs xfer [0xAB] s)"

fun W25QXX_Wait_Busy :: "nat \<Rightarrow> 'c chip_cs \<Rightarrow> 'c chip_xfer \<Rightarrow> 'c flash \<Rightarrow> 'c flash res" where
  "W25QXX_Wait_Busy 0 cs xfer s = Inl Diverges"
| "W25QXX_Wait_Busy (Suc polls) cs xfer s =
     (let (sr, s) = W25QXX_ReadSR cs xfer 1 s in
      if sr AND 0x01 = 0x01 then W25QXX_Wait_Busy polls cs xfer s else Inr s)"

definition W25QXX_Init :: "'c chip_cs \<Rightarrow> 'c chip_xfer \<Rightarrow> 'c flash \<Rightarrow> 'c flash" where
  \<comment> \<open>with \<open>SPI_FLASH\<close> defined; \<open>MX_SPI1_Init\<close> ends with one exchange while the chip is not selected\<close>
  "W25QXX_Init cs xfer s =
     (let s = W25QXX_CS cs True s;
          s = snd (SPI1_ReadWriteByte xfer 0xFF s);
          (type, s) = W25QXX_ReadID cs xfer s;
          s = s\<lparr>W25QXX_TYPE := type\<rparr>
      in if type = W25Q256
         then (let (temp, s) = W25QXX_ReadSR cs xfer 3 s in
               if temp AND 0x01 = 0 then snd (transaction cs xfer [0xB7] s) else s)
         else s)"

section \<open>Reading, writing, erasing\<close>

definition W25QXX_Read :: "'c chip_cs \<Rightarrow> 'c chip_xfer \<Rightarrow> byte list \<Rightarrow> nat \<Rightarrow> nat \<Rightarrow> 'c flash \<Rightarrow> (byte list \<times> 'c flash) res" where
  "W25QXX_Read cs xfer pBuffer ReadAddr NumByteToRead s =
     (let a = address_bytes (W25QXX_TYPE s) ReadAddr;
          (rx, s) = transaction cs xfer (0x03 # a @ replicate NumByteToRead 0xFF) s
      in bnd (blit pBuffer 0 (drop (1 + length a) rx)) (\<lambda>b. Inr (b, s)))"

definition W25QXX_Write_Page ::
  "nat \<Rightarrow> 'c chip_cs \<Rightarrow> 'c chip_xfer \<Rightarrow> byte list \<Rightarrow> nat \<Rightarrow> nat \<Rightarrow> 'c flash \<Rightarrow> 'c flash res" where
  "W25QXX_Write_Page polls cs xfer pBuffer WriteAddr NumByteToWrite s =
     bnd (slice pBuffer 0 NumByteToWrite) (\<lambda>d.
     let s = W25QXX_Write_Enable cs xfer s;
         (_, s) = transaction cs xfer (0x02 # address_bytes (W25QXX_TYPE s) WriteAddr @ d) s
     in W25QXX_Wait_Busy polls cs xfer s)"

function write_pages ::
  "nat \<Rightarrow> 'c chip_cs \<Rightarrow> 'c chip_xfer \<Rightarrow> byte list \<Rightarrow> nat \<Rightarrow> nat \<Rightarrow> nat \<Rightarrow> 'c flash \<Rightarrow> 'c flash res" where
  \<comment> \<open>the loop of \<open>W25QXX_Write_NoCheck\<close>; \<open>pageremain\<close> is at most \<open>NumByteToWrite\<close>\<close>
  "write_pages polls cs xfer pBuffer WriteAddr NumByteToWrite pageremain s =
     bnd (W25QXX_Write_Page polls cs xfer pBuffer WriteAddr pageremain s) (\<lambda>s.
     if NumByteToWrite = pageremain then Inr s
     else let NumByteToWrite' = NumByteToWrite - pageremain in
          write_pages polls cs xfer (drop pageremain pBuffer) ((WriteAddr + pageremain) mod 2 ^ 32) NumByteToWrite'
            (if NumByteToWrite' > 256 then 256 else NumByteToWrite') s)"
  by pat_completeness auto
termination
  by (relation "measure (\<lambda>(polls, cs, xfer, b, a, n, p, s). if n = p then 0 else 2 * n + (if p = 0 then 2 else 1))") auto

declare write_pages.simps [simp del]

definition W25QXX_Write_NoCheck ::
  "nat \<Rightarrow> 'c chip_cs \<Rightarrow> 'c chip_xfer \<Rightarrow> byte list \<Rightarrow> nat \<Rightarrow> nat \<Rightarrow> 'c flash \<Rightarrow> 'c flash res" where
  "W25QXX_Write_NoCheck polls cs xfer pBuffer WriteAddr NumByteToWrite s =
     (let pageremain = 256 - WriteAddr mod 256 in
      write_pages polls cs xfer pBuffer WriteAddr NumByteToWrite
        (if NumByteToWrite \<le> pageremain then NumByteToWrite else pageremain) s)"

definition W25QXX_Erase_Sector :: "nat \<Rightarrow> 'c chip_cs \<Rightarrow> 'c chip_xfer \<Rightarrow> nat \<Rightarrow> 'c flash \<Rightarrow> 'c flash res" where
  "W25QXX_Erase_Sector polls cs xfer Dst_Addr s =
     (let addr = Dst_Addr * 4096 mod 2 ^ 32; s = W25QXX_Write_Enable cs xfer s in
      bnd (W25QXX_Wait_Busy polls cs xfer s) (\<lambda>s.
      W25QXX_Wait_Busy polls cs xfer (snd (transaction cs xfer (0x20 # address_bytes (W25QXX_TYPE s) addr) s))))"

definition W25QXX_Erase_Chip :: "nat \<Rightarrow> 'c chip_cs \<Rightarrow> 'c chip_xfer \<Rightarrow> 'c flash \<Rightarrow> 'c flash res" where
  "W25QXX_Erase_Chip polls cs xfer s =
     bnd (W25QXX_Wait_Busy polls cs xfer (W25QXX_Write_Enable cs xfer s)) (\<lambda>s.
     W25QXX_Wait_Busy polls cs xfer (snd (transaction cs xfer [0xC7] s)))"

definition write_sector ::
  "nat \<Rightarrow> 'c chip_cs \<Rightarrow> 'c chip_xfer \<Rightarrow> byte list \<Rightarrow> nat \<Rightarrow> nat \<Rightarrow> nat \<Rightarrow> nat \<Rightarrow> 'c flash \<Rightarrow> 'c flash res" where
  \<comment> \<open>one round of the loop of \<open>W25QXX_Write\<close>: the part of the data that lies in one sector\<close>
  "write_sector polls cs xfer pBuffer WriteAddr secpos secoff secremain s =
     bnd (W25QXX_Read cs xfer (W25QXX_BUFFER s) (secpos * 4096 mod 2 ^ 32) 4096 s) (\<lambda>(buf, s).
     let s = s\<lparr>W25QXX_BUFFER := buf\<rparr> in
     bnd (slice buf secoff secremain) (\<lambda>old.
     if list_ex (\<lambda>b. b \<noteq> 0xFF) old
     then bnd (W25QXX_Erase_Sector polls cs xfer secpos s) (\<lambda>s.
          bnd (slice pBuffer 0 secremain) (\<lambda>d.
          bnd (blit (W25QXX_BUFFER s) secoff d) (\<lambda>buf.
          W25QXX_Write_NoCheck polls cs xfer buf (secpos * 4096 mod 2 ^ 32) 4096 (s\<lparr>W25QXX_BUFFER := buf\<rparr>))))
     else W25QXX_Write_NoCheck polls cs xfer pBuffer WriteAddr secremain s))"

function write_sectors ::
  "nat \<Rightarrow> 'c chip_cs \<Rightarrow> 'c chip_xfer \<Rightarrow> byte list \<Rightarrow> nat \<Rightarrow> nat \<Rightarrow> nat \<Rightarrow> nat \<Rightarrow> nat \<Rightarrow> 'c flash \<Rightarrow> 'c flash res" where
  \<comment> \<open>the loop of \<open>W25QXX_Write\<close>; \<open>secremain\<close> is at most \<open>NumByteToWrite\<close>\<close>
  "write_sectors polls cs xfer pBuffer WriteAddr secpos secoff secremain NumByteToWrite s =
     bnd (write_sector polls cs xfer pBuffer WriteAddr secpos secoff secremain s) (\<lambda>s.
     if NumByteToWrite = secremain then Inr s
     else let NumByteToWrite' = NumByteToWrite - secremain in
          write_sectors polls cs xfer (drop secremain pBuffer) ((WriteAddr + secremain) mod 2 ^ 32)
            ((secpos + 1) mod 2 ^ 32) 0
            (if NumByteToWrite' > 4096 then 4096 else NumByteToWrite') NumByteToWrite' s)"
  by pat_completeness auto
termination
  by (relation "measure (\<lambda>(polls, cs, xfer, b, a, sp, so, sr, n, s). if n = sr then 0 else 2 * n + (if sr = 0 then 2 else 1))") auto

declare write_sectors.simps [simp del]

definition W25QXX_Write ::
  "nat \<Rightarrow> 'c chip_cs \<Rightarrow> 'c chip_xfer \<Rightarrow> byte list \<Rightarrow> nat \<Rightarrow> nat \<Rightarrow> 'c flash \<Rightarrow> 'c flash res" where
  "W25QXX_Write polls cs xfer pBuffer WriteAddr NumByteToWrite s =
     (let secpos = WriteAddr div 4096; secoff = WriteAddr mod 4096; secremain = 4096 - secoff in
      write_sectors polls cs xfer pBuffer WriteAddr secpos secoff
        (if NumByteToWrite \<le> secremain then NumByteToWrite else secremain) NumByteToWrite s)"

section \<open>The chip\<close>

fun chip_bytes :: "'c chip_xfer \<Rightarrow> byte list \<Rightarrow> 'c \<Rightarrow> byte list \<times> 'c" where
  "chip_bytes xfer [] c = ([], c)"
| "chip_bytes xfer (b # bs) c = (let (r, c1) = xfer b c; (rs, c2) = chip_bytes xfer bs c1 in (r # rs, c2))"

definition chip_trans :: "'c chip_cs \<Rightarrow> 'c chip_xfer \<Rightarrow> byte list \<Rightarrow> 'c \<Rightarrow> byte list \<times> 'c" where
  "chip_trans cs xfer bs c = (let (rx, c1) = chip_bytes xfer bs (cs False c) in (rx, cs True c1))"

lemma spi_bytes_chip: "spi_bytes xfer bs s = (let (rx, c) = chip_bytes xfer bs (chip s) in (rx, s\<lparr>chip := c\<rparr>))"
  by (induction bs arbitrary: s) (simp_all add: SPI1_ReadWriteByte_def Let_def split: prod.split)

lemma transaction_chip:
  "transaction cs xfer bs s = (fst (chip_trans cs xfer bs (chip s)), s\<lparr>chip := snd (chip_trans cs xfer bs (chip s))\<rparr>)"
  by (simp add: transaction_def chip_trans_def spi_bytes_chip W25QXX_CS_def Let_def split: prod.split)

definition addr_of :: "byte list \<Rightarrow> nat" where
  "addr_of a = foldl (\<lambda>n b. 256 * n + unat b) 0 a"

definition addr_len :: "16 word \<Rightarrow> nat" where
  "addr_len type = (if type = W25Q256 then 4 else 3)"

lemma length_address_bytes [simp]: "length (address_bytes type addr) = addr_len type"
  by (simp add: address_bytes_def addr_len_def)

lemma unat_of_nat8: "unat (word_of_nat n :: byte) = n mod 256"
  by (simp add: unat_of_nat)

lemma addr_of_address_bytes: "addr_of (address_bytes type addr) = addr mod 256 ^ addr_len type"
proof -
  have d: "addr mod (256 * m) = 256 * (addr div 256 mod m) + addr mod 256" for addr m :: nat
    by (rule mod_mult2_eq)
  have "addr div 256 div 256 = addr div 65536" "addr div 65536 div 256 = addr div 16777216" by (simp_all add: div_mult2_eq [symmetric])
  then have 3: "addr mod 16777216 = 256 * (256 * (addr div 65536 mod 256) + addr div 256 mod 256) + addr mod 256"
    and 4: "addr mod 4294967296 =
      256 * (256 * (256 * (addr div 16777216 mod 256) + addr div 65536 mod 256) + addr div 256 mod 256) + addr mod 256"
    using d [of addr 65536] d [of "addr div 256" 256] d [of addr 16777216] d [of "addr div 256" 65536] d [of "addr div 65536" 256]
    by simp_all
  show ?thesis
    by (simp add: addr_of_def address_bytes_def addr_len_def unat_of_nat8 3 4)
qed

definition eff_addr :: "nat \<Rightarrow> nat \<Rightarrow> nat" where
  \<comment> \<open>the address the chip decodes from the bytes sent for the address \<open>a\<close>\<close>
  "eff_addr alen a = a mod 256 ^ alen"

definition program_mem :: "(nat \<Rightarrow> byte) \<Rightarrow> nat \<Rightarrow> byte list \<Rightarrow> nat \<Rightarrow> byte" where
  \<comment> \<open>programming can only clear bits\<close>
  "program_mem m a d = (\<lambda>x. if a \<le> x \<and> x < a + length d then m x AND d ! (x - a) else m x)"

definition erase_mem :: "(nat \<Rightarrow> byte) \<Rightarrow> nat \<Rightarrow> nat \<Rightarrow> byte" where
  "erase_mem m a = (\<lambda>x. if x div 4096 = a div 4096 then 0xFF else m x)"

definition write_mem :: "(nat \<Rightarrow> byte) \<Rightarrow> nat \<Rightarrow> byte list \<Rightarrow> nat \<Rightarrow> byte" where
  \<comment> \<open>what a write should do: the data at its place, everything else as before\<close>
  "write_mem m a d = (\<lambda>x. if a \<le> x \<and> x < a + length d then d ! (x - a) else m x)"

locale w25q =
  fixes cs :: "'c chip_cs"
    and xfer :: "'c chip_xfer"
    and mem :: "'c \<Rightarrow> nat \<Rightarrow> byte"
    and wel :: "'c \<Rightarrow> bool"
    and busy :: "'c \<Rightarrow> nat"
    and alen :: nat
    and cap :: nat
    and polls :: nat
  assumes sectors: "4096 dvd cap" "cap \<le> 256 ^ alen" "2 \<le> alen"
    and write_enable: "busy c = 0 \<Longrightarrow> chip_trans cs xfer [0x06] c = (rx, c') \<Longrightarrow>
      mem c' = mem c \<and> wel c' \<and> busy c' = 0"
    and status: "chip_trans cs xfer [0x05, 0xFF] c = (rx, c') \<Longrightarrow>
      (bit (rx ! 1) 0 \<longleftrightarrow> 0 < busy c) \<and> mem c' = mem c \<and> busy c' = busy c - 1 \<and> (busy c = 0 \<longrightarrow> wel c' = wel c)"
    and read_data: "busy c = 0 \<Longrightarrow> length a = alen \<Longrightarrow> addr_of a + n \<le> cap \<Longrightarrow>
      chip_trans cs xfer (0x03 # a @ replicate n 0xFF) c = (rx, c') \<Longrightarrow>
      drop (1 + alen) rx = map (mem c) [addr_of a..<addr_of a + n] \<and> mem c' = mem c \<and> busy c' = 0"
    and page_program: "busy c = 0 \<Longrightarrow> wel c \<Longrightarrow> length a = alen \<Longrightarrow> addr_of a < cap \<Longrightarrow> d \<noteq> [] \<Longrightarrow>
      addr_of a mod 256 + length d \<le> 256 \<Longrightarrow> chip_trans cs xfer (0x02 # a @ d) c = (rx, c') \<Longrightarrow>
      mem c' = program_mem (mem c) (addr_of a) d \<and> busy c' < polls"
    and sector_erase: "busy c = 0 \<Longrightarrow> wel c \<Longrightarrow> length a = alen \<Longrightarrow> addr_of a < cap \<Longrightarrow>
      chip_trans cs xfer (0x20 # a) c = (rx, c') \<Longrightarrow>
      mem c' = erase_mem (mem c) (addr_of a) \<and> busy c' < polls"
begin

lemma wait_busy:
  "busy (chip s) < n \<Longrightarrow> \<exists>c. W25QXX_Wait_Busy n cs xfer s = Inr (s\<lparr>chip := c\<rparr>) \<and> mem c = mem (chip s) \<and> busy c = 0 \<and>
     (busy (chip s) = 0 \<longrightarrow> wel c = wel (chip s))"
proof (induction n arbitrary: s)
  case (Suc n)
  obtain rx c where t: "chip_trans cs xfer [0x05, 0xFF] (chip s) = (rx, c)" by (metis surj_pair)
  note st = status [OF t]
  have r: "W25QXX_ReadSR cs xfer 1 s = (rx ! 1, s\<lparr>chip := c\<rparr>)" using t by (simp add: W25QXX_ReadSR_def transaction_chip)
  have b: "(rx ! 1) AND 1 = 1 \<longleftrightarrow> bit (rx ! 1) 0" by (simp add: and_one_eq odd_iff_mod_2_eq_one bit_0)
  show ?case
  proof (cases "busy (chip s) = 0")
    case True
    then show ?thesis using r st b by auto
  next
    case False
    then have "busy (chip (s\<lparr>chip := c\<rparr>)) < n" using st Suc.prems by auto
    from Suc.IH [OF this] show ?thesis using r st b False by auto
  qed
qed simp

end

lemma program_mem_append:
  "program_mem (program_mem m a d) (a + length d) e = program_mem m a (d @ e)"
  by (auto simp: program_mem_def fun_eq_iff nth_append)

lemma write_mem_append: "write_mem (write_mem m a d) (a + length d) e = write_mem m a (d @ e)"
  by (auto simp: write_mem_def fun_eq_iff nth_append)

lemma and_FF [simp]: "(0xFF :: byte) AND b = b"
proof -
  have "(0xFF :: byte) = - 1" by simp
  then show ?thesis by (simp only: and.left_neutral)
qed

lemma program_erased:
  "(\<And>x. a \<le> x \<Longrightarrow> x < a + length d \<Longrightarrow> m x = 0xFF) \<Longrightarrow> program_mem m a d = write_mem m a d"
  by (auto simp: program_mem_def write_mem_def fun_eq_iff)

lemma sector_div: "b mod 4096 = 0 \<Longrightarrow> x div 4096 = b div 4096 \<longleftrightarrow> b \<le> x \<and> x < b + (4096 :: nat)"
  by (auto elim!: dvdE simp: mod_eq_0_iff_dvd)

lemma program_sector:
  assumes "b mod 4096 = 0" and "off + length d \<le> 4096"
  shows "program_mem (erase_mem m b) b (overwrite (map m [b..<b + 4096]) off d) = write_mem m (b + off) d"
proof
  fix x
  have l: "length (overwrite (map m [b..<b + 4096]) off d) = 4096" using assms(2) by simp
  have "overwrite (map m [b..<b + 4096]) off d ! (x - b) = (if off \<le> x - b \<and> x - b < off + length d then d ! (x - b - off) else m x)"
    if "b \<le> x" "x < b + 4096" using that assms(2) by (simp add: nth_overwrite)
  then show "program_mem (erase_mem m b) b (overwrite (map m [b..<b + 4096]) off d) x = write_mem m (b + off) d x"
    using l sector_div [OF assms(1), of x] assms(2)
    by (auto simp: program_mem_def write_mem_def erase_mem_def)
qed

context w25q
begin

abbreviation eff :: "nat \<Rightarrow> nat" where
  "eff \<equiv> eff_addr alen"

lemma eff_mod: "k dvd 65536 \<Longrightarrow> eff a mod k = a mod k"
proof -
  assume "k dvd 65536"
  then have "k dvd 256 ^ alen" using sectors(3) le_imp_power_dvd [of 2 alen "256 :: nat"] by (simp add: dvd_trans)
  then show ?thesis by (simp add: eff_addr_def mod_mod_cancel)
qed

lemma eff_add: "eff a + n < 256 ^ alen \<Longrightarrow> eff (a + n) = eff a + n"
  by (simp add: eff_addr_def) (metis mod_add_left_eq mod_less)

lemma write_page:
  assumes "busy (chip s) = 0" and "addr_len (W25QXX_TYPE s) = alen" and "0 < n" and "n \<le> length b"
    and "eff a + n \<le> cap" and "a mod 256 + n \<le> 256"
  shows "\<exists>c. W25QXX_Write_Page polls cs xfer b a n s = Inr (s\<lparr>chip := c\<rparr>) \<and>
    mem c = program_mem (mem (chip s)) (eff a) (take n b) \<and> busy c = 0"
proof -
  obtain rx c1 where e: "chip_trans cs xfer [0x06] (chip s) = (rx, c1)" by (metis surj_pair)
  note we = write_enable [OF assms(1) e]
  let ?a = "address_bytes (W25QXX_TYPE s) a"
  obtain rx' c2 where p: "chip_trans cs xfer (0x02 # ?a @ take n b) c1 = (rx', c2)" by (metis surj_pair)
  have ad: "addr_of ?a = eff a" using assms(2) by (simp add: addr_of_address_bytes eff_addr_def)
  have ne: "take n b \<noteq> []" using assms(3,4) by auto
  have "mem c2 = program_mem (mem c1) (eff a) (take n b) \<and> busy c2 < polls"
    using page_program [OF _ _ _ _ ne _ p] we assms(2-6) ad eff_mod [of 256 a] by auto
  then show ?thesis using wait_busy [of "s\<lparr>chip := c2\<rparr>" polls] we e p assms(4)
    by (auto simp: W25QXX_Write_Page_def W25QXX_Write_Enable_def transaction_chip)
qed

lemma write_pages_ok:
  "busy (chip s) = 0 \<Longrightarrow> addr_len (W25QXX_TYPE s) = alen \<Longrightarrow> 0 < n \<Longrightarrow> n \<le> length b \<Longrightarrow> eff a + n \<le> cap \<Longrightarrow>
   a + n \<le> 2 ^ 32 \<Longrightarrow> p = min n (256 - a mod 256) \<Longrightarrow>
     \<exists>c. write_pages polls cs xfer b a n p s = Inr (s\<lparr>chip := c\<rparr>) \<and>
       mem c = program_mem (mem (chip s)) (eff a) (take n b) \<and> busy c = 0"
proof (induction n arbitrary: s b a p rule: less_induct)
  case (less n)
  have p: "0 < p" "p \<le> n" "a mod 256 + p \<le> 256" "p \<le> length b" "eff a + p \<le> cap" using less.prems by auto
  obtain c1 where c1: "W25QXX_Write_Page polls cs xfer b a p s = Inr (s\<lparr>chip := c1\<rparr>)"
    "mem c1 = program_mem (mem (chip s)) (eff a) (take p b)" "busy c1 = 0"
    using write_page [OF less.prems(1,2) p(1,4,5,3)] by blast
  show ?case
  proof (cases "n = p")
    case True
    then show ?thesis using c1 by (subst write_pages.simps) auto
  next
    case False
    then have n: "0 < n - p" "n - p < n" "p < n" using p by linarith+
    then have p': "p = 256 - a mod 256" using less.prems(7) by (simp add: min_def split: if_splits)
    have a': "(a + p) mod 2 ^ 32 = a + p" using less.prems(6) n(3) by simp
    have e: "eff (a + p) = eff a + p" using less.prems(5) n(3) sectors(2) by (intro eff_add) linarith
    have "(a + p) mod 256 = 0" using p(3) p' mod_add_left_eq [of a 256 p, symmetric] by simp
    then have q: "(if n - p > 256 then 256 else n - p) = min (n - p) (256 - (a + p) mod 256)" by auto
    obtain c2 where c2: "write_pages polls cs xfer (drop p b) (a + p) (n - p) (if n - p > 256 then 256 else n - p) (s\<lparr>chip := c1\<rparr>) =
        Inr (s\<lparr>chip := c2\<rparr>)" "mem c2 = program_mem (mem c1) (eff a + p) (take (n - p) (drop p b))" "busy c2 = 0"
      using less.IH [OF n(2) _ _ n(1) _ _ _ q, of "s\<lparr>chip := c1\<rparr>" "drop p b"] c1(3) less.prems(2,4-6) p(2) e
      by (auto simp: diff_le_mono)
    have "mem c2 = program_mem (mem (chip s)) (eff a) (take n b)"
      using program_mem_append [of "mem (chip s)" "eff a" "take p b" "take (n - p) (drop p b)"] c1(2) c2(2) p(2,4)
      by (simp add: take_add [symmetric] min_absorb2)
    then show ?thesis using c1(1) c2(1,3) False a' by (subst write_pages.simps) (auto simp: Let_def)
  qed
qed

lemma write_nocheck:
  assumes "busy (chip s) = 0" and "addr_len (W25QXX_TYPE s) = alen" and "0 < n" and "n \<le> length b" and "eff a + n \<le> cap"
    and "a + n \<le> 2 ^ 32"
  shows "\<exists>c. W25QXX_Write_NoCheck polls cs xfer b a n s = Inr (s\<lparr>chip := c\<rparr>) \<and>
    mem c = program_mem (mem (chip s)) (eff a) (take n b) \<and> busy c = 0"
  using write_pages_ok [OF assms refl] by (simp add: W25QXX_Write_NoCheck_def min_def Let_def)

lemma erase_sector:
  assumes "busy (chip s) = 0" and "addr_len (W25QXX_TYPE s) = alen" and "k * 4096 < 2 ^ 32" and "eff (k * 4096) < cap"
  shows "\<exists>c. W25QXX_Erase_Sector polls cs xfer k s = Inr (s\<lparr>chip := c\<rparr>) \<and>
    mem c = erase_mem (mem (chip s)) (eff (k * 4096)) \<and> busy c = 0"
proof -
  obtain rx c1 where e: "chip_trans cs xfer [0x06] (chip s) = (rx, c1)" by (metis surj_pair)
  note we = write_enable [OF assms(1) e]
  let ?a = "address_bytes (W25QXX_TYPE s) (k * 4096)"
  have ad: "addr_of ?a = eff (k * 4096)" using assms(2) by (simp add: addr_of_address_bytes eff_addr_def)
  have pos: "0 < polls" using sector_erase [of c1 ?a] we assms(2,4) ad by (metis gr_implies_not_zero length_address_bytes neq0_conv surj_pair)
  obtain c2 where c2: "W25QXX_Wait_Busy polls cs xfer (s\<lparr>chip := c1\<rparr>) = Inr (s\<lparr>chip := c2\<rparr>)" "mem c2 = mem (chip s)" "busy c2 = 0" "wel c2"
    using wait_busy [of "s\<lparr>chip := c1\<rparr>" polls] we pos by auto
  obtain rx' c3 where p: "chip_trans cs xfer (0x20 # ?a) c2 = (rx', c3)" by (metis surj_pair)
  have "mem c3 = erase_mem (mem c2) (eff (k * 4096)) \<and> busy c3 < polls"
    using sector_erase [OF c2(3,4) _ _ p] assms(2,4) ad by simp
  then show ?thesis using wait_busy [of "s\<lparr>chip := c3\<rparr>" polls] e p c2 assms(3)
    by (auto simp: W25QXX_Erase_Sector_def W25QXX_Write_Enable_def transaction_chip)
qed

lemma read_ok:
  assumes "busy (chip s) = 0" and "addr_len (W25QXX_TYPE s) = alen" and "eff a + n \<le> cap" and "n \<le> length b"
  shows "\<exists>c. W25QXX_Read cs xfer b a n s = Inr (overwrite b 0 (map (mem (chip s)) [eff a..<eff a + n]), s\<lparr>chip := c\<rparr>) \<and>
    mem c = mem (chip s) \<and> busy c = 0"
proof -
  let ?a = "address_bytes (W25QXX_TYPE s) a"
  obtain rx c where t: "chip_trans cs xfer (0x03 # ?a @ replicate n 0xFF) (chip s) = (rx, c)" by (metis surj_pair)
  have ad: "addr_of ?a = eff a" using assms(2) by (simp add: addr_of_address_bytes eff_addr_def)
  have "drop (1 + alen) rx = map (mem (chip s)) [eff a..<eff a + n] \<and> mem c = mem (chip s) \<and> busy c = 0"
    using read_data [OF assms(1) _ _ t] assms(2,3) ad by simp
  then show ?thesis using t assms(2,4) by (auto simp: W25QXX_Read_def transaction_chip Let_def)
qed

definition ready :: "'c flash \<Rightarrow> bool" where
  "ready s \<longleftrightarrow> busy (chip s) = 0 \<and> addr_len (W25QXX_TYPE s) = alen \<and> length (W25QXX_BUFFER s) = 4096"

lemma read_sector:
  assumes "ready s" and "eff a + r \<le> cap" and "0 < r" and "a mod 4096 + r \<le> 4096" and "a < 2 ^ 32" and "k = a div 4096"
  shows "k * 4096 mod 2 ^ 32 = k * 4096" and "k * 4096 + 4096 \<le> 2 ^ 32" and "eff (k * 4096) + a mod 4096 = eff a"
    and "eff (k * 4096) mod 4096 = 0" and "eff (k * 4096) + 4096 \<le> cap"
    and "\<exists>c. W25QXX_Read cs xfer (W25QXX_BUFFER s) (k * 4096) 4096 s =
      Inr (map (mem (chip s)) [eff (k * 4096)..<eff (k * 4096) + 4096], s\<lparr>chip := c\<rparr>) \<and> mem c = mem (chip s) \<and> busy c = 0"
proof -
  have a: "k * 4096 + a mod 4096 = a" unfolding assms(6) by simp
  have "(a div 4096) * 4096 \<le> 1048575 * 4096" using assms(5) by (intro mult_right_mono) auto
  then show k: "k * 4096 mod 2 ^ 32 = k * 4096" "k * 4096 + 4096 \<le> 2 ^ 32" unfolding assms(6) by simp_all
  show m: "eff (k * 4096) mod 4096 = 0" using eff_mod [of 4096 "k * 4096"] by simp
  obtain M :: nat where M: "256 ^ alen = 4096 * M"
    using sectors(3) le_imp_power_dvd [of 2 alen "256 :: nat"] dvd_trans [of 4096 "256 ^ 2" "256 ^ alen :: nat"]
    by (auto elim: dvdE)
  have ek: "eff (k * 4096) = 4096 * (k mod M)" unfolding eff_addr_def M by (simp add: mult.commute)
  show e: "eff (k * 4096) + a mod 4096 = eff a" unfolding ek by (simp add: eff_addr_def M mod_mult2_eq assms(6))
  obtain q where q: "cap = 4096 * q" using sectors(1) by (auto elim: dvdE)
  have "eff (k * 4096) < cap" using e assms(2,3) by linarith
  then have "k mod M < q" unfolding ek q by simp
  then show c: "eff (k * 4096) + 4096 \<le> cap" unfolding ek q by simp
  show "\<exists>c. W25QXX_Read cs xfer (W25QXX_BUFFER s) (k * 4096) 4096 s =
      Inr (map (mem (chip s)) [eff (k * 4096)..<eff (k * 4096) + 4096], s\<lparr>chip := c\<rparr>) \<and> mem c = mem (chip s) \<and> busy c = 0"
    using read_ok [of s "k * 4096" 4096 "W25QXX_BUFFER s"] assms(1) c by (simp add: ready_def overwrite_def)
qed

lemma map_FF:
  "\<not> list_ex (\<lambda>b. b \<noteq> 0xFF) (map m [a..<a + r]) \<longleftrightarrow> (\<forall>x. a \<le> x \<longrightarrow> x < a + r \<longrightarrow> m x = (0xFF :: byte))"
  by (auto simp: list_ex_iff)

lemma write_sector_ok:
  assumes "ready s" and "0 < r" and "r \<le> length b" and "eff a + r \<le> cap" and "a mod 4096 + r \<le> 4096" and "a < 2 ^ 32"
  shows "\<exists>s'. write_sector polls cs xfer b a (a div 4096) (a mod 4096) r s = Inr s' \<and> ready s' \<and>
    mem (chip s') = write_mem (mem (chip s)) (eff a) (take r b)"
proof -
  let ?k = "a div 4096" and ?m = "mem (chip s)"
  let ?e = "eff (?k * 4096)" and ?off = "a mod 4096"
  note k = read_sector(1-5) [OF assms(1,4,2,5,6) refl]
  let ?buf = "map ?m [?e..<?e + 4096]"
  obtain c where c: "W25QXX_Read cs xfer (W25QXX_BUFFER s) (?k * 4096) 4096 s = Inr (?buf, s\<lparr>chip := c\<rparr>)" "mem c = ?m" "busy c = 0"
    using read_sector(6) [OF assms(1,4,2,5,6) refl] by blast
  let ?s = "s\<lparr>chip := c, W25QXX_BUFFER := ?buf\<rparr>"
  have old: "slice ?buf ?off r = Inr (map ?m [eff a..<eff a + r])"
    using assms(5) k(3) by (simp add: drop_map take_map ac_simps)
  have rd: "ready ?s" using assms(1) c(3) by (simp add: ready_def)
  have step: "write_sector polls cs xfer b a ?k ?off r s =
      (if list_ex (\<lambda>b. b \<noteq> 0xFF) (map ?m [eff a..<eff a + r])
       then bnd (W25QXX_Erase_Sector polls cs xfer ?k ?s) (\<lambda>s.
            bnd (blit (W25QXX_BUFFER s) ?off (take r b)) (\<lambda>buf.
            W25QXX_Write_NoCheck polls cs xfer buf (?k * 4096) 4096 (s\<lparr>W25QXX_BUFFER := buf\<rparr>)))
       else W25QXX_Write_NoCheck polls cs xfer b a r ?s)"
    using assms(3) unfolding write_sector_def k(1) c(1) bnd_Inr split_conv Let_def old by simp
  show ?thesis
  proof (cases "list_ex (\<lambda>b. b \<noteq> 0xFF) (map ?m [eff a..<eff a + r])")
    case True
    obtain c1 where c1: "W25QXX_Erase_Sector polls cs xfer ?k ?s = Inr (?s\<lparr>chip := c1\<rparr>)" "mem c1 = erase_mem ?m ?e" "busy c1 = 0"
      using erase_sector [of ?s ?k] rd k c(2) by (auto simp: ready_def)
    let ?b = "overwrite ?buf ?off (take r b)"
    let ?s1 = "?s\<lparr>chip := c1, W25QXX_BUFFER := ?b\<rparr>"
    have lb: "length ?b = 4096" using assms(3,5) by simp
    have "busy (chip ?s1) = 0" "addr_len (W25QXX_TYPE ?s1) = alen" using rd c1(3) by (simp_all add: ready_def)
    from write_nocheck [OF this _ _ k(5,2), of ?b] obtain c2 where c2:
      "W25QXX_Write_NoCheck polls cs xfer ?b (?k * 4096) 4096 ?s1 = Inr (?s1\<lparr>chip := c2\<rparr>)"
      "mem c2 = program_mem (erase_mem ?m ?e) ?e ?b" "busy c2 = 0"
      using lb c1(2) by auto
    have "mem c2 = write_mem ?m (eff a) (take r b)"
      using program_sector [OF k(4), of ?off "take r b" ?m] assms(3,5) k(3) c2(2) by simp
    moreover have "blit ?buf ?off (take r b) = Inr ?b" using assms(3,5) by simp
    ultimately show ?thesis using step True c1(1) c2(1,3) rd lb by (auto simp: ready_def)
  next
    case False
    have st: "busy (chip ?s) = 0" "addr_len (W25QXX_TYPE ?s) = alen" using rd by (simp_all add: ready_def)
    have "a + r \<le> 2 ^ 32" using k(2) assms(5) div_mult_mod_eq [of a 4096] by linarith
    from write_nocheck [OF st assms(2-4) this] obtain c2 where c2:
      "W25QXX_Write_NoCheck polls cs xfer b a r ?s = Inr (?s\<lparr>chip := c2\<rparr>)"
      "mem c2 = program_mem ?m (eff a) (take r b)" "busy c2 = 0" using c(2) by auto
    have "mem c2 = write_mem ?m (eff a) (take r b)"
      using program_erased [of "eff a" "take r b" ?m] False [unfolded map_FF] c2(2) assms(3) by simp
    then show ?thesis using step False c2(1,3) rd by (auto simp: ready_def)
  qed
qed

lemma write_sectors_ok:
  "ready s \<Longrightarrow> 0 < n \<Longrightarrow> n \<le> length b \<Longrightarrow> eff a + n \<le> cap \<Longrightarrow> a + n \<le> 2 ^ 32 \<Longrightarrow> r = min n (4096 - a mod 4096) \<Longrightarrow>
     \<exists>s'. write_sectors polls cs xfer b a (a div 4096) (a mod 4096) r n s = Inr s' \<and> ready s' \<and>
       mem (chip s') = write_mem (mem (chip s)) (eff a) (take n b)"
proof (induction n arbitrary: s b a r rule: less_induct)
  case (less n)
  have r: "0 < r" "r \<le> n" "a mod 4096 + r \<le> 4096" "r \<le> length b" "eff a + r \<le> cap" "a < 2 ^ 32"
    using less.prems by (auto simp: min_def)
  obtain s1 where s1: "write_sector polls cs xfer b a (a div 4096) (a mod 4096) r s = Inr s1" "ready s1"
    "mem (chip s1) = write_mem (mem (chip s)) (eff a) (take r b)"
    using write_sector_ok [OF less.prems(1) r(1,4,5,3,6)] by blast
  show ?case
  proof (cases "n = r")
    case True
    then show ?thesis using s1 by (subst write_sectors.simps) auto
  next
    case False
    then have n: "0 < n - r" "n - r < n" "r < n" using r by linarith+
    then have r': "r = 4096 - a mod 4096" using less.prems(6) by (simp add: min_def split: if_splits)
    have a': "(a + r) mod 2 ^ 32 = a + r" "a + r < 2 ^ 32" using less.prems(5) n(3) by simp_all
    have e: "eff (a + r) = eff a + r" using less.prems(4) n(3) sectors(2) by (intro eff_add) linarith
    have "a mod 4096 < 4096" by simp
    then have "a + r = (a div 4096 + 1) * 4096" unfolding r' add_mult_distrib using div_mult_mod_eq [of a 4096] by linarith
    then have d: "(a + r) div 4096 = a div 4096 + 1" "(a + r) mod 4096 = 0" by simp_all
    have "a div 4096 + 1 < 2 ^ 32" using d(1) a'(2) div_le_dividend [of "a + r" 4096] by linarith
    then have d': "(a div 4096 + 1) mod 2 ^ 32 = (a + r) div 4096" using d(1) by simp
    have q: "(if n - r > 4096 then 4096 else n - r) = min (n - r) (4096 - (a + r) mod 4096)" using d(2) by auto
    obtain s2 where s2: "write_sectors polls cs xfer (drop r b) (a + r) ((a + r) div 4096) ((a + r) mod 4096)
        (if n - r > 4096 then 4096 else n - r) (n - r) s1 = Inr s2" "ready s2"
        "mem (chip s2) = write_mem (mem (chip s1)) (eff a + r) (take (n - r) (drop r b))"
      using less.IH [OF n(2) s1(2) n(1) _ _ _ q, of "drop r b"] less.prems(3-5) r(2) e by (auto simp: diff_le_mono)
    have "mem (chip s2) = write_mem (mem (chip s)) (eff a) (take n b)"
      using write_mem_append [of "mem (chip s)" "eff a" "take r b" "take (n - r) (drop r b)"] s1(3) s2(3) r(2,4)
      by (simp add: take_add [symmetric] min_absorb2)
    then show ?thesis using s1(1) s2(1,2) False a' d' d(2) by (subst write_sectors.simps) (simp add: Let_def)
  qed
qed

lemma write_ok:
  assumes "ready s" and "0 < n" and "n \<le> length b" and "eff a + n \<le> cap" and "a + n \<le> 2 ^ 32"
  shows "\<exists>s'. W25QXX_Write polls cs xfer b a n s = Inr s' \<and> ready s' \<and>
    mem (chip s') = write_mem (mem (chip s)) (eff a) (take n b)"
  using write_sectors_ok [OF assms refl] by (simp add: W25QXX_Write_def Let_def min_def)

end

section \<open>A W25Q128\<close>

text \<open>
  A chip with 16 MB and three address bytes that behaves as the data sheet says; it is busy for some
  status polls after programming and erasing.
\<close>

record w25q_chip =
  w_mem :: "nat \<Rightarrow> byte"
  w_wel :: bool
  w_busy :: nat
  w_in :: "byte list" \<comment> \<open>the bytes received since the chip was selected\<close>

definition w25q_out :: "w25q_chip \<Rightarrow> byte" where
  "w25q_out c =
     (case w_in c of
        [] \<Rightarrow> 0xFF
      | cmd # rest \<Rightarrow>
          if cmd = 0x05 then (if 0 < w_busy c then 1 else 0) OR (if w_wel c then 2 else 0)
          else if cmd = 0x03 \<and> 3 \<le> length rest \<and> w_busy c = 0
          then w_mem c ((addr_of (take 3 rest) + (length rest - 3)) mod 2 ^ 24)
          else if cmd = 0x90 \<and> length rest = 3 then 0xEF
          else if cmd = 0x90 \<and> length rest = 4 then 0x17
          else 0xFF)"

definition w25q_program :: "(nat \<Rightarrow> byte) \<Rightarrow> nat \<Rightarrow> byte list \<Rightarrow> nat \<Rightarrow> byte" where
  \<comment> \<open>data that does not fit wraps to the start of the page\<close>
  "w25q_program m a d =
     (let k = 256 - a mod 256 in program_mem (program_mem m a (take k d)) (a - a mod 256) (drop k d))"

definition w25q_exec :: "w25q_chip \<Rightarrow> w25q_chip" where
  "w25q_exec c =
     (case w_in c of
        [] \<Rightarrow> c
      | cmd # rest \<Rightarrow>
          if cmd = 0x05 then c\<lparr>w_busy := w_busy c - 1, w_wel := (if w_busy c = 1 then False else w_wel c)\<rparr>
          else if 0 < w_busy c then c
          else if cmd = 0x06 \<and> rest = [] then c\<lparr>w_wel := True\<rparr>
          else if cmd = 0x04 \<and> rest = [] then c\<lparr>w_wel := False\<rparr>
          else if cmd = 0x02 \<and> 3 < length rest \<and> w_wel c
          then c\<lparr>w_mem := w25q_program (w_mem c) (addr_of (take 3 rest)) (drop 3 rest), w_busy := 3\<rparr>
          else if cmd = 0x20 \<and> length rest = 3 \<and> w_wel c
          then c\<lparr>w_mem := erase_mem (w_mem c) (addr_of rest), w_busy := 40\<rparr>
          else if cmd = 0xC7 \<and> rest = [] \<and> w_wel c then c\<lparr>w_mem := (\<lambda>_. 0xFF), w_busy := 40\<rparr>
          else c)"

definition w25q_cs :: "w25q_chip chip_cs" where
  "w25q_cs n c = (if n then (w25q_exec c)\<lparr>w_in := []\<rparr> else c\<lparr>w_in := []\<rparr>)"

definition w25q_xfer :: "w25q_chip chip_xfer" where
  "w25q_xfer b c = (w25q_out c, c\<lparr>w_in := w_in c @ [b]\<rparr>)"

lemma w25q_bytes:
  "chip_bytes w25q_xfer bs c =
     (map (\<lambda>i. w25q_out (c\<lparr>w_in := w_in c @ take i bs\<rparr>)) [0..<length bs], c\<lparr>w_in := w_in c @ bs\<rparr>)"
proof (induction bs arbitrary: c)
  case (Cons b bs)
  have "[0..<length (b # bs)] = 0 # map Suc [0..<length bs]" by (simp add: upt_conv_Cons map_Suc_upt del: upt_Suc)
  then show ?case using Cons [of "c\<lparr>w_in := w_in c @ [b]\<rparr>"] by (simp add: w25q_xfer_def del: upt_Suc)
qed simp

lemma w25q_trans:
  "chip_trans w25q_cs w25q_xfer bs c =
     (map (\<lambda>i. w25q_out (c\<lparr>w_in := take i bs\<rparr>)) [0..<length bs], (w25q_exec (c\<lparr>w_in := bs\<rparr>))\<lparr>w_in := []\<rparr>)"
  by (simp add: chip_trans_def w25q_bytes w25q_cs_def)

lemma w25q_program_page: "a mod 256 + length d \<le> 256 \<Longrightarrow> w25q_program m a d = program_mem m a d"
  by (simp add: w25q_program_def Let_def) (auto simp: program_mem_def fun_eq_iff)

lemma w25q_read:
  assumes "w_busy c = 0" and "length a = 3" and "addr_of a + n \<le> 2 ^ 24"
  shows "drop 4 (map (\<lambda>i. w25q_out (c\<lparr>w_in := take i (0x03 # a @ replicate n 0xFF)\<rparr>)) [0..<4 + n]) =
    map (w_mem c) [addr_of a..<addr_of a + n]"
proof (rule nth_equalityI)
  fix i assume "i < length (drop 4 (map (\<lambda>i. w25q_out (c\<lparr>w_in := take i (0x03 # a @ replicate n 0xFF)\<rparr>)) [0..<4 + n]))"
  then have i: "i < n" by simp
  have "take (4 + i) (0x03 # a @ replicate n 0xFF) = 0x03 # a @ replicate i (0xFF :: byte)"
    using assms(2) i by (simp add: take_Cons' min_absorb1)
  then have "w25q_out (c\<lparr>w_in := take (4 + i) (0x03 # a @ replicate n 0xFF)\<rparr>) = w_mem c (addr_of a + i)"
    using assms i by (simp add: w25q_out_def)
  then show "drop 4 (map (\<lambda>i. w25q_out (c\<lparr>w_in := take i (0x03 # a @ replicate n 0xFF)\<rparr>)) [0..<4 + n]) ! i =
      map (w_mem c) [addr_of a..<addr_of a + n] ! i"
    using i by (simp del: upt_Suc)
qed simp

interpretation w25q128: w25q w25q_cs w25q_xfer w_mem w_wel w_busy 3 "2 ^ 24" 50
proof
  show "(4096 :: nat) dvd 2 ^ 24" "(2 ^ 24 :: nat) \<le> 256 ^ 3" "(2 :: nat) \<le> 3" by simp_all
next
  fix c rx c' assume "w_busy c = 0" "chip_trans w25q_cs w25q_xfer [0x06] c = (rx, c')"
  then show "w_mem c' = w_mem c \<and> w_wel c' \<and> w_busy c' = 0" by (auto simp: w25q_trans w25q_exec_def)
next
  fix c rx c' assume "chip_trans w25q_cs w25q_xfer [0x05, 0xFF] c = (rx, c')"
  then show "(bit (rx ! 1) 0 \<longleftrightarrow> 0 < w_busy c) \<and> w_mem c' = w_mem c \<and> w_busy c' = w_busy c - 1 \<and> (w_busy c = 0 \<longrightarrow> w_wel c' = w_wel c)"
    by (auto simp: w25q_trans w25q_exec_def w25q_out_def bit_0 split: if_splits)
next
  fix c a n rx c'
  assume a: "w_busy c = 0" "length a = 3" "addr_of a + n \<le> 2 ^ 24"
    and t: "chip_trans w25q_cs w25q_xfer (0x03 # a @ replicate n 0xFF) c = (rx, c')"
  have "length (0x03 # a @ replicate n (0xFF :: byte)) = 4 + n" using a(2) by simp
  then show "drop (1 + 3) rx = map (w_mem c) [addr_of a..<addr_of a + n] \<and> w_mem c' = w_mem c \<and> w_busy c' = 0"
    using t a w25q_read [OF a] by (auto simp: w25q_trans w25q_exec_def)
next
  fix c a d rx c'
  assume "w_busy c = 0" "w_wel c" "length a = 3" "addr_of a < 2 ^ 24" "d \<noteq> []" "addr_of a mod 256 + length d \<le> 256"
    "chip_trans w25q_cs w25q_xfer (0x02 # a @ d) c = (rx, c')"
  then show "w_mem c' = program_mem (w_mem c) (addr_of a) d \<and> w_busy c' < 50"
    by (auto simp: w25q_trans w25q_exec_def w25q_program_page)
next
  fix c a rx c'
  assume "w_busy c = 0" "w_wel c" "length a = 3" "addr_of a < 2 ^ 24" "chip_trans w25q_cs w25q_xfer (0x20 # a) c = (rx, c')"
  then show "w_mem c' = erase_mem (w_mem c) (addr_of a) \<and> w_busy c' < 50"
    by (auto simp: w25q_trans w25q_exec_def)
qed

section \<open>Properties\<close>

definition flash_ready :: "('c \<Rightarrow> nat) \<Rightarrow> nat \<Rightarrow> 'c flash \<Rightarrow> bool" where
  \<comment> \<open>the chip is idle and uses as many address bytes as the driver sends\<close>
  "flash_ready busy alen s \<longleftrightarrow> busy (chip s) = 0 \<and> addr_len (W25QXX_TYPE s) = alen \<and> length (W25QXX_BUFFER s) = 4096"

text \<open>
  C6. Writing to the flash: on every chip that behaves as documented, \<open>W25QXX_Write\<close> ends, the written bytes
  are at the address the chip decodes, and every other byte of the flash is as before, those of the
  sectors that had to be erased included. The data may start anywhere and cross pages and sectors.
\<close>
theorem W25QXX_Write_correct:
  assumes "w25q cs xfer mem wel busy alen cap polls" and "flash_ready busy alen s"
    and "0 < n" and "n \<le> length b" and "eff_addr alen a + n \<le> cap" and "a + n \<le> 2 ^ 32"
  shows "\<exists>s'. W25QXX_Write polls cs xfer b a n s = Inr s' \<and> flash_ready busy alen s' \<and>
    mem (chip s') = write_mem (mem (chip s)) (eff_addr alen a) (take n b)"
  using w25q.write_ok [OF assms(1) _ assms(3-6), of s] assms(1,2) by (simp add: w25q.ready_def flash_ready_def)

definition w25q_flash :: "(nat \<Rightarrow> byte) \<Rightarrow> w25q_chip flash" where
  "w25q_flash m = \<lparr>chip = \<lparr>w_mem = m, w_wel = False, w_busy = 0, w_in = []\<rparr>, W25QXX_TYPE = W25Q128,
     W25QXX_BUFFER = replicate 4096 0\<rparr>"

lemma w25q_flash_ready: "flash_ready w_busy 3 (w25q_flash m)"
  by (simp add: flash_ready_def w25q_flash_def addr_len_def)

theorem W25QXX_Write_correct_witness:
  "\<exists>s'. W25QXX_Write 50 w25q_cs w25q_xfer [1, 2, 3] 4094 3 (w25q_flash (\<lambda>_. 7)) = Inr s' \<and>
     w_mem (chip s') 4093 = 7 \<and> w_mem (chip s') 4096 = 3 \<and> w_mem (chip s') 4097 = 7"
  using W25QXX_Write_correct [OF w25q128.w25q_axioms w25q_flash_ready, of 3 "[1, 2, 3]" 4094 "\<lambda>_. 7"]
  by (auto simp: eff_addr_def write_mem_def w25q_flash_def)

lemma write_then_read:
  assumes "w25q cs xfer mem wel busy alen cap polls" and "flash_ready busy alen s"
    and "0 < length b" and "eff_addr alen a + length b \<le> cap" and "a + length b \<le> 2 ^ 32" and "length d = length b"
  shows "\<exists>s1 s2. W25QXX_Write polls cs xfer b a (length b) s = Inr s1 \<and>
    W25QXX_Read cs xfer d a (length b) s1 = Inr (b, s2) \<and> mem (chip s2) = mem (chip s1) \<and> flash_ready busy alen s2"
proof -
  obtain s1 where s1: "W25QXX_Write polls cs xfer b a (length b) s = Inr s1" "flash_ready busy alen s1"
    "mem (chip s1) = write_mem (mem (chip s)) (eff_addr alen a) b"
    using w25q.write_ok [OF assms(1) _ assms(3) order.refl assms(4,5), of s] assms(1,2)
    by (auto simp: w25q.ready_def flash_ready_def)
  obtain c where c: "W25QXX_Read cs xfer d a (length b) s1 =
      Inr (overwrite d 0 (map (mem (chip s1)) [eff_addr alen a..<eff_addr alen a + length b]), s1\<lparr>chip := c\<rparr>)"
      "mem c = mem (chip s1)" "busy c = 0"
    using w25q.read_ok [OF assms(1) _ _ assms(4), of s1 d] s1(2) assms(6) by (auto simp: flash_ready_def)
  have "map (mem (chip s1)) [eff_addr alen a..<eff_addr alen a + length b] = b"
    by (rule nth_equalityI) (simp_all add: s1(3) write_mem_def)
  then show ?thesis using s1 c assms(6) by (auto simp: overwrite_def flash_ready_def)
qed

text \<open>
  C26. Reading back: what \<open>W25QXX_Write\<close> wrote, \<open>W25QXX_Read\<close> returns, and reading changes nothing.
\<close>
theorem W25QXX_write_read:
  assumes "w25q cs xfer mem wel busy alen cap polls" and "flash_ready busy alen s"
    and "0 < length b" and "eff_addr alen a + length b \<le> cap" and "a + length b \<le> 2 ^ 32" and "length d = length b"
  shows "\<exists>s1 s2. W25QXX_Write polls cs xfer b a (length b) s = Inr s1 \<and>
    W25QXX_Read cs xfer d a (length b) s1 = Inr (b, s2) \<and> mem (chip s2) = mem (chip s1) \<and> flash_ready busy alen s2"
  by (rule write_then_read [OF assms])

theorem W25QXX_write_read_witness:
  "\<exists>s1 s2. W25QXX_Write 50 w25q_cs w25q_xfer [1, 2] 255 (Suc 1) (w25q_flash (\<lambda>_. 0)) = Inr s1 \<and>
     W25QXX_Read w25q_cs w25q_xfer [0, 0] 255 (Suc 1) s1 = Inr ([1, 2], s2)"
  using W25QXX_write_read [OF w25q128.w25q_axioms w25q_flash_ready, of "[1, 2]" 255 "[0, 0]" "\<lambda>_. 0"]
  by (auto simp: eff_addr_def)

end
