(* ===== verification/Main_App.thy ===== *)
theory Main_App
  imports Mailbox Uart Spi_Flash
begin

text \<open>
  The application (\<^verbatim>\<open>src/applications/main.c\<close> and the text commands of
  \<^verbatim>\<open>atk_usart_net/usart_net.c\<close>): the LED threads and the functions that start and stop them, the shell
  commands, the thread that takes LED commands out of a mailbox, the parser that puts them there, and \<open>main\<close>.

  The record \<open>app\<close> is the kernel, the serial port, the mailbox \<open>led_mb\<close>, the levels of the LED pins and the
  local variables \<open>struct msg rx\<close> of the parser that are still alive: a mail is the address of such a
  variable, whose two members point into the receive buffer. Reading one that is gone is the
  fault \<open>Uninitialised\<close>. A function that suspends its thread ends at the switch to another thread; what it
  does when it runs again is a definition of its own.
\<close>

section \<open>State\<close>

record msg =
  storey :: nat \<comment> \<open>offset of the string in the receive buffer\<close>
  parameters :: nat

record app =
  kern :: kernel
  port :: net
  led_mb :: rt_mailbox
  msgs :: "32 word \<Rightarrow> msg option"
  pins :: "nat \<Rightarrow> bool"

definition led0_thread :: nat where "led0_thread = 100"
definition led1_thread :: nat where "led1_thread = 101"
definition usart_net_thread :: nat where "usart_net_thread = 102"
definition mail_deal_thread :: nat where "mail_deal_thread = 103"

definition on_kern :: "(kernel \<Rightarrow> kernel res) \<Rightarrow> app \<Rightarrow> app res" where
  "on_kern f a = bnd (f (kern a)) (\<lambda>k. Inr (a\<lparr>kern := k\<rparr>))"

definition on_port :: "(net \<Rightarrow> net res) \<Rightarrow> app \<Rightarrow> app res" where
  "on_port f a = bnd (f (port a)) (\<lambda>w. Inr (a\<lparr>port := w\<rparr>))"

definition kprint :: "string \<Rightarrow> app \<Rightarrow> app" where
  "kprint s a = a\<lparr>port := rt_kprintf s (port a)\<rparr>"

section \<open>LED threads\<close>

definition led_thread_step :: "nat \<Rightarrow> bool \<Rightarrow> app \<Rightarrow> app res" where
  \<comment> \<open>half a round of \<open>led0_thread_entry\<close> and \<open>led1_thread_entry\<close>: set the pin and sleep for a second\<close>
  "led_thread_step led level a = on_kern (rt_thread_sleep 1000) (a\<lparr>pins := (pins a)(led := level)\<rparr>)"

definition led_close :: "int \<Rightarrow> app \<Rightarrow> app res" where
  "led_close flag a =
     (if flag = 0 then on_kern (rt_thread_control led0_thread CTRL_CLOSE) a
      else if flag = 1 then on_kern (rt_thread_control led1_thread CTRL_CLOSE) a
      else Inr (kprint ''please check your commend!'' a))"

definition led_open :: "int \<Rightarrow> app \<Rightarrow> app res" where
  "led_open flag a =
     (if flag = 0
      then bnd (on_kern (rt_thread_init led0_thread 23 20) a) (on_kern (rt_thread_control led0_thread CTRL_STARTUP))
      else if flag = 1
      then bnd (on_kern (rt_thread_init led1_thread 22 20) a) (on_kern (rt_thread_control led1_thread CTRL_STARTUP))
      else Inr (kprint ''please check your commend!'' a))"

section \<open>Mail\<close>

abbreviation RT_WAITING_FOREVER :: int where "RT_WAITING_FOREVER \<equiv> -1"

definition str_is :: "cbuf \<Rightarrow> string \<Rightarrow> bool res" where
  \<comment> \<open>\<open>!rt_strcmp(s, "...")\<close>\<close>
  "str_is s lit = bnd (rt_strcmp s (lit @ [NUL])) (\<lambda>r. Inr (r = 0))"

definition mail_switch :: "int \<Rightarrow> cbuf \<Rightarrow> app \<Rightarrow> app res" where
  \<comment> \<open>the inner decision on \<open>parameters\<close>\<close>
  "mail_switch flag param a =
     bnd (str_is param ''0'') (\<lambda>off.
     if off then led_close flag a
     else bnd (str_is param ''1'') (\<lambda>on.
     if on then led_open flag a
     else Inr (kprint (''valid parameters'' @ [CHR 0x0A]) a)))"

definition mail_deal :: "32 word \<Rightarrow> app \<Rightarrow> app res" where
  \<comment> \<open>the body of the loop of \<open>mail_deal_thread_entry\<close> for a mail \<open>cmdpm\<close>, up to the sleep at its end\<close>
  "mail_deal cmdpm a =
     (case msgs a cmdpm of
        None \<Rightarrow> Inl Uninitialised
      | Some m \<Rightarrow>
          let s = drop (storey m) (rx_buf (port a)); p = drop (parameters m) (rx_buf (port a)) in
          bnd (rt_strlen s) (\<lambda>sl.
          bnd (rt_strlen p) (\<lambda>pl.
          let a = kprint (''the content:'' @ take sl s @ '','' @ take pl p @ [CHR 0x0A]) a in
          bnd (str_is s ''0'') (\<lambda>zero.
          if zero then mail_switch 0 p a
          else bnd (str_is s ''1'') (\<lambda>one.
          if one then mail_switch 1 p a
          else Inr (kprint (''valid storey'' @ [CHR 0x0A]) a))))))"

definition mail_deal_sleep :: "app \<Rightarrow> app res" where
  "mail_deal_sleep a = on_kern (rt_thread_mdelay 1000) a"

definition mail_deal_recv :: "app \<Rightarrow> (outcome \<times> 32 word option \<times> app) res" where
  \<comment> \<open>the head of the loop: \<open>Blocked\<close> when the mailbox is empty, and \<open>mail_deal\<close> follows for a mail\<close>
  "mail_deal_recv a =
     bnd (rt_mb_recv RT_WAITING_FOREVER (led_mb a) (kern a)) (\<lambda>(r, value, mb, k).
     Inr (r, value, a\<lparr>led_mb := mb, kern := k\<rparr>))"

section \<open>Text commands\<close>

fun skip_spaces :: "cbuf \<Rightarrow> nat \<Rightarrow> nat \<Rightarrow> nat res" where
  "skip_spaces buf i 0 = Inl Out_of_bounds"
| "skip_spaces buf i (Suc n) = bnd (fetch buf i) (\<lambda>c. if c = CHR 0x20 then skip_spaces buf (i + 1) n else Inr i)"

fun token_end :: "cbuf \<Rightarrow> nat \<Rightarrow> nat \<Rightarrow> nat res" where
  "token_end buf i 0 = Inl Out_of_bounds"
| "token_end buf i (Suc n) =
     bnd (fetch buf i) (\<lambda>c. if c = CHR 0x20 \<or> c = NUL then Inr i else token_end buf (i + 1) n)"

definition strtok :: "cbuf \<Rightarrow> nat \<Rightarrow> (nat option \<times> nat \<times> cbuf) res" where
  \<comment> \<open>\<open>strtok\<close> of the C library for the delimiter \<open>" "\<close>, from the saved position: the token, the new position,
    and the buffer in which the delimiter behind the token is replaced by a terminator\<close>
  "strtok buf i =
     bnd (skip_spaces buf i (Suc (length buf))) (\<lambda>s.
     bnd (fetch buf s) (\<lambda>c.
     if c = NUL then Inr (None, s, buf)
     else bnd (token_end buf s (Suc (length buf))) (\<lambda>e.
          bnd (fetch buf e) (\<lambda>d.
          if d = NUL then Inr (Some s, e, buf) else Inr (Some s, e + 1, buf[e := NUL])))))"

definition not_empty :: "cbuf \<Rightarrow> nat option \<Rightarrow> bool res" where
  "not_empty buf p = (case p of None \<Rightarrow> Inr False | Some i \<Rightarrow> bnd (fetch buf i) (\<lambda>c. Inr (c \<noteq> NUL)))"

definition text_at :: "cbuf \<Rightarrow> nat \<Rightarrow> string res" where
  "text_at buf i = bnd (rt_strlen (drop i buf)) (\<lambda>n. Inr (take n (drop i buf)))"

definition lost_text :: string where
  \<comment> \<open>the message for \<open>U2E\<close> in UTF-8\<close>
  "lost_text = map char_of [0xE4 :: nat, 0xB8, 0x8E, 0xE6, 0x9C, 0x8D, 0xE5, 0x8A, 0xA1, 0xE5, 0x99, 0xA8, 0xE6, 0x96, 0xAD,
     0xE8, 0xBF, 0x9E, 0xEF, 0xBC, 0x8C, 0xE7, 0xAD, 0x89, 0xE5, 0xBE, 0x85, 0xE9, 0x87, 0x8D, 0xE8, 0xBF, 0x9E,
     0xE4, 0xB8, 0xAD, 0x2E, 0x2E, 0x2E, 0x0A]"

definition command_echo :: "cbuf \<Rightarrow> nat \<Rightarrow> nat \<Rightarrow> nat \<Rightarrow> app \<Rightarrow> app res" where
  \<comment> \<open>\<open>rt_kprintf("%s,%s,%s\n", command, parameters1, parameters2)\<close>\<close>
  "command_echo buf c p1 p2 a =
     bnd (text_at buf c) (\<lambda>x. bnd (text_at buf p1) (\<lambda>y. bnd (text_at buf p2) (\<lambda>z.
     Inr (kprint (x @ '','' @ y @ '','' @ z @ [CHR 0x0A]) a))))"

definition usart_net_commend_parsing :: "32 word \<Rightarrow> app \<Rightarrow> (outcome \<times> app) res" where
  \<comment> \<open>for the receive buffer; \<open>rx\<close> is the address of the local variable. \<open>Blocked\<close>: the mail is sent, and the
    thread goes on with \<open>commend_delay\<close> and \<open>commend_return\<close>\<close>
  "usart_net_commend_parsing rx a =
     bnd (strtok (rx_buf (port a)) 0) (\<lambda>(command, i, buf).
     bnd (strtok buf i) (\<lambda>(parameters1, i, buf).
     bnd (strtok buf i) (\<lambda>(parameters2, i, buf).
     let a = a\<lparr>port := (port a)\<lparr>rx_buf := buf\<rparr>\<rparr> in
     bnd (not_empty buf command) (\<lambda>b0. bnd (not_empty buf parameters1) (\<lambda>b1. bnd (not_empty buf parameters2) (\<lambda>b2.
     case (command, parameters1, parameters2) of
       (Some c, Some p1, Some p2) \<Rightarrow>
         if b0 \<and> b1 \<and> b2
         then let a = a\<lparr>msgs := (msgs a)(rx \<mapsto> \<lparr>storey = p1, parameters = p2\<rparr>)\<rparr> in
              bnd (str_is (drop c buf) ''L'') (\<lambda>l.
              if l
              then bnd (command_echo buf c p1 p2 a) (\<lambda>a.
                   bnd (rt_mb_send rx (led_mb a) (kern a)) (\<lambda>(_, mb, k).
                   Inr (Blocked, a\<lparr>led_mb := mb, kern := k\<rparr>)))
              else bnd (str_is (drop c buf) ''V'') (\<lambda>v.
              if v then bnd (command_echo buf c p1 p2 a) (\<lambda>a. Inr (Done 0, a\<lparr>msgs := (msgs a)(rx := None)\<rparr>))
              else bnd (str_is (drop c buf) ''U2E'') (\<lambda>u.
              let a = a\<lparr>msgs := (msgs a)(rx := None)\<rparr> in
              if u then Inr (Done 0, kprint lost_text a)
              else Inr (Done 0, kprint (''Unknown command.'' @ [CHR 0x0A]) a))))
         else Inr (Done 0, kprint (''Invalid command or parameters.'' @ [CHR 0x0A]) a)
     | _ \<Rightarrow> Inr (Done 0, kprint (''Invalid command or parameters.'' @ [CHR 0x0A]) a)))))))"

definition commend_delay :: "app \<Rightarrow> app res" where
  "commend_delay a = on_kern (rt_thread_sleep 1000) a"

definition commend_return :: "32 word \<Rightarrow> app \<Rightarrow> app" where
  \<comment> \<open>the thread runs again after its sleep and the function returns: its local variable is gone\<close>
  "commend_return rx a = a\<lparr>msgs := (msgs a)(rx := None)\<rparr>"

section \<open>Shell commands\<close>

definition led_answer :: "(app \<Rightarrow> app res) \<Rightarrow> string \<Rightarrow> app \<Rightarrow> (int \<times> app) res" where
  \<comment> \<open>act, restart the receiver, answer on the port\<close>
  "led_answer act text a =
     bnd (act a) (\<lambda>a.
     bnd (on_port atk_ide01_uart_rx_restart a) (\<lambda>a.
     bnd (on_port (atk_ide01_uart_printf (text @ [CHR 0x0D, CHR 0x0A])) a) (\<lambda>a. Inr (0, a))))"

definition led_usage :: "app \<Rightarrow> app" where
  "led_usage a = kprint (''Please input'' @ [CHR 0x27] @ ''atcmd <server|client>'' @ [CHR 0x27, CHR 0x0A]) a"

definition led :: "cbuf list \<Rightarrow> app \<Rightarrow> (int \<times> app) res" where
  \<comment> \<open>\<open>argv\<close> as a list of terminated strings\<close>
  "led argv a =
     (if length argv < 2 then Inr (0, led_usage a)
      else
        bnd (str_is (argv ! 1) ''led0=0'') (\<lambda>b. if b then led_answer (led_close 0) ''led_close(0)'' a else
        bnd (str_is (argv ! 1) ''led0=1'') (\<lambda>b. if b then led_answer (led_open 0) ''led_open(0)'' a else
        bnd (str_is (argv ! 1) ''led1=0'') (\<lambda>b. if b then led_answer (led_close 1) ''led_close(1)'' a else
        bnd (str_is (argv ! 1) ''led1=1'') (\<lambda>b. if b then led_answer (led_open 1) ''led_open(1)'' a else
        Inr (-1, led_usage a))))))"

definition usart_net_open :: "app \<Rightarrow> app res" where
  "usart_net_open a =
     bnd (on_kern (rt_thread_init usart_net_thread 12 20) a) (on_kern (rt_thread_control usart_net_thread CTRL_STARTUP))"

definition mail_deal_open :: "app \<Rightarrow> app res" where
  "mail_deal_open a =
     bnd (on_kern (rt_thread_init mail_deal_thread 13 20) a) (on_kern (rt_thread_control mail_deal_thread CTRL_STARTUP))"

definition TEXT_Buffer :: "byte list" where
  "TEXT_Buffer = map (\<lambda>c. of_char c) (''Explorer STM32F4 SPI TEST'' @ [NUL])"

definition FLASH_SIZE :: nat where
  \<comment> \<open>never assigned in the source\<close>
  "FLASH_SIZE = 0"

definition flash_address :: nat where
  \<comment> \<open>\<open>FLASH_SIZE - 100\<close> in 32 bits\<close>
  "flash_address = (FLASH_SIZE + 2 ^ 32 - 100) mod 2 ^ 32"

definition SPI_op :: "nat \<Rightarrow> 'c chip_cs \<Rightarrow> 'c chip_xfer \<Rightarrow> cbuf list \<Rightarrow> byte list \<Rightarrow> 'c flash \<Rightarrow> (byte list \<times> 'c flash) res" where
  \<comment> \<open>\<open>datatemp\<close> and the flash; the log output is left out\<close>
  "SPI_op polls cs xfer argv datatemp s =
     (if length argv < 2 then Inr (datatemp, s)
      else
        bnd (str_is (argv ! 1) ''spi_wr'') (\<lambda>wr.
        if wr then bnd (W25QXX_Write polls cs xfer TEXT_Buffer flash_address (length TEXT_Buffer) s) (\<lambda>s. Inr (datatemp, s))
        else bnd (str_is (argv ! 1) ''spi_re'') (\<lambda>re.
        if re then W25QXX_Read cs xfer datatemp flash_address (length TEXT_Buffer) s
        else Inr (datatemp, s))))"

section \<open>Start of the application\<close>

definition main_flash :: "'c chip_cs \<Rightarrow> 'c chip_xfer \<Rightarrow> 'c flash \<Rightarrow> bool \<times> 'c flash" where
  \<comment> \<open>the first part of \<open>main\<close>: is a W25Q128 found? If not, \<open>main\<close> sleeps twice (\<open>main_wait\<close>) and goes on all the same\<close>
  "main_flash cs xfer s = (let (id, s) = W25QXX_ReadID cs xfer (W25QXX_Init cs xfer s) in (id = W25Q128, s))"

definition main_wait :: "kernel \<Rightarrow> kernel res" where
  "main_wait k = rt_thread_sleep 500 k"

definition main_mailbox :: "msg_word list \<Rightarrow> nat \<Rightarrow> nat \<Rightarrow> app \<Rightarrow> app res" where
  \<comment> \<open>the last part of \<open>main\<close>: the mailbox of \<open>sizeof(led_mb_pool) / 4\<close> mails; \<open>rt_mb_init\<close> always returns \<open>RT_EOK\<close>\<close>
  "main_mailbox led_mb_pool q r a =
     bnd (rt_mb_init led_mb_pool (64 div 4) RT_IPC_FLAG_FIFO q r (led_mb a) (kern a)) (\<lambda>(mb, k).
     Inr (a\<lparr>led_mb := mb, kern := k\<rparr>))"

section \<open>Switching the LEDs\<close>

datatype led_cmd = Led_Open int | Led_Close int

fun led_exec :: "led_cmd \<Rightarrow> app \<Rightarrow> app res" where
  "led_exec (Led_Open flag) a = led_open flag a"
| "led_exec (Led_Close flag) a = led_close flag a"

definition led_on :: "nat \<Rightarrow> kernel \<Rightarrow> bool" where
  "led_on t k \<longleftrightarrow> object_type (thread k t) = Class_Static"

definition led_known :: "nat \<Rightarrow> kernel \<Rightarrow> bool" where
  "led_known t k \<longleftrightarrow> object_type (thread k t) \<noteq> Class_Dynamic \<and>
     (object_type (thread k t) = Class_Static \<longrightarrow> stat (thread k t) \<noteq> RT_THREAD_CLOSE)"

lemma led_off_iff: "led_known t k \<Longrightarrow> \<not> led_on t k \<longleftrightarrow> object_type (thread k t) = Class_Null"
  by (cases "object_type (thread k t)") (auto simp: led_known_def led_on_def)

lemma schedule_thread: "rt_schedule k = Inr k' \<Longrightarrow> thread k' = thread k"
  by (auto simp: rt_schedule_def bnd_eq_Inr split: if_splits)

lemma close_static:
  assumes "running i k" "led_known t k" "led_on t k" "t \<noteq> i" "current_thread k \<noteq> Some t"
  shows "\<exists>k'. rt_thread_control t CTRL_CLOSE k = Inr k' \<and> running i k' \<and> \<not> led_on t k' \<and> led_known t k' \<and>
     (\<forall>u. u \<noteq> t \<longrightarrow> thread k' u = thread k u)"
proof -
  have ok: "kernel_ok k" using assms(1) by (simp add: running_def)
  have o: "object_type (thread k t) = Class_Static" "stat (thread k t) \<noteq> RT_THREAD_CLOSE"
    using assms(2,3) by (auto simp: led_known_def led_on_def)
  obtain k' where k': "rt_thread_control t CTRL_CLOSE k = Inr k'" "kept t k k'"
    using detach_kept [OF ok, of t] o by auto
  have "running i k'"
    using kept_stepped [OF assms(1) k'(2), of "Close t"] assms(4,5) by (simp add: stepped_def)
  moreover have "object_type (thread k' t) = Class_Null"
    using k'(1) o by (auto simp: rt_thread_control_def rt_thread_detach_def close_thread_def rt_timer_detach_def
        kernel_defs bnd_eq_Inr Let_def split: if_splits)
  ultimately show ?thesis using k' by (auto simp: led_on_def led_known_def kept_def)
qed

lemma open_off:
  assumes "running i k" "led_known t k" "\<not> led_on t k" "p < 32" "t \<noteq> i" "current_thread k \<noteq> Some t"
  shows "\<exists>k1 k'. rt_thread_init t p n k = Inr k1 \<and> rt_thread_control t CTRL_STARTUP k1 = Inr k' \<and>
     running i k' \<and> led_on t k' \<and> led_known t k' \<and> stat (thread k' t) = RT_THREAD_READY \<and>
     (\<forall>u. u \<noteq> t \<longrightarrow> thread k' u = thread k u)"
proof -
  have ok: "kernel_ok k" using assms(1) by (simp add: running_def)
  have o: "object_type (thread k t) = Class_Null" using led_off_iff [OF assms(2)] assms(3) by simp
  obtain k1 where k1: "rt_thread_init t p n k = Inr k1" "kept t k k1" "stat (thread k1 t) = RT_THREAD_INIT"
      "object_type (thread k1 t) = Class_Static"
    using init_kept(1) [OF ok o assms(4)] by blast
  have r1: "running i k1"
    using kept_stepped [OF assms(1) k1(2), of "Init t p n"] assms(5,6) by (simp add: stepped_def)
  then have ok1: "kernel_ok k1" by (simp add: running_def)
  have "allowed i (Startup t) k1" using k1 by simp
  then obtain k' where k': "rt_thread_startup t k1 = Inr k'" "running i k'"
    using exec_stepped [OF r1, of "Startup t"] by (auto simp: stepped_def)
  obtain k2 where k2: "rt_thread_startup t k1 = (if current_thread k2 \<noteq> None then rt_schedule k2 else Inr k2)" "kept t k1 k2"
      "stat (thread k2 t) = RT_THREAD_READY"
    using startup_kept [OF ok1 _ k1(3)] k1(4) by auto
  have th: "thread k' = thread k2" using k'(1) k2(1) schedule_thread by (auto split: if_splits)
  have "object_type (thread k' t) = Class_Static"
    using k'(1) k1(4) by (auto simp: rt_thread_startup_def rt_thread_resume_def rt_timer_stop_def rt_schedule_def
        kernel_defs bnd_eq_Inr Let_def split: if_splits)
  then show ?thesis
    using k1 k' k2(2,3) th by (auto simp: rt_thread_control_def RT_ASSERT_def led_on_def led_known_def kept_def)
qed

fun led_thread :: "int \<Rightarrow> nat option" where
  "led_thread flag = (if flag = 0 then Some led0_thread else if flag = 1 then Some led1_thread else None)"

declare led_thread.simps [simp del]

definition led_threads :: "nat set" where
  "led_threads = {led0_thread, led1_thread}"

fun led_refused :: "led_cmd \<Rightarrow> kernel \<Rightarrow> bool" where
  "led_refused (Led_Open flag) k \<longleftrightarrow> (\<exists>t. led_thread flag = Some t \<and> led_on t k)"
| "led_refused (Led_Close flag) k \<longleftrightarrow> (\<exists>t. led_thread flag = Some t \<and> \<not> led_on t k)"

fun led_after :: "led_cmd \<Rightarrow> nat \<Rightarrow> bool \<Rightarrow> bool" where
  "led_after (Led_Open flag) t on \<longleftrightarrow> on \<or> led_thread flag = Some t"
| "led_after (Led_Close flag) t on \<longleftrightarrow> on \<and> led_thread flag \<noteq> Some t"

definition app_ok :: "nat \<Rightarrow> app \<Rightarrow> bool" where
  "app_ok i a \<longleftrightarrow> running i (kern a) \<and> i \<notin> led_threads \<and> (\<forall>t\<in>led_threads. led_known t (kern a))"

definition led_env :: "nat \<Rightarrow> app \<Rightarrow> app \<Rightarrow> bool" where
  \<comment> \<open>what happens between two commands: time passes, threads run, and nobody else starts or stops the LED threads\<close>
  "led_env i a b \<longleftrightarrow> running i (kern b) \<and>
     (\<forall>t\<in>led_threads. led_known t (kern b) \<and> led_on t (kern b) = led_on t (kern a))"

definition caller :: "app \<Rightarrow> bool" where
  "caller a \<longleftrightarrow> (\<forall>t\<in>led_threads. current_thread (kern a) \<noteq> Some t)"

inductive led_run :: "nat \<Rightarrow> app \<Rightarrow> led_cmd list \<Rightarrow> app \<Rightarrow> bool" for i where
  led_start: "led_run i a [] a"
| led_command: "led_run i a cs b \<Longrightarrow> caller b \<Longrightarrow> led_exec c b = Inr b' \<Longrightarrow> led_run i a (cs @ [c]) b'"
| led_other: "led_run i a cs b \<Longrightarrow> led_env i b b' \<Longrightarrow> led_run i a cs b'"

lemma led_thread_cases:
  obtains t p where "led_thread flag = Some t" "t \<in> led_threads" "p < 32"
      "\<And>a. led_open flag a = bnd (on_kern (rt_thread_init t p 20) a) (on_kern (rt_thread_control t CTRL_STARTUP))"
      "\<And>a. led_close flag a = on_kern (rt_thread_control t CTRL_CLOSE) a"
  | "led_thread flag = None" "\<And>a. led_open flag a = Inr (kprint ''please check your commend!'' a)"
      "\<And>a. led_close flag a = Inr (kprint ''please check your commend!'' a)"
proof (cases "flag = 0 \<or> flag = 1")
  case True
  then show ?thesis using that(1) [of led0_thread 23] that(1) [of led1_thread 22]
    by (auto simp: led_thread.simps led_threads_def led_open_def led_close_def)
next
  case False
  then show ?thesis using that(2) by (auto simp: led_thread.simps led_open_def led_close_def)
qed

lemma led_exec_cases:
  assumes "app_ok i a" and "caller a"
  shows "if led_refused c (kern a) then led_exec c a = Inl Assertion_failed
    else \<exists>b. led_exec c a = Inr b \<and> app_ok i b \<and> pins b = pins a \<and>
      (\<forall>t\<in>led_threads. led_on t (kern b) = led_after c t (led_on t (kern a)))"
proof -
  have r: "running i (kern a)" "i \<notin> led_threads" and kn: "\<And>t. t \<in> led_threads \<Longrightarrow> led_known t (kern a)"
    and cu: "\<And>t. t \<in> led_threads \<Longrightarrow> current_thread (kern a) \<noteq> Some t"
    using assms by (auto simp: app_ok_def caller_def)
  show ?thesis
  proof (cases c)
    case (Led_Open flag)
    show ?thesis
    proof (cases flag rule: led_thread_cases)
      case (1 t p)
      note o = 1
      show ?thesis
      proof (cases "led_on t (kern a)")
        case True
        then show ?thesis using o Led_Open
          by (simp add: on_kern_def rt_thread_init_def RT_ASSERT_def led_on_def)
      next
        case False
        have "t \<noteq> i" using o(2) r(2) by auto
        obtain k1 k' where k: "rt_thread_init t p 20 (kern a) = Inr k1" "rt_thread_control t CTRL_STARTUP k1 = Inr k'"
            "running i k'" "led_on t k'" "led_known t k'" "\<forall>u. u \<noteq> t \<longrightarrow> thread k' u = thread (kern a) u"
          using open_off [OF r(1) kn [OF o(2)] False o(3) \<open>t \<noteq> i\<close> cu [OF o(2)]] by blast
        have same: "led_known u k' = led_known u (kern a)" "led_on u k' = led_on u (kern a)" if "u \<noteq> t" for u
          using k(6) that by (simp_all add: led_known_def led_on_def)
        have "led_known u k'" if "u \<in> led_threads" for u using same(1) [of u] k(5) kn [OF that] by (cases "u = t") auto
        moreover have "led_on u k' = (led_on u (kern a) \<or> u = t)" for u using same(2) [of u] k(4) by (cases "u = t") auto
        ultimately show ?thesis using False o Led_Open k(1-3) r(2)
          by (auto simp: on_kern_def app_ok_def)
      qed
    next
      case 2
      then show ?thesis using Led_Open assms(1) by (auto simp: kprint_def app_ok_def)
    qed
  next
    case (Led_Close flag)
    show ?thesis
    proof (cases flag rule: led_thread_cases)
      case (1 t p)
      note o = 1
      show ?thesis
      proof (cases "led_on t (kern a)")
        case False
        then have "object_type (thread (kern a) t) = Class_Null" using led_off_iff [OF kn [OF o(2)]] by simp
        then show ?thesis using o Led_Close False
          by (simp add: on_kern_def rt_thread_control_def RT_ASSERT_def)
      next
        case True
        have "t \<noteq> i" using o(2) r(2) by auto
        obtain k' where k: "rt_thread_control t CTRL_CLOSE (kern a) = Inr k'" "running i k'" "\<not> led_on t k'" "led_known t k'"
            "\<forall>u. u \<noteq> t \<longrightarrow> thread k' u = thread (kern a) u"
          using close_static [OF r(1) kn [OF o(2)] True \<open>t \<noteq> i\<close> cu [OF o(2)]] by blast
        have same: "led_known u k' = led_known u (kern a)" "led_on u k' = led_on u (kern a)" if "u \<noteq> t" for u
          using k(5) that by (simp_all add: led_known_def led_on_def)
        have "led_known u k'" if "u \<in> led_threads" for u using same(1) [of u] k(4) kn [OF that] by (cases "u = t") auto
        moreover have "led_on u k' = (led_on u (kern a) \<and> u \<noteq> t)" for u using same(2) [of u] k(3) by (cases "u = t") auto
        ultimately show ?thesis using True o Led_Close k(1,2) r(2)
          by (auto simp: on_kern_def app_ok_def)
      qed
    next
      case 2
      then show ?thesis using Led_Close assms(1) by (auto simp: kprint_def app_ok_def)
    qed
  qed
qed

lemma led_run_inv:
  assumes "led_run i a cs b" and "app_ok i a"
  shows "app_ok i b \<and> (\<forall>t\<in>led_threads. led_on t (kern b) = fold (\<lambda>c. led_after c t) cs (led_on t (kern a)))"
  using assms
proof (induction rule: led_run.induct)
  case (led_command a cs b c b')
  then have "app_ok i b" and f: "\<forall>t\<in>led_threads. led_on t (kern b) = fold (\<lambda>c. led_after c t) cs (led_on t (kern a))" by auto
  then show ?case using led_exec_cases [of i b c] led_command(2,3) by (auto split: if_splits)
next
  case (led_other a cs b b')
  then show ?case by (simp add: app_ok_def led_env_def)
qed simp


section \<open>From the text command to the LED\<close>

definition word_text :: "string \<Rightarrow> bool" where
  "word_text w \<longleftrightarrow> w \<noteq> [] \<and> NUL \<notin> set w \<and> CHR 0x20 \<notin> set w"

lemma skip_spaces_run:
  "buf = pre @ replicate n (CHR 0x20) @ c # rest \<Longrightarrow> c \<noteq> CHR 0x20 \<Longrightarrow> n < m \<Longrightarrow>
     skip_spaces buf (length pre) m = Inr (length pre + n)"
proof (induction n arbitrary: pre m)
  case 0
  then show ?case by (cases m) (auto simp: nth_append)
next
  case (Suc n)
  then obtain m' where m: "m = Suc m'" by (cases m) auto
  have "skip_spaces buf (length (pre @ [CHR 0x20])) m' = Inr (length (pre @ [CHR 0x20]) + n)"
    using Suc.prems m by (intro Suc.IH) auto
  then show ?case using Suc.prems m by (simp add: nth_append)
qed

lemma token_end_run:
  "buf = pre @ w @ d # rest \<Longrightarrow> NUL \<notin> set w \<Longrightarrow> CHR 0x20 \<notin> set w \<Longrightarrow> d = CHR 0x20 \<or> d = NUL \<Longrightarrow> length w < m \<Longrightarrow>
     token_end buf (length pre) m = Inr (length pre + length w)"
proof (induction w arbitrary: pre m)
  case Nil
  then show ?case by (cases m) (auto simp: nth_append)
next
  case (Cons x w)
  then obtain m' where m: "m = Suc m'" by (cases m) auto
  have "token_end buf (length (pre @ [x])) m' = Inr (length (pre @ [x]) + length w)"
    using Cons.prems m by (intro Cons.IH) auto
  then show ?case using Cons.prems m by (auto simp: nth_append)
qed

lemma strtok_word:
  assumes "buf = pre @ replicate n (CHR 0x20) @ w @ d # rest" "word_text w" "d = CHR 0x20 \<or> d = NUL"
  shows "strtok buf (length pre) = Inr (Some (length pre + n),
     length pre + n + length w + (if d = NUL then 0 else 1), pre @ replicate n (CHR 0x20) @ w @ NUL # rest)"
proof -
  obtain c v where w: "w = c # v" "c \<noteq> CHR 0x20" "c \<noteq> NUL" using assms(2) by (cases w) (auto simp: word_text_def)
  let ?q = "pre @ replicate n (CHR 0x20)"
  have "skip_spaces buf (length pre) (Suc (length buf)) = Inr (length ?q)"
    using skip_spaces_run [of buf pre n c "v @ d # rest" "Suc (length buf)"] assms(1) w by simp
  moreover have "fetch buf (length ?q) = Inr c" using assms(1) w by (simp add: nth_append)
  moreover have "token_end buf (length ?q) (Suc (length buf)) = Inr (length ?q + length w)"
    using token_end_run [of buf ?q w d rest "Suc (length buf)"] assms by (simp add: word_text_def)
  moreover have "fetch buf (length ?q + length w) = Inr d" using assms(1) by (simp add: nth_append)
  moreover have "buf[length ?q + length w := NUL] = ?q @ w @ NUL # rest"
    using assms(1) by (simp add: list_update_append)
  ultimately show ?thesis using w(3) assms(1,3) by (auto simp: strtok_def)
qed

lemma str_is_cstr: "terminated s \<Longrightarrow> NUL \<notin> set lit \<Longrightarrow> str_is s lit = Inr (cstr s = lit)"
  using rt_strcmp_eq [of s "lit @ [NUL]"] by (auto simp: str_is_def)

definition command_buffer :: "nat \<Rightarrow> string \<Rightarrow> char \<Rightarrow> nat \<Rightarrow> string \<Rightarrow> char \<Rightarrow> nat \<Rightarrow> string \<Rightarrow> char \<Rightarrow> cbuf \<Rightarrow> cbuf" where
  \<comment> \<open>three words with their delimiters and additional spaces\<close>
  "command_buffer n0 c d0 n1 s d1 n2 p d2 rest =
     replicate n0 (CHR 0x20) @ c @ d0 # replicate n1 (CHR 0x20) @ s @ d1 # replicate n2 (CHR 0x20) @ p @ d2 # rest"

lemma strtok_three:
  assumes "word_text c" "word_text s" "word_text p" "d = CHR 0x20 \<or> d = NUL"
    and b0_def: "b0 = command_buffer n0 c (CHR 0x20) n1 s (CHR 0x20) n2 p d rest"
    and b3_def: "b3 = command_buffer n0 c NUL n1 s NUL n2 p NUL rest"
    and i1_def: "i1 = n0 + length c + 1 + n1" and i2_def: "i2 = n0 + length c + 1 + n1 + length s + 1 + n2"
  shows "\<exists>j1 b1 j2 b2 j3. strtok b0 0 = Inr (Some n0, j1, b1) \<and> strtok b1 j1 = Inr (Some i1, j2, b2) \<and>
     strtok b2 j2 = Inr (Some i2, j3, b3)"
proof -
  let ?sp = "\<lambda>n. replicate n (CHR 0x20)"
  have 1: "strtok b0 0 = Inr (Some n0, n0 + length c + 1, command_buffer n0 c NUL n1 s (CHR 0x20) n2 p d rest)"
    using strtok_word [of b0 "[]" n0 c "CHR 0x20" "?sp n1 @ s @ CHR 0x20 # ?sp n2 @ p @ d # rest"] assms(1)
    by (simp add: b0_def command_buffer_def)
  have 2: "strtok (command_buffer n0 c NUL n1 s (CHR 0x20) n2 p d rest) (n0 + length c + 1) =
      Inr (Some i1, i1 + length s + 1, command_buffer n0 c NUL n1 s NUL n2 p d rest)"
    using strtok_word [of "command_buffer n0 c NUL n1 s (CHR 0x20) n2 p d rest" "?sp n0 @ c @ [NUL]" n1 s "CHR 0x20" "?sp n2 @ p @ d # rest"]
      assms(2) by (simp add: command_buffer_def i1_def)
  have "strtok (command_buffer n0 c NUL n1 s NUL n2 p d rest) (i1 + length s + 1) =
      Inr (Some i2, i2 + length p + (if d = NUL then 0 else 1), b3)"
    using strtok_word [of "command_buffer n0 c NUL n1 s NUL n2 p d rest" "?sp n0 @ c @ NUL # ?sp n1 @ s @ [NUL]" n2 p d rest]
      assms(3,4) by (simp add: command_buffer_def i1_def i2_def b3_def add.assoc)
  then show ?thesis using 1 2 by blast
qed

lemma command_words:
  assumes "word_text c" "word_text s" "word_text p"
    and b_def: "b = command_buffer n0 c NUL n1 s NUL n2 p NUL rest"
    and i1_def: "i1 = n0 + length c + 1 + n1" and i2_def: "i2 = n0 + length c + 1 + n1 + length s + 1 + n2"
  shows "drop n0 b = c @ NUL # replicate n1 (CHR 0x20) @ s @ NUL # replicate n2 (CHR 0x20) @ p @ NUL # rest"
    and "drop i1 b = s @ NUL # replicate n2 (CHR 0x20) @ p @ NUL # rest" and "drop i2 b = p @ NUL # rest"
    and "not_empty b (Some n0) = Inr True" and "not_empty b (Some i1) = Inr True" and "not_empty b (Some i2) = Inr True"
proof -
  show d0: "drop n0 b = c @ NUL # replicate n1 (CHR 0x20) @ s @ NUL # replicate n2 (CHR 0x20) @ p @ NUL # rest"
    and d1: "drop i1 b = s @ NUL # replicate n2 (CHR 0x20) @ p @ NUL # rest" and d2: "drop i2 b = p @ NUL # rest"
    by (simp_all add: b_def command_buffer_def i1_def i2_def)
  have "not_empty b (Some i) = Inr True" if dr: "drop i b = w @ z" and wt: "word_text w" for i w z
  proof -
    obtain x v where w: "w = x # v" "x \<noteq> NUL" using wt by (cases w) (auto simp: word_text_def)
    have l: "i < length b" using dr w(1) by (cases "i < length b") auto
    have "b ! i = x" using hd_drop_conv_nth [OF l] dr w(1) by simp
    then show ?thesis using w(2) l by (simp add: not_empty_def)
  qed
  then show "not_empty b (Some n0) = Inr True" and "not_empty b (Some i1) = Inr True" and "not_empty b (Some i2) = Inr True"
    using d0 d1 d2 assms(1-3) by blast+
qed

lemma text_at_word: "drop i b = w @ NUL # z \<Longrightarrow> NUL \<notin> set w \<Longrightarrow> text_at b i = Inr w"
  by (simp add: text_at_def rt_strlen_cstr)

definition mail_action :: "string \<Rightarrow> string \<Rightarrow> app \<Rightarrow> app res" where
  \<comment> \<open>what a mail with the texts \<open>s\<close> and \<open>p\<close> is meant to do\<close>
  "mail_action s p a =
     (if s = ''0'' \<or> s = ''1''
      then let flag = (if s = ''0'' then 0 else 1) in
           if p = ''0'' then led_close flag a else if p = ''1'' then led_open flag a
           else Inr (kprint (''valid parameters'' @ [CHR 0x0A]) a)
      else Inr (kprint (''valid storey'' @ [CHR 0x0A]) a))"

lemma mail_deal_action:
  assumes "msgs b rx = Some \<lparr>storey = i, parameters = j\<rparr>" "drop i (rx_buf (port b)) = s @ NUL # y" "drop j (rx_buf (port b)) = p @ NUL # z"
    and "NUL \<notin> set s" "NUL \<notin> set p"
  shows "mail_deal rx b = mail_action s p (kprint (''the content:'' @ s @ '','' @ p @ [CHR 0x0A]) b)"
proof -
  have t: "str_is (s @ NUL # y) lit = Inr (s = lit)" "str_is (p @ NUL # z) lit = Inr (p = lit)" if "NUL \<notin> set lit" for lit
    using assms(4,5) that by (simp_all add: str_is_cstr)
  define c where "c = kprint (''the content:'' @ s @ '','' @ p @ [CHR 0x0A]) b"
  have "mail_deal rx b = (if s = ''0'' then mail_switch 0 (p @ NUL # z) c else if s = ''1'' then mail_switch 1 (p @ NUL # z) c
      else Inr (kprint (''valid storey'' @ [CHR 0x0A]) c))"
    using assms by (simp add: mail_deal_def t rt_strlen_cstr Let_def c_def)
  moreover have "mail_switch flag (p @ NUL # z) c = (if p = ''0'' then led_close flag c else if p = ''1'' then led_open flag c
      else Inr (kprint (''valid parameters'' @ [CHR 0x0A]) c))" for flag
    by (simp add: mail_switch_def t)
  ultimately show ?thesis unfolding c_def [symmetric] by (simp add: mail_action_def)
qed

text \<open>
  C19. A text command \<open>L <storey> <parameter>\<close> in the receive buffer, with any number of spaces, reaches
  the LED: it puts one mail into the mailbox, and whenever the mail thread handles that mail while the sender
  still sleeps and the receive buffer is as it was, exactly the function for this storey and parameter is
  called. Once the sender has returned, the mail points to a variable that no longer exists.
\<close>
theorem led_command_delivered:
  assumes "word_text s" and "word_text p" and "d = CHR 0x20 \<or> d = NUL"
    and "rx_buf (port a) = command_buffer n0 ''L'' (CHR 0x20) n1 s (CHR 0x20) n2 p d rest"
    and "mb_inv (led_mb a)" and "mb_entry (led_mb a) < mb_size (led_mb a)" and "running i (kern a)"
  shows "\<exists>a'. usart_net_commend_parsing rx a = Inr (Blocked, a') \<and> running i (kern a') \<and> mb_inv (led_mb a') \<and>
     mb_msgs (led_mb a') = mb_msgs (led_mb a) @ [rx] \<and>
     (\<forall>b. rx_buf (port b) = rx_buf (port a') \<and> msgs b rx = msgs a' rx \<longrightarrow>
        mail_deal rx b = mail_action s p (kprint (''the content:'' @ s @ '','' @ p @ [CHR 0x0A]) b)) \<and>
     (\<forall>b. mail_deal rx (commend_return rx b) = Inl Uninitialised)"
proof -
  define b3 where "b3 = command_buffer n0 ''L'' NUL n1 s NUL n2 p NUL rest"
  define i1 where "i1 = n0 + length ''L'' + 1 + n1"
  define i2 where "i2 = n0 + length ''L'' + 1 + n1 + length s + 1 + n2"
  have wl: "word_text ''L''" by (simp add: word_text_def)
  obtain j1 b1 j2 b2 j3 where tok: "strtok (rx_buf (port a)) 0 = Inr (Some n0, j1, b1)" "strtok b1 j1 = Inr (Some i1, j2, b2)"
      "strtok b2 j2 = Inr (Some i2, j3, b3)"
    using strtok_three [OF wl assms(1-4) b3_def i1_def i2_def] by blast
  note w = command_words [OF wl assms(1,2) b3_def i1_def i2_def]
  have nn: "NUL \<notin> set s" "NUL \<notin> set p" using assms(1,2) by (auto simp: word_text_def)
  have sL: "str_is (drop n0 b3) ''L'' = Inr True" unfolding w(1) by (subst str_is_cstr) auto
  have tx: "text_at b3 n0 = Inr ''L''" "text_at b3 i1 = Inr s" "text_at b3 i2 = Inr p"
    using text_at_word [OF w(1)] text_at_word [OF w(2) nn(1)] text_at_word [OF w(3) nn(2)] by auto
  define a1 where "a1 = kprint (''L'' @ '','' @ s @ '','' @ p @ [CHR 0x0A])
      (a\<lparr>port := (port a)\<lparr>rx_buf := b3\<rparr>, msgs := (msgs a)(rx \<mapsto> \<lparr>storey = i1, parameters = i2\<rparr>)\<rparr>)"
  obtain mb' k' where mb: "mb_put rx (led_mb a) (kern a) = Inr (Done RT_EOK, mb', k')" "mb_inv mb'" "running i k'"
      "mb_msgs mb' = mb_msgs (led_mb a) @ [rx]"
    using mb_put_ok [OF assms(5,7,6)] by blast
  have "rt_mb_send rx (led_mb a) (kern a) = Inr (Done RT_EOK, mb', k')"
    using mb(1) assms(5,6) by (simp add: rt_mb_send_def rt_mb_send_wait_def mb_send_loop_def RT_ASSERT_def mb_inv_def)
  then have run: "usart_net_commend_parsing rx a = Inr (Blocked, a1\<lparr>led_mb := mb', kern := k'\<rparr>)"
    by (simp add: usart_net_commend_parsing_def tok w(4-6) sL tx command_echo_def Let_def a1_def kprint_def)
  have a1: "rx_buf (port a1) = b3" "msgs a1 rx = Some \<lparr>storey = i1, parameters = i2\<rparr>"
    by (simp_all add: a1_def kprint_def rt_kprintf_def)
  have "mail_deal rx b = mail_action s p (kprint (''the content:'' @ s @ '','' @ p @ [CHR 0x0A]) b)"
    if "rx_buf (port b) = b3" "msgs b rx = msgs a1 rx" for b
    using mail_deal_action [of b rx i1 i2 s _ p] that a1(2) w(2,3) nn by simp
  moreover have "mail_deal rx (commend_return rx b) = Inl Uninitialised" for b
    by (simp add: mail_deal_def commend_return_def)
  ultimately show ?thesis using run mb(2-4) a1(1)
    by (intro exI [of _ "a1\<lparr>led_mb := mb', kern := k'\<rparr>"]) simp
qed

definition sample_app :: app where
  "sample_app = \<lparr>kern = two_threads, port = init_net [], led_mb = sample_box, msgs = (\<lambda>_. None), pins = (\<lambda>_. False)\<rparr>"

lemma sample_app_ok: "app_ok 0 sample_app" "caller sample_app" "\<not> led_on led0_thread (kern sample_app)"
  using two_threads_running
  by (simp_all add: app_ok_def sample_app_def caller_def two_threads_fields led_threads_def led0_thread_def led1_thread_def
      led_known_def led_on_def) (simp_all add: two_threads_def boot_def)


theorem led_command_delivered_witness:
  "\<exists>a'. usart_net_commend_parsing 0x20000000 (sample_app\<lparr>port := (init_net [])\<lparr>rx_buf := ''L 0 1'' @ replicate 2043 NUL\<rparr>\<rparr>) = Inr (Blocked, a') \<and>
     mail_deal 0x20000000 a' = led_open 0 (kprint (''the content:0,1'' @ [CHR 0x0A]) a')"
proof -
  let ?a = "sample_app\<lparr>port := (init_net [])\<lparr>rx_buf := ''L 0 1'' @ replicate 2043 NUL\<rparr>\<rparr>"
  have b: "''L 0 1'' @ replicate 2043 NUL = command_buffer 0 ''L'' (CHR 0x20) 0 ''0'' (CHR 0x20) 0 ''1'' NUL (replicate 2042 NUL)"
    using replicate_Suc [of 2042 NUL] by (simp add: command_buffer_def)
  have m: "mb_inv (led_mb ?a)" "mb_entry (led_mb ?a) < mb_size (led_mb ?a)" "running 0 (kern ?a)"
    using two_threads_running by (simp_all add: sample_app_def sample_box_def mb_inv_def)
  obtain a' where "usart_net_commend_parsing 0x20000000 ?a = Inr (Blocked, a')"
      "mail_deal 0x20000000 a' = mail_action ''0'' ''1'' (kprint (''the content:'' @ ''0'' @ '','' @ ''1'' @ [CHR 0x0A]) a')"
    using led_command_delivered [of "''0''" "''1''" NUL ?a 0 0 0 "replicate 2042 NUL" 0 "0x20000000"] b m
    by (auto simp: word_text_def)
  then show ?thesis by (intro exI [of _ a']) (simp add: mail_action_def)
qed

text \<open>
  The shell command \<open>SPI_op spi_wr\<close> followed by \<open>SPI_op spi_re\<close> reads the test text back. \<open>FLASH_SIZE\<close> is never
  assigned, so that the address is 0xFFFFFF9C; a chip with 24-bit addresses sees it 100 bytes before its end, as
  the comment in the source says.
\<close>
theorem SPI_op_roundtrip:
  assumes "w25q cs xfer mem wel busy 3 (2 ^ 24) polls" and "flash_ready busy 3 s" and "length d = length TEXT_Buffer"
  shows "\<exists>s1 s2. SPI_op polls cs xfer [prog, ''spi_wr'' @ [NUL]] d s = Inr (d, s1) \<and>
     SPI_op polls cs xfer [prog, ''spi_re'' @ [NUL]] d s1 = Inr (TEXT_Buffer, s2) \<and> eff_addr 3 flash_address = 2 ^ 24 - 100"
proof -
  have a: "flash_address = 4294967196" by (simp add: flash_address_def FLASH_SIZE_def)
  have e: "eff_addr 3 flash_address = 2 ^ 24 - 100" by (simp add: a eff_addr_def)
  have l: "length TEXT_Buffer = 26" by (simp add: TEXT_Buffer_def)
  have t: "str_is (''spi_wr'' @ [NUL]) ''spi_wr'' = Inr True" "str_is (''spi_re'' @ [NUL]) ''spi_wr'' = Inr False"
      "str_is (''spi_re'' @ [NUL]) ''spi_re'' = Inr True"
    by (simp_all add: str_is_cstr)
  show ?thesis
    using write_then_read [OF assms(1,2), of TEXT_Buffer flash_address d] assms(3) e l a t by (auto simp: SPI_op_def)
qed

theorem SPI_op_roundtrip_witness:
  "\<exists>s1 s2. SPI_op 50 w25q_cs w25q_xfer [[NUL], ''spi_wr'' @ [NUL]] (replicate 26 0) (w25q_flash (\<lambda>_. 7)) = Inr (replicate 26 0, s1) \<and>
     SPI_op 50 w25q_cs w25q_xfer [[NUL], ''spi_re'' @ [NUL]] (replicate 26 0) s1 = Inr (TEXT_Buffer, s2)"
  using SPI_op_roundtrip [OF w25q128.w25q_axioms w25q_flash_ready [of "\<lambda>_. 7"], where d = "replicate 26 0" and prog = "[NUL]"]
  by (auto simp: TEXT_Buffer_def)

end
