(* ===== verification/Heap_Mem.thy ===== *)
theory Heap_Mem
  imports Kservice
begin

text \<open>
  The system heap of \<open>mem.c\<close> (small memory manager of the kernel, taken from lwIP): \<open>rt_malloc\<close>,
  \<open>rt_realloc\<close>, \<open>rt_calloc\<close>, \<open>rt_free\<close> and the set-up of the heap.

  The heap is the array of bytes \<open>heap_mem\<close> that starts at the address \<open>heap_ptr\<close>. Clients pass
  addresses (\<open>RT_NULL\<close> is 0); pointers to headers are offsets into the heap, as \<open>mem->next\<close> and
  \<open>mem->prev\<close> are in the source. A block starts
  with a \<open>struct heap_mem\<close> of twelve bytes, read and written byte by byte in little-endian order, so
  a client that wrote over a header, or a header written over the data of a client, would show.
  32-bit arithmetic that may wrap is written with \<open>add32\<close>, \<open>sub32\<close> and \<open>mul32\<close>. The semaphore
  \<open>heap_sem\<close> is its value; an operation that finds it taken would wait for ever. All operations are
  called from threads (the source asserts that no interrupt is being served).
\<close>

declare add_2_eq_Suc [simp del] add_2_eq_Suc' [simp del]

section \<open>Integers in memory\<close>

fun le_value :: "8 word list \<Rightarrow> nat" where
  "le_value [] = 0"
| "le_value (b # bs) = unat b + 256 * le_value bs"

fun le_bytes :: "nat \<Rightarrow> nat \<Rightarrow> 8 word list" where
  "le_bytes 0 v = []"
| "le_bytes (Suc n) v = word_of_nat v # le_bytes n (v div 256)"

lemma length_le_bytes [simp]: "length (le_bytes n v) = n"
  by (induction n arbitrary: v) simp_all

lemma le_value_bytes [simp]: "v < 256 ^ n \<Longrightarrow> le_value (le_bytes n v) = v"
proof (induction n arbitrary: v)
  case (Suc n)
  then have "v div 256 < 256 ^ n" by (simp add: less_mult_imp_div_less mult.commute)
  then show ?case using Suc.IH by (simp add: unat_of_nat)
qed simp

definition load :: "nat \<Rightarrow> 8 word list \<Rightarrow> nat \<Rightarrow> nat res" where
  "load n m p = bnd (slice m p n) (\<lambda>bs. Inr (le_value bs))"

definition put_le :: "nat \<Rightarrow> nat \<Rightarrow> nat \<Rightarrow> 8 word list \<Rightarrow> 8 word list res" where
  "put_le n p v m = blit m p (le_bytes n v)"

definition add32 :: "nat \<Rightarrow> nat \<Rightarrow> nat" where
  "add32 a b = (a + b) mod 2 ^ 32"

definition sub32 :: "nat \<Rightarrow> nat \<Rightarrow> nat" where
  "sub32 a b = (a + 2 ^ 32 - b mod 2 ^ 32) mod 2 ^ 32"

definition mul32 :: "nat \<Rightarrow> nat \<Rightarrow> nat" where
  "mul32 a b = a * b mod 2 ^ 32"

lemma add32_id [simp]: "a + b < 2 ^ 32 \<Longrightarrow> add32 a b = a + b"
  by (simp add: add32_def)

lemma sub32_id [simp]: "b \<le> a \<Longrightarrow> a < 2 ^ 32 \<Longrightarrow> sub32 a b = a - b"
  by (simp add: sub32_def mod_if)

section \<open>The heap\<close>

record heap =
  heap_ptr :: nat
  heap_mem :: "8 word list"
  heap_end :: nat
  lfree :: nat
  heap_sem :: nat
  mem_size_aligned :: nat
  used_mem :: nat
  max_mem :: nat

definition HEAP_MAGIC :: nat where
  "HEAP_MAGIC = 0x1ea0"

definition RT_NULL :: nat where
  "RT_NULL = 0"

definition RT_ALIGN_SIZE :: nat where
  "RT_ALIGN_SIZE = 4"

definition MIN_SIZE :: nat where
  "MIN_SIZE = 12"

definition RT_ALIGN :: "nat \<Rightarrow> nat \<Rightarrow> nat" where
  "RT_ALIGN sz align = add32 sz (align - 1) div align * align"

definition MIN_SIZE_ALIGNED :: nat where
  "MIN_SIZE_ALIGNED = RT_ALIGN MIN_SIZE RT_ALIGN_SIZE"

definition SIZEOF_STRUCT_MEM :: nat where
  "SIZEOF_STRUCT_MEM = RT_ALIGN 12 RT_ALIGN_SIZE"

lemma sizes [simp]: "RT_ALIGN_SIZE = 4" "MIN_SIZE = 12" "MIN_SIZE_ALIGNED = 12" "SIZEOF_STRUCT_MEM = 12"
    "HEAP_MAGIC = 7840"
  by (simp_all add: RT_ALIGN_SIZE_def MIN_SIZE_def MIN_SIZE_ALIGNED_def SIZEOF_STRUCT_MEM_def
      RT_ALIGN_def HEAP_MAGIC_def)

text \<open>The fields of the \<open>struct heap_mem\<close> at an offset.\<close>

definition mem_magic :: "heap \<Rightarrow> nat \<Rightarrow> nat res" where
  "mem_magic h p = load 2 (heap_mem h) p"

definition mem_used :: "heap \<Rightarrow> nat \<Rightarrow> nat res" where
  "mem_used h p = load 2 (heap_mem h) (p + 2)"

definition mem_next :: "heap \<Rightarrow> nat \<Rightarrow> nat res" where
  "mem_next h p = load 4 (heap_mem h) (p + 4)"

definition mem_prev :: "heap \<Rightarrow> nat \<Rightarrow> nat res" where
  "mem_prev h p = load 4 (heap_mem h) (p + 8)"

definition set_field :: "nat \<Rightarrow> nat \<Rightarrow> nat \<Rightarrow> heap \<Rightarrow> heap res" where
  "set_field n p v h = bnd (put_le n p v (heap_mem h)) (\<lambda>m. Inr (h\<lparr>heap_mem := m\<rparr>))"

definition set_magic :: "nat \<Rightarrow> nat \<Rightarrow> heap \<Rightarrow> heap res" where
  "set_magic p v h = set_field 2 p v h"

definition set_used :: "nat \<Rightarrow> nat \<Rightarrow> heap \<Rightarrow> heap res" where
  "set_used p v h = set_field 2 (p + 2) v h"

definition set_next :: "nat \<Rightarrow> nat \<Rightarrow> heap \<Rightarrow> heap res" where
  "set_next p v h = set_field 4 (p + 4) v h"

definition set_prev :: "nat \<Rightarrow> nat \<Rightarrow> heap \<Rightarrow> heap res" where
  "set_prev p v h = set_field 4 (p + 8) v h"

definition rt_assert :: "bool \<Rightarrow> 'a res \<Rightarrow> 'a res" where
  "rt_assert b k = (if b then k else Inl Assertion_failed)"

lemma rt_assert_simps [simp]: "rt_assert True k = k" "rt_assert False k = Inl Assertion_failed"
  by (simp_all add: rt_assert_def)

definition heap_take :: "heap \<Rightarrow> heap res" where
  "heap_take h = (if heap_sem h > 0 then Inr (h\<lparr>heap_sem := heap_sem h - 1\<rparr>) else Inl Diverges)"

definition heap_release :: "heap \<Rightarrow> heap" where
  "heap_release h = h\<lparr>heap_sem := heap_sem h + 1\<rparr>"

definition count_used :: "nat \<Rightarrow> heap \<Rightarrow> heap" where
  \<comment> \<open>statistics of \<open>rt_malloc\<close>\<close>
  "count_used n h =
     (let u = add32 (used_mem h) n in h\<lparr>used_mem := u, max_mem := (if max_mem h < u then u else max_mem h)\<rparr>)"

definition count_freed :: "nat \<Rightarrow> heap \<Rightarrow> heap" where
  \<comment> \<open>statistics of \<open>rt_free\<close> and \<open>rt_realloc\<close>\<close>
  "count_freed n h = h\<lparr>used_mem := sub32 (used_mem h) n\<rparr>"

lemma count_fields [simp]:
  "heap_ptr (count_used n h) = heap_ptr h" "heap_mem (count_used n h) = heap_mem h"
  "heap_end (count_used n h) = heap_end h" "lfree (count_used n h) = lfree h"
  "heap_sem (count_used n h) = heap_sem h" "mem_size_aligned (count_used n h) = mem_size_aligned h"
  "heap_ptr (count_freed n h) = heap_ptr h" "heap_mem (count_freed n h) = heap_mem h"
  "heap_end (count_freed n h) = heap_end h" "lfree (count_freed n h) = lfree h"
  "heap_sem (count_freed n h) = heap_sem h" "mem_size_aligned (count_freed n h) = mem_size_aligned h"
  by (simp_all add: count_used_def count_freed_def Let_def)

section \<open>Operations\<close>

definition plug_forward :: "nat \<Rightarrow> heap \<Rightarrow> heap res" where
  "plug_forward mem h =
     bnd (mem_next h mem) (\<lambda>nmem.
     bnd (if mem = nmem then Inr 1 else mem_used h nmem) (\<lambda>used.
     if mem \<noteq> nmem \<and> used = 0 \<and> nmem \<noteq> heap_end h
     then let h = (if lfree h = nmem then h\<lparr>lfree := mem\<rparr> else h) in
          bnd (mem_next h nmem) (\<lambda>next.
          bnd (set_next mem next h) (\<lambda>h.
          set_prev next mem h))
     else Inr h))"

definition plug_backward :: "nat \<Rightarrow> heap \<Rightarrow> heap res" where
  "plug_backward mem h =
     bnd (mem_prev h mem) (\<lambda>pmem.
     bnd (if pmem = mem then Inr 1 else mem_used h pmem) (\<lambda>used.
     if pmem \<noteq> mem \<and> used = 0
     then let h = (if lfree h = mem then h\<lparr>lfree := pmem\<rparr> else h) in
          bnd (mem_next h mem) (\<lambda>next.
          bnd (set_next pmem next h) (\<lambda>h.
          set_prev next pmem h))
     else Inr h))"

definition plug_holes :: "nat \<Rightarrow> heap \<Rightarrow> heap res" where
  "plug_holes mem h =
     rt_assert (mem < heap_end h) (
     bnd (mem_used h mem) (\<lambda>used.
     rt_assert (used = 0) (
     bnd (plug_forward mem h) (\<lambda>h. plug_backward mem h))))"

definition rt_system_heap_init :: "nat \<Rightarrow> nat \<Rightarrow> 8 word list \<Rightarrow> heap option res" where
  \<comment> \<open>the memory from \<open>begin_addr\<close> aligned up is \<open>m\<close>; \<open>None\<close>: no room for a heap. The statistics are static variables\<close>
  "rt_system_heap_init begin_addr end_addr m =
     (let begin_align = RT_ALIGN begin_addr RT_ALIGN_SIZE;
          end_align = end_addr div RT_ALIGN_SIZE * RT_ALIGN_SIZE in
      if end_align > 2 * SIZEOF_STRUCT_MEM \<and> end_align - 2 * SIZEOF_STRUCT_MEM \<ge> begin_align
      then let sz = end_align - begin_align - 2 * SIZEOF_STRUCT_MEM;
               last = sz + SIZEOF_STRUCT_MEM;
               h = \<lparr>heap_ptr = begin_align, heap_mem = m, heap_end = last, lfree = 0,
                    heap_sem = 1, mem_size_aligned = sz, used_mem = 0, max_mem = 0\<rparr> in
           bnd (set_magic 0 HEAP_MAGIC h) (\<lambda>h.
           bnd (set_next 0 last h) (\<lambda>h.
           bnd (set_prev 0 0 h) (\<lambda>h.
           bnd (set_used 0 0 h) (\<lambda>h.
           bnd (set_magic last HEAP_MAGIC h) (\<lambda>h.
           bnd (set_used last 1 h) (\<lambda>h.
           bnd (set_next last last h) (\<lambda>h.
           bnd (set_prev last last h) (\<lambda>h.
           Inr (Some h)))))))))
      else Inr None)"

text \<open>
  The search of \<open>rt_malloc\<close> only follows \<open>next\<close> and changes nothing, so a search of more steps than
  the heap has bytes visits an offset twice and never ends: the length of the heap is enough fuel.
\<close>

fun find_fit :: "nat \<Rightarrow> heap \<Rightarrow> nat \<Rightarrow> nat \<Rightarrow> nat option res" where
  "find_fit 0 h sz ptr = Inl Diverges"
| "find_fit (Suc fuel) h sz ptr =
     (if ptr < sub32 (mem_size_aligned h) sz
      then bnd (mem_used h ptr) (\<lambda>used.
           bnd (mem_next h ptr) (\<lambda>next.
           if used = 0 \<and> sub32 next (add32 ptr SIZEOF_STRUCT_MEM) \<ge> sz then Inr (Some ptr)
           else find_fit fuel h sz next))
      else Inr None)"

fun next_free :: "nat \<Rightarrow> heap \<Rightarrow> nat \<Rightarrow> nat res" where
  "next_free 0 h p = Inl Diverges"
| "next_free (Suc fuel) h p =
     bnd (mem_used h p) (\<lambda>used.
     if used \<noteq> 0 \<and> p \<noteq> heap_end h then bnd (mem_next h p) (next_free fuel h) else Inr p)"

definition heap_fuel :: "heap \<Rightarrow> nat" where
  "heap_fuel h = length (heap_mem h)"

definition split_block :: "nat \<Rightarrow> nat \<Rightarrow> heap \<Rightarrow> heap res" where
  \<comment> \<open>a new free block at \<open>ptr2\<close> behind the block at \<open>ptr\<close>\<close>
  "split_block ptr ptr2 h =
     bnd (set_magic ptr2 HEAP_MAGIC h) (\<lambda>h.
     bnd (set_used ptr2 0 h) (\<lambda>h.
     bnd (mem_next h ptr) (\<lambda>next.
     bnd (set_next ptr2 next h) (\<lambda>h.
     bnd (set_prev ptr2 ptr h) (\<lambda>h.
     set_next ptr ptr2 h)))))"

definition link_next :: "nat \<Rightarrow> heap \<Rightarrow> heap res" where
  "link_next ptr2 h =
     bnd (mem_next h ptr2) (\<lambda>next.
     if next \<noteq> mem_size_aligned h + SIZEOF_STRUCT_MEM then set_prev next ptr2 h else Inr h)"

definition take_block :: "nat \<Rightarrow> nat \<Rightarrow> heap \<Rightarrow> heap res" where
  "take_block sz ptr h =
     bnd (mem_next h ptr) (\<lambda>next.
     if sub32 next (add32 ptr SIZEOF_STRUCT_MEM) \<ge> add32 sz (SIZEOF_STRUCT_MEM + MIN_SIZE_ALIGNED)
     then let ptr2 = ptr + SIZEOF_STRUCT_MEM + sz in
          bnd (split_block ptr ptr2 h) (\<lambda>h.
          bnd (set_used ptr 1 h) (\<lambda>h.
          bnd (link_next ptr2 h) (\<lambda>h.
          Inr (count_used (add32 sz SIZEOF_STRUCT_MEM) h))))
     else bnd (set_used ptr 1 h) (\<lambda>h.
          bnd (mem_next h ptr) (\<lambda>next.
          Inr (count_used (sub32 next ptr) h))))"

definition alloc_block :: "nat \<Rightarrow> heap \<Rightarrow> (nat \<times> heap) res" where
  "alloc_block sz h =
     bnd (heap_take h) (\<lambda>h.
     bnd (find_fit (heap_fuel h) h sz (lfree h)) (\<lambda>found.
     case found of
       None \<Rightarrow> Inr (RT_NULL, heap_release h)
     | Some mem \<Rightarrow>
         bnd (take_block sz mem h) (\<lambda>h.
         bnd (set_magic mem HEAP_MAGIC h) (\<lambda>h.
         bnd (if mem = lfree h
              then bnd (next_free (heap_fuel h) h (lfree h)) (\<lambda>p.
                   bnd (mem_used h p) (\<lambda>used.
                   rt_assert (p = heap_end h \<or> used = 0) (Inr (h\<lparr>lfree := p\<rparr>))))
              else Inr h) (\<lambda>h.
         let h = heap_release h in
         rt_assert (mem + SIZEOF_STRUCT_MEM + sz \<le> heap_end h) (
         rt_assert ((heap_ptr h + mem + SIZEOF_STRUCT_MEM) mod RT_ALIGN_SIZE = 0) (
         rt_assert ((heap_ptr h + mem) mod RT_ALIGN_SIZE = 0) (
         Inr (heap_ptr h + mem + SIZEOF_STRUCT_MEM, h)))))))))"

definition rt_malloc :: "nat \<Rightarrow> heap \<Rightarrow> (nat \<times> heap) res" where
  "rt_malloc sz h =
     (if sz = 0 then Inr (RT_NULL, h)
      else let sz = RT_ALIGN sz RT_ALIGN_SIZE in
      if sz > mem_size_aligned h then Inr (RT_NULL, h)
      else let sz = (if sz < MIN_SIZE_ALIGNED then MIN_SIZE_ALIGNED else sz) in
      alloc_block sz h)"

definition rt_free :: "nat \<Rightarrow> heap \<Rightarrow> heap res" where
  "rt_free rmem h =
     (if rmem = RT_NULL then Inr h
      else
        rt_assert (rmem mod RT_ALIGN_SIZE = 0) (
        rt_assert (heap_ptr h \<le> rmem \<and> rmem < heap_ptr h + heap_end h) (
        if rmem < heap_ptr h + SIZEOF_STRUCT_MEM then Inl Out_of_bounds
        else let mem = rmem - SIZEOF_STRUCT_MEM - heap_ptr h in
        bnd (heap_take h) (\<lambda>h.
        bnd (mem_used h mem) (\<lambda>used.
        rt_assert (used \<noteq> 0) (
        bnd (mem_magic h mem) (\<lambda>magic.
        rt_assert (magic = HEAP_MAGIC) (
        bnd (set_used mem 0 h) (\<lambda>h.
        bnd (set_magic mem HEAP_MAGIC h) (\<lambda>h.
        let h = (if mem < lfree h then h\<lparr>lfree := mem\<rparr> else h) in
        bnd (mem_next h mem) (\<lambda>next.
        bnd (plug_holes mem (count_freed (sub32 next mem) h)) (\<lambda>h.
        Inr (heap_release h)))))))))))))"

definition copy_block :: "nat \<Rightarrow> nat \<Rightarrow> nat \<Rightarrow> heap \<Rightarrow> heap res" where
  "copy_block dst src n h =
     bnd (rt_memcpy (dst mod 4 \<noteq> 0 \<or> src mod 4 \<noteq> 0)
          (drop (dst - heap_ptr h) (heap_mem h)) (drop (src - heap_ptr h) (heap_mem h)) n) (\<lambda>bs.
     Inr (h\<lparr>heap_mem := take (dst - heap_ptr h) (heap_mem h) @ bs\<rparr>))"

definition rt_realloc :: "nat \<Rightarrow> nat \<Rightarrow> heap \<Rightarrow> (nat \<times> heap) res" where
  "rt_realloc rmem newsize h =
     (let newsize = RT_ALIGN newsize RT_ALIGN_SIZE in
      if newsize > mem_size_aligned h then Inr (RT_NULL, h)
      else if newsize = 0 then bnd (rt_free rmem h) (\<lambda>h. Inr (RT_NULL, h))
      else if rmem = RT_NULL then rt_malloc newsize h
      else bnd (heap_take h) (\<lambda>h.
        if rmem < heap_ptr h \<or> heap_ptr h + heap_end h \<le> rmem then Inr (rmem, heap_release h)
        else if rmem < heap_ptr h + SIZEOF_STRUCT_MEM then Inl Out_of_bounds
        else let ptr = rmem - SIZEOF_STRUCT_MEM - heap_ptr h in
        bnd (mem_next h ptr) (\<lambda>next.
        let sz = sub32 (sub32 next ptr) SIZEOF_STRUCT_MEM in
        if sz = newsize then Inr (rmem, heap_release h)
        else if add32 newsize (SIZEOF_STRUCT_MEM + MIN_SIZE) < sz
        then let ptr2 = ptr + SIZEOF_STRUCT_MEM + newsize in
             bnd (split_block ptr ptr2 (count_freed (sub32 sz newsize) h)) (\<lambda>h.
             bnd (link_next ptr2 h) (\<lambda>h.
             let h = (if ptr2 < lfree h then h\<lparr>lfree := ptr2\<rparr> else h) in
             bnd (plug_holes ptr2 h) (\<lambda>h.
             Inr (rmem, heap_release h))))
        else let h = heap_release h in
             bnd (rt_malloc newsize h) (\<lambda>(nmem, h).
             if nmem \<noteq> RT_NULL
             then bnd (copy_block nmem rmem (if sz < newsize then sz else newsize) h) (\<lambda>h.
                  bnd (rt_free rmem h) (\<lambda>h.
                  Inr (nmem, h)))
             else Inr (nmem, h)))))"

definition rt_memory_info :: "heap \<Rightarrow> nat \<times> nat \<times> nat" where
  \<comment> \<open>total, used and maximum of used memory\<close>
  "rt_memory_info h = (mem_size_aligned h, used_mem h, max_mem h)"

definition rt_calloc :: "nat \<Rightarrow> nat \<Rightarrow> heap \<Rightarrow> (nat \<times> heap) res" where
  "rt_calloc count sz h =
     bnd (rt_malloc (mul32 count sz) h) (\<lambda>(p, h).
     if p \<noteq> RT_NULL
     then bnd (rt_memset (p mod 4 \<noteq> 0) (drop (p - heap_ptr h) (heap_mem h)) 0 (mul32 count sz)) (\<lambda>bs.
          Inr (p, h\<lparr>heap_mem := take (p - heap_ptr h) (heap_mem h) @ bs\<rparr>))
     else Inr (p, h))"

section \<open>Memory lemmas\<close>

abbreviation ld :: "nat \<Rightarrow> 8 word list \<Rightarrow> nat \<Rightarrow> nat" where
  "ld n m p \<equiv> le_value (take n (drop p m))"

abbreviation st :: "nat \<Rightarrow> nat \<Rightarrow> nat \<Rightarrow> 8 word list \<Rightarrow> 8 word list" where
  "st n p v m \<equiv> overwrite m p (le_bytes n v)"

lemma load_in: "p + n \<le> length m \<Longrightarrow> load n m p = Inr (ld n m p)"
  by (simp add: load_def)

definition same :: "'a list \<Rightarrow> 'a list \<Rightarrow> nat \<Rightarrow> nat \<Rightarrow> bool" where
  "same m m' a b \<longleftrightarrow> (\<forall>i. a \<le> i \<and> i < b \<longrightarrow> m ! i = m' ! i)"

lemma same_take_drop:
  assumes "same m m' a b" "a \<le> p" "p + n \<le> b" "p + n \<le> length m" "p + n \<le> length m'"
  shows "take n (drop p m) = take n (drop p m')"
  using assms by (intro nth_equalityI) (auto simp: same_def)

lemma same_overwrite:
  "b \<le> p \<or> p + length ys \<le> a \<Longrightarrow> p + length ys \<le> length m \<Longrightarrow> same m (overwrite m p ys) a b"
  by (auto simp: same_def nth_overwrite)

lemma same_refl [simp]: "same m m a b"
  by (simp add: same_def)

lemma same_trans: "same m m' a b \<Longrightarrow> same m' m'' a b \<Longrightarrow> same m m'' a b"
  by (simp add: same_def)

lemma same_sub: "same m m' a b \<Longrightarrow> a \<le> c \<Longrightarrow> d \<le> b \<Longrightarrow> same m m' c d"
  by (simp add: same_def)

lemma take_drop_overwrite:
  assumes "p + length ys \<le> length m"
  shows "take (length ys) (drop p (overwrite m p ys)) = ys"
  using assms by (simp add: overwrite_def min_def)

lemma ld_st: "p + n \<le> length m \<Longrightarrow> v < 256 ^ n \<Longrightarrow> ld n (st n p v m) p = v"
  using take_drop_overwrite [of p "le_bytes n v" m] by simp

lemma ld_st_other:
  assumes "q + k \<le> p \<or> p + n \<le> q" "p + n \<le> length m" "q + k \<le> length m"
  shows "ld k (st n p v m) q = ld k m q"
  using same_take_drop [OF same_overwrite [of "q + k" p "le_bytes n v" q m]] assms by simp

lemma length_st [simp]: "p + n \<le> length m \<Longrightarrow> length (st n p v m) = length m"
  by simp

text \<open>In bounds the field operations are loads and stores.\<close>

lemma fields:
  "p + 12 \<le> length (heap_mem h) \<Longrightarrow> mem_magic h p = Inr (ld 2 (heap_mem h) p)"
  "p + 12 \<le> length (heap_mem h) \<Longrightarrow> mem_used h p = Inr (ld 2 (heap_mem h) (p + 2))"
  "p + 12 \<le> length (heap_mem h) \<Longrightarrow> mem_next h p = Inr (ld 4 (heap_mem h) (p + 4))"
  "p + 12 \<le> length (heap_mem h) \<Longrightarrow> mem_prev h p = Inr (ld 4 (heap_mem h) (p + 8))"
  "p + 12 \<le> length (heap_mem h) \<Longrightarrow> set_magic p v h = Inr (h\<lparr>heap_mem := st 2 p v (heap_mem h)\<rparr>)"
  "p + 12 \<le> length (heap_mem h) \<Longrightarrow> set_used p v h = Inr (h\<lparr>heap_mem := st 2 (p + 2) v (heap_mem h)\<rparr>)"
  "p + 12 \<le> length (heap_mem h) \<Longrightarrow> set_next p v h = Inr (h\<lparr>heap_mem := st 4 (p + 4) v (heap_mem h)\<rparr>)"
  "p + 12 \<le> length (heap_mem h) \<Longrightarrow> set_prev p v h = Inr (h\<lparr>heap_mem := st 4 (p + 8) v (heap_mem h)\<rparr>)"
  by (simp_all add: mem_magic_def mem_used_def mem_next_def mem_prev_def load_in set_magic_def
      set_used_def set_next_def set_prev_def set_field_def put_le_def)

section \<open>The chain of blocks\<close>

type_synonym blocks = "(nat \<times> bool) list"

definition block :: "8 word list \<Rightarrow> nat \<Rightarrow> nat \<Rightarrow> nat \<Rightarrow> bool \<Rightarrow> bool" where
  "block m p q n u \<longleftrightarrow> 12 \<le> n \<and> n mod 4 = 0 \<and> p + n \<le> length m \<and>
     ld 2 m p = HEAP_MAGIC \<and> ld 2 m (p + 2) = of_bool u \<and> ld 4 m (p + 4) = p + n \<and> ld 4 m (p + 8) = q"

fun seg :: "8 word list \<Rightarrow> nat \<Rightarrow> nat \<Rightarrow> blocks \<Rightarrow> bool" where
  "seg m p q [] \<longleftrightarrow> True"
| "seg m p q ((n, u) # bs) \<longleftrightarrow> block m p q n u \<and> seg m (p + n) p bs"

fun span :: "nat \<Rightarrow> blocks \<Rightarrow> nat" where
  "span p [] = p"
| "span p ((n, u) # bs) = span (p + n) bs"

fun lastp :: "nat \<Rightarrow> nat \<Rightarrow> blocks \<Rightarrow> nat" where
  "lastp p q [] = q"
| "lastp p q ((n, u) # bs) = lastp (p + n) p bs"

lemma span_le: "p \<le> span p bs"
  by (induction p bs rule: span.induct) auto

lemma span_append [simp]: "span p (as @ bs) = span (span p as) bs"
  by (induction p as rule: span.induct) auto

lemma seg_append [simp]: "seg m p q (as @ bs) \<longleftrightarrow> seg m p q as \<and> seg m (span p as) (lastp p q as) bs"
  by (induction m p q as rule: seg.induct) auto

lemma lastp_snoc [simp]: "lastp p q (bs @ [(j, v)]) = span p bs"
  by (induction p q bs rule: lastp.induct) auto

lemma span_length: "seg m p q bs \<Longrightarrow> p + 12 * length bs \<le> span p bs"
  by (induction m p q bs rule: seg.induct) (auto simp: block_def)

lemma span_mod: "seg m p q bs \<Longrightarrow> p mod 4 = 0 \<Longrightarrow> span p bs mod 4 = 0"
  by (induction m p q bs rule: seg.induct) (auto simp: block_def mod_add_eq)

lemma block_same:
  assumes "block m p q n u" "same m m' p (p + 12)" "length m' = length m"
  shows "block m' p q n u"
proof -
  have "take k (drop (p + j) m) = take k (drop (p + j) m')" if "j + k \<le> 12" for j k
    using assms that by (intro same_take_drop [OF assms(2)]) (auto simp: block_def)
  from this [of 0 2] this [of 2 2] this [of 4 4] this [of 8 4] show ?thesis
    using assms by (simp add: block_def)
qed

lemma seg_same: "seg m p q bs \<Longrightarrow> same m m' p (span p bs) \<Longrightarrow> length m' = length m \<Longrightarrow> seg m' p q bs"
proof (induction m p q bs rule: seg.induct)
  case (2 m p q n u bs)
  then have "block m p q n u" by simp
  moreover have s: "p + n \<le> span (p + n) bs" by (rule span_le)
  ultimately have "block m' p q n u"
    using 2 by (intro block_same [of m p q n u m']) (auto simp: block_def intro: same_sub)
  moreover have "same m m' (p + n) (span (p + n) bs)"
    using 2(3) by (auto intro: same_sub)
  ultimately show ?case using 2 by simp
qed simp

text \<open>What the clients see: address and content of every block in use.\<close>

fun used_data :: "8 word list \<Rightarrow> nat \<Rightarrow> blocks \<Rightarrow> (nat \<times> 8 word list) list" where
  "used_data m p [] = []"
| "used_data m p ((n, u) # bs) =
     (if u then [(p + 12, take (n - 12) (drop (p + 12) m))] else []) @ used_data m (p + n) bs"

lemma used_data_append [simp]: "used_data m p (as @ bs) = used_data m p as @ used_data m (span p as) bs"
  by (induction m p as rule: used_data.induct) auto

lemma used_data_same:
  "seg m p q bs \<Longrightarrow> same m m' p (span p bs) \<Longrightarrow> length m' = length m \<Longrightarrow> used_data m' p bs = used_data m p bs"
proof (induction m p q bs rule: seg.induct)
  case (2 m p q n u bs)
  then have b: "block m p q n u" by simp
  have s: "p + n \<le> span (p + n) bs" by (rule span_le)
  have "take (n - 12) (drop (p + 12) m) = take (n - 12) (drop (p + 12) m')"
    using 2 b s by (intro same_take_drop [OF 2(3)]) (auto simp: block_def)
  moreover have "same m m' (p + n) (span (p + n) bs)"
    using 2(3) by (auto intro: same_sub)
  ultimately show ?case using 2 by simp
qed simp


lemma same_st_right:
  assumes "b \<le> p \<or> p + n \<le> a" "p + n \<le> length m"
  shows "same m0 (st n p v m) a b \<longleftrightarrow> same m0 m a b"
proof -
  have "same m (st n p v m) a b"
    using assms by (intro same_overwrite) auto
  then have "st n p v m ! i = m ! i" if "a \<le> i \<and> i < b" for i
    using that by (simp add: same_def)
  then show ?thesis by (simp add: same_def)
qed

lemmas mem_simps = ld_st ld_st_other same_st_right fields

definition end_block :: "8 word list \<Rightarrow> nat \<Rightarrow> bool" where
  "end_block m e \<longleftrightarrow> ld 2 m e = HEAP_MAGIC \<and> ld 2 m (e + 2) = 1 \<and> ld 4 m (e + 4) = e"

text \<open>The rest of the heap from a header on; only the \<open>prev\<close> of the last header is free.\<close>

definition rest :: "8 word list \<Rightarrow> nat \<Rightarrow> nat \<Rightarrow> blocks \<Rightarrow> bool" where
  "rest m p q bs \<longleftrightarrow> seg m p q bs \<and> span p bs + 12 = length m \<and> end_block m (span p bs)"

definition heap_shape :: "heap \<Rightarrow> blocks \<Rightarrow> bool" where
  "heap_shape h bs \<longleftrightarrow> heap_end h = mem_size_aligned h + 12 \<and> length (heap_mem h) = heap_end h + 12 \<and>
     0 < heap_ptr h \<and> heap_ptr h mod 4 = 0 \<and> heap_ptr h + length (heap_mem h) \<le> 2 ^ 32 \<and>
     mem_size_aligned h mod 4 = 0 \<and> 12 \<le> mem_size_aligned h \<and> rest (heap_mem h) 0 0 bs"

lemma end_block_same:
  assumes "end_block m e" "same m m' e (e + 8)" "e + 12 = length m" "length m' = length m"
  shows "end_block m' e"
proof -
  have "take k (drop (e + j) m) = take k (drop (e + j) m')" if "j + k \<le> 8" for j k
    using assms that by (intro same_take_drop [OF assms(2)]) auto
  from this [of 0 2] this [of 2 2] this [of 4 4] show ?thesis
    using assms(1) by (simp add: end_block_def)
qed

lemma rest_relink:
  assumes "rest m p q bs" "length m' = length m"
    and "same m m' p (p + 8)" "same m m' (p + 12) (length m)"
    and "bs \<noteq> [] \<Longrightarrow> ld 4 m' (p + 8) = q'"
  shows "rest m' p q' bs" and "used_data m' p bs = used_data m p bs"
proof -
  have "rest m' p q' bs \<and> used_data m' p bs = used_data m p bs"
  proof (cases bs)
    case Nil
    then show ?thesis using assms end_block_same [of m p m'] by (simp add: rest_def)
  next
    case (Cons b cs)
    obtain n u where b: "b = (n, u)" by (cases b)
    have blk: "block m p q n u" and s: "seg m (p + n) p cs" and e: "span (p + n) cs + 12 = length m"
      and eb: "end_block m (span (p + n) cs)"
      using assms(1) Cons b by (auto simp: rest_def)
    have le: "p + n \<le> span (p + n) cs" by (rule span_le)
    have n: "12 \<le> n" using blk by (simp add: block_def)
    have ld: "take k (drop (p + j) m) = take k (drop (p + j) m')" if "j + k \<le> 8" for j k
      using that le e n assms(2) by (intro same_take_drop [OF assms(3)]) auto
    have "block m' p q' n u"
      using ld [of 0 2] ld [of 2 2] ld [of 4 4] blk assms(2) assms(5) Cons by (simp add: block_def)
    moreover have t: "same m m' (p + n) (span (p + n) cs)" "same m m' (span (p + n) cs) (span (p + n) cs + 8)"
      using assms(4) n le e by (auto intro: same_sub)
    moreover have "take (n - 12) (drop (p + 12) m) = take (n - 12) (drop (p + 12) m')"
      using le e n assms(2) by (intro same_take_drop [OF assms(4)]) auto
    ultimately show ?thesis
      using seg_same [OF s t(1) assms(2)] used_data_same [OF s t(1) assms(2)]
        end_block_same [OF eb t(2) e assms(2)] assms(2) e Cons b
      by (simp add: rest_def)
  qed
  then show "rest m' p q' bs" and "used_data m' p bs = used_data m p bs" by auto
qed

lemma rest_same:
  assumes "rest m p q bs" "length m' = length m" "same m m' p (length m)" "p + 12 \<le> length m"
  shows "rest m' p q bs" and "used_data m' p bs = used_data m p bs"
proof -
  have s: "seg m p q bs" and e: "span p bs + 12 = length m" and b: "end_block m (span p bs)"
    using assms(1) by (auto simp: rest_def)
  have t: "same m m' p (span p bs)" "same m m' (span p bs) (span p bs + 8)"
    using assms(3) e span_le [of p bs] by (auto intro: same_sub)
  show "rest m' p q bs"
    using seg_same [OF s t(1) assms(2)] end_block_same [OF b t(2) e assms(2)] e assms(2)
    by (simp add: rest_def)
  show "used_data m' p bs = used_data m p bs"
    by (rule used_data_same [OF s t(1) assms(2)])
qed

lemma rest_append:
  "rest m p q (as @ bs) \<longleftrightarrow> seg m p q as \<and> rest m (span p as) (lastp p q as) bs"
  by (auto simp: rest_def)

lemma rest_Cons:
  "rest m p q ((n, u) # bs) \<longleftrightarrow> block m p q n u \<and> rest m (p + n) p bs"
  by (auto simp: rest_def)

lemma rest_bounds: "rest m p q bs \<Longrightarrow> p + 12 \<le> length m"
  using span_le [of p bs] by (simp add: rest_def)

text \<open>
  Changing the blocks in the middle: whatever stands between an unchanged front and a rest whose
  first header was relinked.
\<close>

lemma heap_shape_middle:
  assumes "heap_shape h (as @ bs)" "length m' = length (heap_mem h)" "same (heap_mem h) m' 0 (span 0 as)"
    and "rest m' (span 0 as) (lastp 0 0 as) bs'"
  shows "heap_shape (h\<lparr>heap_mem := m'\<rparr>) (as @ bs')"
    and "used_data m' 0 as = used_data (heap_mem h) 0 as"
  using assms seg_same [of "heap_mem h" 0 0 as m'] used_data_same [of "heap_mem h" 0 0 as m']
  by (auto simp: heap_shape_def rest_append)

section \<open>Splitting and joining blocks\<close>

definition split_mem :: "nat \<Rightarrow> nat \<Rightarrow> 8 word list \<Rightarrow> 8 word list" where
  "split_mem p p2 m =
     st 4 (p + 4) p2 (st 4 (p2 + 8) p (st 4 (p2 + 4) (ld 4 m (p + 4))
       (st 2 (p2 + 2) 0 (st 2 p2 HEAP_MAGIC m))))"

lemma split_mem_length: "p + 12 \<le> p2 \<Longrightarrow> p2 + 12 \<le> length m \<Longrightarrow> length (split_mem p p2 m) = length m"
  by (simp add: split_mem_def)

lemma split_mem_first:
  assumes "p + 12 \<le> p2" "p2 + 12 \<le> length m" "p2 < 2 ^ 32"
  shows "ld 2 (split_mem p p2 m) p = ld 2 m p" "ld 2 (split_mem p p2 m) (p + 2) = ld 2 m (p + 2)"
    "ld 4 (split_mem p p2 m) (p + 4) = p2" "ld 4 (split_mem p p2 m) (p + 8) = ld 4 m (p + 8)"
  using assms by (simp_all add: split_mem_def ld_st ld_st_other)

lemma split_mem_second:
  assumes "p + 12 \<le> p2" "p2 + 12 \<le> length m" "p < 2 ^ 32" "ld 4 m (p + 4) < 2 ^ 32"
  shows "ld 2 (split_mem p p2 m) p2 = HEAP_MAGIC" "ld 2 (split_mem p p2 m) (p2 + 2) = 0"
    "ld 4 (split_mem p p2 m) (p2 + 4) = ld 4 m (p + 4)" "ld 4 (split_mem p p2 m) (p2 + 8) = p"
  using assms by (simp_all add: split_mem_def ld_st ld_st_other)

lemma split_mem_same:
  assumes "p + 12 \<le> p2" "p2 + 12 \<le> length m"
  shows "same m (split_mem p p2 m) 0 p" "same m (split_mem p p2 m) (p + 12) p2"
    "same m (split_mem p p2 m) (p2 + 12) (length m)"
  using assms by (simp_all add: split_mem_def same_st_right)

definition link_mem :: "nat \<Rightarrow> nat \<Rightarrow> nat \<Rightarrow> 8 word list \<Rightarrow> 8 word list" where
  "link_mem p2 next e m = (if next \<noteq> e then st 4 (next + 8) p2 m else m)"

lemma split_block_mem:
  assumes "p + 12 \<le> p2" "p2 + 12 \<le> length (heap_mem h)"
  shows "split_block p p2 h = Inr (h\<lparr>heap_mem := split_mem p p2 (heap_mem h)\<rparr>)"
  using assms by (simp add: split_block_def mem_simps split_mem_def)

lemma link_next_mem:
  assumes "p2 + 12 \<le> length m" "ld 4 m (p2 + 4) = next" "next + 12 \<le> length m"
    and "mem_size_aligned h + 12 = e"
  shows "link_next p2 (h\<lparr>heap_mem := m\<rparr>) = Inr (h\<lparr>heap_mem := link_mem p2 next e m\<rparr>)"
  using assms by (simp add: link_next_def mem_simps link_mem_def)

lemma block_magic: "block m p q n u \<Longrightarrow> ld 2 m p = HEAP_MAGIC" "block m p q n u \<Longrightarrow> ld 2 m (p + 2) = of_bool u"
  "block m p q n u \<Longrightarrow> ld 4 m (p + 4) = p + n" "block m p q n u \<Longrightarrow> ld 4 m (p + 8) = q"
  "block m p q n u \<Longrightarrow> 12 \<le> n" "block m p q n u \<Longrightarrow> n mod 4 = 0" "block m p q n u \<Longrightarrow> p + n \<le> length m"
  by (simp_all add: block_def)

text \<open>\<open>m1\<close> differs from \<open>m\<close> in the two headers only.\<close>

lemma rest_split:
  assumes m: "rest m p q ((n, u) # cs)" and len: "length m1 = length m" and p2: "p2 = p + k"
    and k: "12 \<le> k" "k mod 4 = 0" "k + 12 \<le> n"
    and b1: "ld 2 m1 p = HEAP_MAGIC" "ld 2 m1 (p + 2) = of_bool u'" "ld 4 m1 (p + 4) = p2" "ld 4 m1 (p + 8) = q"
    and b2: "ld 2 m1 p2 = HEAP_MAGIC" "ld 2 m1 (p2 + 2) = 0" "ld 4 m1 (p2 + 4) = p + n" "ld 4 m1 (p2 + 8) = p"
    and s: "same m m1 (p2 + 12) (length m)" and small: "length m \<le> 2 ^ 32"
    and m': "m' = link_mem p2 (p + n) (length m - 12) m1"
  shows "rest m' p q ((k, u') # (n - k, False) # cs)" and "used_data m' (p + n) cs = used_data m (p + n) cs"
    and "length m' = length m" and "same m1 m' 0 (p + n)"
proof -
  have blk: "block m p q n u" and r: "rest m (p + n) p cs" using m by (auto simp: rest_Cons)
  have bnd: "p + n + 12 \<le> length m" by (rule rest_bounds [OF r])
  have cs: "p + n \<noteq> length m - 12" if ne: "cs \<noteq> []"
  proof -
    obtain a b ds where c: "cs = (a, b) # ds" using ne by (cases cs) auto
    have "12 \<le> a" "span (p + n + a) ds + 12 = length m" using r c by (auto simp: rest_def block_def)
    then show ?thesis using span_le [of "p + n + a" ds] by linarith
  qed
  show len': "length m' = length m" using bnd len by (simp add: m' link_mem_def)
  show sm: "same m1 m' 0 (p + n)" using bnd len by (auto simp: m' link_mem_def same_st_right)
  have t: "same m m' (p + n) (p + n + 8)" "same m m' (p + n + 12) (length m)"
    using s bnd k len by (auto simp: m' link_mem_def same_st_right p2 intro: same_sub)
  have pv: "cs \<noteq> [] \<Longrightarrow> ld 4 m' (p + n + 8) = p2"
    using cs bnd len small k by (simp add: m' link_mem_def ld_st p2)
  note rl = rest_relink [OF r len' t pv]
  have ld: "ld i m' j = ld i m1 j" if "j + i \<le> p + n" for i j
    using that sm bnd len len' same_take_drop [of m1 m' 0 "p + n" j i] by simp
  have "(n - k) mod 4 = 0" using k blk by (simp add: block_def mod_diff_right_eq mod_eq_0_iff_dvd)
  then have "block m' p q k u'" "block m' (p + k) p (n - k) False"
    using b1 b2 k bnd len' by (auto simp: block_def ld p2)
  then show "rest m' p q ((k, u') # (n - k, False) # cs)"
    using rl(1) k by (simp add: rest_Cons p2)
  show "used_data m' (p + n) cs = used_data m (p + n) cs"
    by (rule rl(2))
qed

lemma rest_middle:
  assumes "heap_shape h (as @ (n, u) # cs)" "p = span 0 as" "q = lastp 0 0 as"
  shows "rest (heap_mem h) p q ((n, u) # cs)" "block (heap_mem h) p q n u"
    "p + n + 12 \<le> length (heap_mem h)" "length (heap_mem h) < 2 ^ 32" "p mod 4 = 0"
    "length (heap_mem h) = mem_size_aligned h + 24"
proof -
  show r: "rest (heap_mem h) p q ((n, u) # cs)"
    using assms by (simp add: heap_shape_def rest_append)
  show "block (heap_mem h) p q n u" using r by (simp add: rest_Cons)
  show "p + n + 12 \<le> length (heap_mem h)"
    using r rest_bounds [of _ "p + n" p cs] by (simp add: rest_Cons)
  show "length (heap_mem h) < 2 ^ 32" "length (heap_mem h) = mem_size_aligned h + 24"
    using assms by (auto simp: heap_shape_def)
  show "p mod 4 = 0" using assms span_mod [of "heap_mem h" 0 0 as] by (simp add: heap_shape_def rest_append)
qed

lemma split_link:
  assumes h: "heap_shape h (as @ (n, u) # cs)" and p: "p = span 0 as"
    and k: "12 \<le> k" "k mod 4 = 0" "k + 12 \<le> n"
  shows "\<exists>m'. bnd (split_block p (p + k) h) (\<lambda>h. bnd (if b then set_used p 1 h else Inr h) (link_next (p + k))) =
       Inr (h\<lparr>heap_mem := m'\<rparr>) \<and>
     heap_shape (h\<lparr>heap_mem := m'\<rparr>) (as @ (k, b \<or> u) # (n - k, False) # cs) \<and>
     used_data m' 0 as = used_data (heap_mem h) 0 as \<and>
     used_data m' (p + n) cs = used_data (heap_mem h) (p + n) cs \<and>
     same (heap_mem h) m' (p + 12) (p + k)"
proof -
  define q where "q = lastp 0 0 as"
  define m where "m = heap_mem h"
  define m1 where "m1 = (if b then st 2 (p + 2) 1 (split_mem p (p + k) m) else split_mem p (p + k) m)"
  define m' where "m' = link_mem (p + k) (p + n) (length m - 12) m1"
  note r = rest_middle [OF h p q_def, folded m_def]
  note f = block_magic [OF r(2)]
  have pk: "p + 12 \<le> p + k" "p + k + 12 \<le> length m" "p + k < 2 ^ 32" "p < 2 ^ 32" "ld 4 m (p + 4) < 2 ^ 32"
    using r(3,4) k(1,3) f(3) by auto
  note ls = split_mem_length [OF pk(1,2)] and sf = split_mem_first [OF pk(1-3)]
    and ss = split_mem_second [OF pk(1,2,4,5)] and sm = split_mem_same [OF pk(1,2)]
  have d: "bnd (split_block p (p + k) h) (\<lambda>h. bnd (if b then set_used p 1 h else Inr h) g) =
      g (h\<lparr>heap_mem := m1\<rparr>)" for g :: "heap \<Rightarrow> heap res"
    using pk(1,2) ls by (simp add: split_block_mem m1_def m_def fields)
  have len: "length m1 = length m" using pk(1,2) ls by (simp add: m1_def)
  have n1: "ld 4 m1 (p + k + 4) = p + n"
    using pk(1,2) ss f(3) ls by (cases b) (simp_all add: m1_def ld_st_other)
  have e: "mem_size_aligned h + 12 = length m - 12" using r(6) by simp
  have "p + k + 12 \<le> length m1" "p + n + 12 \<le> length m1" using r(3) pk(2) len by auto
  then have l: "bnd (split_block p (p + k) h) (\<lambda>h. bnd (if b then set_used p 1 h else Inr h) (link_next (p + k))) =
      Inr (h\<lparr>heap_mem := m'\<rparr>)"
    using link_next_mem [OF _ n1 _ e] by (simp add: d m'_def)
  have b1: "ld 2 m1 p = HEAP_MAGIC" "ld 2 m1 (p + 2) = of_bool (b \<or> u)" "ld 4 m1 (p + 4) = p + k" "ld 4 m1 (p + 8) = q"
    using pk(1,2) ls sf f(1,2,4) by (simp_all add: m1_def ld_st ld_st_other)
  have b2: "ld 2 m1 (p + k) = HEAP_MAGIC" "ld 2 m1 (p + k + 2) = 0" "ld 4 m1 (p + k + 8) = p"
    using pk(1,2) ls ss by (simp_all add: m1_def ld_st_other)
  have s: "same m m1 (p + k + 12) (length m)" "same m m1 0 p" "same m m1 (p + 12) (p + k)"
    using pk(1,2) ls sm by (simp_all add: m1_def same_st_right)
  note sp = rest_split [OF r(1) len refl k b1 b2(1,2) n1 b2(3) s(1) less_imp_le [OF r(4)] m'_def]
  have s0: "same m m' 0 p" "same m m' (p + 12) (p + k)"
    using same_trans [OF s(2) same_sub [OF sp(4)]] same_trans [OF s(3) same_sub [OF sp(4)]] k by auto
  note mid = heap_shape_middle [OF h sp(3) [unfolded m_def] s0(1) [unfolded p m_def] sp(1) [unfolded p q_def]]
  show ?thesis
    using l mid sp(2) s0(2) by (auto simp: m_def)
qed

lemma mark_block:
  assumes h: "heap_shape h (as @ (n, u) # cs)" and p: "p = span 0 as"
  shows "\<exists>m'. set_used p (of_bool v) h = Inr (h\<lparr>heap_mem := m'\<rparr>) \<and>
     heap_shape (h\<lparr>heap_mem := m'\<rparr>) (as @ (n, v) # cs) \<and>
     used_data m' 0 as = used_data (heap_mem h) 0 as \<and>
     used_data m' (p + n) cs = used_data (heap_mem h) (p + n) cs \<and>
     same (heap_mem h) m' (p + 12) (p + n)"
proof -
  define q where "q = lastp 0 0 as"
  define m where "m = heap_mem h"
  define m' where "m' = st 2 (p + 2) (of_bool v) m"
  note r = rest_middle [OF h p q_def, folded m_def]
  note f = block_magic [OF r(2)]
  have len: "length m' = length m" using r(3) f(5) by (simp add: m'_def)
  have d: "set_used p (of_bool v) h = Inr (h\<lparr>heap_mem := m'\<rparr>)"
    using r(3) f(5) by (simp add: fields m'_def m_def)
  have s: "same m m' 0 p" "same m m' (p + 12) (p + n)" "same m m' (p + n) (length m)"
    using r(3) f(5) by (simp_all add: m'_def same_st_right)
  have b: "block m' p q n v"
    using r(3) f len by (simp add: block_def m'_def mem_simps)
  have rr: "rest m (p + n) p cs" using r(1) by (simp add: rest_Cons)
  note t = rest_same [OF rr len s(3) r(3)]
  have "rest m' p q ((n, v) # cs)" using b t by (simp add: rest_Cons)
  note mid = heap_shape_middle [OF h len [unfolded m_def] s(1) [unfolded p m_def] this [unfolded p q_def]]
  show ?thesis using d mid t s(2) by (auto simp: m_def)
qed

text \<open>Joining a block with the free block behind it, and setting the links of the result.\<close>

definition join_mem :: "nat \<Rightarrow> nat \<Rightarrow> 8 word list \<Rightarrow> 8 word list" where
  "join_mem p next m = st 4 (next + 8) p (st 4 (p + 4) next m)"

lemma join_blocks:
  assumes h: "heap_shape h (as @ (n, u) # (k, v) # cs)" and p: "p = span 0 as"
    and m': "m' = join_mem p (p + n + k) (heap_mem h)"
  shows "heap_shape (h\<lparr>heap_mem := m'\<rparr>) (as @ (n + k, u) # cs)"
    and "used_data m' 0 as = used_data (heap_mem h) 0 as"
    and "used_data m' (p + n + k) cs = used_data (heap_mem h) (p + n + k) cs"
    and "set_next p (p + n + k) h = Inr (h\<lparr>heap_mem := st 4 (p + 4) (p + n + k) (heap_mem h)\<rparr>)"
    and "set_prev (p + n + k) p (h\<lparr>heap_mem := st 4 (p + 4) (p + n + k) (heap_mem h)\<rparr>) = Inr (h\<lparr>heap_mem := m'\<rparr>)"
proof -
  define q where "q = lastp 0 0 as"
  define m where "m = heap_mem h"
  note r = rest_middle [OF h p q_def, folded m_def]
  note f = block_magic [OF r(2)]
  have b2: "block m (p + n) p k v" and rr: "rest m (p + n + k) (p + n) cs"
    using r(1) by (auto simp: rest_Cons)
  have le: "p + n + k + 12 \<le> length m" by (rule rest_bounds [OF rr])
  note g = block_magic [OF b2]
  have len: "length m' = length m" using le f(5) g(5) by (simp add: m' join_mem_def m_def)
  have s: "same m m' 0 p" "same m m' (p + n + k) (p + n + k + 8)" "same m m' (p + n + k + 12) (length m)"
    using le f(5) g(5) by (simp_all add: m' join_mem_def m_def same_st_right)
  have pv: "ld 4 m' (p + n + k + 8) = p"
    using le f(5) g(5) r(4) by (simp add: m' join_mem_def m_def ld_st)
  note t = rest_relink [OF rr len s(2,3) pv]
  have "(n + k) mod 4 = 0" using f(6) g(6) by presburger
  then have "block m' p q (n + k) u"
    using le f(1-5) g(5) r(4) len by (simp add: block_def m' join_mem_def m_def mem_simps)
  then have "rest m' p q ((n + k, u) # cs)" using t by (simp add: rest_Cons add.assoc)
  note mid = heap_shape_middle [OF h len [unfolded m_def] s(1) [unfolded p m_def] this [unfolded p q_def]]
  show "heap_shape (h\<lparr>heap_mem := m'\<rparr>) (as @ (n + k, u) # cs)"
    and "used_data m' 0 as = used_data (heap_mem h) 0 as" by (rule mid)+
  show "used_data m' (p + n + k) cs = used_data (heap_mem h) (p + n + k) cs" using t(2) by (simp add: m_def)
  show "set_next p (p + n + k) h = Inr (h\<lparr>heap_mem := st 4 (p + 4) (p + n + k) (heap_mem h)\<rparr>)"
    using le f(5) g(5) by (simp add: fields m_def)
  show "set_prev (p + n + k) p (h\<lparr>heap_mem := st 4 (p + 4) (p + n + k) (heap_mem h)\<rparr>) = Inr (h\<lparr>heap_mem := m'\<rparr>)"
    using le f(5) g(5) by (simp add: fields m_def m' join_mem_def)
qed

end
