(* ===== verification/Heap_Ok.thy ===== *)
theory Heap_Ok
  imports Heap_Mem
begin

text \<open>
  The invariant of the system heap and its preservation: the chain of blocks covers the heap, two
  neighbouring blocks are never both free, and \<open>lfree\<close> is the lowest free block. Merging with the
  neighbours (\<open>plug_holes\<close>), first-fit search, allocation, release and writes of the clients.
\<close>

section \<open>The invariant of the heap\<close>

fun merged :: "blocks \<Rightarrow> bool" where
  "merged [] \<longleftrightarrow> True"
| "merged [b] \<longleftrightarrow> True"
| "merged (b # c # bs) \<longleftrightarrow> (snd b \<or> snd c) \<and> merged (c # bs)"

fun first_free :: "nat \<Rightarrow> blocks \<Rightarrow> nat" where
  "first_free p [] = p"
| "first_free p ((n, u) # bs) = (if u then first_free (p + n) bs else p)"

text \<open>The memory that blocks in use take, with their headers.\<close>

definition occupied :: "(nat \<times> 'a list) list \<Rightarrow> nat" where
  "occupied L = sum_list (map (\<lambda>(a, d). length d + 12) L)"

lemma occupied_simps [simp]:
  "occupied [] = 0" "occupied ((a, d) # L) = length d + 12 + occupied L" "occupied (L @ M) = occupied L + occupied M"
  by (simp_all add: occupied_def)

lemma occupied_span:
  "seg m p q bs \<Longrightarrow> span p bs \<le> length m \<Longrightarrow> p + occupied (used_data m p bs) \<le> span p bs"
proof (induction m p q bs rule: seg.induct)
  case (2 m p q n u bs)
  then show ?case using span_le [of "p + n" bs] by (auto simp: block_def)
qed simp

definition heap_inv :: "heap \<Rightarrow> blocks \<Rightarrow> bool" where
  "heap_inv h bs \<longleftrightarrow> heap_shape h bs \<and> heap_sem h = 1 \<and> merged bs \<and> lfree h = first_free 0 bs \<and>
     [] \<notin> snd ` set (used_data (heap_mem h) 0 bs) \<and>
     used_mem h = occupied (used_data (heap_mem h) 0 bs) \<and> used_mem h \<le> max_mem h"

lemma merged_append:
  "merged (as @ bs) \<longleftrightarrow> merged as \<and> merged bs \<and> (as = [] \<or> bs = [] \<or> snd (last as) \<or> snd (hd bs))"
proof (induction as rule: merged.induct)
  case (2 b)
  then show ?case by (cases bs) auto
qed auto

lemma merged_Cons: "merged (b # bs) \<longleftrightarrow> merged bs \<and> (bs = [] \<or> snd b \<or> snd (hd bs))"
  by (cases bs) auto

lemma first_free_append:
  "first_free p (as @ bs) = (if \<forall>b \<in> set as. snd b then first_free (span p as) bs else first_free p as)"
  by (induction p as rule: first_free.induct) auto

lemma first_free_le_span: "first_free p bs \<le> span p bs"
proof (induction p bs rule: first_free.induct)
  case (2 p n u bs)
  then show ?case using span_le [of "p + n" bs] by auto
qed simp

lemma first_free_le: "first_free p (as @ (n, False) # cs) \<le> span p as"
  using first_free_le_span [of p as] by (simp add: first_free_append)

lemma plug_forward_ok:
  assumes h: "heap_shape h (as @ (n, False) # cs)" and p: "p = span 0 as"
    and lf: "lfree h = first_free 0 (as @ (n, False) # cs)" and mc: "merged cs"
  shows "\<exists>m' n' cs'. plug_forward p h = Inr (h\<lparr>heap_mem := m'\<rparr>) \<and>
     heap_shape (h\<lparr>heap_mem := m'\<rparr>) (as @ (n', False) # cs') \<and>
     lfree h = first_free 0 (as @ (n', False) # cs') \<and> merged ((n', False) # cs') \<and>
     used_data m' 0 (as @ (n', False) # cs') = used_data (heap_mem h) 0 (as @ (n, False) # cs)"
proof -
  define q where "q = lastp 0 0 as"
  note r = rest_middle [OF h p q_def]
  note f = block_magic [OF r(2)]
  have e: "heap_end h + 12 = length (heap_mem h)" using h by (simp add: heap_shape_def)
  have rr: "rest (heap_mem h) (p + n) p cs" using r(1) by (simp add: rest_Cons)
  have nx: "mem_next h p = Inr (p + n)" using r(3) f(1-5) by (simp add: fields)
  have us: "mem_used h (p + n) = Inr (ld 2 (heap_mem h) (p + n + 2))" using r(3) f(5) by (simp add: fields)
  show ?thesis
  proof (cases "cs = [] \<or> snd (hd cs)")
    case True
    then have "ld 2 (heap_mem h) (p + n + 2) = 1"
      using rr by (cases cs) (auto simp: rest_def block_def end_block_def)
    then have "plug_forward p h = Inr (h\<lparr>heap_mem := heap_mem h\<rparr>)"
      using f(5) by (simp add: plug_forward_def nx us)
    then show ?thesis using True h lf mc
      by (intro exI [of _ "heap_mem h"] exI [of _ n] exI [of _ cs]) (auto simp: merged_Cons)
  next
    case False
    then obtain k ds where cs: "cs = (k, False) # ds" by (cases cs) auto
    have b2: "block (heap_mem h) (p + n) p k False" and r3: "rest (heap_mem h) (p + n + k) (p + n) ds"
      using rr cs by (auto simp: rest_Cons)
    note g = block_magic [OF b2]
    have le: "p + n + k + 12 \<le> length (heap_mem h)" by (rule rest_bounds [OF r3])
    define m' where "m' = join_mem p (p + n + k) (heap_mem h)"
    note j = join_blocks [OF h [unfolded cs] p m'_def]
    have "lfree h \<le> p" using first_free_le [of 0 as n cs] lf p by simp
    then have "plug_forward p h = Inr (h\<lparr>heap_mem := m'\<rparr>)"
      using f(5) g(2,3,5) e le r(3) j(4,5) by (simp add: plug_forward_def nx us fields)
    moreover have "merged ((n + k, False) # ds)" using mc cs by (simp add: merged_Cons)
    moreover have "lfree h = first_free 0 (as @ (n + k, False) # ds)"
      using lf by (simp add: first_free_append)
    moreover have "used_data m' 0 (as @ (n + k, False) # ds) = used_data (heap_mem h) 0 (as @ (n, False) # cs)"
      using j(2,3) by (simp add: cs p add.assoc)
    ultimately show ?thesis using j(1) by blast
  qed
qed

lemma plug_backward_ok:
  assumes h: "heap_shape h (as @ (n, False) # cs)" and p: "p = span 0 as"
    and lf: "lfree h = first_free 0 (as @ (n, False) # cs)" and mc: "merged ((n, False) # cs)" "merged as"
  shows "\<exists>m' bs. plug_backward p h = Inr (h\<lparr>heap_mem := m'\<rparr>) \<and>
     heap_shape (h\<lparr>heap_mem := m'\<rparr>) bs \<and> lfree h = first_free 0 bs \<and> merged bs \<and>
     used_data m' 0 bs = used_data (heap_mem h) 0 (as @ (n, False) # cs)"
proof -
  define q where "q = lastp 0 0 as"
  note r = rest_middle [OF h p q_def]
  note f = block_magic [OF r(2)]
  have pv: "mem_prev h p = Inr q" using r(3) f(1-5) by (simp add: fields)
  show ?thesis
  proof (cases as rule: rev_cases)
    case Nil
    then have "q = p" by (simp add: q_def p)
    then have "plug_backward p h = Inr (h\<lparr>heap_mem := heap_mem h\<rparr>)" by (simp add: plug_backward_def pv)
    then show ?thesis using Nil h lf mc
      by (intro exI [of _ "heap_mem h"] exI [of _ "(n, False) # cs"]) auto
  next
    case (snoc bs b)
    obtain j v where b: "b = (j, v)" by (cases b)
    have q: "q = span 0 bs" by (simp add: q_def snoc b)
    have h2: "heap_shape h (bs @ (j, v) # (n, False) # cs)" using h snoc b by simp
    have pq: "p = q + j" by (simp add: p snoc b q)
    note r2 = rest_middle [OF h2 q refl]
    note g = block_magic [OF r2(2)]
    have us: "mem_used h q = Inr (of_bool v)" using r2(3) g(1-5) by (simp add: fields)
    show ?thesis
    proof (cases v)
      case True
      then have "plug_backward p h = Inr (h\<lparr>heap_mem := heap_mem h\<rparr>)"
        by (simp add: plug_backward_def pv us)
      moreover have "merged (as @ (n, False) # cs)" using mc True snoc b by (simp add: merged_append)
      ultimately show ?thesis using h lf
        by (intro exI [of _ "heap_mem h"] exI [of _ "as @ (n, False) # cs"]) auto
    next
      case False
      define m' where "m' = join_mem q (q + j + n) (heap_mem h)"
      note jb = join_blocks [OF h2 q m'_def]
      have nx: "mem_next h p = Inr (p + n)" using r(3) f(1-5) by (simp add: fields)
      have "lfree h \<le> q" using first_free_le [of 0 bs j "(n, False) # cs"] lf q snoc b False by simp
      then have "plug_backward p h = Inr (h\<lparr>heap_mem := m'\<rparr>)"
        using g(5) jb(4,5) False pv nx by (simp add: plug_backward_def us pq add.assoc)
      moreover have "merged (bs @ (j + n, v) # cs)"
        using mc snoc b False by (auto simp: merged_append merged_Cons)
      moreover have "lfree h = first_free 0 (bs @ (j + n, v) # cs)"
        using lf snoc b False by (simp add: first_free_append)
      moreover have "used_data m' 0 (bs @ (j + n, v) # cs) = used_data (heap_mem h) 0 (as @ (n, False) # cs)"
        using jb(2,3) False by (simp add: snoc b q add.assoc)
      ultimately show ?thesis using jb(1) by blast
    qed
  qed
qed

lemma plug_holes_ok:
  assumes h: "heap_shape h (as @ (n, False) # cs)" and p: "p = span 0 as"
    and lf: "lfree h = first_free 0 (as @ (n, False) # cs)" and mc: "merged as" "merged cs"
  shows "\<exists>m' bs. plug_holes p h = Inr (h\<lparr>heap_mem := m'\<rparr>) \<and>
     heap_shape (h\<lparr>heap_mem := m'\<rparr>) bs \<and> lfree h = first_free 0 bs \<and> merged bs \<and>
     used_data m' 0 bs = used_data (heap_mem h) 0 (as @ (n, False) # cs)"
proof -
  note r = rest_middle [OF h p refl]
  note f = block_magic [OF r(2)]
  have e: "heap_end h + 12 = length (heap_mem h)" using h by (simp add: heap_shape_def)
  obtain m1 n1 cs1 where fw: "plug_forward p h = Inr (h\<lparr>heap_mem := m1\<rparr>)"
    "heap_shape (h\<lparr>heap_mem := m1\<rparr>) (as @ (n1, False) # cs1)"
    "lfree h = first_free 0 (as @ (n1, False) # cs1)" "merged ((n1, False) # cs1)"
    "used_data m1 0 (as @ (n1, False) # cs1) = used_data (heap_mem h) 0 (as @ (n, False) # cs)"
    using plug_forward_ok [OF h p lf mc(2)] by blast
  obtain m2 bs where bw: "plug_backward p (h\<lparr>heap_mem := m1\<rparr>) = Inr (h\<lparr>heap_mem := m2\<rparr>)"
    "heap_shape (h\<lparr>heap_mem := m2\<rparr>) bs" "lfree h = first_free 0 bs" "merged bs"
    "used_data m2 0 bs = used_data m1 0 (as @ (n1, False) # cs1)"
    using plug_backward_ok [OF fw(2) p _ fw(4) mc(1)] fw(3) by auto
  have "plug_holes p h = Inr (h\<lparr>heap_mem := m2\<rparr>)"
    using r(3) e f(1-5) by (simp add: plug_holes_def fields fw(1) bw(1))
  then show ?thesis using bw fw(5) by auto
qed

section \<open>Allocation\<close>

text \<open>The search on the list of blocks: the first free block that is large enough and begins below \<open>lim\<close>.\<close>

fun fit :: "nat \<Rightarrow> nat \<Rightarrow> nat \<Rightarrow> blocks \<Rightarrow> nat option" where
  "fit lim sz p [] = None"
| "fit lim sz p ((n, u) # bs) =
     (if p < lim then if \<not> u \<and> sz + 12 \<le> n then Some p else fit lim sz (p + n) bs else None)"

lemma fit_Some:
  "fit lim sz p bs = Some r \<Longrightarrow>
     \<exists>as n cs. bs = as @ (n, False) # cs \<and> r = span p as \<and> sz + 12 \<le> n \<and> r < lim"
proof (induction lim sz p bs rule: fit.induct)
  case (2 lim sz p n u bs)
  show ?case
  proof (cases "\<not> u \<and> sz + 12 \<le> n")
    case True
    then show ?thesis using 2(2) by (intro exI [of _ "[]"]) (auto split: if_splits)
  next
    case False
    then obtain as k cs where "bs = as @ (k, False) # cs" "r = span (p + n) as" "sz + 12 \<le> k" "r < lim"
      using 2 by (auto split: if_splits)
    then show ?thesis by (intro exI [of _ "(n, u) # as"]) auto
  qed
qed simp

lemma fit_None:
  "fit lim sz p (as @ (n, False) # cs) = None \<Longrightarrow> sz + 12 \<le> n \<Longrightarrow> lim \<le> span p as"
proof (induction lim sz p as rule: fit.induct)
  case (2 lim sz p k u bs)
  then show ?case using span_le [of "p + k" bs] by (auto split: if_splits)
qed (auto split: if_splits)

lemma fit_above: "lim \<le> p \<Longrightarrow> fit lim sz p bs = None"
  by (cases bs) auto

lemma fit_used: "\<forall>b \<in> set as. snd b \<Longrightarrow> fit lim sz p (as @ bs) = fit lim sz (span p as) bs"
proof (induction lim sz p as rule: fit.induct)
  case (2 lim sz p n u cs)
  show ?case
  proof (cases "p < lim")
    case False
    then show ?thesis using span_le [of "p + n" cs] by (simp add: fit_above)
  qed (use 2 in auto)
qed simp

lemma find_fit_seg:
  assumes "seg (heap_mem h) p q bs" "span p bs + 12 = length (heap_mem h)" "length (heap_mem h) < 2 ^ 32"
    and "mem_size_aligned h + 24 = length (heap_mem h)" "sz \<le> mem_size_aligned h" "length bs < fuel"
  shows "find_fit fuel h sz p = Inr (fit (mem_size_aligned h - sz) sz p bs)"
  using assms
proof (induction bs arbitrary: p q fuel)
  case Nil
  then obtain f where "fuel = Suc f" by (cases fuel) auto
  moreover have "\<not> p < mem_size_aligned h - sz" using Nil by simp
  ultimately show ?case using Nil by simp
next
  case (Cons b bs)
  obtain n u where b: "b = (n, u)" by (cases b)
  obtain f where fuel: "fuel = Suc f" using Cons.prems by (cases fuel) auto
  have blk: "block (heap_mem h) p q n u" using Cons.prems b by simp
  note fs = block_magic [OF blk]
  have le: "p + n + 12 \<le> length (heap_mem h)" using Cons.prems b span_le [of "p + n" bs] by simp
  have "sub32 (p + n) (p + 12) = n - 12" using le fs Cons.prems by simp
  moreover have "find_fit f h sz (p + n) = Inr (fit (mem_size_aligned h - sz) sz (p + n) bs)"
    using Cons.prems b fuel by (intro Cons.IH [of _ p]) auto
  moreover have "(sz \<le> n - 12) = (sz + 12 \<le> n)" using fs(5) by auto
  ultimately show ?case
    using le fs Cons.prems by (auto simp: b fuel fields)
qed

lemma next_free_seg:
  assumes "rest (heap_mem h) p q bs" "heap_end h + 12 = length (heap_mem h)" "length bs < fuel"
  shows "next_free fuel h p = Inr (first_free p bs)"
  using assms
proof (induction bs arbitrary: p q fuel)
  case Nil
  then obtain f where "fuel = Suc f" by (cases fuel) auto
  then show ?case using Nil by (simp add: rest_def fields)
next
  case (Cons b bs)
  obtain n u where b: "b = (n, u)" by (cases b)
  obtain f where fuel: "fuel = Suc f" using Cons.prems by (cases fuel) auto
  have blk: "block (heap_mem h) p q n u" and r: "rest (heap_mem h) (p + n) p bs"
    using Cons.prems b by (auto simp: rest_Cons)
  note fs = block_magic [OF blk]
  have le: "p + n + 12 \<le> length (heap_mem h)" by (rule rest_bounds [OF r])
  have "next_free f h (p + n) = Inr (first_free (p + n) bs)"
    using Cons.prems r fuel by (intro Cons.IH [of _ p]) auto
  then show ?case using le fs Cons.prems by (auto simp: b fuel fields)
qed

lemma first_free_split:
  "\<exists>us fs. bs = us @ fs \<and> (\<forall>b \<in> set us. snd b) \<and> first_free p bs = span p us"
proof (induction p bs rule: first_free.induct)
  case (2 p n u bs)
  show ?case
  proof (cases u)
    case True
    then obtain us fs where "bs = us @ fs" "\<forall>b \<in> set us. snd b" "first_free (p + n) bs = span (p + n) us"
      using 2 by auto
    then show ?thesis using True
      by (intro exI [of _ "(n, u) # us"] exI [of _ fs]) auto
  next
    case False
    then show ?thesis by (intro exI [of _ "[]"] exI [of _ "(n, u) # bs"]) auto
  qed
qed simp

lemma blocks_fuel: "rest m p q bs \<Longrightarrow> length bs < length m"
  using span_length [of m p q bs] by (auto simp: rest_def)

lemma find_fit_inv:
  assumes h: "heap_shape h bs" "lfree h = first_free 0 bs" and sz: "sz \<le> mem_size_aligned h"
  shows "find_fit (heap_fuel h) h sz (lfree h) = Inr (fit (mem_size_aligned h - sz) sz 0 bs)"
proof -
  obtain us fs where us: "bs = us @ fs" "\<forall>b \<in> set us. snd b" "first_free 0 bs = span 0 us"
    using first_free_split by blast
  have s: "heap_shape h bs" "lfree h = span 0 us" using h us by auto
  then have r: "rest (heap_mem h) 0 0 bs" "length (heap_mem h) < 2 ^ 32"
      "mem_size_aligned h + 24 = length (heap_mem h)"
    by (auto simp: heap_shape_def)
  have "find_fit (heap_fuel h) h sz (span 0 us) = Inr (fit (mem_size_aligned h - sz) sz (span 0 us) fs)"
    using r sz us blocks_fuel [OF r(1)] by (intro find_fit_seg [of _ _ "lastp 0 0 us"]) (auto simp: rest_def heap_fuel_def)
  then show ?thesis using us s by (simp add: fit_used)
qed

definition block_size :: "nat \<Rightarrow> nat" where
  "block_size n = max 12 ((n + 3) div 4 * 4)"

lemma block_size: "block_size n mod 4 = 0" "12 \<le> block_size n" "n \<le> block_size n"
proof -
  show "block_size n mod 4 = 0" by (simp add: block_size_def max_def)
  show "12 \<le> block_size n" by (simp add: block_size_def)
  have "(n + 3) div 4 * 4 + (n + 3) mod 4 = n + 3" by (rule div_mult_mod_eq)
  moreover have "(n + 3) mod 4 < 4" by simp
  ultimately have "n \<le> (n + 3) div 4 * 4" by linarith
  then show "n \<le> block_size n" by (simp add: block_size_def)
qed

lemma align4: "n + 3 < 2 ^ 32 \<Longrightarrow> RT_ALIGN n 4 = (n + 3) div 4 * 4"
  by (simp add: RT_ALIGN_def)

lemma rt_malloc_sizes:
  "0 < n \<Longrightarrow> n + 3 < 2 ^ 32 \<Longrightarrow> rt_malloc n h =
     (if mem_size_aligned h < (n + 3) div 4 * 4 then Inr (RT_NULL, h) else alloc_block (block_size n) h)"
  by (simp add: rt_malloc_def align4 block_size_def max_def Let_def)

lemma heap_shape_fields [simp]:
  "heap_shape (h\<lparr>heap_sem := s\<rparr>) bs = heap_shape h bs" "heap_shape (h\<lparr>lfree := s\<rparr>) bs = heap_shape h bs"
  "heap_shape (count_used n h) bs = heap_shape h bs" "heap_shape (count_freed n h) bs = heap_shape h bs"
  "heap_shape ((count_used n h)\<lparr>heap_mem := m\<rparr>) bs = heap_shape (h\<lparr>heap_mem := m\<rparr>) bs"
  "heap_shape ((count_freed n h)\<lparr>heap_mem := m\<rparr>) bs = heap_shape (h\<lparr>heap_mem := m\<rparr>) bs"
  by (simp_all add: heap_shape_def)

lemma occupied_shape: "heap_shape h bs \<Longrightarrow> occupied (used_data (heap_mem h) 0 bs) < 2 ^ 32"
  using occupied_span [of "heap_mem h" 0 0 bs] by (auto simp: heap_shape_def rest_def)

lemma first_free_less:
  "seg m p q bs \<Longrightarrow> \<exists>b \<in> set bs. \<not> snd b \<Longrightarrow> first_free p bs < span p bs"
proof (induction m p q bs rule: seg.induct)
  case (2 m p q n u bs)
  then show ?case using span_le [of "p + n" bs] by (auto simp: block_def)
qed simp

lemma first_free_field:
  "rest m p q bs \<Longrightarrow> first_free p bs + 12 \<le> length m \<and>
     (first_free p bs + 12 = length m \<or> ld 2 m (first_free p bs + 2) = 0)"
proof (induction bs arbitrary: p q)
  case Nil
  then show ?case by (simp add: rest_def)
next
  case (Cons b bs)
  obtain n u where b: "b = (n, u)" by (cases b)
  then have "rest m (p + n) p bs" "block m p q n u" using Cons.prems by (auto simp: rest_Cons)
  then show ?case
    using rest_bounds [OF Cons.prems] Cons.IH [of "p + n" p] b by (simp add: block_magic)
qed

lemma take_block_ok:
  assumes h: "heap_shape h (as @ (n, False) # cs)" and p: "p = span 0 as"
    and sz: "12 \<le> sz" "sz mod 4 = 0" "sz + 12 \<le> n" and mg: "merged (as @ (n, False) # cs)"
  shows "\<exists>m' k cs'. take_block sz p h = Inr (count_used k (h\<lparr>heap_mem := m'\<rparr>)) \<and>
     heap_shape (h\<lparr>heap_mem := m'\<rparr>) (as @ (k, True) # cs') \<and> merged (as @ (k, True) # cs') \<and> sz + 12 \<le> k \<and>
     used_data m' 0 as = used_data (heap_mem h) 0 as \<and>
     used_data m' (p + k) cs' = used_data (heap_mem h) (p + n) cs"
proof -
  note r = rest_middle [OF h p refl]
  note f = block_magic [OF r(2)]
  have ge: "(add32 sz (12 + 12) \<le> sub32 (p + n) (add32 p 12)) = (sz + 36 \<le> n)"
    using r(3,4) f(5) sz by auto
  show ?thesis
  proof (cases "sz + 36 \<le> n")
    case True
    have k: "12 \<le> sz + 12" "(sz + 12) mod 4 = 0" "sz + 12 + 12 \<le> n" using sz True by presburger+
    obtain m' where m': "bnd (split_block p (p + (sz + 12)) h)
         (\<lambda>h. bnd (if True then set_used p 1 h else Inr h) (link_next (p + (sz + 12)))) = Inr (h\<lparr>heap_mem := m'\<rparr>)"
       "heap_shape (h\<lparr>heap_mem := m'\<rparr>) (as @ (sz + 12, True \<or> False) # (n - (sz + 12), False) # cs)"
       "used_data m' 0 as = used_data (heap_mem h) 0 as"
       "used_data m' (p + n) cs = used_data (heap_mem h) (p + n) cs"
      using split_link [OF h p k, of True] by blast
    have "bnd (split_block p (p + (sz + 12)) h)
         (\<lambda>h. bnd (set_used p 1 h) (\<lambda>h. bnd (link_next (p + (sz + 12)) h) g)) = g (h\<lparr>heap_mem := m'\<rparr>)"
      for g :: "heap \<Rightarrow> heap res"
      using m'(1) by (simp add: bnd_assoc [symmetric])
    moreover have "add32 sz 12 = sz + 12" using sz r(3,4) True by simp
    ultimately have "take_block sz p h = Inr (count_used (sz + 12) (h\<lparr>heap_mem := m'\<rparr>))"
      using ge True f(1-5) r(3) by (simp add: take_block_def fields add_ac)
    moreover have "merged (as @ (sz + 12, True) # (n - (sz + 12), False) # cs)"
      using mg by (auto simp: merged_append merged_Cons)
    ultimately show ?thesis using m' True
      by (intro exI [of _ m'] exI [of _ "sz + 12"] exI [of _ "(n - (sz + 12), False) # cs"]) auto
  next
    case False
    obtain m' where m': "set_used p (of_bool True) h = Inr (h\<lparr>heap_mem := m'\<rparr>)"
       "heap_shape (h\<lparr>heap_mem := m'\<rparr>) (as @ (n, True) # cs)"
       "used_data m' 0 as = used_data (heap_mem h) 0 as"
       "used_data m' (p + n) cs = used_data (heap_mem h) (p + n) cs"
      using mark_block [OF h p, of True] by blast
    note f' = block_magic [OF rest_middle(2) [OF m'(2) p refl]] and r' = rest_middle(3) [OF m'(2) p refl]
    have "mem_next (h\<lparr>heap_mem := m'\<rparr>) p = Inr (p + n)" using r' f'(1-5) by (simp add: fields)
    moreover have "sub32 (p + n) p = n" using r(3,4) by simp
    ultimately have "take_block sz p h = Inr (count_used n (h\<lparr>heap_mem := m'\<rparr>))"
      using m'(1) ge False f(1-5) r(3) by (simp add: take_block_def fields)
    moreover have "merged (as @ (n, True) # cs)"
      using mg by (auto simp: merged_append merged_Cons)
    ultimately show ?thesis using m' sz by (intro exI [of _ m'] exI [of _ n] exI [of _ cs]) auto
  qed
qed

text \<open>Writing the magic number of a block again changes nothing the blocks depend on.\<close>

lemma magic_again:
  assumes h: "heap_shape h (as @ (n, u) # cs)" and p: "p = span 0 as"
  shows "\<exists>m'. set_magic p HEAP_MAGIC h = Inr (h\<lparr>heap_mem := m'\<rparr>) \<and>
     heap_shape (h\<lparr>heap_mem := m'\<rparr>) (as @ (n, u) # cs) \<and>
     used_data m' 0 as = used_data (heap_mem h) 0 as \<and>
     used_data m' (p + n) cs = used_data (heap_mem h) (p + n) cs \<and>
     same (heap_mem h) m' (p + 12) (p + n)"
proof -
  define q where "q = lastp 0 0 as"
  define m where "m = heap_mem h"
  define m' where "m' = st 2 p HEAP_MAGIC m"
  note r = rest_middle [OF h p q_def, folded m_def]
  note f = block_magic [OF r(2)]
  have len: "length m' = length m" using r(3) f(5) by (simp add: m'_def)
  have d: "set_magic p HEAP_MAGIC h = Inr (h\<lparr>heap_mem := m'\<rparr>)"
    using r(3) f(5) by (simp add: fields m'_def m_def)
  have s: "same m m' 0 p" "same m m' (p + 12) (p + n)" "same m m' (p + n) (length m)"
    using r(3) f(5) by (simp_all add: m'_def same_st_right)
  have b: "block m' p q n u"
    using r(3) f len by (simp add: block_def m'_def mem_simps)
  have rr: "rest m (p + n) p cs" using r(1) by (simp add: rest_Cons)
  note t = rest_same [OF rr len s(3) r(3)]
  have "rest m' p q ((n, u) # cs)" using b t by (simp add: rest_Cons)
  note mid = heap_shape_middle [OF h len [unfolded m_def] s(1) [unfolded p m_def] this [unfolded p q_def]]
  show ?thesis using d mid t s(2) by (auto simp: m_def)
qed

lemma sem_again: "heap_sem h = 1 \<Longrightarrow> h\<lparr>heap_sem := Suc 0\<rparr> = h"
  by (cases h) simp

definition same_heap :: "heap \<Rightarrow> heap \<Rightarrow> bool" where
  "same_heap h h' \<longleftrightarrow> heap_ptr h' = heap_ptr h \<and> mem_size_aligned h' = mem_size_aligned h"

lemma rt_malloc_null:
  assumes h: "heap_inv h bs" and n: "0 < n" "n + 3 < 2 ^ 32"
    and none: "fit (mem_size_aligned h - block_size n) (block_size n) 0 bs = None"
  shows "rt_malloc n h = Inr (RT_NULL, h)"
proof (cases "(n + 3) div 4 * 4 \<le> mem_size_aligned h")
  case False
  then show ?thesis using n by (simp add: rt_malloc_sizes)
next
  case True
  have s: "heap_shape h bs" "heap_sem h = 1" "lfree h = first_free 0 bs" using h by (auto simp: heap_inv_def)
  then have "12 \<le> mem_size_aligned h" by (simp add: heap_shape_def)
  then have sz: "block_size n \<le> mem_size_aligned h" using True by (simp add: block_size_def)
  have "find_fit (heap_fuel h) (h\<lparr>heap_sem := 0\<rparr>) (block_size n) (lfree h) = Inr None"
    using find_fit_inv [of "h\<lparr>heap_sem := 0\<rparr>" bs "block_size n"] s sz none by (simp add: heap_fuel_def)
  then show ?thesis
    using n True s sem_again by (simp add: rt_malloc_sizes alloc_block_def heap_take_def heap_release_def heap_fuel_def)
qed

lemma rt_malloc_fit:
  assumes h: "heap_inv h bs" and n: "0 < n" "n + 3 < 2 ^ 32"
    and fit: "fit (mem_size_aligned h - block_size n) (block_size n) 0 bs = Some p"
  shows "\<exists>h' as k0 cs k cs'. rt_malloc n h = Inr (heap_ptr h + p + 12, h') \<and> heap_inv h' (as @ (k, True) # cs') \<and>
     bs = as @ (k0, False) # cs \<and> p = span 0 as \<and> block_size n + 12 \<le> k \<and> same_heap h h' \<and>
     used_data (heap_mem h') 0 as = used_data (heap_mem h) 0 as \<and>
     used_data (heap_mem h') (p + k) cs' = used_data (heap_mem h) (p + k0) cs"
proof -
  have s: "heap_shape h bs" "heap_sem h = 1" "lfree h = first_free 0 bs" and mg: "merged bs"
    using h by (auto simp: heap_inv_def)
  obtain as k0 cs where bs: "bs = as @ (k0, False) # cs" and p: "p = span 0 as"
    and k0: "block_size n + 12 \<le> k0" and lim: "p < mem_size_aligned h - block_size n"
    using fit_Some [OF fit] by blast
  have sz: "block_size n \<le> mem_size_aligned h" using lim by simp
  then have al: "(n + 3) div 4 * 4 \<le> mem_size_aligned h" by (simp add: block_size_def)
  define h0 where "h0 = h\<lparr>heap_sem := 0\<rparr>"
  have s0: "heap_shape h0 (as @ (k0, False) # cs)" using s bs by (simp add: h0_def)
  have find: "find_fit (heap_fuel h0) h0 (block_size n) (lfree h0) = Inr (Some p)"
    using find_fit_inv [of h0 bs "block_size n"] s s0 sz fit bs by (simp add: h0_def)
  obtain m1 k cs' where t: "take_block (block_size n) p h0 = Inr (count_used k (h0\<lparr>heap_mem := m1\<rparr>))"
      "heap_shape (h0\<lparr>heap_mem := m1\<rparr>) (as @ (k, True) # cs')" "merged (as @ (k, True) # cs')"
      "block_size n + 12 \<le> k" "used_data m1 0 as = used_data (heap_mem h) 0 as"
      "used_data m1 (p + k) cs' = used_data (heap_mem h) (p + k0) cs"
    using take_block_ok [OF s0 p block_size(2,1) k0 mg [unfolded bs]] by (auto simp: h0_def)
  define h1 where "h1 = count_used k (h0\<lparr>heap_mem := m1\<rparr>)"
  have s1: "heap_shape h1 (as @ (k, True) # cs')" using t(2) by (simp add: h1_def)
  obtain m2 where g: "set_magic p HEAP_MAGIC h1 = Inr (h1\<lparr>heap_mem := m2\<rparr>)"
      "heap_shape (h1\<lparr>heap_mem := m2\<rparr>) (as @ (k, True) # cs')"
      "used_data m2 0 as = used_data m1 0 as" "used_data m2 (p + k) cs' = used_data m1 (p + k) cs'"
    using magic_again [OF s1 p] by (auto simp: h1_def)
  define h2 where "h2 = h1\<lparr>heap_mem := m2\<rparr>"
  have h2f: "lfree h2 = lfree h" "heap_ptr h2 = heap_ptr h" "heap_sem h2 = 0" "heap_mem h2 = m2"
      "mem_size_aligned h2 = mem_size_aligned h"
    by (simp_all add: h2_def h1_def h0_def)
  note r = rest_middle [OF g(2) p refl, folded h2_def]
  note f = block_magic [OF r(2)]
  have e: "heap_end h2 + 12 = length (heap_mem h2)" "0 < heap_ptr h2" "heap_ptr h2 mod 4 = 0"
    using g(2) by (auto simp: heap_shape_def h2_def)
  define l where "l = first_free 0 (as @ (k, True) # cs')"
  have lf: "(if p = lfree h2
             then bnd (next_free (heap_fuel h2) h2 (lfree h2)) (\<lambda>x.
                  bnd (mem_used h2 x) (\<lambda>used.
                  rt_assert (x = heap_end h2 \<or> used = 0) (Inr (h2\<lparr>lfree := x\<rparr>))))
             else Inr h2) = Inr (h2\<lparr>lfree := l\<rparr>)"
  proof (cases "\<forall>b \<in> set as. snd b")
    case True
    then have "lfree h2 = p" using s bs by (simp add: h2f first_free_append p)
    moreover have l: "l = first_free p ((k, True) # cs')" using True by (simp add: l_def first_free_append p)
    moreover have "length ((k, True) # cs') < heap_fuel h2"
      using blocks_fuel [OF r(1)] by (simp add: heap_fuel_def)
    moreover note next_free_seg [OF r(1) e(1), of "heap_fuel h2"]
    moreover have "\<exists>u. mem_used h2 l = Inr u \<and> (l = heap_end h2 \<or> u = 0)"
      using first_free_field [OF r(1)] e(1) by (auto simp: l fields)
    ultimately show ?thesis by auto
  next
    case False
    then have "lfree h2 = first_free 0 as" "l = first_free 0 as"
      using s bs by (auto simp: h2f l_def first_free_append)
    moreover have "seg (heap_mem h2) 0 0 as"
      using g(2) by (simp add: h2_def heap_shape_def rest_append)
    then have "first_free 0 as < span 0 as" using first_free_less False by blast
    ultimately show ?thesis by (simp add: p)
  qed
  define h' where "h' = heap_release (h2\<lparr>lfree := l\<rparr>)"
  have "(heap_ptr h2 + p + 12) mod 4 = 0" "(heap_ptr h2 + p) mod 4 = 0"
    using e(3) r(5) by presburger+
  moreover have "p + 12 + block_size n \<le> heap_end h2" using t(4) r(3) e(1) by simp
  ultimately have run: "rt_malloc n h = Inr (heap_ptr h + p + 12, h')"
    using n al s(2) find t(1) g(1) lf
    by (simp add: rt_malloc_sizes alloc_block_def heap_take_def Let_def h0_def [symmetric] h1_def [symmetric]
        h2_def [symmetric] h'_def heap_release_def h2f)
  have k: "12 < k" "p + k \<le> length m2" using block_size(2) [of n] r(3) t(4) by (auto simp: h2f)
  have occ: "occupied (used_data m2 0 (as @ (k, True) # cs')) = used_mem h + k"
    using k g(3,4) t(5,6) h bs p by (simp add: heap_inv_def)
  then have "used_mem h + k < 2 ^ 32" using occupied_shape [OF g(2)] by simp
  then have "used_mem h2 = used_mem h + k" "used_mem h2 \<le> max_mem h2"
    by (simp_all add: h2_def h1_def h0_def count_used_def Let_def)
  then have "heap_inv h' (as @ (k, True) # cs')"
    using g(2-4) t(3-6) h bs p k occ
    by (simp add: heap_inv_def h'_def heap_release_def l_def h2f) (simp add: h2_def)
  moreover have "same_heap h h'" "heap_mem h' = m2" by (simp_all add: same_heap_def h'_def heap_release_def h2f)
  ultimately show ?thesis using run bs p t(4-6) g(3,4) by fastforce
qed

section \<open>Release, reallocation and writes of the clients\<close>

lemma first_free_ge: "p \<le> first_free p bs"
proof (induction p bs rule: first_free.induct)
  case (2 p n u bs)
  then show ?case by auto
qed simp

text \<open>Freeing the block at \<open>p\<close> makes it the lowest free block if it lies below the lowest one so far.\<close>

lemma first_free_freed:
  assumes "seg m 0 0 (as @ (n, u) # cs)" "first_free 0 (as @ (n, True) # cs) = l" "p = span 0 as"
  shows "first_free 0 (as @ (n, False) # cs) = (if p < l then p else l)"
proof (cases "\<forall>b \<in> set as. snd b")
  case True
  have "12 \<le> n" using assms(1) by (simp add: block_def)
  then have "p < first_free (p + n) cs" using first_free_ge [of "p + n" cs] by simp
  then show ?thesis using True assms(2,3) by (auto simp: first_free_append)
next
  case False
  have "seg m 0 0 as" using assms(1) by simp
  then have "first_free 0 as < p" using first_free_less False assms(3) by blast
  moreover have "first_free 0 (as @ bs) = first_free 0 as" for bs
    using False by (simp only: first_free_append if_False)
  ultimately show ?thesis using assms(2) by simp
qed

lemma rt_free_ok:
  assumes h: "heap_inv h (as @ (k, True) # cs)" and p: "p = span 0 as"
  shows "\<exists>h' bs. rt_free (heap_ptr h + p + 12) h = Inr h' \<and> heap_inv h' bs \<and> same_heap h h' \<and>
     used_data (heap_mem h') 0 bs = used_data (heap_mem h) 0 as @ used_data (heap_mem h) (p + k) cs"
proof -
  define h0 where "h0 = h\<lparr>heap_sem := 0\<rparr>"
  have s: "heap_shape h0 (as @ (k, True) # cs)" "heap_sem h = 1" "lfree h = first_free 0 (as @ (k, True) # cs)"
    and mg: "merged (as @ (k, True) # cs)"
    using h by (auto simp: heap_inv_def h0_def)
  note r = rest_middle [OF s(1) p refl]
  note f = block_magic [OF r(2)]
  have e: "heap_end h0 + 12 = length (heap_mem h0)" "0 < heap_ptr h0" "heap_ptr h0 mod 4 = 0"
    using s(1) by (auto simp: heap_shape_def)
  obtain m1 where m1: "set_used p (of_bool False) h0 = Inr (h0\<lparr>heap_mem := m1\<rparr>)"
      "heap_shape (h0\<lparr>heap_mem := m1\<rparr>) (as @ (k, False) # cs)"
      "used_data m1 0 as = used_data (heap_mem h0) 0 as"
      "used_data m1 (p + k) cs = used_data (heap_mem h0) (p + k) cs"
    using mark_block [OF s(1) p, of False] by blast
  obtain m2 where m2: "set_magic p HEAP_MAGIC (h0\<lparr>heap_mem := m1\<rparr>) = Inr (h0\<lparr>heap_mem := m2\<rparr>)"
      "heap_shape (h0\<lparr>heap_mem := m2\<rparr>) (as @ (k, False) # cs)"
      "used_data m2 0 as = used_data m1 0 as" "used_data m2 (p + k) cs = used_data m1 (p + k) cs"
    using magic_again [OF m1(2) p] by auto
  define l where "l = (if p < lfree h then p else lfree h)"
  define h2 where "h2 = count_freed k (h0\<lparr>heap_mem := m2, lfree := l\<rparr>)"
  have h2f: "heap_mem h2 = m2" "lfree h2 = l" "heap_sem h2 = 0" "heap_ptr h2 = heap_ptr h"
      "mem_size_aligned h2 = mem_size_aligned h" "max_mem h2 = max_mem h" "used_mem h2 = sub32 (used_mem h) k"
    by (simp_all add: h2_def h0_def) (simp_all add: count_freed_def)
  have "seg (heap_mem h0) 0 0 (as @ (k, True) # cs)"
    using s(1) by (simp add: heap_shape_def rest_def)
  then have l: "l = first_free 0 (as @ (k, False) # cs)"
    using first_free_freed [OF _ s(3) [symmetric] p] by (simp add: l_def)
  have sh2: "heap_shape h2 (as @ (k, False) # cs)" using m2(2) by (simp add: h2_def heap_shape_def)
  obtain m3 bs where m3: "plug_holes p h2 = Inr (h2\<lparr>heap_mem := m3\<rparr>)" "heap_shape (h2\<lparr>heap_mem := m3\<rparr>) bs"
      "lfree h2 = first_free 0 bs" "merged bs"
      "used_data m3 0 bs = used_data (heap_mem h2) 0 (as @ (k, False) # cs)"
    using plug_holes_ok [OF sh2 p _] mg l by (auto simp: h2f merged_append merged_Cons)
  define h' where "h' = heap_release (h2\<lparr>heap_mem := m3\<rparr>)"
  have al: "(heap_ptr h0 + p + 12) mod 4 = 0" using e(3) r(5) by presburger
  have "12 < k" using h r(3) f p by (auto simp: heap_inv_def h0_def)
  then have lt: "p + 12 < heap_end h0" using r(3) e(1) by simp
  have run: "rt_free (heap_ptr h + p + 12) h = Inr h'"
  proof -
    have "heap_take h = Inr h0" "heap_end h0 = heap_end h" "heap_ptr h0 = heap_ptr h"
      using s(2) by (simp_all add: heap_take_def h0_def)
    moreover have "mem_used h0 p = Inr 1" "mem_magic h0 p = Inr HEAP_MAGIC"
      using r(3) f(1-5) by (simp_all add: fields)
    moreover have "(if p < lfree (h0\<lparr>heap_mem := m2\<rparr>) then h0\<lparr>heap_mem := m2, lfree := p\<rparr> else h0\<lparr>heap_mem := m2\<rparr>) =
        h0\<lparr>heap_mem := m2, lfree := l\<rparr>"
      by (simp add: l_def h0_def)
    moreover have "mem_next (h0\<lparr>heap_mem := m2, lfree := l\<rparr>) p = Inr (p + k)"
      using rest_middle(3) [OF m2(2) p refl] block_magic(1-5) [OF rest_middle(2) [OF m2(2) p refl]] by (simp add: fields)
    moreover have "sub32 (p + k) p = k" using r(3,4) by simp
    ultimately show ?thesis
      using al e lt m1(1) m2(1) m3(1) by (simp add: rt_free_def Let_def RT_NULL_def h'_def h2_def [symmetric])
  qed
  have u: "used_data m3 0 bs = used_data (heap_mem h) 0 as @ used_data (heap_mem h) (p + k) cs"
    using m3(5) m2(3,4) m1(3,4) p by (simp add: h2f) (simp add: h0_def)
  have "used_mem h = occupied (used_data m3 0 bs) + k" "used_mem h < 2 ^ 32"
    using h r(3) f(5) p occupied_shape [OF s(1)] by (auto simp: heap_inv_def u h0_def)
  then have "used_mem h2 = occupied (used_data m3 0 bs)" "used_mem h2 \<le> used_mem h" by (simp_all add: h2f)
  moreover have "used_mem h \<le> max_mem h2" using h by (simp add: h2f heap_inv_def)
  moreover have "[] \<notin> snd ` set (used_data m3 0 bs)"
    using h by (auto simp: heap_inv_def u p)
  ultimately have "heap_inv h' bs"
    using m3(2-4) by (simp add: heap_inv_def h'_def heap_release_def h2f)
  moreover have "same_heap h h'" "heap_mem h' = m3"
    by (simp_all add: same_heap_def h'_def heap_release_def h2f)
  ultimately show ?thesis using run u by blast
qed

text \<open>What a client writes inside one of its blocks changes the content of that block and nothing else.\<close>

lemma write_block:
  assumes h: "heap_shape h (as @ (k, u) # cs)" and p: "p = span 0 as"
    and off: "12 \<le> off" "off + length ys \<le> k"
    and m': "m' = overwrite (heap_mem h) (p + off) ys"
  shows "heap_shape (h\<lparr>heap_mem := m'\<rparr>) (as @ (k, u) # cs)"
    and "used_data m' 0 as = used_data (heap_mem h) 0 as"
    and "used_data m' (p + k) cs = used_data (heap_mem h) (p + k) cs"
    and "take (k - 12) (drop (p + 12) m') = overwrite (take (k - 12) (drop (p + 12) (heap_mem h))) (off - 12) ys"
proof -
  define q where "q = lastp 0 0 as"
  define m where "m = heap_mem h"
  note r = rest_middle [OF h p q_def, folded m_def]
  note f = block_magic [OF r(2)]
  have len: "length m' = length m" using r(3) off by (simp add: m' m_def)
  have s: "same m m' 0 p" "same m m' p (p + 12)" "same m m' (p + k) (length m)"
    using r(3) off by (auto simp: m' m_def intro!: same_overwrite)
  have rr: "rest m (p + k) p cs" using r(1) by (simp add: rest_Cons)
  note t = rest_same [OF rr len s(3) r(3)]
  have "rest m' p q ((k, u) # cs)" using block_same [OF r(2) s(2) len] t by (simp add: rest_Cons)
  note mid = heap_shape_middle [OF h len [unfolded m_def] s(1) [unfolded p m_def] this [unfolded p q_def]]
  show "heap_shape (h\<lparr>heap_mem := m'\<rparr>) (as @ (k, u) # cs)"
    and "used_data m' 0 as = used_data (heap_mem h) 0 as" by (rule mid)+
  show "used_data m' (p + k) cs = used_data (heap_mem h) (p + k) cs" using t(2) by (simp add: m_def)
  show "take (k - 12) (drop (p + 12) m') = overwrite (take (k - 12) (drop (p + 12) (heap_mem h))) (off - 12) ys"
    using r(3) off len by (intro nth_equalityI) (auto simp: m' m_def nth_overwrite add.commute)
qed

lemma seg_keys:
  "seg m p q bs \<Longrightarrow> (a, d) \<in> set (used_data m p bs) \<Longrightarrow> span p bs \<le> length m \<Longrightarrow>
     p + 12 \<le> a \<and> a + length d \<le> span p bs \<and> (p mod 4 = 0 \<longrightarrow> a mod 4 = 0)"
proof (induction m p q bs rule: seg.induct)
  case (2 m p q n u bs)
  have s: "p + n \<le> span (p + n) bs" by (rule span_le)
  have f: "12 \<le> n" "n mod 4 = 0" "seg m (p + n) p bs" using 2 by (auto simp: block_def)
  show ?case
  proof (cases "(a, d) \<in> set (used_data m (p + n) bs)")
    case True
    then have "p + n + 12 \<le> a \<and> a + length d \<le> span (p + n) bs \<and> ((p + n) mod 4 = 0 \<longrightarrow> a mod 4 = 0)"
      using 2 f by auto
    then show ?thesis using f by (auto simp: mod_add_eq)
  next
    case False
    then have "a = p + 12" "length d \<le> n - 12" using 2 by (auto split: if_splits)
    then show ?thesis using s f by auto
  qed
qed simp

lemma used_middle:
  "(a, d) \<in> set (used_data m p bs) \<Longrightarrow>
     \<exists>as k cs. bs = as @ (k, True) # cs \<and> a = span p as + 12 \<and> d = take (k - 12) (drop a m)"
proof (induction m p bs rule: used_data.induct)
  case (2 m p n u bs)
  show ?case
  proof (cases "u \<and> (a, d) = (p + 12, take (n - 12) (drop (p + 12) m))")
    case True
    then show ?thesis by (intro exI [of _ "[]"]) auto
  next
    case False
    then obtain as k cs where "bs = as @ (k, True) # cs" "a = span (p + n) as + 12" "d = take (k - 12) (drop a m)"
      using 2 by (auto split: if_splits)
    then show ?thesis by (intro exI [of _ "(n, u) # as"] exI [of _ k] exI [of _ cs]) auto
  qed
qed simp

end
