(* ===== verification/Heap_Live.thy ===== *)
theory Heap_Live
  imports Heap_Ok
begin

text \<open>
  The heap as its clients see it: \<open>live\<close> maps the address of every allocated block to its content.
  Allocation adds a fresh block, release takes one away, and no operation changes the content of
  another block.
\<close>

section \<open>What the clients see\<close>

text \<open>The blocks are read off the headers; \<open>live\<close> maps the address of every block in use to its content.\<close>

fun walk :: "nat \<Rightarrow> heap \<Rightarrow> nat \<Rightarrow> blocks" where
  "walk 0 h p = []"
| "walk (Suc fuel) h p =
     (if p = heap_end h then []
      else (ld 4 (heap_mem h) (p + 4) - p, ld 2 (heap_mem h) (p + 2) \<noteq> 0) #
           walk fuel h (ld 4 (heap_mem h) (p + 4)))"

definition heap_blocks :: "heap \<Rightarrow> blocks" where
  "heap_blocks h = walk (heap_fuel h) h 0"

definition heap_ok :: "heap \<Rightarrow> bool" where
  "heap_ok h \<longleftrightarrow> heap_inv h (heap_blocks h)"

definition live :: "heap \<Rightarrow> nat \<rightharpoonup> 8 word list" where
  "live h a = (if heap_ptr h \<le> a then map_of (used_data (heap_mem h) 0 (heap_blocks h)) (a - heap_ptr h) else None)"

lemma walk_seg:
  assumes "seg (heap_mem h) p q bs" "span p bs = heap_end h" "length bs < fuel"
  shows "walk fuel h p = bs"
  using assms
proof (induction bs arbitrary: p q fuel)
  case Nil
  then show ?case by (cases fuel) auto
next
  case (Cons b bs)
  obtain n u where b: "b = (n, u)" by (cases b)
  obtain f where fuel: "fuel = Suc f" using Cons.prems by (cases fuel) auto
  have blk: "block (heap_mem h) p q n u" using Cons.prems b by simp
  note fs = block_magic [OF blk]
  have "p + n \<le> heap_end h" using Cons.prems b span_le [of "p + n" bs] by simp
  moreover have "walk f h (p + n) = bs" using Cons.prems b fuel by (intro Cons.IH [of _ p]) auto
  ultimately show ?case using fs by (auto simp: b fuel)
qed

lemma heap_blocks_eq: "heap_shape h bs \<Longrightarrow> heap_blocks h = bs"
  using walk_seg [of h 0 0 bs "heap_fuel h"] blocks_fuel [of "heap_mem h" 0 0 bs]
  by (simp add: heap_blocks_def heap_shape_def rest_def heap_fuel_def)

lemma heap_ok_inv: "heap_inv h bs \<Longrightarrow> heap_ok h"
  using heap_blocks_eq [of h bs] by (simp add: heap_ok_def heap_inv_def)

lemma live_inv:
  "heap_shape h bs \<Longrightarrow> live h a =
     (if heap_ptr h \<le> a then map_of (used_data (heap_mem h) 0 bs) (a - heap_ptr h) else None)"
  by (simp add: live_def heap_blocks_eq)

text \<open>Taking one block in use out of the heap takes one entry out of the view.\<close>

lemma map_of_middle:
  assumes "seg m 0 0 (as @ (k, u) # cs)" "span 0 (as @ (k, u) # cs) \<le> length m"
  shows "map_of (used_data m 0 as @ (span 0 as + 12, d) # used_data m (span 0 as + k) cs) =
       (map_of (used_data m 0 as @ used_data m (span 0 as + k) cs))(span 0 as + 12 \<mapsto> d)"
    and "map_of (used_data m 0 as @ used_data m (span 0 as + k) cs) (span 0 as + 12) = None"
proof -
  define p where "p = span 0 as"
  have s: "seg m 0 0 as" "block m p (lastp 0 0 as) k u" "seg m (p + k) p cs"
    using assms by (auto simp: p_def)
  have e: "span (p + k) cs \<le> length m" using assms by (simp add: p_def)
  then have "p \<le> length m" using span_le [of "p + k" cs] by simp
  then have "x < p + 12" if "(x, c) \<in> set (used_data m 0 as)" for x c
    using seg_keys [OF s(1) that] by (simp add: p_def)
  then have n1: "p + 12 \<notin> fst ` set (used_data m 0 as)" by force
  have "p + 12 < x" if "(x, c) \<in> set (used_data m (p + k) cs)" for x c
    using seg_keys [OF s(3) that e] s(2) by (simp add: block_def)
  then have n2: "p + 12 \<notin> fst ` set (used_data m (p + k) cs)" by force
  have n3: "map_of (used_data m 0 as) (p + 12) = None" "map_of (used_data m (p + k) cs) (p + 12) = None"
    using n1 n2 by (simp_all add: map_of_eq_None_iff)
  show "map_of (used_data m 0 as @ (span 0 as + 12, d) # used_data m (span 0 as + k) cs) =
       (map_of (used_data m 0 as @ used_data m (span 0 as + k) cs))(span 0 as + 12 \<mapsto> d)"
    unfolding p_def [symmetric] using n3 by (auto simp: map_add_def fun_eq_iff split: option.split)
  show "map_of (used_data m 0 as @ used_data m (span 0 as + k) cs) (span 0 as + 12) = None"
    unfolding p_def [symmetric] using n3 by (simp add: map_add_def)
qed

lemma live_middle:
  assumes "heap_shape h (as @ (k, True) # cs)" "p = span 0 as"
    and "L = used_data (heap_mem h) 0 as @ used_data (heap_mem h) (p + k) cs"
  shows "live h = (\<lambda>a. if heap_ptr h \<le> a then map_of L (a - heap_ptr h) else None)
      (heap_ptr h + p + 12 \<mapsto> take (k - 12) (drop (p + 12) (heap_mem h)))"
    and "map_of L (p + 12) = None"
proof -
  have r: "seg (heap_mem h) 0 0 (as @ (k, True) # cs)" "span 0 (as @ (k, True) # cs) \<le> length (heap_mem h)"
    using assms(1) by (auto simp: heap_shape_def rest_def)
  note m = map_of_middle [OF r]
  show "map_of L (p + 12) = None" using m(2) assms by simp
  show "live h = (\<lambda>a. if heap_ptr h \<le> a then map_of L (a - heap_ptr h) else None)
      (heap_ptr h + p + 12 \<mapsto> take (k - 12) (drop (p + 12) (heap_mem h)))"
    using m(1) by (auto simp: live_inv [OF assms(1)] assms(2,3) fun_eq_iff)
qed

lemma live_Some:
  assumes "heap_ok h" "live h a = Some d"
  shows "\<exists>as k cs. heap_inv h (as @ (k, True) # cs) \<and> a = heap_ptr h + span 0 as + 12 \<and>
     d = take (k - 12) (drop (span 0 as + 12) (heap_mem h)) \<and> length d = k - 12 \<and> 12 < k"
proof -
  have "(a - heap_ptr h, d) \<in> set (used_data (heap_mem h) 0 (heap_blocks h))" and a: "heap_ptr h \<le> a"
    using assms(2) by (auto simp: live_def split: if_splits dest: map_of_SomeD)
  then obtain as k cs where b: "heap_blocks h = as @ (k, True) # cs" "a - heap_ptr h = span 0 as + 12"
      "d = take (k - 12) (drop (a - heap_ptr h) (heap_mem h))"
    using used_middle by blast
  have i: "heap_inv h (as @ (k, True) # cs)" using assms(1) b by (simp add: heap_ok_def)
  then have "heap_shape h (as @ (k, True) # cs)" by (simp add: heap_inv_def)
  note r = rest_middle [OF this refl refl]
  have "length d = k - 12" using b r(3) by simp
  moreover have "12 < k" using i r(3) by (auto simp: heap_inv_def)
  ultimately show ?thesis using i b a by fastforce
qed

lemma rt_malloc_live:
  assumes h: "heap_ok h" and n: "n + 3 < 2 ^ 32"
  shows "\<exists>a h'. rt_malloc n h = Inr (a, h') \<and> heap_ok h' \<and> same_heap h h' \<and>
     (a = RT_NULL \<and> h' = h \<or>
      a \<noteq> RT_NULL \<and> 0 < n \<and> live h a = None \<and> (\<exists>d. live h' = (live h)(a \<mapsto> d) \<and> block_size n \<le> length d))"
proof (cases "n = 0")
  case True
  then show ?thesis using h by (intro exI [of _ RT_NULL] exI [of _ h]) (simp add: rt_malloc_def same_heap_def)
next
  case False
  then have n0: "0 < n" by simp
  define bs where "bs = heap_blocks h"
  have i: "heap_inv h bs" using h by (simp add: heap_ok_def bs_def)
  then have sh: "heap_shape h bs" by (simp add: heap_inv_def)
  show ?thesis
  proof (cases "fit (mem_size_aligned h - block_size n) (block_size n) 0 bs")
    case None
    then show ?thesis using rt_malloc_null [OF i n0 n None] h by (auto simp: same_heap_def)
  next
    case (Some p)
    obtain h' as k0 cs k cs' where m: "rt_malloc n h = Inr (heap_ptr h + p + 12, h')"
      "heap_inv h' (as @ (k, True) # cs')" "bs = as @ (k0, False) # cs" "p = span 0 as" "block_size n + 12 \<le> k"
      "same_heap h h'" "used_data (heap_mem h') 0 as = used_data (heap_mem h) 0 as"
      "used_data (heap_mem h') (p + k) cs' = used_data (heap_mem h) (p + k0) cs"
      using rt_malloc_fit [OF i n0 n Some] by blast
    have sh': "heap_shape h' (as @ (k, True) # cs')" using m(2) by (simp add: heap_inv_def)
    define L where "L = used_data (heap_mem h') 0 as @ used_data (heap_mem h') (p + k) cs'"
    have hp: "heap_ptr h' = heap_ptr h" using m(6) by (simp add: same_heap_def)
    note l = live_middle [OF sh' m(4) L_def]
    have old: "live h = (\<lambda>a. if heap_ptr h \<le> a then map_of L (a - heap_ptr h) else None)"
      using m(3,4,7,8) by (simp add: live_inv [OF sh] L_def fun_eq_iff)
    have "live h (heap_ptr h + p + 12) = None" using l(2) by (simp add: old)
    moreover have "live h' = (live h)(heap_ptr h + p + 12 \<mapsto> take (k - 12) (drop (p + 12) (heap_mem h')))"
      using l(1) by (simp add: old hp cong: if_cong)
    moreover have "block_size n \<le> length (take (k - 12) (drop (p + 12) (heap_mem h')))"
      using m(5) rest_middle(3) [OF sh' m(4) refl] by simp
    ultimately show ?thesis
      using m(1,2,6) n0 heap_ok_inv [OF m(2)] by (auto simp: RT_NULL_def)
  qed
qed

lemma rt_free_live:
  assumes h: "heap_ok h" and a: "live h a = Some d"
  shows "\<exists>h'. rt_free a h = Inr h' \<and> heap_ok h' \<and> same_heap h h' \<and> live h' = (live h)(a := None)"
proof -
  obtain as k cs where b: "heap_inv h (as @ (k, True) # cs)" "a = heap_ptr h + span 0 as + 12"
    using live_Some [OF h a] by blast
  define L where "L = used_data (heap_mem h) 0 as @ used_data (heap_mem h) (span 0 as + k) cs"
  have sh: "heap_shape h (as @ (k, True) # cs)" using b(1) by (simp add: heap_inv_def)
  note l = live_middle [OF sh refl L_def]
  obtain h' bs where f: "rt_free a h = Inr h'" "heap_inv h' bs" "same_heap h h'" "used_data (heap_mem h') 0 bs = L"
    using rt_free_ok [OF b(1) refl] b(2) by (auto simp: L_def)
  have "heap_shape h' bs" "heap_ptr h' = heap_ptr h" using f(2,3) by (auto simp: heap_inv_def same_heap_def)
  then have "live h' = (\<lambda>a. if heap_ptr h \<le> a then map_of L (a - heap_ptr h) else None)"
    using f(4) by (simp add: live_inv fun_eq_iff)
  then have "live h' = (live h)(a := None)"
    using l b(2) by (auto simp: fun_eq_iff)
  then show ?thesis using f heap_ok_inv by blast
qed

definition poke :: "nat \<Rightarrow> 8 word list \<Rightarrow> heap \<Rightarrow> heap res" where
  \<comment> \<open>a client stores bytes at an address\<close>
  "poke a ys h =
     (if a < heap_ptr h then Inl Out_of_bounds
      else bnd (blit (heap_mem h) (a - heap_ptr h) ys) (\<lambda>m. Inr (h\<lparr>heap_mem := m\<rparr>)))"

lemma poke_live:
  assumes h: "heap_ok h" and a: "live h a = Some d" and off: "off + length ys \<le> length d"
  shows "\<exists>h'. poke (a + off) ys h = Inr h' \<and> heap_ok h' \<and> same_heap h h' \<and>
     live h' = (live h)(a \<mapsto> overwrite d off ys)"
proof -
  obtain as k cs where b: "heap_inv h (as @ (k, True) # cs)" "a = heap_ptr h + span 0 as + 12"
      "d = take (k - 12) (drop (span 0 as + 12) (heap_mem h))" "length d = k - 12" "12 < k"
    using live_Some [OF h a] by blast
  have sh: "heap_shape h (as @ (k, True) # cs)" using b(1) by (simp add: heap_inv_def)
  define p where "p = span 0 as"
  define h' where "h' = h\<lparr>heap_mem := overwrite (heap_mem h) (p + (12 + off)) ys\<rparr>"
  have o: "12 \<le> 12 + off" "12 + off + length ys \<le> k" using off b(4,5) by auto
  note w = write_block [OF sh p_def o refl]
  have sh': "heap_shape h' (as @ (k, True) # cs)" using w(1) by (simp add: h'_def)
  define L where "L = used_data (heap_mem h) 0 as @ used_data (heap_mem h) (p + k) cs"
  have L': "L = used_data (heap_mem h') 0 as @ used_data (heap_mem h') (p + k) cs"
    using w(2,3) by (simp add: L_def h'_def)
  note l = live_middle [OF sh p_def L_def] and l' = live_middle [OF sh' p_def L']
  have d': "take (k - 12) (drop (p + 12) (heap_mem h')) = overwrite d off ys"
    using w(4) b(3) by (simp add: h'_def p_def)
  have "live h' = (live h)(a \<mapsto> overwrite d off ys)"
    using l(1) l'(1) b(2) d' by (simp add: h'_def p_def cong: if_cong)
  moreover have "poke (a + off) ys h = Inr h'"
    using rest_middle(3) [OF sh p_def refl] o b(2) by (simp add: poke_def h'_def p_def add.assoc)
  moreover have "heap_inv h' (as @ (k, True) # cs)"
  proof -
    have "overwrite d off ys \<noteq> []" using b(4,5) off by (metis length_overwrite length_0_conv zero_less_diff less_irrefl)
    moreover have "length (overwrite d off ys) = length d" using off by simp
    ultimately show ?thesis
      using b(1) sh' w(2,3) d' by (simp add: heap_inv_def h'_def p_def b(3) [symmetric] del: length_take length_overwrite)
  qed
  ultimately show ?thesis using heap_ok_inv by (auto simp: same_heap_def h'_def)
qed

lemma copy_block_poke:
  assumes "heap_ok h" "live h a = Some d" "live h b = Some e" "n \<le> length d" "n \<le> length e"
  shows "copy_block b a n h = poke b (take n d) h"
proof -
  obtain as k cs where x: "heap_inv h (as @ (k, True) # cs)" "a = heap_ptr h + span 0 as + 12"
      "d = take (k - 12) (drop (span 0 as + 12) (heap_mem h))" "length d = k - 12"
    using live_Some [OF assms(1,2)] by blast
  obtain as' k' cs' where y: "heap_inv h (as' @ (k', True) # cs')" "b = heap_ptr h + span 0 as' + 12"
      "e = take (k' - 12) (drop (span 0 as' + 12) (heap_mem h))" "length e = k' - 12"
    using live_Some [OF assms(1,3)] by blast
  have la: "a - heap_ptr h = span 0 as + 12" "span 0 as + 12 + n \<le> length (heap_mem h)"
    using x assms(4) rest_middle(3) [of h as k True cs] by (auto simp: heap_inv_def)
  have lb: "b - heap_ptr h = span 0 as' + 12" "span 0 as' + 12 + n \<le> length (heap_mem h)" "\<not> b < heap_ptr h"
    using y assms(5) rest_middle(3) [of h as' k' True cs'] by (auto simp: heap_inv_def)
  have t: "take n d = take n (drop (span 0 as + 12) (heap_mem h))" using x(3,4) assms(4) by (simp add: min_def)
  have l: "length (take n d) = n" using assms(4) by simp
  have "rt_memcpy u (drop (span 0 as' + 12) (heap_mem h)) (drop (span 0 as + 12) (heap_mem h)) n =
      Inr (overwrite (drop (span 0 as' + 12) (heap_mem h)) 0 (take n d))" for u
    using la(2) lb(2) by (simp add: rt_memcpy_spec t)
  then show ?thesis using la lb l
    by (simp add: copy_block_def poke_def overwrite_def add.commute [of n])
qed

lemma shrink_block:
  assumes h: "heap_inv h (as @ (k, True) # cs)" and p: "p = span 0 as"
    and s: "s mod 4 = 0" "0 < s" "s + 24 < k - 12"
  defines "h0 \<equiv> count_freed (k - 12 - s) (h\<lparr>heap_sem := 0\<rparr>)"
  shows "\<exists>h' bs. bnd (split_block p (p + 12 + s) h0) (\<lambda>h.
       bnd (link_next (p + 12 + s) h) (\<lambda>h.
       let h = (if p + 12 + s < lfree h then h\<lparr>lfree := p + 12 + s\<rparr> else h) in
       bnd (plug_holes (p + 12 + s) h) (\<lambda>h. Inr (a :: nat, heap_release h)))) = Inr (a, h') \<and>
     heap_inv h' bs \<and> same_heap h h' \<and>
     used_data (heap_mem h') 0 bs =
       used_data (heap_mem h) 0 as @ (p + 12, take s (drop (p + 12) (heap_mem h))) # used_data (heap_mem h) (p + k) cs"
proof -
  have sh: "heap_shape h0 (as @ (k, True) # cs)" and lf: "lfree h = first_free 0 (as @ (k, True) # cs)"
    and mg: "merged (as @ (k, True) # cs)" and sem: "heap_sem h = 1"
    using h by (auto simp: heap_inv_def h0_def)
  have k: "12 \<le> s + 12" "(s + 12) mod 4 = 0" "s + 12 + 12 \<le> k" using s by presburger+
  obtain m1 where m1: "bnd (split_block p (p + (s + 12)) h0)
       (\<lambda>h. bnd (if False then set_used p 1 h else Inr h) (link_next (p + (s + 12)))) = Inr (h0\<lparr>heap_mem := m1\<rparr>)"
     "heap_shape (h0\<lparr>heap_mem := m1\<rparr>) (as @ (s + 12, False \<or> True) # (k - (s + 12), False) # cs)"
     "used_data m1 0 as = used_data (heap_mem h0) 0 as"
     "used_data m1 (p + k) cs = used_data (heap_mem h0) (p + k) cs"
     "same (heap_mem h0) m1 (p + 12) (p + (s + 12))"
    using split_link [OF sh p k, of False] by blast
  define bs1 where "bs1 = as @ [(s + 12, True)]"
  define p2 where "p2 = p + 12 + s"
  have p2: "p2 = span 0 bs1" "p + (s + 12) = p2" by (simp_all add: p2_def bs1_def p)
  have r3: "p + k + 12 \<le> length (heap_mem h0)" using rest_middle(3) [OF sh p refl] .
  have d: "take s (drop (p + 12) m1) = take s (drop (p + 12) (heap_mem h))"
  proof -
    have "length m1 = length (heap_mem h0)"
      using m1(2) sh by (simp add: heap_shape_def)
    then show ?thesis
      using same_take_drop [OF m1(5), of "p + 12" s] r3 s by (simp add: h0_def)
  qed
  define l where "l = (if p2 < lfree h then p2 else lfree h)"
  define h2 where "h2 = h0\<lparr>heap_mem := m1, lfree := l\<rparr>"
  have h2f: "heap_sem h2 = 0" "heap_ptr h2 = heap_ptr h" "mem_size_aligned h2 = mem_size_aligned h"
      "max_mem h2 = max_mem h" "used_mem h2 = sub32 (used_mem h) (k - 12 - s)"
    by (simp_all add: h2_def h0_def) (simp_all add: count_freed_def)
  have sh2: "heap_shape h2 (bs1 @ (k - (s + 12), False) # cs)" using m1(2) by (simp add: h2_def bs1_def)
  have l: "lfree h2 = first_free 0 (bs1 @ (k - (s + 12), False) # cs)"
  proof (cases "\<forall>b \<in> set as. snd b")
    case True
    have "p2 < first_free (p + k) cs" using first_free_ge [of "p + k" cs] s p2_def by simp
    then show ?thesis using True lf p by (simp add: h2_def l_def bs1_def first_free_append p2_def)
  next
    case False
    have "seg (heap_mem h0) 0 0 as" using sh by (simp add: heap_shape_def rest_append)
    then have "first_free 0 as < p" using first_free_less False p by blast
    moreover have "first_free 0 (as @ bs) = first_free 0 as" for bs
      using False by (simp only: first_free_append if_False)
    ultimately show ?thesis using lf by (simp add: h2_def l_def bs1_def p2_def)
  qed
  have mg1: "merged bs1" "merged cs" using mg by (auto simp: bs1_def merged_append merged_Cons)
  obtain m3 bs where m3: "plug_holes p2 h2 = Inr (h2\<lparr>heap_mem := m3\<rparr>)" "heap_shape (h2\<lparr>heap_mem := m3\<rparr>) bs"
      "lfree h2 = first_free 0 bs" "merged bs"
      "used_data m3 0 bs = used_data (heap_mem h2) 0 (bs1 @ (k - (s + 12), False) # cs)"
    using plug_holes_ok [OF sh2 p2(1) l mg1] by blast
  define h' where "h' = heap_release (h2\<lparr>heap_mem := m3\<rparr>)"
  have u: "used_data m3 0 bs =
       used_data (heap_mem h) 0 as @ (p + 12, take s (drop (p + 12) (heap_mem h))) # used_data (heap_mem h) (p + k) cs"
    using m3(5) m1(3,4) d s by (simp add: h2_def bs1_def p [symmetric] h0_def)
  have "s \<noteq> 0" "p + 12 < length (heap_mem h)" using s r3 by (auto simp: h0_def)
  then have "[] \<notin> snd ` set (used_data m3 0 bs)"
    using h by (auto simp: heap_inv_def u p)
  moreover have "used_mem h = occupied (used_data m3 0 bs) + (k - 12 - s)" "used_mem h < 2 ^ 32"
    using h r3 s p occupied_shape [OF sh] by (auto simp: heap_inv_def u h0_def)
  then have "used_mem h2 = occupied (used_data m3 0 bs)" "used_mem h2 \<le> used_mem h" by (simp_all add: h2f)
  moreover have "used_mem h \<le> max_mem h2" using h by (simp add: h2f heap_inv_def)
  ultimately have "heap_inv h' bs"
    using m3(2-4) by (simp add: heap_inv_def h'_def heap_release_def h2f)
  moreover have "same_heap h h'" "heap_mem h' = m3"
    by (simp_all add: same_heap_def h'_def heap_release_def h2f)
  moreover have "bnd (split_block p p2 h0) (\<lambda>h.
       bnd (link_next p2 h) (\<lambda>h.
       let h = (if p2 < lfree h then h\<lparr>lfree := p2\<rparr> else h) in
       bnd (plug_holes p2 h) (\<lambda>h. Inr (a, heap_release h)))) = Inr (a, h')"
  proof -
    have "bnd (split_block p p2 h0) (\<lambda>h. bnd (link_next p2 h) g) = g (h0\<lparr>heap_mem := m1\<rparr>)"
      for g :: "heap \<Rightarrow> (nat \<times> heap) res"
      using m1(1) by (simp add: p2(2) bnd_assoc [symmetric])
    moreover have "(if p2 < lfree (h0\<lparr>heap_mem := m1\<rparr>) then h0\<lparr>heap_mem := m1, lfree := p2\<rparr> else h0\<lparr>heap_mem := m1\<rparr>) = h2"
      by (simp add: h2_def l_def h0_def)
    ultimately show ?thesis using m3(1) by (simp add: Let_def h'_def)
  qed
  ultimately show ?thesis using u unfolding p2_def [symmetric] by auto
qed

lemma rt_realloc_live:
  assumes h: "heap_ok h" and a: "live h a = Some d" and n: "0 < n" "n + 3 < 2 ^ 32"
  shows "\<exists>b h'. rt_realloc a n h = Inr (b, h') \<and> heap_ok h' \<and> same_heap h h' \<and>
     (b = RT_NULL \<and> h' = h \<or>
      b \<noteq> RT_NULL \<and> (b = a \<or> live h b = None) \<and>
      (\<exists>d'. live h' = (live h)(a := None, b \<mapsto> d') \<and> n \<le> length d' \<and>
         take (min (length d) n) d' = take (min (length d) n) d))"
proof -
  obtain as k cs where b: "heap_inv h (as @ (k, True) # cs)" "a = heap_ptr h + span 0 as + 12"
      "d = take (k - 12) (drop (span 0 as + 12) (heap_mem h))" "length d = k - 12" "12 < k"
    using live_Some [OF h a] by blast
  define p where "p = span 0 as"
  have sh: "heap_shape h (as @ (k, True) # cs)" and sem: "heap_sem h = 1" using b(1) by (auto simp: heap_inv_def)
  note r = rest_middle [OF sh p_def refl]
  note f = block_magic [OF r(2)]
  have hp: "0 < heap_ptr h" "heap_end h + 12 = length (heap_mem h)" using sh by (auto simp: heap_shape_def)
  define s where "s = (n + 3) div 4 * 4"
  have ns: "n \<le> s" "s mod 4 = 0" "0 < s" using n(1) unfolding s_def by (simp, presburger?)+
  have al: "RT_ALIGN n 4 = s" using align4 [OF n(2)] by (simp add: s_def)
  define h0 where "h0 = h\<lparr>heap_sem := 0\<rparr>"
  have tk: "heap_take h = Inr h0" "heap_release h0 = h" using sem sem_again by (auto simp: heap_take_def h0_def heap_release_def)
  have nx: "mem_next h0 p = Inr (p + k)" using r f by (simp add: fields h0_def)
  have h0f: "heap_ptr h0 = heap_ptr h" "heap_end h0 = heap_end h" "mem_size_aligned h0 = mem_size_aligned h"
    by (simp_all add: h0_def)
  have an: "a \<noteq> 0" "\<not> a < heap_ptr h" "\<not> heap_ptr h + heap_end h \<le> a" "\<not> a < heap_ptr h + 12"
      "a - 12 - heap_ptr h = p"
    using b(2,5) r(3) hp by (auto simp: p_def)
  have sz: "sub32 (sub32 (p + k) p) 12 = k - 12" using r f b(5) by simp
  consider "mem_size_aligned h < s" | "s \<le> mem_size_aligned h" "k - 12 = s"
    | "s \<le> mem_size_aligned h" "s + 24 < k - 12"
    | "s \<le> mem_size_aligned h" "k - 12 \<noteq> s" "\<not> s + 24 < k - 12" by linarith
  then show ?thesis
  proof cases
    case 1
    then have "rt_realloc a n h = Inr (RT_NULL, h)" by (simp add: rt_realloc_def al)
    then show ?thesis using h by (auto simp: same_heap_def)
  next
    case 2
    then have "rt_realloc a n h = Inr (a, h)"
      using ns an by (simp add: rt_realloc_def al tk nx sz h0f RT_NULL_def Let_def)
    moreover have "live h = (live h)(a := None, a \<mapsto> d)" using a by auto
    moreover have "n \<le> length d" using 2 b(4) ns by simp
    ultimately show ?thesis using h an by (auto simp: same_heap_def RT_NULL_def)
  next
    case 3
    obtain h' bs where q: "bnd (split_block p (p + 12 + s) (count_freed (k - 12 - s) h0)) (\<lambda>h.
       bnd (link_next (p + 12 + s) h) (\<lambda>h.
       let h = (if p + 12 + s < lfree h then h\<lparr>lfree := p + 12 + s\<rparr> else h) in
       bnd (plug_holes (p + 12 + s) h) (\<lambda>h. Inr (a, heap_release h)))) = Inr (a, h')"
      "heap_inv h' bs" "same_heap h h'"
      "used_data (heap_mem h') 0 bs =
       used_data (heap_mem h) 0 as @ (p + 12, take s (drop (p + 12) (heap_mem h))) # used_data (heap_mem h) (p + k) cs"
      using shrink_block [OF b(1) p_def ns(2,3) 3(2)] unfolding h0_def by blast
    have "add32 s (12 + 12) < k - 12" "sub32 (k - 12) s = k - 12 - s" using 3 ns r by simp_all
    then have "rt_realloc a n h = Inr (a, h')"
      using 3 ns an q(1) by (simp add: rt_realloc_def al tk nx sz h0f RT_NULL_def)
    moreover have "live h' = (live h)(a := None, a \<mapsto> take s d)"
    proof -
      define L where "L = used_data (heap_mem h) 0 as @ used_data (heap_mem h) (p + k) cs"
      have "heap_shape h' bs" "heap_ptr h' = heap_ptr h" using q(2,3) by (auto simp: heap_inv_def same_heap_def)
      moreover have "map_of (used_data (heap_mem h') 0 bs) = (map_of L)(p + 12 \<mapsto> take s (drop (p + 12) (heap_mem h)))"
        using map_of_middle(1) [of "heap_mem h" as k True cs] sh
        by (simp add: q(4) L_def p_def heap_shape_def rest_def)
      moreover have "take s d = take s (drop (p + 12) (heap_mem h))" using b(3) 3 by (simp add: p_def min_def)
      ultimately show ?thesis
        using live_middle(1) [OF sh p_def L_def] b(2)
        by (auto simp: live_inv fun_eq_iff p_def)
    qed
    moreover have "n \<le> length (take s d)" "take (min (length d) n) (take s d) = take (min (length d) n) d"
      using 3 b(4) ns by (auto simp: min_def)
    ultimately show ?thesis using q h an heap_ok_inv by (auto simp: RT_NULL_def)
  next
    case 4
    have nl: "\<not> add32 s (12 + 12) < k - 12" using 4 r(4,6) by simp
    obtain c h1 where m: "rt_malloc s h = Inr (c, h1)" "heap_ok h1" "same_heap h h1"
      "c = RT_NULL \<and> h1 = h \<or> c \<noteq> RT_NULL \<and> live h c = None \<and>
         (\<exists>e. live h1 = (live h)(c \<mapsto> e) \<and> block_size s \<le> length e)"
      using rt_malloc_live [OF h, of s] 4(1) r(4,6) by auto
    have run: "rt_realloc a n h = (if c \<noteq> RT_NULL
         then bnd (copy_block c a (min (length d) s) h1) (\<lambda>h. bnd (rt_free a h) (\<lambda>h. Inr (c, h)))
         else Inr (c, h1))"
      using 4 ns an nl m(1) b(4) by (simp add: rt_realloc_def al tk nx sz h0f RT_NULL_def Let_def min_def)
    show ?thesis
    proof (cases "c = RT_NULL")
      case True
      then show ?thesis using run m(4) h by (auto simp: same_heap_def)
    next
      case False
      then obtain e where e: "live h c = None" "live h1 = (live h)(c \<mapsto> e)" "block_size s \<le> length e"
        using m(4) by auto
      have ne: "a \<noteq> c" using a e(1) by auto
      have l1: "live h1 a = Some d" "live h1 c = Some e" using a e(2) ne by auto
      define t where "t = take (min (length d) s) d"
      have le: "length t \<le> length e" "s \<le> length e" using block_size(3) [of s] e(3) by (auto simp: t_def)
      obtain h2 where h2: "poke c t h1 = Inr h2" "heap_ok h2" "same_heap h1 h2"
          "live h2 = (live h1)(c \<mapsto> overwrite e 0 t)"
        using poke_live [OF m(2) l1(2), of 0 t] le by auto
      have cp: "copy_block c a (min (length d) s) h1 = Inr h2"
        using copy_block_poke [OF m(2) l1, of "min (length d) s"] le h2(1) by (simp add: t_def)
      obtain h3 where h3: "rt_free a h2 = Inr h3" "heap_ok h3" "same_heap h2 h3" "live h3 = (live h2)(a := None)"
        using rt_free_live [OF h2(2), of a d] h2(4) l1(1) ne by auto
      have "live h3 = (live h)(a := None, c \<mapsto> overwrite e 0 t)"
        using h3(4) h2(4) e(2) ne by auto
      moreover have "take (min (length d) n) (overwrite e 0 t) = take (min (length d) n) d"
        using ns(1) by (simp add: overwrite_def t_def min_def)
      moreover have "n \<le> length (overwrite e 0 t)" using le ns(1) by simp
      moreover have "same_heap h h3" using m(3) h2(3) h3(3) by (simp add: same_heap_def)
      ultimately show ?thesis
        using run False cp h3(1,2) e(1) by (intro exI [of _ c] exI [of _ h3]) auto
    qed
  qed
qed

lemma live_separate:
  assumes h: "heap_ok h" and a: "live h a = Some d" and b: "live h b = Some e" and ne: "a \<noteq> b"
  shows "a + length d \<le> b \<or> b + length e \<le> a"
proof -
  obtain as k cs where x: "heap_inv h (as @ (k, True) # cs)" "a = heap_ptr h + span 0 as + 12" "length d = k - 12" "12 < k"
    using live_Some [OF h a] by blast
  have sh: "heap_shape h (as @ (k, True) # cs)" using x(1) by (simp add: heap_inv_def)
  then have s: "seg (heap_mem h) 0 0 as" "seg (heap_mem h) (span 0 as + k) (span 0 as) cs"
      "span (span 0 as + k) cs + 12 = length (heap_mem h)"
    by (auto simp: heap_shape_def rest_def)
  have le: "span 0 as \<le> length (heap_mem h)" "span (span 0 as + k) cs \<le> length (heap_mem h)"
    using s(3) span_le [of "span 0 as + k" cs] by linarith+
  define L where "L = used_data (heap_mem h) 0 as @ used_data (heap_mem h) (span 0 as + k) cs"
  have hb: "heap_ptr h \<le> b" "map_of L (b - heap_ptr h) = Some e"
    using b live_middle(1) [OF sh refl L_def] ne x(2) by (auto split: if_splits)
  then consider "(b - heap_ptr h, e) \<in> set (used_data (heap_mem h) 0 as)"
    | "(b - heap_ptr h, e) \<in> set (used_data (heap_mem h) (span 0 as + k) cs)"
    by (auto simp: L_def dest!: map_of_SomeD)
  then show ?thesis
  proof cases
    case 1
    then show ?thesis using seg_keys [OF s(1) 1 le(1)] hb(1) x(2) by auto
  next
    case 2
    then show ?thesis using seg_keys [OF s(2) 2 le(2)] hb(1) x(2-4) by auto
  qed
qed

lemma live_aligned:
  assumes h: "heap_ok h" and a: "live h a = Some d"
  shows "a mod 4 = 0" and "a \<noteq> RT_NULL" and "heap_ptr h \<le> a" and "a + length d \<le> heap_ptr h + heap_end h"
proof -
  obtain as k cs where x: "heap_inv h (as @ (k, True) # cs)" "a = heap_ptr h + span 0 as + 12" "length d = k - 12" "12 < k"
    using live_Some [OF h a] by blast
  have sh: "heap_shape h (as @ (k, True) # cs)" using x(1) by (simp add: heap_inv_def)
  have "heap_ptr h mod 4 = 0" "length (heap_mem h) = heap_end h + 12" using sh by (auto simp: heap_shape_def)
  moreover note r = rest_middle(3,5) [OF sh refl refl]
  ultimately show "a mod 4 = 0" by (simp add: x(2) mod_add_eq [symmetric] mod_0_imp_dvd)
  show "a + length d \<le> heap_ptr h + heap_end h"
    using \<open>length (heap_mem h) = heap_end h + 12\<close> r(1) x(2-4) by simp
  show "a \<noteq> RT_NULL" "heap_ptr h \<le> a" using x(2) by (auto simp: RT_NULL_def)
qed

section \<open>The contract of the allocator\<close>

text \<open>
  What a client may do, given the blocks it owns, and what each operation does to them: the
  abstract allocator is free to choose the place of a new block, and to have none.
\<close>

datatype mop = Malloc nat | Calloc nat nat | Realloc nat nat | Free nat | Poke nat nat "8 word list"

fun permitted :: "mop \<Rightarrow> (nat \<rightharpoonup> 8 word list) \<Rightarrow> bool" where
  "permitted (Malloc n) L \<longleftrightarrow> n + 3 < 2 ^ 32"
| "permitted (Calloc c n) L \<longleftrightarrow> c * n + 3 < 2 ^ 32"
| "permitted (Realloc a n) L \<longleftrightarrow> n + 3 < 2 ^ 32 \<and> (a = RT_NULL \<or> L a \<noteq> None)"
| "permitted (Free a) L \<longleftrightarrow> a = RT_NULL \<or> L a \<noteq> None"
| "permitted (Poke a off ys) L \<longleftrightarrow> (case L a of Some d \<Rightarrow> off + length ys \<le> length d | None \<Rightarrow> False)"

definition fresh :: "nat \<Rightarrow> 8 word list \<Rightarrow> (nat \<rightharpoonup> 8 word list) \<Rightarrow> bool" where
  "fresh a d L \<longleftrightarrow> a \<noteq> RT_NULL \<and> a mod 4 = 0 \<and> L a = None \<and>
     (\<forall>b e. L b = Some e \<longrightarrow> a + length d \<le> b \<or> b + length e \<le> a)"

inductive alloc_step :: "mop \<Rightarrow> (nat \<rightharpoonup> 8 word list) \<Rightarrow> nat \<Rightarrow> (nat \<rightharpoonup> 8 word list) \<Rightarrow> bool" where
  no_memory: "op \<in> {Malloc n, Calloc c n, Realloc a n} \<Longrightarrow> alloc_step op L RT_NULL L"
| malloc: "fresh a d L \<Longrightarrow> n \<le> length d \<Longrightarrow> alloc_step (Malloc n) L a (L(a \<mapsto> d))"
| calloc: "fresh a d L \<Longrightarrow> c * n \<le> length d \<Longrightarrow> take (c * n) d = replicate (c * n) 0 \<Longrightarrow>
     alloc_step (Calloc c n) L a (L(a \<mapsto> d))"
| realloc_null: "fresh a d L \<Longrightarrow> n \<le> length d \<Longrightarrow> alloc_step (Realloc RT_NULL n) L a (L(a \<mapsto> d))"
| realloc_zero: "alloc_step (Realloc a 0) L RT_NULL (L(a := None))"
| realloc: "L a = Some d \<Longrightarrow> fresh b d' (L(a := None)) \<Longrightarrow> n \<le> length d' \<Longrightarrow>
     take (min (length d) n) d' = take (min (length d) n) d \<Longrightarrow>
     alloc_step (Realloc a n) L b (L(a := None, b \<mapsto> d'))"
| free: "alloc_step (Free a) L RT_NULL (L(a := None))"
| poke: "L a = Some d \<Longrightarrow> alloc_step (Poke a off ys) L RT_NULL (L(a \<mapsto> overwrite d off ys))"

inductive alloc_trace :: "(nat \<rightharpoonup> 8 word list) \<Rightarrow> (mop \<times> nat) list \<Rightarrow> (nat \<rightharpoonup> 8 word list) \<Rightarrow> bool" where
  "alloc_trace L [] L"
| "alloc_step op L r L' \<Longrightarrow> alloc_trace L' tr L'' \<Longrightarrow> alloc_trace L ((op, r) # tr) L''"

fun run_ops :: "(mop \<Rightarrow> 'h \<Rightarrow> (nat \<times> 'h) res) \<Rightarrow> 'h \<Rightarrow> mop list \<Rightarrow> (nat list \<times> 'h) res" where
  "run_ops exec h [] = Inr ([], h)"
| "run_ops exec h (op # ops) =
     bnd (exec op h) (\<lambda>(r, h). bnd (run_ops exec h ops) (\<lambda>(rs, h). Inr (r # rs, h)))"

text \<open>A client that only does what it may do, in the state it has reached.\<close>

fun obeys :: "(mop \<Rightarrow> 'h \<Rightarrow> (nat \<times> 'h) res) \<Rightarrow> ('h \<Rightarrow> nat \<rightharpoonup> 8 word list) \<Rightarrow> 'h \<Rightarrow> mop list \<Rightarrow> bool" where
  "obeys exec view h [] \<longleftrightarrow> True"
| "obeys exec view h (op # ops) \<longleftrightarrow> permitted op (view h) \<and>
     (case exec op h of Inl _ \<Rightarrow> True | Inr (r, h') \<Rightarrow> obeys exec view h' ops)"

locale allocator =
  fixes ok :: "'h \<Rightarrow> bool"
    and view :: "'h \<Rightarrow> nat \<rightharpoonup> 8 word list"
    and exec :: "mop \<Rightarrow> 'h \<Rightarrow> (nat \<times> 'h) res"
  assumes step: "ok h \<Longrightarrow> permitted op (view h) \<Longrightarrow>
      \<exists>r h'. exec op h = Inr (r, h') \<and> ok h' \<and> alloc_step op (view h) r (view h')"
begin

lemma run_refines:
  "ok h \<Longrightarrow> obeys exec view h ops \<Longrightarrow>
     \<exists>rs h'. run_ops exec h ops = Inr (rs, h') \<and> ok h' \<and> length rs = length ops \<and>
       alloc_trace (view h) (zip ops rs) (view h')"
proof (induction ops arbitrary: h)
  case Nil
  then show ?case by (auto intro: alloc_trace.intros)
next
  case (Cons op ops)
  then obtain r h1 where s: "exec op h = Inr (r, h1)" "ok h1" "alloc_step op (view h) r (view h1)"
    using step by force
  then obtain rs h2 where "run_ops exec h1 ops = Inr (rs, h2)" "ok h2" "length rs = length ops"
      "alloc_trace (view h1) (zip ops rs) (view h2)"
    using Cons by force
  then show ?case using s by (auto intro: alloc_trace.intros)
qed

end

fun heap_exec :: "mop \<Rightarrow> heap \<Rightarrow> (nat \<times> heap) res" where
  "heap_exec (Malloc n) h = rt_malloc n h"
| "heap_exec (Calloc c n) h = rt_calloc c n h"
| "heap_exec (Realloc a n) h = rt_realloc a n h"
| "heap_exec (Free a) h = bnd (rt_free a h) (\<lambda>h. Inr (RT_NULL, h))"
| "heap_exec (Poke a off ys) h = bnd (poke (a + off) ys h) (\<lambda>h. Inr (RT_NULL, h))"

lemma fresh_live:
  assumes "heap_ok h'" "live h' = L(a \<mapsto> d)" "L a = None"
  shows "fresh a d L"
proof -
  have a: "live h' a = Some d" using assms(2) by simp
  have "a + length d \<le> b \<or> b + length e \<le> a" if "L b = Some e" for b e
    using live_separate [OF assms(1) a, of b e] assms(2,3) that by (cases "a = b") auto
  then show ?thesis using live_aligned(1,2) [OF assms(1) a] assms(3) by (simp add: fresh_def)
qed

lemma rt_free_null: "rt_free RT_NULL h = Inr h"
  by (simp add: rt_free_def)

lemma malloc_step:
  assumes "heap_ok h" "n + 3 < 2 ^ 32"
  shows "\<exists>a h'. rt_malloc n h = Inr (a, h') \<and> heap_ok h' \<and>
     (a = RT_NULL \<and> h' = h \<or> (\<exists>d. fresh a d (live h) \<and> n \<le> length d \<and> live h' = (live h)(a \<mapsto> d)))"
proof -
  obtain a h' where m: "rt_malloc n h = Inr (a, h')" "heap_ok h'"
      "a = RT_NULL \<and> h' = h \<or> live h a = None \<and> (\<exists>d. live h' = (live h)(a \<mapsto> d) \<and> block_size n \<le> length d)"
    using rt_malloc_live [OF assms] by blast
  show ?thesis
  proof (cases "a = RT_NULL \<and> h' = h")
    case False
    then obtain d where "live h a = None" "live h' = (live h)(a \<mapsto> d)" "block_size n \<le> length d" using m(3) by auto
    moreover from this have "fresh a d (live h)" "n \<le> length d"
      using fresh_live [OF m(2)] block_size(3) [of n] by auto
    ultimately show ?thesis using m(1,2) by blast
  qed (use m in auto)
qed

lemma calloc_step:
  assumes h: "heap_ok h" and n: "c * n + 3 < 2 ^ 32"
  shows "\<exists>a h'. rt_calloc c n h = Inr (a, h') \<and> heap_ok h' \<and> alloc_step (Calloc c n) (live h) a (live h')"
proof -
  define s where "s = c * n"
  have m32: "mul32 c n = s" using n by (simp add: mul32_def s_def)
  obtain a h1 where m: "rt_malloc s h = Inr (a, h1)" "heap_ok h1"
      "a = RT_NULL \<and> h1 = h \<or> (\<exists>d. fresh a d (live h) \<and> s \<le> length d \<and> live h1 = (live h)(a \<mapsto> d))"
    using malloc_step [OF h, of s] n by (auto simp: s_def)
  show ?thesis
  proof (cases "a = RT_NULL \<and> h1 = h")
    case True
    then show ?thesis using m h by (auto simp: rt_calloc_def m32 intro: alloc_step.intros)
  next
    case False
    then obtain d where d: "fresh a d (live h)" "s \<le> length d" "live h1 = (live h)(a \<mapsto> d)" using m(3) by auto
    have l: "live h1 a = Some d" using d(3) by simp
    define z where "z = replicate s (0 :: 8 word)"
    obtain h2 where p: "poke a z h1 = Inr h2" "heap_ok h2" "live h2 = (live h1)(a \<mapsto> overwrite d 0 z)"
      using poke_live [OF m(2) l, of 0 z] d(2) by (auto simp: z_def)
    note al = live_aligned [OF m(2) l]
    have len: "a - heap_ptr h1 + s \<le> length (heap_mem h1)"
      using al(3,4) d(2) m(2) by (auto simp: heap_ok_def heap_inv_def heap_shape_def)
    then have "bnd (rt_memset u (drop (a - heap_ptr h1) (heap_mem h1)) 0 s)
        (\<lambda>bs. Inr (a, h1\<lparr>heap_mem := take (a - heap_ptr h1) (heap_mem h1) @ bs\<rparr>)) = bnd (poke a z h1) (\<lambda>h. Inr (a, h))" for u
      using al(3) by (simp add: rt_memset_spec poke_def overwrite_def z_def add.commute [of s])
    then have "rt_calloc c n h = Inr (a, h2)"
      using m(1) d(1) p(1) by (simp add: rt_calloc_def m32 fresh_def)
    moreover have "live h2 = (live h)(a \<mapsto> overwrite d 0 z)" using p(3) d(3) by simp
    moreover have "fresh a (overwrite d 0 z) (live h)" "s \<le> length (overwrite d 0 z)"
      using d(1,2) by (auto simp: fresh_def z_def)
    moreover have "take s (overwrite d 0 z) = replicate s 0" by (simp add: overwrite_def z_def)
    ultimately show ?thesis using p(2) alloc_step.calloc [of a "overwrite d 0 z" "live h" c n] by (auto simp: s_def)
  qed
qed

lemma realloc_step:
  assumes h: "heap_ok h" and p: "permitted (Realloc a n) (live h)"
  shows "\<exists>b h'. rt_realloc a n h = Inr (b, h') \<and> heap_ok h' \<and> alloc_step (Realloc a n) (live h) b (live h')"
proof -
  have n: "n + 3 < 2 ^ 32" using p by simp
  have null: "alloc_step (Realloc a n) (live h) RT_NULL (live h)" by (auto intro: alloc_step.no_memory)
  consider "n = 0" "a = RT_NULL" | d where "n = 0" "live h a = Some d" | "0 < n" "a = RT_NULL"
    | d where "0 < n" "live h a = Some d" using p by auto
  then show ?thesis
  proof cases
    case 1
    then have "rt_realloc a n h = Inr (RT_NULL, h)" by (simp add: rt_realloc_def RT_ALIGN_def rt_free_null)
    then show ?thesis using null h by blast
  next
    case 2
    then show ?thesis using rt_free_live [OF h 2(2)]
      by (auto simp: rt_realloc_def RT_ALIGN_def intro: alloc_step.realloc_zero)
  next
    case 3
    define s where "s = (n + 3) div 4 * 4"
    have s: "n \<le> s" "s < 2 ^ 32 - 3" "0 < s" using n 3(1) by (auto simp: s_def) presburger+
    show ?thesis
    proof (cases "s \<le> mem_size_aligned h")
      case False
      then have "rt_realloc a n h = Inr (RT_NULL, h)" using align4 [OF n] by (simp add: rt_realloc_def s_def)
      then show ?thesis using null h by blast
    next
      case True
      then have r: "rt_realloc a n h = rt_malloc s h" using align4 [OF n] s(3) 3 by (simp add: rt_realloc_def s_def Let_def)
      have "s + 3 < 2 ^ 32" using s(2) by simp
      from malloc_step [OF h this] obtain b h' where m: "rt_malloc s h = Inr (b, h')" "heap_ok h'"
        "b = RT_NULL \<and> h' = h \<or> (\<exists>d. fresh b d (live h) \<and> s \<le> length d \<and> live h' = (live h)(b \<mapsto> d))" by blast
      then show ?thesis using r null s(1) 3(2) by (auto intro!: alloc_step.realloc_null)
    qed
  next
    case 4
    obtain b h' where r: "rt_realloc a n h = Inr (b, h')" "heap_ok h'"
     "b = RT_NULL \<and> h' = h \<or> b \<noteq> RT_NULL \<and> (b = a \<or> live h b = None) \<and>
      (\<exists>d'. live h' = (live h)(a := None, b \<mapsto> d') \<and> n \<le> length d' \<and>
         take (min (length d) n) d' = take (min (length d) n) d)"
      using rt_realloc_live [OF h 4(2,1) n] by blast
    show ?thesis
    proof (cases "b = RT_NULL \<and> h' = h")
      case False
      then obtain d' where d: "b = a \<or> live h b = None" "live h' = (live h)(a := None, b \<mapsto> d')" "n \<le> length d'"
         "take (min (length d) n) d' = take (min (length d) n) d" using r(3) by auto
      have "fresh b d' ((live h)(a := None))" using fresh_live [OF r(2) d(2)] d(1) by auto
      then have "alloc_step (Realloc a n) (live h) b (live h')"
        using alloc_step.realloc [of "live h" a d b d' n] 4(2) d(2-4) by simp
      then show ?thesis using r(1,2) by blast
    qed (use r null in auto)
  qed
qed

interpretation sys_heap: allocator heap_ok live heap_exec
proof
  fix h op
  assume h: "heap_ok h" and p: "permitted op (live h)"
  show "\<exists>r h'. heap_exec op h = Inr (r, h') \<and> heap_ok h' \<and> alloc_step op (live h) r (live h')"
  proof (cases op)
    case (Malloc n)
    then show ?thesis using malloc_step [OF h, of n] p by (fastforce intro: alloc_step.intros)
  next
    case (Calloc c n)
    then show ?thesis using calloc_step [OF h, of c n] p by simp
  next
    case (Realloc a n)
    then show ?thesis using realloc_step [OF h] p by simp
  next
    case (Free a)
    show ?thesis
    proof (cases "a = RT_NULL")
      case True
      have "live h RT_NULL = None"
        using live_aligned(2) [OF h, of RT_NULL] by (cases "live h RT_NULL") auto
      then have "(live h)(a := None) = live h" using True by auto
      then show ?thesis using True Free h alloc_step.free [of a "live h"] by (simp add: rt_free_null)
    next
      case False
      then obtain d where "live h a = Some d" using p Free by auto
      then show ?thesis using rt_free_live [OF h] Free alloc_step.free by fastforce
    qed
  next
    case (Poke a off ys)
    then obtain d where d: "live h a = Some d" "off + length ys \<le> length d" using p by (auto split: option.splits)
    then show ?thesis using poke_live [OF h d] Poke alloc_step.poke [of "live h" a d off ys] d(1) by fastforce
  qed
qed

section \<open>Set-up, exhaustion and wrap-around\<close>

lemma header_written:
  assumes "p + 12 \<le> length m" "nx < 2 ^ 32" "pv < 2 ^ 32" "u < 2 ^ 16"
    and "m' = st 2 (p + 2) u (st 4 (p + 8) pv (st 4 (p + 4) nx (st 2 p HEAP_MAGIC m)))"
  shows "ld 2 m' p = HEAP_MAGIC" "ld 2 m' (p + 2) = u" "ld 4 m' (p + 4) = nx" "ld 4 m' (p + 8) = pv"
  unfolding assms(5) using assms(1-4) by (simp_all add: ld_st ld_st_other)

lemma rt_system_heap_init_ok:
  assumes b: "0 < b" "b + 3 < 2 ^ 32" and e: "e < 2 ^ 32"
    and m: "length m = e div 4 * 4 - (b + 3) div 4 * 4" "36 \<le> length m"
  shows "\<exists>h. rt_system_heap_init b e m = Inr (Some h) \<and> heap_ok h \<and> live h = Map.empty \<and>
     mem_size_aligned h = length m - 24 \<and> heap_ptr h = (b + 3) div 4 * 4 \<and>
     heap_blocks h = [(length m - 12, False)]"
proof -
  define s where "s = length m - 24"
  define ba where "ba = (b + 3) div 4 * 4"
  define ea where "ea = e div 4 * 4"
  have m3: "length m = s + 24" "12 \<le> s" using m(2) by (auto simp: s_def)
  have ba: "RT_ALIGN b 4 = ba" using align4 [OF b(2)] by (simp add: ba_def)
  have ge: "ea = ba + s + 24" using m(1) m3 by (simp add: ba_def ea_def)
  have "ba mod 4 = 0" "ea mod 4 = 0" by (simp_all add: ba_def ea_def)
  then have s4: "s mod 4 = 0" using ge by presburger
  have lt: "ba + s + 24 < 2 ^ 32" using e ge by (simp add: ea_def)
  have bp: "0 < ba" using b(1) by (simp add: ba_def)
  define h0 where "h0 = \<lparr>heap_ptr = ba, heap_mem = m, heap_end = s + 12, lfree = 0, heap_sem = 1, mem_size_aligned = s, used_mem = 0, max_mem = 0\<rparr>"
  define m1 where "m1 = st 2 2 0 (st 4 8 0 (st 4 4 (s + 12) (st 2 0 HEAP_MAGIC m)))"
  define m2 where "m2 = st 4 (s + 12 + 8) (s + 12) (st 4 (s + 12 + 4) (s + 12) (st 2 (s + 12 + 2) 1 (st 2 (s + 12) HEAP_MAGIC m1)))"
  define h where "h = h0\<lparr>heap_mem := m2\<rparr>"
  have l1: "length m1 = s + 24" using m3 by (simp add: m1_def)
  have l2: "length m2 = s + 24" using l1 by (simp add: m2_def)
  have run: "rt_system_heap_init b e m = Inr (Some h)"
    using m3 by (simp add: rt_system_heap_init_def ba ea_def [symmetric] ge h0_def [symmetric] Let_def fields)
      (simp add: h0_def h_def m1_def m2_def fields)
  have f1: "ld 2 m1 0 = HEAP_MAGIC" "ld 2 m1 2 = 0" "ld 4 m1 4 = s + 12" "ld 4 m1 8 = 0"
    using header_written [of 0 m "s + 12" 0 0 m1] m3 lt by (simp_all add: m1_def)
  have "same m1 m2 0 12" using l1 m3(2) by (simp add: m2_def same_st_right)
  then have g: "take k (drop j m1) = take k (drop j m2)" if "j + k \<le> 12" for j k
    using same_take_drop [of m1 m2 0 12 j k] that l1 l2 m3 by simp
  have b2: "block m2 0 0 (s + 12) False"
    using g [of 0 2] g [of 2 2] g [of 4 4] g [of 8 4] f1 l2 m3 s4 by (simp add: block_def) presburger
  have e2: "end_block m2 (s + 12)"
    unfolding m2_def end_block_def using l1 lt by (simp add: ld_st ld_st_other)
  have sh: "heap_shape h [(s + 12, False)]"
    using b2 e2 l2 m3 bp lt s4 \<open>ba mod 4 = 0\<close> by (simp add: heap_shape_def h_def h0_def rest_def)
  then have "heap_inv h [(s + 12, False)]" by (simp add: heap_inv_def) (simp add: h_def h0_def)
  then have "heap_ok h" by (rule heap_ok_inv)
  moreover have "live h = Map.empty" by (simp add: live_inv [OF sh] fun_eq_iff)
  moreover have "mem_size_aligned h = length m - 24" "length m - 12 = s + 12" "heap_ptr h = (b + 3) div 4 * 4"
    using m3 by (simp_all add: h_def h0_def ba_def)
  ultimately show ?thesis using run heap_blocks_eq [OF sh] by auto
qed

text \<open>
  C8. The system heap refines the abstract allocator: after \<open>rt_system_heap_init\<close>, every sequence of
  \<open>rt_malloc\<close>, \<open>rt_calloc\<close>, \<open>rt_realloc\<close>, \<open>rt_free\<close> and writes of a client that stays inside its own
  blocks runs without a fault, keeps the invariant of the heap, and has results and contents the
  abstract allocator allows: new blocks are aligned and overlap no other block, the content of a
  block is what was last written to it whatever happens to the others, and \<open>rt_realloc\<close> keeps it.
\<close>
theorem heap_refines_allocator:
  assumes "0 < b" "b + 3 < 2 ^ 32" "e < 2 ^ 32"
    and "length m = e div 4 * 4 - (b + 3) div 4 * 4" "36 \<le> length m"
    and "rt_system_heap_init b e m = Inr (Some h)"
    and "obeys heap_exec live h ops"
  shows "\<exists>rs h'. run_ops heap_exec h ops = Inr (rs, h') \<and> heap_ok h' \<and> length rs = length ops \<and>
     alloc_trace Map.empty (zip ops rs) (live h')"
  using sys_heap.run_refines [of h ops] rt_system_heap_init_ok [OF assms(1-5)] assms(6,7) by auto

lemma no_live_block:
  assumes h: "heap_ok h" and e: "live h = Map.empty"
  shows "heap_blocks h = [(mem_size_aligned h + 12, False)]"
proof -
  define bs where "bs = heap_blocks h"
  have i: "heap_inv h bs" using h by (simp add: heap_ok_def bs_def)
  then have sh: "heap_shape h bs" and mg: "merged bs" by (auto simp: heap_inv_def)
  have free: "\<not> u" if mem: "(n, u) \<in> set bs" for n u
  proof
    assume u
    then have "(n, True) \<in> set bs" using mem by simp
    then obtain as cs where "bs = as @ (n, True) # cs" by (meson split_list)
    then have "heap_shape h (as @ (n, True) # cs)" using sh by simp
    from fun_cong [OF live_middle(1) [OF this refl refl], of "heap_ptr h + span 0 as + 12"]
    show False by (simp only: e fun_upd_same option.distinct)
  qed
  have sp: "span 0 bs = mem_size_aligned h + 12" using sh by (auto simp: heap_shape_def rest_def)
  show ?thesis
  proof (cases bs)
    case Nil
    then show ?thesis using sp by simp
  next
    case (Cons b cs)
    obtain n u where b: "b = (n, u)" by (cases b)
    have "cs = []"
    proof (cases cs)
      case (Cons c ds)
      then show ?thesis using mg free [of n u] free [of "fst c" "snd c"] \<open>bs = b # cs\<close> b by auto
    qed simp
    then show ?thesis using Cons b sp free [of n u] by (simp add: bs_def)
  qed
qed

lemma malloc_null_iff:
  assumes h: "heap_ok h" and n: "0 < n" "n + 3 < 2 ^ 32"
  shows "(\<exists>h'. rt_malloc n h = Inr (RT_NULL, h')) \<longleftrightarrow>
     (\<forall>as k cs. heap_blocks h = as @ (k, False) # cs \<and> block_size n + 12 \<le> k \<longrightarrow>
        mem_size_aligned h \<le> span 0 as + block_size n)"
proof -
  define bs where "bs = heap_blocks h"
  define lim where "lim = mem_size_aligned h - block_size n"
  have i: "heap_inv h bs" using h by (simp add: heap_ok_def bs_def)
  have "(\<exists>h'. rt_malloc n h = Inr (RT_NULL, h')) \<longleftrightarrow> fit lim (block_size n) 0 bs = None"
  proof (cases "fit lim (block_size n) 0 bs")
    case None
    then show ?thesis using rt_malloc_null [OF i n] by (simp add: lim_def)
  next
    case (Some p)
    then obtain h' where "rt_malloc n h = Inr (heap_ptr h + p + 12, h')"
      using rt_malloc_fit [OF i n] by (auto simp: lim_def)
    then show ?thesis using Some by (simp add: RT_NULL_def)
  qed
  also have "\<dots> \<longleftrightarrow> (\<forall>as k cs. bs = as @ (k, False) # cs \<and> block_size n + 12 \<le> k \<longrightarrow> lim \<le> span 0 as)"
  proof
    assume "fit lim (block_size n) 0 bs = None"
    then show "\<forall>as k cs. bs = as @ (k, False) # cs \<and> block_size n + 12 \<le> k \<longrightarrow> lim \<le> span 0 as"
      using fit_None by blast
  next
    assume a: "\<forall>as k cs. bs = as @ (k, False) # cs \<and> block_size n + 12 \<le> k \<longrightarrow> lim \<le> span 0 as"
    show "fit lim (block_size n) 0 bs = None"
    proof (rule ccontr)
      assume "fit lim (block_size n) 0 bs \<noteq> None"
      then obtain p where "fit lim (block_size n) 0 bs = Some p" by blast
      from fit_Some [OF this] a show False by force
    qed
  qed
  finally show ?thesis by (simp add: bs_def lim_def le_diff_conv)
qed


text \<open>
  A request of 0xFFFFFFFD bytes or more wraps to zero when it is rounded up, and is served like a
  request of one byte: the caller gets a small block instead of \<open>RT_NULL\<close>.
\<close>
theorem rt_malloc_wraps:
  assumes "heap_ok h" and "2 ^ 32 - 3 \<le> n" and "n < 2 ^ 32"
  shows "rt_malloc n h = rt_malloc 1 h"
proof -
  have "add32 n 3 = n + 3 - 2 ^ 32" using assms(2,3) by (simp add: add32_def mod_if)
  then have "RT_ALIGN n 4 = 0" using assms(3) by (simp add: RT_ALIGN_def)
  moreover have "RT_ALIGN 1 4 = 4" by (simp add: RT_ALIGN_def)
  moreover have "12 \<le> mem_size_aligned h" using assms(1) by (auto simp: heap_ok_def heap_inv_def heap_shape_def)
  ultimately show ?thesis using assms(2) by (simp add: rt_malloc_def)
qed

lemma small_heap:
  "\<exists>h. rt_system_heap_init 4 76 (replicate 72 0) = Inr (Some h) \<and> heap_ok h \<and> live h = Map.empty \<and>
     mem_size_aligned h = 48 \<and> heap_ptr h = 4 \<and> heap_blocks h = [(60, False)]"
  using rt_system_heap_init_ok [of 4 76 "replicate 72 0"] by auto

theorem heap_refines_allocator_witness:
  "\<exists>h rs h'. rt_system_heap_init 4 76 (replicate 72 0) = Inr (Some h) \<and>
     run_ops heap_exec h [Malloc 5, Poke 16 0 [1, 2, 3], Free 16] = Inr (rs, h') \<and> heap_ok h' \<and>
     alloc_trace Map.empty (zip [Malloc 5, Poke 16 0 [1, 2, 3], Free 16] rs) (live h')"
proof -
  obtain h where h: "rt_system_heap_init 4 76 (replicate 72 0) = Inr (Some h)" "heap_ok h" "live h = Map.empty"
      "mem_size_aligned h = 48" "heap_ptr h = 4" "heap_blocks h = [(60, False)]"
    using small_heap by blast
  have "heap_inv h [(60, False)]" using h(2,6) by (simp add: heap_ok_def)
  moreover have "fit (mem_size_aligned h - block_size 5) (block_size 5) 0 [(60, False)] = Some 0"
    using h(4) by (simp add: block_size_def)
  ultimately obtain h1 where m: "rt_malloc 5 h = Inr (16, h1)"
    using rt_malloc_fit [of h "[(60, False)]" 5 0] h(5) by auto
  then have h1: "heap_ok h1" "\<exists>d. live h1 16 = Some d \<and> 12 \<le> length d"
    using rt_malloc_live [OF h(2), of 5] block_size(2) [of 5] by (auto simp: RT_NULL_def)
  then obtain d where d: "live h1 16 = Some d" "0 + length [1, 2, 3 :: 8 word] \<le> length d" by auto
  obtain h2 where p: "poke (16 + 0) [1, 2, 3] h1 = Inr h2" "live h2 16 \<noteq> None"
    using poke_live [OF h1(1) d] by auto
  have "obeys heap_exec live h [Malloc 5, Poke 16 0 [1, 2, 3], Free 16]"
    using m p d by (auto split: sum.split prod.split)
  then show ?thesis using heap_refines_allocator [of 4 76 "replicate 72 0" h] h(1) by fastforce
qed


theorem rt_malloc_wraps_witness:
  "\<exists>h. rt_malloc (2 ^ 32 - 1) h = rt_malloc 1 h \<and> (\<exists>a h'. rt_malloc 1 h = Inr (a, h') \<and> a \<noteq> RT_NULL)"
proof -
  obtain h where h: "heap_ok h" "live h = Map.empty" "mem_size_aligned h = 48" "heap_blocks h = [(60, False)]"
    using small_heap by blast
  have "heap_inv h [(60, False)]" using h(1,4) by (simp add: heap_ok_def)
  moreover have "fit (mem_size_aligned h - block_size 1) (block_size 1) 0 [(60, False)] = Some 0"
    using h(3) by (simp add: block_size_def)
  ultimately have "\<exists>a h'. rt_malloc 1 h = Inr (a, h') \<and> a \<noteq> RT_NULL"
    using rt_malloc_fit [of h "[(60, False)]" 1 0] by (auto simp: RT_NULL_def)
  then show ?thesis using rt_malloc_wraps [OF h(1), of "2 ^ 32 - 1"] by auto
qed

end
