(* ===== verification/Mqueue.thy ===== *)
theory Mqueue
  imports Mailbox Heap_Mem
begin

text \<open>
  The message queue of \<^verbatim>\<open>src/rt-thread/src/ipc.c\<close>: messages are copied into nodes of a pool that are linked to a queue and a free list.
  A node is a position of the pool with its link and its data. Sending and receiving protect only the lists: a sender takes
  a free node, fills it with interrupts enabled and links it; a receiver unlinks a node, copies it and gives it back. The parts are definitions of
  their own, so that runs can interleave them; a blocked call continues with \<open>mq_send_return\<close> or \<open>mq_recv_return\<close>. The functions \<open>rt_mq_send_wait\<close>,
  \<open>rt_mq_urgent\<close> and \<open>rt_mq_recv\<close> are the parts in sequence.
\<close>

section \<open>Message queues\<close>

record mq_message =
  mq_next :: "nat option"
  mq_data :: "8 word list"

record rt_messagequeue =
  mq_class :: object_class
  mq_pool :: "mq_message list"
  mq_msg_size :: nat
  max_msgs :: nat
  mq_entry :: nat
  msg_queue_head :: "nat option"
  msg_queue_tail :: "nat option"
  msg_queue_free :: "nat option"
  mq_list :: nat
  mq_sender_list :: nat
  mq_flag :: ipc_flag

abbreviation RT_MQ_ENTRY_MAX :: nat where "RT_MQ_ENTRY_MAX \<equiv> 65535"

definition set_mq_next :: "nat \<Rightarrow> nat option \<Rightarrow> rt_messagequeue \<Rightarrow> rt_messagequeue res" where
  "set_mq_next n v mq = bnd (fetch (mq_pool mq) n) (\<lambda>m. Inr (mq\<lparr>mq_pool := (mq_pool mq)[n := m\<lparr>mq_next := v\<rparr>]\<rparr>))"

definition cut_pool :: "nat \<Rightarrow> nat \<Rightarrow> 8 word list \<Rightarrow> mq_message list res" where
  \<comment> \<open>the memory of the pool as \<open>n\<close> nodes of a link of four bytes and \<open>sz\<close> bytes of data; the links are not read before they are written\<close>
  "cut_pool n sz msgpool =
     (if n * (sz + 4) \<le> length msgpool
      then Inr (map (\<lambda>j. \<lparr>mq_next = None, mq_data = take sz (drop (j * (sz + 4) + 4) msgpool)\<rparr>) [0..<n])
      else Inl Out_of_bounds)"

fun mq_link_free :: "nat \<Rightarrow> nat \<Rightarrow> rt_messagequeue \<Rightarrow> rt_messagequeue res" where
  "mq_link_free 0 temp mq = Inr mq"
| "mq_link_free (Suc n) temp mq =
     bnd (set_mq_next temp (msg_queue_free mq) mq) (\<lambda>mq. mq_link_free n (Suc temp) (mq\<lparr>msg_queue_free := Some temp\<rparr>))"

definition empty_queue :: "object_class \<Rightarrow> mq_message list \<Rightarrow> nat \<Rightarrow> nat \<Rightarrow> ipc_flag \<Rightarrow> nat \<Rightarrow> nat \<Rightarrow> rt_messagequeue" where
  "empty_queue c nodes sz n flag q r =
     \<lparr>mq_class = c, mq_pool = nodes, mq_msg_size = sz, max_msgs = n, mq_entry = 0, msg_queue_head = None, msg_queue_tail = None,
      msg_queue_free = None, mq_list = q, mq_sender_list = r, mq_flag = flag\<rparr>"

definition rt_mq_init :: "8 word list \<Rightarrow> nat \<Rightarrow> nat \<Rightarrow> ipc_flag \<Rightarrow> nat \<Rightarrow> nat \<Rightarrow> rt_messagequeue \<Rightarrow> kernel \<Rightarrow> (rt_messagequeue \<times> kernel) res" where
  \<comment> \<open>\<open>q\<close> and \<open>r\<close> are the numbers of the two lists; message size and number are stored in 16 bits\<close>
  "rt_mq_init msgpool msg_size pool_size flag q r mq k =
     bnd (RT_ASSERT (mq_class mq = Class_Null)) (\<lambda>_.
     let sz = RT_ALIGN msg_size RT_ALIGN_SIZE mod 65536;
         n = pool_size div (sz + 4) mod 65536 in
     bnd (cut_pool n sz msgpool) (\<lambda>nodes.
     bnd (mq_link_free n 0 (empty_queue Class_Static nodes sz n flag q r)) (\<lambda>mq.
     Inr (mq, k\<lparr>waiting := (waiting k)(q := [], r := [])\<rparr>))))"

definition rt_mq_create :: "bool \<Rightarrow> 8 word list option \<Rightarrow> nat \<Rightarrow> nat \<Rightarrow> ipc_flag \<Rightarrow> nat \<Rightarrow> nat \<Rightarrow> kernel \<Rightarrow> (rt_messagequeue option \<times> kernel) res" where
  \<comment> \<open>\<open>alloc\<close> and \<open>pool\<close> are the results of \<open>rt_object_allocate\<close> and of the allocation of the pool\<close>
  "rt_mq_create alloc pool msg_size n flag q r k =
     (if \<not> alloc then Inr (None, k)
      else let sz = RT_ALIGN msg_size RT_ALIGN_SIZE mod 65536;
               n = n mod 65536 in
      case pool of
        None \<Rightarrow> Inr (None, k)
      | Some msgpool \<Rightarrow>
          bnd (cut_pool n sz msgpool) (\<lambda>nodes.
          bnd (mq_link_free n 0 (empty_queue Class_Dynamic nodes sz n flag q r)) (\<lambda>mq.
          Inr (Some mq, k\<lparr>waiting := (waiting k)(q := [], r := [])\<rparr>))))"

definition mq_close :: "rt_messagequeue \<Rightarrow> kernel \<Rightarrow> (rt_messagequeue \<times> kernel) res" where
  \<comment> \<open>the common part of \<open>rt_mq_detach\<close> and \<open>rt_mq_delete\<close>\<close>
  "mq_close mq k =
     bnd (rt_ipc_list_resume_all (mq_list mq) k) (\<lambda>k.
     bnd (rt_ipc_list_resume_all (mq_sender_list mq) k) (\<lambda>k. Inr (mq\<lparr>mq_class := Class_Null\<rparr>, k)))"

definition rt_mq_detach :: "rt_messagequeue \<Rightarrow> kernel \<Rightarrow> (rt_messagequeue \<times> kernel) res" where
  "rt_mq_detach mq k = bnd (RT_ASSERT (mq_class mq = Class_Static)) (\<lambda>_. mq_close mq k)"

definition rt_mq_delete :: "rt_messagequeue \<Rightarrow> kernel \<Rightarrow> (rt_messagequeue \<times> kernel) res" where
  "rt_mq_delete mq k = bnd (RT_ASSERT (mq_class mq = Class_Dynamic)) (\<lambda>_. mq_close mq k)"

subsection \<open>Sending\<close>

datatype mq_step = Returns int | Waits | Has_node nat

definition mq_take_loop :: "int \<Rightarrow> rt_messagequeue \<Rightarrow> kernel \<Rightarrow> (mq_step \<times> rt_messagequeue \<times> kernel) res" where
  \<comment> \<open>one round of the loop of \<open>rt_mq_send_wait\<close>, up to the switch to another thread\<close>
  "mq_take_loop timeout mq k =
     (case msg_queue_free mq of
        None \<Rightarrow>
          (case current_thread k of
             None \<Rightarrow> Inl Null_deref
           | Some t \<Rightarrow>
               let k = set_thread t (\<lambda>th. th\<lparr>error := RT_EOK\<rparr>) k in
               if timeout = 0 then Inr (Returns (- RT_EFULL), mq, k)
               else bnd (wait_on (mq_sender_list mq) (mq_flag mq) t timeout k) (\<lambda>k. Inr (Waits, mq, k)))
      | Some msg \<Rightarrow> bnd (fetch (mq_pool mq) msg) (\<lambda>m. Inr (Has_node msg, mq\<lparr>msg_queue_free := mq_next m\<rparr>, k)))"

definition mq_take :: "nat \<Rightarrow> int \<Rightarrow> rt_messagequeue \<Rightarrow> kernel \<Rightarrow> (mq_step \<times> rt_messagequeue \<times> kernel) res" where
  \<comment> \<open>\<open>rt_mq_send_wait\<close> until it has a free node\<close>
  "mq_take sz timeout mq k =
     bnd (RT_ASSERT (mq_class mq \<noteq> Class_Null)) (\<lambda>_.
     bnd (RT_ASSERT (sz \<noteq> 0)) (\<lambda>_.
     if sz > mq_msg_size mq then Inr (Returns (- RT_ERROR), mq, k)
     else if msg_queue_free mq = None \<and> timeout = 0 then Inr (Returns (- RT_EFULL), mq, k)
     else mq_take_loop timeout mq k))"

definition mq_take_return :: "nat \<Rightarrow> tick \<Rightarrow> int \<Rightarrow> rt_messagequeue \<Rightarrow> kernel \<Rightarrow> (mq_step \<times> rt_messagequeue \<times> kernel) res" where
  \<comment> \<open>\<open>rt_mq_send_wait\<close> when the thread \<open>t\<close> that was blocked runs again\<close>
  "mq_take_return t start timeout mq k =
     (if error (thread k t) \<noteq> RT_EOK then Inr (Returns (error (thread k t)), mq, k)
      else mq_take_loop (time_left timeout start k) mq k)"

definition mq_copy_in :: "bool \<Rightarrow> nat \<Rightarrow> 8 word list \<Rightarrow> nat \<Rightarrow> rt_messagequeue \<Rightarrow> rt_messagequeue res" where
  \<comment> \<open>\<open>ua\<close>: the buffer is not aligned\<close>
  "mq_copy_in ua msg buffer sz mq =
     bnd (fetch (mq_pool mq) msg) (\<lambda>m.
     bnd (rt_memcpy ua (mq_data m) buffer sz) (\<lambda>d. Inr (mq\<lparr>mq_pool := (mq_pool mq)[msg := m\<lparr>mq_data := d\<rparr>]\<rparr>)))"

definition mq_fill :: "bool \<Rightarrow> nat \<Rightarrow> 8 word list \<Rightarrow> nat \<Rightarrow> rt_messagequeue \<Rightarrow> rt_messagequeue res" where
  "mq_fill ua msg buffer sz mq = bnd (set_mq_next msg None mq) (mq_copy_in ua msg buffer sz)"

definition mq_count :: "rt_messagequeue \<Rightarrow> kernel \<Rightarrow> (int \<times> rt_messagequeue \<times> kernel) res" where
  \<comment> \<open>count the linked message and wake a receiver\<close>
  "mq_count mq k =
     (if mq_entry mq < RT_MQ_ENTRY_MAX
      then bnd (mb_wake (mq_list mq) k) (\<lambda>k. Inr (RT_EOK, mq\<lparr>mq_entry := mq_entry mq + 1\<rparr>, k))
      else Inr (- RT_EFULL, mq, k))"

definition mq_append :: "nat \<Rightarrow> rt_messagequeue \<Rightarrow> kernel \<Rightarrow> (int \<times> rt_messagequeue \<times> kernel) res" where
  \<comment> \<open>\<open>rt_mq_send_wait\<close>: link the message behind the last one\<close>
  "mq_append msg mq k =
     bnd (case msg_queue_tail mq of None \<Rightarrow> Inr mq | Some t \<Rightarrow> set_mq_next t (Some msg) mq) (\<lambda>mq.
     let mq = mq\<lparr>msg_queue_tail := Some msg\<rparr>;
         mq = (if msg_queue_head mq = None then mq\<lparr>msg_queue_head := Some msg\<rparr> else mq) in
     mq_count mq k)"

definition mq_prepend :: "nat \<Rightarrow> rt_messagequeue \<Rightarrow> kernel \<Rightarrow> (int \<times> rt_messagequeue \<times> kernel) res" where
  \<comment> \<open>\<open>rt_mq_urgent\<close>: link the message before the first one\<close>
  "mq_prepend msg mq k =
     bnd (set_mq_next msg (msg_queue_head mq) mq) (\<lambda>mq.
     let mq = mq\<lparr>msg_queue_head := Some msg\<rparr>;
         mq = (if msg_queue_tail mq = None then mq\<lparr>msg_queue_tail := Some msg\<rparr> else mq) in
     mq_count mq k)"

definition mq_send_node :: "bool \<Rightarrow> 8 word list \<Rightarrow> nat \<Rightarrow> mq_step \<times> rt_messagequeue \<times> kernel \<Rightarrow> (outcome \<times> rt_messagequeue \<times> kernel) res" where
  \<comment> \<open>\<open>rt_mq_send_wait\<close> after its loop\<close>
  "mq_send_node ua buffer sz = (\<lambda>(s, mq, k).
     case s of
       Returns e \<Rightarrow> Inr (Done e, mq, k)
     | Waits \<Rightarrow> Inr (Blocked, mq, k)
     | Has_node msg \<Rightarrow>
         bnd (mq_fill ua msg buffer sz mq) (\<lambda>mq.
         bnd (mq_append msg mq k) (\<lambda>(e, mq, k). Inr (Done e, mq, k))))"

definition rt_mq_send_wait :: "bool \<Rightarrow> 8 word list \<Rightarrow> nat \<Rightarrow> int \<Rightarrow> rt_messagequeue \<Rightarrow> kernel \<Rightarrow> (outcome \<times> rt_messagequeue \<times> kernel) res" where
  "rt_mq_send_wait ua buffer sz timeout mq k = bnd (mq_take sz timeout mq k) (mq_send_node ua buffer sz)"

definition mq_send_return :: "nat \<Rightarrow> tick \<Rightarrow> bool \<Rightarrow> 8 word list \<Rightarrow> nat \<Rightarrow> int \<Rightarrow> rt_messagequeue \<Rightarrow> kernel \<Rightarrow> (outcome \<times> rt_messagequeue \<times> kernel) res" where
  "mq_send_return t start ua buffer sz timeout mq k = bnd (mq_take_return t start timeout mq k) (mq_send_node ua buffer sz)"

definition rt_mq_send :: "bool \<Rightarrow> 8 word list \<Rightarrow> nat \<Rightarrow> rt_messagequeue \<Rightarrow> kernel \<Rightarrow> (outcome \<times> rt_messagequeue \<times> kernel) res" where
  "rt_mq_send ua buffer sz mq k = rt_mq_send_wait ua buffer sz 0 mq k"

definition mq_urgent_take :: "nat \<Rightarrow> rt_messagequeue \<Rightarrow> (mq_step \<times> rt_messagequeue) res" where
  \<comment> \<open>\<open>rt_mq_urgent\<close> until it has a free node\<close>
  "mq_urgent_take sz mq =
     bnd (RT_ASSERT (mq_class mq \<noteq> Class_Null)) (\<lambda>_.
     bnd (RT_ASSERT (sz \<noteq> 0)) (\<lambda>_.
     if sz > mq_msg_size mq then Inr (Returns (- RT_ERROR), mq)
     else case msg_queue_free mq of
            None \<Rightarrow> Inr (Returns (- RT_EFULL), mq)
          | Some msg \<Rightarrow> bnd (fetch (mq_pool mq) msg) (\<lambda>m. Inr (Has_node msg, mq\<lparr>msg_queue_free := mq_next m\<rparr>))))"

definition rt_mq_urgent :: "bool \<Rightarrow> 8 word list \<Rightarrow> nat \<Rightarrow> rt_messagequeue \<Rightarrow> kernel \<Rightarrow> (int \<times> rt_messagequeue \<times> kernel) res" where
  "rt_mq_urgent ua buffer sz mq k =
     bnd (mq_urgent_take sz mq) (\<lambda>(s, mq).
     case s of
       Has_node msg \<Rightarrow> bnd (mq_copy_in ua msg buffer sz mq) (\<lambda>mq. mq_prepend msg mq k)
     | Returns e \<Rightarrow> Inr (e, mq, k)
     | Waits \<Rightarrow> Inl Diverges)"

subsection \<open>Receiving\<close>

definition mq_unlink :: "rt_messagequeue \<Rightarrow> kernel \<Rightarrow> (mq_step \<times> rt_messagequeue \<times> kernel) res" where
  "mq_unlink mq k =
     (case msg_queue_head mq of
        None \<Rightarrow> Inl Null_deref
      | Some msg \<Rightarrow>
          bnd (fetch (mq_pool mq) msg) (\<lambda>m.
          let mq = mq\<lparr>msg_queue_head := mq_next m\<rparr>;
              mq = (if msg_queue_tail mq = Some msg then mq\<lparr>msg_queue_tail := None\<rparr> else mq);
              mq = (if mq_entry mq > 0 then mq\<lparr>mq_entry := mq_entry mq - 1\<rparr> else mq) in
          Inr (Has_node msg, mq, k)))"

definition mq_recv_loop :: "int \<Rightarrow> rt_messagequeue \<Rightarrow> kernel \<Rightarrow> (mq_step \<times> rt_messagequeue \<times> kernel) res" where
  "mq_recv_loop timeout mq k =
     (if mq_entry mq = 0
      then case current_thread k of
             None \<Rightarrow> Inl Null_deref
           | Some t \<Rightarrow>
               if timeout = 0 then Inr (Returns (- RT_ETIMEOUT), mq, set_thread t (\<lambda>th. th\<lparr>error := - RT_ETIMEOUT\<rparr>) k)
               else bnd (wait_on (mq_list mq) (mq_flag mq) t timeout (set_thread t (\<lambda>th. th\<lparr>error := RT_EOK\<rparr>) k)) (\<lambda>k. Inr (Waits, mq, k))
      else mq_unlink mq k)"

definition mq_get :: "nat \<Rightarrow> int \<Rightarrow> rt_messagequeue \<Rightarrow> kernel \<Rightarrow> (mq_step \<times> rt_messagequeue \<times> kernel) res" where
  \<comment> \<open>\<open>rt_mq_recv\<close> until it has unlinked a message\<close>
  "mq_get sz timeout mq k =
     bnd (RT_ASSERT (mq_class mq \<noteq> Class_Null)) (\<lambda>_.
     bnd (RT_ASSERT (sz \<noteq> 0)) (\<lambda>_.
     if mq_entry mq = 0 \<and> timeout = 0 then Inr (Returns (- RT_ETIMEOUT), mq, k)
     else mq_recv_loop timeout mq k))"

definition mq_get_return :: "nat \<Rightarrow> tick \<Rightarrow> int \<Rightarrow> rt_messagequeue \<Rightarrow> kernel \<Rightarrow> (mq_step \<times> rt_messagequeue \<times> kernel) res" where
  "mq_get_return t start timeout mq k =
     (if error (thread k t) \<noteq> RT_EOK then Inr (Returns (error (thread k t)), mq, k)
      else mq_recv_loop (time_left timeout start k) mq k)"

definition mq_copy_out :: "bool \<Rightarrow> nat \<Rightarrow> 8 word list \<Rightarrow> nat \<Rightarrow> rt_messagequeue \<Rightarrow> 8 word list res" where
  "mq_copy_out ua msg buffer sz mq =
     bnd (fetch (mq_pool mq) msg) (\<lambda>m.
     rt_memcpy ua buffer (mq_data m) (if sz > mq_msg_size mq then mq_msg_size mq else sz))"

definition mq_release :: "nat \<Rightarrow> rt_messagequeue \<Rightarrow> kernel \<Rightarrow> (rt_messagequeue \<times> kernel) res" where
  "mq_release msg mq k =
     bnd (set_mq_next msg (msg_queue_free mq) mq) (\<lambda>mq.
     let mq = mq\<lparr>msg_queue_free := Some msg\<rparr> in
     bnd (mb_wake (mq_sender_list mq) k) (\<lambda>k. Inr (mq, k)))"

definition mq_recv_node :: "bool \<Rightarrow> 8 word list \<Rightarrow> nat \<Rightarrow> mq_step \<times> rt_messagequeue \<times> kernel \<Rightarrow> (outcome \<times> 8 word list \<times> rt_messagequeue \<times> kernel) res" where
  \<comment> \<open>\<open>rt_mq_recv\<close> after its loop; the result contains the buffer of the caller\<close>
  "mq_recv_node ua buffer sz = (\<lambda>(s, mq, k).
     case s of
       Returns e \<Rightarrow> Inr (Done e, buffer, mq, k)
     | Waits \<Rightarrow> Inr (Blocked, buffer, mq, k)
     | Has_node msg \<Rightarrow>
         bnd (mq_copy_out ua msg buffer sz mq) (\<lambda>buffer.
         bnd (mq_release msg mq k) (\<lambda>(mq, k). Inr (Done RT_EOK, buffer, mq, k))))"

definition rt_mq_recv :: "bool \<Rightarrow> 8 word list \<Rightarrow> nat \<Rightarrow> int \<Rightarrow> rt_messagequeue \<Rightarrow> kernel \<Rightarrow> (outcome \<times> 8 word list \<times> rt_messagequeue \<times> kernel) res" where
  "rt_mq_recv ua buffer sz timeout mq k = bnd (mq_get sz timeout mq k) (mq_recv_node ua buffer sz)"

definition mq_recv_return :: "nat \<Rightarrow> tick \<Rightarrow> bool \<Rightarrow> 8 word list \<Rightarrow> nat \<Rightarrow> int \<Rightarrow> rt_messagequeue \<Rightarrow> kernel \<Rightarrow> (outcome \<times> 8 word list \<times> rt_messagequeue \<times> kernel) res" where
  "mq_recv_return t start ua buffer sz timeout mq k = bnd (mq_get_return t start timeout mq k) (mq_recv_node ua buffer sz)"

subsection \<open>Reset\<close>

fun mq_drain :: "nat \<Rightarrow> rt_messagequeue \<Rightarrow> rt_messagequeue res" where
  \<comment> \<open>the loop of \<open>rt_mq_control\<close> over the queue\<close>
  "mq_drain 0 mq = Inl Diverges"
| "mq_drain (Suc fuel) mq =
     (case msg_queue_head mq of
        None \<Rightarrow> Inr mq
      | Some msg \<Rightarrow>
          bnd (fetch (mq_pool mq) msg) (\<lambda>m.
          let mq = mq\<lparr>msg_queue_head := mq_next m\<rparr>;
              mq = (if msg_queue_tail mq = Some msg then mq\<lparr>msg_queue_tail := None\<rparr> else mq) in
          bnd (set_mq_next msg (msg_queue_free mq) mq) (\<lambda>mq. mq_drain fuel (mq\<lparr>msg_queue_free := Some msg\<rparr>))))"

definition rt_mq_reset :: "rt_messagequeue \<Rightarrow> kernel \<Rightarrow> (int \<times> rt_messagequeue \<times> kernel) res" where
  \<comment> \<open>\<open>rt_mq_control\<close> with \<open>RT_IPC_CMD_RESET\<close>\<close>
  "rt_mq_reset mq k =
     bnd (RT_ASSERT (mq_class mq \<noteq> Class_Null)) (\<lambda>_.
     bnd (rt_ipc_list_resume_all (mq_list mq) k) (\<lambda>k.
     bnd (rt_ipc_list_resume_all (mq_sender_list mq) k) (\<lambda>k.
     bnd (mq_drain (Suc (length (mq_pool mq))) mq) (\<lambda>mq.
     bnd (rt_schedule k) (\<lambda>k. Inr (RT_EOK, mq\<lparr>mq_entry := 0\<rparr>, k))))))"

section \<open>Lists of nodes\<close>

fun chain :: "mq_message list \<Rightarrow> nat option \<Rightarrow> nat list \<Rightarrow> bool" where
  \<comment> \<open>following the links from \<open>p\<close> gives the nodes \<open>xs\<close>\<close>
  "chain ns p [] \<longleftrightarrow> p = None"
| "chain ns p (x # xs) \<longleftrightarrow> p = Some x \<and> x < length ns \<and> chain ns (mq_next (ns ! x)) xs"

fun nodes_from :: "nat \<Rightarrow> mq_message list \<Rightarrow> nat option \<Rightarrow> nat list" where
  "nodes_from 0 ns p = []"
| "nodes_from (Suc fuel) ns p = (case p of None \<Rightarrow> [] | Some j \<Rightarrow> j # nodes_from fuel ns (mq_next (ns ! j)))"

lemma chain_nodes: "chain ns p xs \<Longrightarrow> length xs \<le> fuel \<Longrightarrow> nodes_from fuel ns p = xs"
proof (induction xs arbitrary: p fuel)
  case Nil
  then show ?case by (cases fuel) auto
next
  case (Cons x xs)
  then show ?case by (cases fuel) auto
qed

lemma chain_bounds: "chain ns p xs \<Longrightarrow> x \<in> set xs \<Longrightarrow> x < length ns"
  by (induction xs arbitrary: p) auto

lemma chain_other [simp]: "x \<notin> set xs \<Longrightarrow> chain (ns[x := m]) p xs = chain ns p xs"
  by (induction xs arbitrary: p) auto

lemma chain_data:
  assumes "mq_next m = mq_next (ns ! x)"
  shows "chain (ns[x := m]) p xs = chain ns p xs"
proof (induction xs arbitrary: p)
  case (Cons y xs)
  have "mq_next (ns[x := m] ! y) = mq_next (ns ! y)" if "y < length ns" using assms that by (cases "y = x") auto
  then show ?case by (simp add: Cons.IH cong: conj_cong)
qed simp

lemma data_link [simp]: "mq_data (ns[x := (ns ! x)\<lparr>mq_next := v\<rparr>] ! j) = mq_data (ns ! j)"
  by (cases "x < length ns"; cases "j = x") (auto simp: list_update_beyond)

lemma chain_Nil [simp]: "chain ns None xs \<longleftrightarrow> xs = []"
  by (cases xs) auto

lemma chain_Some: "chain ns (Some x) xs \<longleftrightarrow> (\<exists>ys. xs = x # ys \<and> x < length ns \<and> chain ns (mq_next (ns ! x)) ys)"
  by (cases xs) auto

lemma chain_snoc:
  assumes "chain ns p xs" "xs \<noteq> []" "distinct xs" "n \<notin> set xs" "n < length ns" "mq_next (ns ! n) = None" "mq_next m = Some n"
  shows "chain (ns[last xs := m]) p (xs @ [n])"
  using assms
proof (induction xs arbitrary: p)
  case (Cons x xs)
  show ?case
  proof (cases "xs = []")
    case True
    then show ?thesis using Cons.prems by auto
  next
    case False
    then have "last xs \<noteq> x" using Cons.prems by (metis distinct.simps(2) last_in_set)
    then show ?thesis using Cons False by auto
  qed
qed simp

section \<open>The invariant of a message queue\<close>

text \<open>\<open>hs\<close> are the nodes in the queue, \<open>fs\<close> the free ones and \<open>us\<close> the ones senders and receivers are working on.\<close>

definition mq_inv :: "rt_messagequeue \<Rightarrow> nat list \<Rightarrow> nat list \<Rightarrow> nat list \<Rightarrow> bool" where
  "mq_inv mq hs fs us \<longleftrightarrow> mq_class mq \<noteq> Class_Null \<and> length (mq_pool mq) = max_msgs mq \<and> max_msgs mq < 65536 \<and>
     (\<forall>n < max_msgs mq. length (mq_data (mq_pool mq ! n)) = mq_msg_size mq) \<and>
     chain (mq_pool mq) (msg_queue_head mq) hs \<and> msg_queue_tail mq = (if hs = [] then None else Some (last hs)) \<and>
     chain (mq_pool mq) (msg_queue_free mq) fs \<and> mq_entry mq = length hs \<and>
     distinct (hs @ fs @ us) \<and> set hs \<union> set fs \<union> set us = {..<max_msgs mq}"

definition mq_msgs :: "rt_messagequeue \<Rightarrow> 8 word list list" where
  \<comment> \<open>the data in the queue, in the order in which it will be received\<close>
  "mq_msgs mq = map (\<lambda>n. mq_data (mq_pool mq ! n)) (nodes_from (mq_entry mq) (mq_pool mq) (msg_queue_head mq))"

definition mq_free_nodes :: "rt_messagequeue \<Rightarrow> nat" where
  "mq_free_nodes mq = length (nodes_from (length (mq_pool mq)) (mq_pool mq) (msg_queue_free mq))"

lemma mq_invD:
  assumes "mq_inv mq hs fs us"
  shows "mq_class mq \<noteq> Class_Null" "length (mq_pool mq) = max_msgs mq" "max_msgs mq < 65536"
    "\<And>n. n < max_msgs mq \<Longrightarrow> length (mq_data (mq_pool mq ! n)) = mq_msg_size mq"
    "chain (mq_pool mq) (msg_queue_head mq) hs" "msg_queue_tail mq = (if hs = [] then None else Some (last hs))"
    "chain (mq_pool mq) (msg_queue_free mq) fs" "mq_entry mq = length hs" "distinct (hs @ fs @ us)"
    "set hs \<union> set fs \<union> set us = {..<max_msgs mq}"
  using assms by (auto simp: mq_inv_def)

lemma mq_inv_length:
  assumes "mq_inv mq hs fs us"
  shows "length hs + length fs + length us = max_msgs mq"
proof -
  have "card (set (hs @ fs @ us)) = max_msgs mq" using mq_invD(10) [OF assms] by (simp add: Un_assoc)
  then show ?thesis using distinct_card [OF mq_invD(9) [OF assms]] by simp
qed

lemma mq_inv_view:
  assumes "mq_inv mq hs fs us"
  shows "mq_msgs mq = map (\<lambda>n. mq_data (mq_pool mq ! n)) hs" "mq_free_nodes mq = length fs"
  using mq_invD [OF assms] mq_inv_length [OF assms] chain_nodes [of "mq_pool mq" "msg_queue_head mq" hs "mq_entry mq"]
    chain_nodes [of "mq_pool mq" "msg_queue_free mq" fs "length (mq_pool mq)"]
  by (auto simp: mq_msgs_def mq_free_nodes_def)

lemma mq_inv_used:
  assumes "mq_inv mq hs fs us" "n \<in> set us"
  shows "n < length (mq_pool mq)" "n \<notin> set hs" "n \<notin> set fs"
  using mq_invD(2,9,10) [OF assms(1)] assms(2) by auto

lemma mq_inv_perm: "set us = set us' \<Longrightarrow> distinct us = distinct us' \<Longrightarrow> mq_inv mq hs fs us = mq_inv mq hs fs us'"
  by (simp add: mq_inv_def)

section \<open>The parts of the operations\<close>

lemma take_node:
  assumes "mq_inv mq hs fs us" and "msg_queue_free mq = Some n"
  shows "n < length (mq_pool mq)" and "\<exists>fs'. fs = n # fs' \<and> mq_inv (mq\<lparr>msg_queue_free := mq_next (mq_pool mq ! n)\<rparr>) hs fs' (us @ [n])"
proof -
  obtain fs' where f: "fs = n # fs'" "n < length (mq_pool mq)" "chain (mq_pool mq) (mq_next (mq_pool mq ! n)) fs'"
    using mq_invD(7) [OF assms(1)] assms(2) by (auto simp: chain_Some)
  show "n < length (mq_pool mq)" by (rule f(2))
  show "\<exists>fs'. fs = n # fs' \<and> mq_inv (mq\<lparr>msg_queue_free := mq_next (mq_pool mq ! n)\<rparr>) hs fs' (us @ [n])"
    using assms(1) f by (intro exI [of _ fs']) (auto simp: mq_inv_def)
qed

definition took :: "mq_step \<Rightarrow> nat list" where
  "took s = (case s of Has_node n \<Rightarrow> [n] | _ \<Rightarrow> [])"

lemma took_simps [simp]: "took (Has_node n) = [n]" "took (Returns e) = []" "took Waits = []"
  by (simp_all add: took_def)

lemma mq_take_loop_ok:
  assumes "mq_inv mq hs fs us" and "running i k" and "msg_queue_free mq = None \<Longrightarrow> may_block i timeout k"
  shows "\<exists>s mq' k' fs'. mq_take_loop timeout mq k = Inr (s, mq', k') \<and> running i k' \<and> mq_inv mq' hs fs' (us @ took s) \<and>
    mq_pool mq' = mq_pool mq \<and> mq_msg_size mq' = mq_msg_size mq"
proof (cases "msg_queue_free mq")
  case (Some n)
  note t = take_node [OF assms(1) Some]
  then show ?thesis using Some assms(2) by (auto simp: mq_take_loop_def)
next
  case None
  obtain t where t: "current_thread k = Some t" "t \<noteq> i" "lock_nest k = 0" "timeout < 0x7FFFFFFF"
    using assms(2) assms(3) [OF None] by (auto simp: running_def cur_ready_def may_block_def split: option.splits)
  let ?k = "set_thread t (\<lambda>th. th\<lparr>error := RT_EOK\<rparr>) k"
  have "\<exists>k'. wait_on (mq_sender_list mq) (mq_flag mq) t timeout ?k = Inr k' \<and> running i k'"
    using wait_on_ok [of i ?k t timeout "mq_sender_list mq" "mq_flag mq"] assms(2) t by auto
  then show ?thesis using None t assms(1,2) by (auto simp: mq_take_loop_def Let_def)
qed

lemma mq_take_ok:
  assumes "mq_inv mq hs fs us" and "running i k" and "timeout = 0 \<or> may_block i timeout k" and "sz \<noteq> 0"
  shows "\<exists>s mq' k' fs'. mq_take sz timeout mq k = Inr (s, mq', k') \<and> running i k' \<and> mq_inv mq' hs fs' (us @ took s) \<and>
    mq_pool mq' = mq_pool mq \<and> mq_msg_size mq' = mq_msg_size mq"
proof -
  note c = mq_invD(1) [OF assms(1)] assms(4) RT_ASSERT_def
  show ?thesis
  proof (cases "sz > mq_msg_size mq \<or> msg_queue_free mq = None \<and> timeout = 0")
    case True
    then show ?thesis using assms(1,2) by (auto simp: mq_take_def c)
  next
    case False
    then have "mq_take sz timeout mq k = mq_take_loop timeout mq k" by (auto simp: mq_take_def c)
    then show ?thesis using mq_take_loop_ok [OF assms(1,2), of timeout] assms(3) False by auto
  qed
qed

lemma mq_take_return_ok:
  assumes "mq_inv mq hs fs us" and "running i k" and "may_block i (time_left timeout start k) k"
  shows "\<exists>s mq' k' fs'. mq_take_return t start timeout mq k = Inr (s, mq', k') \<and> running i k' \<and> mq_inv mq' hs fs' (us @ took s) \<and>
    mq_pool mq' = mq_pool mq \<and> mq_msg_size mq' = mq_msg_size mq"
  using mq_take_loop_ok [OF assms(1,2), of "time_left timeout start k"] assms by (auto simp: mq_take_return_def)

lemma mq_urgent_take_ok:
  assumes "mq_inv mq hs fs us" and "sz \<noteq> 0"
  shows "\<exists>s mq' fs'. mq_urgent_take sz mq = Inr (s, mq') \<and> mq_inv mq' hs fs' (us @ took s) \<and>
    mq_pool mq' = mq_pool mq \<and> mq_msg_size mq' = mq_msg_size mq"
proof -
  note c = mq_invD(1) [OF assms(1)] assms(2) RT_ASSERT_def
  show ?thesis
  proof (cases "msg_queue_free mq")
    case (Some n)
    from take_node [OF assms(1) Some] show ?thesis using assms(1) by (cases "sz > mq_msg_size mq") (auto simp: mq_urgent_take_def c Some)
  qed (use assms(1) in \<open>auto simp: mq_urgent_take_def c\<close>)
qed

text \<open>A sender may write the node it has taken: link and data of the other nodes stay.\<close>

lemma write_node:
  assumes "mq_inv mq hs fs us" and "n \<in> set us" and "length (mq_data m) = mq_msg_size mq"
  shows "mq_inv (mq\<lparr>mq_pool := (mq_pool mq)[n := m]\<rparr>) hs fs us"
  using assms mq_inv_used [OF assms(1,2)] by (auto simp: mq_inv_def nth_list_update)

lemma mq_copy_in_ok:
  assumes "mq_inv mq hs fs us" and "n \<in> set us" and "sz \<le> mq_msg_size mq" and "sz \<le> length buffer"
  shows "\<exists>d. mq_copy_in ua n buffer sz mq = Inr (mq\<lparr>mq_pool := (mq_pool mq)[n := (mq_pool mq ! n)\<lparr>mq_data := d\<rparr>]\<rparr>) \<and>
    take sz d = take sz buffer \<and> length d = mq_msg_size mq"
proof -
  note u = mq_inv_used [OF assms(1,2)]
  have l: "length (mq_data (mq_pool mq ! n)) = mq_msg_size mq" using mq_invD(2,4) [OF assms(1)] u(1) by auto
  have "rt_memcpy ua (mq_data (mq_pool mq ! n)) buffer sz = Inr (overwrite (mq_data (mq_pool mq ! n)) 0 (take sz buffer))"
    using assms(3,4) l by (intro rt_memcpy_spec) auto
  then show ?thesis using u(1) l assms(3,4)
    by (intro exI [of _ "overwrite (mq_data (mq_pool mq ! n)) 0 (take sz buffer)"]) (simp add: mq_copy_in_def overwrite_def)
qed

lemma mq_fill_ok:
  assumes "mq_inv mq hs fs us" and "n \<in> set us" and "sz \<le> mq_msg_size mq" and "sz \<le> length buffer"
  shows "\<exists>d. mq_fill ua n buffer sz mq = Inr (mq\<lparr>mq_pool := (mq_pool mq)[n := \<lparr>mq_next = None, mq_data = d\<rparr>]\<rparr>) \<and>
    take sz d = take sz buffer \<and> length d = mq_msg_size mq"
proof -
  let ?m = "(mq_pool mq ! n)\<lparr>mq_next := None\<rparr>" and ?mq = "mq\<lparr>mq_pool := (mq_pool mq)[n := (mq_pool mq ! n)\<lparr>mq_next := None\<rparr>]\<rparr>"
  note u = mq_inv_used [OF assms(1,2)]
  have "length (mq_data ?m) = mq_msg_size mq" using mq_invD(2,4) [OF assms(1)] u(1) by auto
  note w = write_node [OF assms(1,2) this]
  have "set_mq_next n None mq = Inr ?mq" using u(1) by (simp add: set_mq_next_def)
  moreover obtain d where "mq_copy_in ua n buffer sz ?mq = Inr (?mq\<lparr>mq_pool := (mq_pool ?mq)[n := (mq_pool ?mq ! n)\<lparr>mq_data := d\<rparr>]\<rparr>)"
      "take sz d = take sz buffer" "length d = mq_msg_size mq"
    using mq_copy_in_ok [OF w assms(2), of sz buffer ua] assms(3,4) by auto
  ultimately show ?thesis using u(1) by (intro exI [of _ d]) (cases "mq_pool mq ! n", auto simp: mq_fill_def)
qed

lemma mq_count_ok:
  assumes "running i k" and "mq_entry mq < RT_MQ_ENTRY_MAX"
  shows "\<exists>k'. mq_count mq k = Inr (RT_EOK, mq\<lparr>mq_entry := mq_entry mq + 1\<rparr>, k') \<and> running i k'"
  using mb_wake_ok [OF assms(1), of "mq_list mq"] assms(2) by (auto simp: mq_count_def)

lemma mq_append_ok:
  assumes "mq_inv mq hs fs (xs @ n # ys)" and "running i k" and "mq_next (mq_pool mq ! n) = None"
  shows "\<exists>mq' k'. mq_append n mq k = Inr (RT_EOK, mq', k') \<and> running i k' \<and> mq_inv mq' (hs @ [n]) fs (xs @ ys) \<and>
    mq_msgs mq' = mq_msgs mq @ [mq_data (mq_pool mq ! n)] \<and> (\<forall>j. j \<notin> set hs \<longrightarrow> mq_pool mq' ! j = mq_pool mq ! j) \<and>
    mq_msg_size mq' = mq_msg_size mq"
proof -
  note d = mq_invD [OF assms(1)]
  have u: "n < length (mq_pool mq)" "n \<notin> set hs" "n \<notin> set fs" using mq_inv_used [OF assms(1), of n] by auto
  have e: "mq_entry mq < RT_MQ_ENTRY_MAX" using mq_inv_length [OF assms(1)] d(3,8) by simp
  define ns where "ns = (if hs = [] then mq_pool mq else (mq_pool mq)[last hs := (mq_pool mq ! last hs)\<lparr>mq_next := Some n\<rparr>])"
  define mq' where "mq' = mq\<lparr>mq_pool := ns, msg_queue_tail := Some n,
      msg_queue_head := (if hs = [] then Some n else msg_queue_head mq), mq_entry := mq_entry mq + 1\<rparr>"
  have l: "last hs < length (mq_pool mq)" if "hs \<noteq> []" using chain_bounds [OF d(5), of "last hs"] that by simp
  obtain k' where k': "mq_count (mq'\<lparr>mq_entry := mq_entry mq\<rparr>) k = Inr (RT_EOK, mq', k')" "running i k'"
    using mq_count_ok [OF assms(2), of "mq'\<lparr>mq_entry := mq_entry mq\<rparr>"] e by (auto simp: mq'_def)
  have h: "msg_queue_head mq = None \<longleftrightarrow> hs = []" using d(5) by (cases hs) auto
  have "mq_append n mq k = mq_count (mq'\<lparr>mq_entry := mq_entry mq\<rparr>) k"
    using d(6) l h by (cases "hs = []") (auto simp: mq_append_def set_mq_next_def mq'_def ns_def Let_def)
  moreover have "chain ns (if hs = [] then Some n else msg_queue_head mq) (hs @ [n])"
    using chain_snoc [OF d(5) _ _ u(2,1) assms(3)] d(9) u(1) assms(3) by (auto simp: ns_def)
  moreover have "chain ns (msg_queue_free mq) fs"
  proof -
    have "last hs \<notin> set fs" if "hs \<noteq> []" using d(9) last_in_set [OF that] by auto
    then show ?thesis using d(7) by (simp add: ns_def)
  qed
  moreover have dat: "mq_data (ns ! j) = mq_data (mq_pool mq ! j)" for j
    by (simp add: ns_def)
  ultimately have "mq_inv mq' (hs @ [n]) fs (xs @ ys)" "mq_append n mq k = Inr (RT_EOK, mq', k')"
    using d k' by (auto simp: mq_inv_def mq'_def ns_def)
  moreover have "mq_pool mq' ! j = mq_pool mq ! j" if "j \<notin> set hs" for j
  proof -
    have "j \<noteq> last hs" if "hs \<noteq> []" using \<open>j \<notin> set hs\<close> that by auto
    then show ?thesis by (auto simp: mq'_def ns_def)
  qed
  ultimately show ?thesis using k'(2) mq_inv_view(1) [of mq' "hs @ [n]" fs "xs @ ys"] mq_inv_view(1) [OF assms(1)] dat
    by (auto simp: mq'_def)
qed

lemma mq_prepend_ok:
  assumes "mq_inv mq hs fs (xs @ n # ys)" and "running i k"
  shows "\<exists>mq' k'. mq_prepend n mq k = Inr (RT_EOK, mq', k') \<and> running i k' \<and> mq_inv mq' (n # hs) fs (xs @ ys) \<and>
    mq_msgs mq' = mq_data (mq_pool mq ! n) # mq_msgs mq \<and> (\<forall>j. j \<noteq> n \<longrightarrow> mq_pool mq' ! j = mq_pool mq ! j) \<and>
    mq_msg_size mq' = mq_msg_size mq"
proof -
  note d = mq_invD [OF assms(1)]
  have u: "n < length (mq_pool mq)" "n \<notin> set hs" "n \<notin> set fs" using mq_inv_used [OF assms(1), of n] by auto
  have e: "mq_entry mq < RT_MQ_ENTRY_MAX" using mq_inv_length [OF assms(1)] d(3,8) by simp
  define ns where "ns = (mq_pool mq)[n := (mq_pool mq ! n)\<lparr>mq_next := msg_queue_head mq\<rparr>]"
  define mq' where "mq' = mq\<lparr>mq_pool := ns, msg_queue_head := Some n,
      msg_queue_tail := (if hs = [] then Some n else msg_queue_tail mq), mq_entry := mq_entry mq + 1\<rparr>"
  obtain k' where k': "mq_count (mq'\<lparr>mq_entry := mq_entry mq\<rparr>) k = Inr (RT_EOK, mq', k')" "running i k'"
    using mq_count_ok [OF assms(2), of "mq'\<lparr>mq_entry := mq_entry mq\<rparr>"] e by (auto simp: mq'_def)
  have "mq_prepend n mq k = mq_count (mq'\<lparr>mq_entry := mq_entry mq\<rparr>) k"
    using d(6) u(1) by (cases "hs = []"; cases mq) (auto simp: mq_prepend_def set_mq_next_def mq'_def ns_def Let_def)
  moreover have "chain ns (Some n) (n # hs)" "chain ns (msg_queue_free mq) fs" using d(5,7) u by (simp_all add: ns_def)
  moreover have dat: "mq_data (ns ! j) = mq_data (mq_pool mq ! j)" for j
    by (simp add: ns_def)
  ultimately have "mq_inv mq' (n # hs) fs (xs @ ys)" "mq_prepend n mq k = Inr (RT_EOK, mq', k')"
    using d k' by (auto simp: mq_inv_def mq'_def ns_def)
  moreover have "mq_pool mq' ! j = mq_pool mq ! j" if "j \<noteq> n" for j using that by (simp add: mq'_def ns_def)
  ultimately show ?thesis using k'(2) mq_inv_view(1) [of mq' "n # hs" fs "xs @ ys"] mq_inv_view(1) [OF assms(1)] dat
    by (auto simp: mq'_def)
qed

lemma unlink_first:
  assumes "mq_inv mq (n # hs) fs us"
  shows "msg_queue_head mq = Some n" "n < length (mq_pool mq)" "0 < mq_entry mq"
    "mq_inv (mq\<lparr>msg_queue_head := mq_next (mq_pool mq ! n), msg_queue_tail := (if hs = [] then None else msg_queue_tail mq), mq_entry := mq_entry mq - 1\<rparr>)
       hs fs (us @ [n])"
    "msg_queue_tail mq = Some n \<longleftrightarrow> hs = []"
proof -
  note d = mq_invD [OF assms]
  show "msg_queue_head mq = Some n" "n < length (mq_pool mq)" "0 < mq_entry mq" using d by auto
  show "mq_inv (mq\<lparr>msg_queue_head := mq_next (mq_pool mq ! n), msg_queue_tail := (if hs = [] then None else msg_queue_tail mq), mq_entry := mq_entry mq - 1\<rparr>)
       hs fs (us @ [n])"
    using d by (auto simp: mq_inv_def)
  show "msg_queue_tail mq = Some n \<longleftrightarrow> hs = []" using d(6,9) last_in_set [of hs] by auto
qed

lemma mq_unlink_ok:
  assumes "mq_inv mq hs fs us" and "mq_entry mq \<noteq> 0"
  shows "\<exists>n hs' mq'. mq_unlink mq k = Inr (Has_node n, mq', k) \<and> hs = n # hs' \<and> mq_inv mq' hs' fs (us @ [n]) \<and>
    mq_msgs mq = mq_data (mq_pool mq ! n) # mq_msgs mq' \<and> mq_pool mq' = mq_pool mq \<and> mq_msg_size mq' = mq_msg_size mq"
proof -
  obtain n hs' where hs: "hs = n # hs'" using assms mq_invD(8) [OF assms(1)] by (cases hs) auto
  note u = unlink_first [OF assms(1) [unfolded hs]]
  let ?mq = "mq\<lparr>msg_queue_head := mq_next (mq_pool mq ! n), msg_queue_tail := (if hs' = [] then None else msg_queue_tail mq), mq_entry := mq_entry mq - 1\<rparr>"
  have "mq_unlink mq k = Inr (Has_node n, ?mq, k)" using u(1,2,3,5) by (cases "hs' = []") (simp_all add: mq_unlink_def Let_def)
  moreover have "mq_msgs mq = mq_data (mq_pool mq ! n) # mq_msgs ?mq"
    using mq_inv_view(1) [OF assms(1)] mq_inv_view(1) [OF u(4)] by (simp add: hs)
  ultimately show ?thesis using hs u(4) by auto
qed

definition unlinked :: "rt_messagequeue \<Rightarrow> mq_step \<Rightarrow> 8 word list list" where
  "unlinked mq s = map (\<lambda>n. mq_data (mq_pool mq ! n)) (took s)"

lemma unlinked_simps [simp]:
  "unlinked mq (Has_node n) = [mq_data (mq_pool mq ! n)]" "unlinked mq (Returns e) = []" "unlinked mq Waits = []"
  by (simp_all add: unlinked_def)

lemma mq_recv_loop_ok:
  assumes "mq_inv mq hs fs us" and "running i k" and "mq_entry mq = 0 \<Longrightarrow> may_block i timeout k"
  shows "\<exists>s mq' k' hs'. mq_recv_loop timeout mq k = Inr (s, mq', k') \<and> running i k' \<and> mq_inv mq' hs' fs (us @ took s) \<and>
    mq_msgs mq = unlinked mq s @ mq_msgs mq' \<and> mq_pool mq' = mq_pool mq \<and> mq_msg_size mq' = mq_msg_size mq"
proof (cases "mq_entry mq = 0")
  case False
  from mq_unlink_ok [OF assms(1) this] show ?thesis using False assms(2) by (fastforce simp: mq_recv_loop_def)
next
  case True
  obtain t where t: "current_thread k = Some t" "t \<noteq> i" "lock_nest k = 0" "timeout < 0x7FFFFFFF"
    using assms(2) assms(3) [OF True] by (auto simp: running_def cur_ready_def may_block_def split: option.splits)
  let ?k = "set_thread t (\<lambda>th. th\<lparr>error := RT_EOK\<rparr>) k"
  have "\<exists>k'. wait_on (mq_list mq) (mq_flag mq) t timeout ?k = Inr k' \<and> running i k'"
    using wait_on_ok [of i ?k t timeout "mq_list mq" "mq_flag mq"] assms(2) t by auto
  then show ?thesis using True t assms(1,2) by (auto simp: mq_recv_loop_def)
qed

lemma mq_get_ok:
  assumes "mq_inv mq hs fs us" and "running i k" and "timeout = 0 \<or> may_block i timeout k" and "sz \<noteq> 0"
  shows "\<exists>s mq' k' hs'. mq_get sz timeout mq k = Inr (s, mq', k') \<and> running i k' \<and> mq_inv mq' hs' fs (us @ took s) \<and>
    mq_msgs mq = unlinked mq s @ mq_msgs mq' \<and> mq_pool mq' = mq_pool mq \<and> mq_msg_size mq' = mq_msg_size mq"
proof -
  note c = mq_invD(1) [OF assms(1)] assms(4) RT_ASSERT_def
  show ?thesis
  proof (cases "mq_entry mq = 0 \<and> timeout = 0")
    case True
    then show ?thesis using assms(1,2) by (auto simp: mq_get_def c)
  next
    case False
    then have "mq_get sz timeout mq k = mq_recv_loop timeout mq k" by (auto simp: mq_get_def c)
    then show ?thesis using mq_recv_loop_ok [OF assms(1,2), of timeout] assms(3) False by auto
  qed
qed

lemma mq_get_return_ok:
  assumes "mq_inv mq hs fs us" and "running i k" and "may_block i (time_left timeout start k) k"
  shows "\<exists>s mq' k' hs'. mq_get_return t start timeout mq k = Inr (s, mq', k') \<and> running i k' \<and> mq_inv mq' hs' fs (us @ took s) \<and>
    mq_msgs mq = unlinked mq s @ mq_msgs mq' \<and> mq_pool mq' = mq_pool mq \<and> mq_msg_size mq' = mq_msg_size mq"
  using mq_recv_loop_ok [OF assms(1,2), of "time_left timeout start k"] assms
  by (cases "error (thread k t) = RT_EOK") (auto simp: mq_get_return_def)

lemma mq_copy_out_ok:
  assumes "mq_inv mq hs fs us" and "n \<in> set us" and "sz \<le> length buffer"
  shows "mq_copy_out ua n buffer sz mq = Inr (overwrite buffer 0 (take (min sz (mq_msg_size mq)) (mq_data (mq_pool mq ! n))))"
proof -
  note u = mq_inv_used [OF assms(1,2)]
  have l: "length (mq_data (mq_pool mq ! n)) = mq_msg_size mq" using mq_invD(2,4) [OF assms(1)] u(1) by auto
  then show ?thesis using u(1) assms(3) by (auto simp: mq_copy_out_def rt_memcpy_spec min_def)
qed

text \<open>Putting a node back on the free list.\<close>

lemma free_node:
  assumes "mq_inv mq hs fs (xs @ n # ys)"
  shows "set_mq_next n (msg_queue_free mq) mq = Inr (mq\<lparr>mq_pool := (mq_pool mq)[n := (mq_pool mq ! n)\<lparr>mq_next := msg_queue_free mq\<rparr>]\<rparr>)"
    "mq_inv (mq\<lparr>mq_pool := (mq_pool mq)[n := (mq_pool mq ! n)\<lparr>mq_next := msg_queue_free mq\<rparr>], msg_queue_free := Some n\<rparr>) hs (n # fs) (xs @ ys)"
proof -
  note d = mq_invD [OF assms]
  have u: "n < length (mq_pool mq)" "n \<notin> set hs" "n \<notin> set fs" using mq_inv_used [OF assms, of n] by auto
  show "set_mq_next n (msg_queue_free mq) mq = Inr (mq\<lparr>mq_pool := (mq_pool mq)[n := (mq_pool mq ! n)\<lparr>mq_next := msg_queue_free mq\<rparr>]\<rparr>)"
    using u(1) by (simp add: set_mq_next_def)
  show "mq_inv (mq\<lparr>mq_pool := (mq_pool mq)[n := (mq_pool mq ! n)\<lparr>mq_next := msg_queue_free mq\<rparr>], msg_queue_free := Some n\<rparr>) hs (n # fs) (xs @ ys)"
    using d u by (auto simp: mq_inv_def)
qed

lemma mq_release_ok:
  assumes "mq_inv mq hs fs (xs @ n # ys)" and "running i k"
  shows "\<exists>mq' k'. mq_release n mq k = Inr (mq', k') \<and> running i k' \<and> mq_inv mq' hs (n # fs) (xs @ ys) \<and>
    mq_msgs mq' = mq_msgs mq \<and> (\<forall>j. j \<noteq> n \<longrightarrow> mq_pool mq' ! j = mq_pool mq ! j) \<and> mq_msg_size mq' = mq_msg_size mq"
proof -
  note f = free_node [OF assms(1)]
  obtain k' where k': "mb_wake (mq_sender_list mq) k = Inr k'" "running i k'" using mb_wake_ok [OF assms(2)] by blast
  have "n \<notin> set hs" using mq_inv_used [OF assms(1), of n] by auto
  then have "map (\<lambda>j. mq_data ((mq_pool mq)[n := m] ! j)) hs = map (\<lambda>j. mq_data (mq_pool mq ! j)) hs" for m
    by (intro map_cong refl) (metis nth_list_update_neq)
  then show ?thesis using f k' mq_inv_view(1) [OF f(2)] mq_inv_view(1) [OF assms(1)] by (auto simp: mq_release_def)
qed

lemma mq_drain_ok:
  assumes "mq_inv (mq\<lparr>mq_entry := length hs\<rparr>) hs fs us" and "length hs < fuel"
  shows "\<exists>mq' fs'. mq_drain fuel mq = Inr mq' \<and> mq_inv (mq'\<lparr>mq_entry := 0\<rparr>) [] fs' us \<and> (\<forall>j. j \<notin> set hs \<longrightarrow> mq_pool mq' ! j = mq_pool mq ! j) \<and>
    mq_msg_size mq' = mq_msg_size mq"
  using assms
proof (induction hs arbitrary: mq fs fuel)
  case Nil
  then obtain f where f: "fuel = Suc f" by (cases fuel) auto
  have "msg_queue_head mq = None" using mq_invD(5) [OF Nil(1)] by auto
  then show ?case using Nil(1) f by (intro exI [of _ mq] exI [of _ fs]) auto
next
  case (Cons n hs)
  obtain f where f: "fuel = Suc f" using Cons.prems by (cases fuel) auto
  note u = unlink_first [OF Cons.prems(1)]
  define mq1 where "mq1 = mq\<lparr>msg_queue_head := mq_next (mq_pool mq ! n), msg_queue_tail := (if hs = [] then None else msg_queue_tail mq)\<rparr>"
  have "mq_inv (mq1\<lparr>mq_entry := length hs\<rparr>) hs fs (us @ n # [])" using u(4) by (auto simp: mq1_def mq_inv_def)
  note g = free_node [OF this]
  define mq2 where "mq2 = mq1\<lparr>mq_pool := (mq_pool mq)[n := (mq_pool mq ! n)\<lparr>mq_next := msg_queue_free mq\<rparr>], msg_queue_free := Some n\<rparr>"
  have i: "mq_inv (mq2\<lparr>mq_entry := length hs\<rparr>) hs (n # fs) us" using g(2) by (auto simp: mq2_def mq1_def mq_inv_def)
  have step: "mq_drain fuel mq = mq_drain f mq2"
    using u(1,2,5) by (cases "hs = []") (simp_all add: f mq2_def mq1_def Let_def set_mq_next_def)
  obtain mq' fs' where "mq_drain f mq2 = Inr mq'" "mq_inv (mq'\<lparr>mq_entry := 0\<rparr>) [] fs' us"
     "\<forall>j. j \<notin> set hs \<longrightarrow> mq_pool mq' ! j = mq_pool mq2 ! j" "mq_msg_size mq' = mq_msg_size mq2"
    using Cons.IH [OF i, of f] Cons.prems(2) f by auto
  then show ?case using step by (auto simp: mq2_def mq1_def)
qed

lemma mq_reset_ok:
  assumes "mq_inv mq hs fs us" and "running i k"
  shows "\<exists>mq' k' fs'. rt_mq_reset mq k = Inr (RT_EOK, mq', k') \<and> running i k' \<and> mq_inv mq' [] fs' us \<and>
    (\<forall>j. j \<notin> set hs \<longrightarrow> mq_pool mq' ! j = mq_pool mq ! j) \<and> mq_msg_size mq' = mq_msg_size mq"
proof -
  obtain k1 where k1: "rt_ipc_list_resume_all (mq_list mq) k = Inr k1" "running i k1" using resume_all_list [OF assms(2)] by blast
  obtain k2 where k2: "rt_ipc_list_resume_all (mq_sender_list mq) k1 = Inr k2" "running i k2" using resume_all_list [OF k1(2)] by blast
  obtain k3 where k3: "rt_schedule k2 = Inr k3" "running i k3"
    using schedule_run [of k2 i] k2(2) by (auto simp: running_def)
  have "length hs < Suc (length (mq_pool mq))" using mq_inv_length [OF assms(1)] mq_invD(2) [OF assms(1)] by simp
  moreover have "mq_inv (mq\<lparr>mq_entry := length hs\<rparr>) hs fs us" using assms(1) by (simp add: mq_inv_def)
  ultimately obtain mq' fs' where d: "mq_drain (Suc (length (mq_pool mq))) mq = Inr mq'"
      "mq_inv (mq'\<lparr>mq_entry := 0\<rparr>) [] fs' us" "\<forall>j. j \<notin> set hs \<longrightarrow> mq_pool mq' ! j = mq_pool mq ! j" "mq_msg_size mq' = mq_msg_size mq"
    using mq_drain_ok by blast
  then show ?thesis using mq_invD(1) [OF assms(1)] k1(1) k2(1) k3
    by (intro exI [of _ "mq'\<lparr>mq_entry := 0\<rparr>"] exI [of _ k3] exI [of _ fs']) (simp add: rt_mq_reset_def RT_ASSERT_def del: mq_drain.simps)
qed

lemma mq_link_free_ok:
  assumes "length (mq_pool mq) = temp + n" "chain (mq_pool mq) (msg_queue_free mq) (rev [0..<temp])"
  shows "\<exists>ns p. mq_link_free n temp mq = Inr (mq\<lparr>mq_pool := ns, msg_queue_free := p\<rparr>) \<and> length ns = temp + n \<and>
     chain ns p (rev [0..<temp + n]) \<and> (\<forall>j. mq_data (ns ! j) = mq_data (mq_pool mq ! j))"
  using assms
proof (induction n arbitrary: temp mq)
  case 0
  then show ?case by (intro exI [of _ "mq_pool mq"] exI [of _ "msg_queue_free mq"]) simp
next
  case (Suc n)
  let ?ns = "(mq_pool mq)[temp := (mq_pool mq ! temp)\<lparr>mq_next := msg_queue_free mq\<rparr>]"
  let ?mq = "mq\<lparr>mq_pool := ?ns, msg_queue_free := Some temp\<rparr>"
  have "set_mq_next temp (msg_queue_free mq) mq = Inr (mq\<lparr>mq_pool := ?ns\<rparr>)" using Suc.prems(1) by (simp add: set_mq_next_def)
  moreover have "chain ?ns (Some temp) (rev [0..<Suc temp])" using Suc.prems by simp
  with Suc.IH [of ?mq "Suc temp"] Suc.prems(1)
  obtain ns p where "mq_link_free n (Suc temp) ?mq = Inr (?mq\<lparr>mq_pool := ns, msg_queue_free := p\<rparr>)" "length ns = Suc temp + n"
      "chain ns p (rev [0..<Suc temp + n])" "\<forall>j. mq_data (ns ! j) = mq_data (?ns ! j)" by auto
  ultimately show ?case by (intro exI [of _ ns] exI [of _ p]) simp
qed

lemma rt_mq_init_ok:
  assumes "rt_mq_init msgpool msg_size pool_size flag q r mq0 k0 = Inr (mq, k)"
  shows "\<exists>fs. mq_inv mq [] fs [] \<and> mq_msg_size mq = RT_ALIGN msg_size 4 mod 65536"
proof -
  define sz where "sz = RT_ALIGN msg_size 4 mod 65536"
  define n where "n = pool_size div (sz + 4) mod 65536"
  have fit: "n * (sz + 4) \<le> length msgpool" and n: "n < 65536" using assms
    by (auto simp: rt_mq_init_def cut_pool_def Let_def RT_ASSERT_def sz_def n_def split: if_splits)
  define nodes where "nodes = map (\<lambda>j. \<lparr>mq_next = None, mq_data = take sz (drop (j * (sz + 4) + 4) msgpool)\<rparr>) [0..<n]"
  define e where "e = empty_queue Class_Static nodes sz n flag q r"
  have e: "mq_pool e = nodes" "length nodes = 0 + n" "chain (mq_pool e) (msg_queue_free e) (rev [0..<0])"
    by (simp_all add: e_def nodes_def empty_queue_def)
  obtain ns p where l: "mq_link_free n 0 e = Inr (e\<lparr>mq_pool := ns, msg_queue_free := p\<rparr>)" "length ns = n" "chain ns p (rev [0..<n])"
      "\<And>j. mq_data (ns ! j) = mq_data (nodes ! j)"
    using mq_link_free_ok [of e 0 n] e by auto
  have "length (mq_data (nodes ! j)) = sz" if "j < n" for j
  proof -
    have "(j + 1) * (sz + 4) \<le> n * (sz + 4)" using that by (intro mult_right_mono) auto
    then show ?thesis using that fit by (simp add: nodes_def algebra_simps)
  qed
  then have "mq_inv (e\<lparr>mq_pool := ns, msg_queue_free := p\<rparr>) [] (rev [0..<n]) []"
    using l n by (auto simp: mq_inv_def e_def empty_queue_def)
  moreover have "mq = e\<lparr>mq_pool := ns, msg_queue_free := p\<rparr>" "mq_msg_size e = sz"
    using assms l(1) fit by (auto simp: rt_mq_init_def cut_pool_def Let_def RT_ASSERT_def sz_def [symmetric] n_def [symmetric]
        nodes_def [symmetric] e_def [symmetric] split: if_splits) (simp add: e_def empty_queue_def)
  ultimately show ?thesis unfolding sz_def by auto
qed

section \<open>Runs with a message queue\<close>

text \<open>
  A node a sender has taken is \<open>Taken\<close>, then \<open>Filled\<close> with a message, urgent or not; a node a receiver has unlinked is \<open>Reading\<close>.
\<close>

datatype mq_hold = Taken nat | Filled nat "8 word list" bool | Reading nat "8 word list"

fun hold_node :: "mq_hold \<Rightarrow> nat" where
  "hold_node (Taken n) = n" | "hold_node (Filled n v u) = n" | "hold_node (Reading n d) = n"

fun hold_ok :: "rt_messagequeue \<Rightarrow> mq_hold \<Rightarrow> bool" where
  "hold_ok mq (Taken n) \<longleftrightarrow> True"
| "hold_ok mq (Filled n v u) \<longleftrightarrow> take (length v) (mq_data (mq_pool mq ! n)) = v \<and> (\<not> u \<longrightarrow> mq_next (mq_pool mq ! n) = None)"
| "hold_ok mq (Reading n d) \<longleftrightarrow> mq_data (mq_pool mq ! n) = d"

datatype mq_event = Put "8 word list" | Put_first "8 word list" | Got "8 word list" | Cleared

inductive mq_run :: "nat \<Rightarrow> rt_messagequeue \<times> kernel \<Rightarrow> mq_event list \<Rightarrow> rt_messagequeue \<times> kernel \<Rightarrow> mq_hold list \<Rightarrow> bool"
  for i :: nat and s0 :: "rt_messagequeue \<times> kernel" where
  mq_start: "mq_run i s0 [] s0 []"
| mq_taking: "mq_run i s0 es (mq, k) us \<Longrightarrow> timeout = 0 \<or> may_block i timeout k \<Longrightarrow> sz \<noteq> 0 \<Longrightarrow> mq_take sz timeout mq k = Inr (s, mq', k') \<Longrightarrow>
    mq_run i s0 es (mq', k') (us @ map Taken (took s))"
| mq_taking_more: "mq_run i s0 es (mq, k) us \<Longrightarrow> may_block i (time_left timeout start k) k \<Longrightarrow> mq_take_return t start timeout mq k = Inr (s, mq', k') \<Longrightarrow>
    mq_run i s0 es (mq', k') (us @ map Taken (took s))"
| mq_taking_urgent: "mq_run i s0 es (mq, k) us \<Longrightarrow> sz \<noteq> 0 \<Longrightarrow> mq_urgent_take sz mq = Inr (s, mq') \<Longrightarrow>
    mq_run i s0 es (mq', k) (us @ map Taken (took s))"
| mq_filling: "mq_run i s0 es (mq, k) (xs @ Taken n # ys) \<Longrightarrow> sz \<le> mq_msg_size mq \<Longrightarrow> sz \<le> length buffer \<Longrightarrow>
    (if urgent then mq_copy_in else mq_fill) ua n buffer sz mq = Inr mq' \<Longrightarrow>
    mq_run i s0 es (mq', k) (xs @ Filled n (take sz buffer) urgent # ys)"
| mq_linking: "mq_run i s0 es (mq, k) (xs @ Filled n v urgent # ys) \<Longrightarrow> (if urgent then mq_prepend else mq_append) n mq k = Inr (e, mq', k') \<Longrightarrow>
    mq_run i s0 (es @ [if urgent then Put_first v else Put v]) (mq', k') (xs @ ys)"
| mq_getting: "mq_run i s0 es (mq, k) us \<Longrightarrow> timeout = 0 \<or> may_block i timeout k \<Longrightarrow> sz \<noteq> 0 \<Longrightarrow> mq_get sz timeout mq k = Inr (s, mq', k') \<Longrightarrow>
    mq_run i s0 (es @ map Got (unlinked mq s)) (mq', k') (us @ map (\<lambda>n. Reading n (mq_data (mq_pool mq ! n))) (took s))"
| mq_getting_more: "mq_run i s0 es (mq, k) us \<Longrightarrow> may_block i (time_left timeout start k) k \<Longrightarrow> mq_get_return t start timeout mq k = Inr (s, mq', k') \<Longrightarrow>
    mq_run i s0 (es @ map Got (unlinked mq s)) (mq', k') (us @ map (\<lambda>n. Reading n (mq_data (mq_pool mq ! n))) (took s))"
| mq_releasing: "mq_run i s0 es (mq, k) (xs @ Reading n d # ys) \<Longrightarrow> mq_release n mq k = Inr (mq', k') \<Longrightarrow> mq_run i s0 es (mq', k') (xs @ ys)"
| mq_clearing: "mq_run i s0 es (mq, k) us \<Longrightarrow> rt_mq_reset mq k = Inr (e, mq', k') \<Longrightarrow> mq_run i s0 (es @ [Cleared]) (mq', k') us"
| mq_others: "mq_run i s0 es (mq, k) us \<Longrightarrow> others i {mq_list mq, mq_sender_list mq} k k' \<Longrightarrow> mq_run i s0 es (mq, k') us"

fun pending :: "8 word list list \<Rightarrow> mq_event list \<Rightarrow> 8 word list list option" where
  \<comment> \<open>the abstract queue after a sequence of events; \<open>None\<close>: a message was received that is not the next one\<close>
  "pending q [] = Some q"
| "pending q (Put v # es) = pending (q @ [v]) es"
| "pending q (Put_first v # es) = pending (v # q) es"
| "pending q (Got d # es) = (case q of [] \<Rightarrow> None | v # vs \<Rightarrow> if take (length v) d = v then pending vs es else None)"
| "pending q (Cleared # es) = pending [] es"

lemma pending_append: "pending q (es @ fs) = Option.bind (pending q es) (\<lambda>q. pending q fs)"
  by (induction q es rule: pending.induct) (auto split: list.split)

definition carries :: "8 word list \<Rightarrow> 8 word list \<Rightarrow> bool" where
  \<comment> \<open>the node data \<open>d\<close> begins with the message \<open>v\<close>\<close>
  "carries v d \<longleftrightarrow> take (length v) d = v"

definition mq_ok :: "nat \<Rightarrow> rt_messagequeue \<Rightarrow> kernel \<Rightarrow> mq_hold list \<Rightarrow> mq_event list \<Rightarrow> bool" where
  "mq_ok i mq k us es \<longleftrightarrow> running i k \<and> (\<exists>hs fs. mq_inv mq hs fs (map hold_node us)) \<and> (\<forall>u \<in> set us. hold_ok mq u) \<and>
     (\<exists>q. pending [] es = Some q \<and> list_all2 carries q (mq_msgs mq))"

lemma hold_ok_same: "mq_pool mq' ! hold_node u = mq_pool mq ! hold_node u \<Longrightarrow> hold_ok mq' u = hold_ok mq u"
  by (cases u) auto

lemma mq_okI:
  "running i k \<Longrightarrow> mq_inv mq hs fs (map hold_node us) \<Longrightarrow> (\<And>u. u \<in> set us \<Longrightarrow> hold_ok mq u) \<Longrightarrow> pending [] es = Some q \<Longrightarrow>
     list_all2 carries q (mq_msgs mq) \<Longrightarrow> mq_ok i mq k us es"
  by (auto simp: mq_ok_def)

lemma mq_okE:
  assumes "mq_ok i mq k us es"
  obtains hs fs q where "running i k" "mq_inv mq hs fs (map hold_node us)" "\<And>u. u \<in> set us \<Longrightarrow> hold_ok mq u" "pending [] es = Some q"
    "list_all2 carries q (mq_msgs mq)"
  using assms by (auto simp: mq_ok_def)

lemma hold_nodes [simp]: "hold_node \<circ> Taken = id" "hold_node \<circ> (\<lambda>n. Reading n (f n)) = id"
  by (simp_all add: fun_eq_iff)

lemma mq_ok_taken:
  assumes "mq_ok i mq k us es" and "running i k'" and "\<And>hs fs. mq_inv mq hs fs (map hold_node us) \<Longrightarrow> \<exists>fs'. mq_inv mq' hs fs' (map hold_node us @ took s)"
    and "mq_pool mq' = mq_pool mq"
  shows "mq_ok i mq' k' (us @ map Taken (took s)) es"
proof -
  obtain hs fs q where o: "mq_inv mq hs fs (map hold_node us)" "\<And>u. u \<in> set us \<Longrightarrow> hold_ok mq u" "pending [] es = Some q" "list_all2 carries q (mq_msgs mq)"
    using mq_okE [OF assms(1)] by metis
  obtain fs' where i: "mq_inv mq' hs fs' (map hold_node us @ took s)" using assms(3) [OF o(1)] by blast
  have "mq_msgs mq' = mq_msgs mq" using mq_inv_view(1) [OF i] mq_inv_view(1) [OF o(1)] assms(4) by simp
  then show ?thesis using assms(2) i o hold_ok_same [of mq' _ mq] assms(4) by (intro mq_okI [of i k' mq' hs fs' _ es q]) auto
qed

lemma mq_ok_filled:
  assumes "mq_ok i mq k (xs @ Taken n # ys) es" and "sz \<le> mq_msg_size mq" and "sz \<le> length buffer"
    and "(if urgent then mq_copy_in else mq_fill) ua n buffer sz mq = Inr mq'"
  shows "mq_ok i mq' k (xs @ Filled n (take sz buffer) urgent # ys) es"
proof -
  obtain hs fs q where o: "running i k" "mq_inv mq hs fs (map hold_node (xs @ Taken n # ys))" "\<And>u. u \<in> set (xs @ Taken n # ys) \<Longrightarrow> hold_ok mq u"
      "pending [] es = Some q" "list_all2 carries q (mq_msgs mq)"
    using mq_okE [OF assms(1)] by metis
  have n: "n \<in> set (map hold_node (xs @ Taken n # ys))" by simp
  obtain m where m: "mq' = mq\<lparr>mq_pool := (mq_pool mq)[n := m]\<rparr>" "take sz (mq_data m) = take sz buffer" "length (mq_data m) = mq_msg_size mq"
      "\<not> urgent \<longrightarrow> mq_next m = None"
    using mq_copy_in_ok [OF o(2) n assms(2,3), of ua] mq_fill_ok [OF o(2) n assms(2,3), of ua] assms(4) by (cases urgent) auto
  note u = mq_inv_used [OF o(2) n]
  have i: "mq_inv mq' hs fs (map hold_node (xs @ Taken n # ys))" using write_node [OF o(2) n m(3)] by (simp add: m(1))
  have d: "n \<notin> hold_node ` (set xs \<union> set ys)" using mq_invD(9) [OF o(2)] by auto
  have "hold_ok mq' u" if "u \<in> set (xs @ Filled n (take sz buffer) urgent # ys)" for u
  proof (cases "u \<in> set xs \<union> set ys")
    case True
    then have "hold_node u \<noteq> n" using d by auto
    then show ?thesis using o(3) [of u] True hold_ok_same [of mq' u mq] by (auto simp: m(1))
  next
    case False
    then have "u = Filled n (take sz buffer) urgent" using that by auto
    then show ?thesis using m u(1) assms(3) by (auto simp: min_def)
  qed
  moreover have "mq_msgs mq' = mq_msgs mq"
    using mq_inv_view(1) [OF i] mq_inv_view(1) [OF o(2)] u(2) by (auto simp: m(1) intro!: map_cong) (metis nth_list_update_neq)
  ultimately show ?thesis using o i by (intro mq_okI [of i k mq' hs fs _ es q]) auto
qed

lemma mq_ok_linked:
  assumes "mq_ok i mq k (xs @ Filled n v urgent # ys) es" and "(if urgent then mq_prepend else mq_append) n mq k = Inr (e, mq', k')"
  shows "mq_ok i mq' k' (xs @ ys) (es @ [if urgent then Put_first v else Put v])"
proof -
  obtain hs fs q where o: "running i k" "mq_inv mq hs fs (map hold_node xs @ n # map hold_node ys)" "\<And>u. u \<in> set (xs @ Filled n v urgent # ys) \<Longrightarrow> hold_ok mq u"
      "pending [] es = Some q" "list_all2 carries q (mq_msgs mq)"
    by (rule mq_okE [OF assms(1)]) simp
  have f: "carries v (mq_data (mq_pool mq ! n))" "\<not> urgent \<longrightarrow> mq_next (mq_pool mq ! n) = None"
    using o(3) [of "Filled n v urgent"] by (auto simp: carries_def)
  have d: "u \<in> set (xs @ ys) \<Longrightarrow> hold_node u \<notin> set hs \<and> hold_node u \<noteq> n" for u using mq_invD(9) [OF o(2)] by auto
  define hs' where "hs' = (if urgent then n # hs else hs @ [n])"
  have "running i k' \<and> mq_inv mq' hs' fs (map hold_node (xs @ ys)) \<and>
      mq_msgs mq' = (if urgent then mq_data (mq_pool mq ! n) # mq_msgs mq else mq_msgs mq @ [mq_data (mq_pool mq ! n)]) \<and>
      (\<forall>j. j \<notin> set hs \<and> j \<noteq> n \<longrightarrow> mq_pool mq' ! j = mq_pool mq ! j)"
  proof (cases urgent)
    case True
    then show ?thesis using mq_prepend_ok [OF o(2,1)] assms(2) by (auto simp: hs'_def)
  next
    case False
    then show ?thesis using mq_append_ok [OF o(2,1)] f(2) assms(2) by (auto simp: hs'_def)
  qed
  then have l: "running i k'" "mq_inv mq' hs' fs (map hold_node (xs @ ys))"
      "mq_msgs mq' = (if urgent then mq_data (mq_pool mq ! n) # mq_msgs mq else mq_msgs mq @ [mq_data (mq_pool mq ! n)])"
      "\<And>u. u \<in> set (xs @ ys) \<Longrightarrow> hold_ok mq' u = hold_ok mq u"
    using hold_ok_same [of mq' _ mq] d by simp_all
  show ?thesis
  proof (rule mq_okI [OF l(1,2)])
    show "hold_ok mq' u" if "u \<in> set (xs @ ys)" for u using l(4) [OF that] o(3) [of u] that by auto
    show "pending [] (es @ [if urgent then Put_first v else Put v]) = Some (if urgent then v # q else q @ [v])"
      using o(4) by (simp add: pending_append)
    show "list_all2 carries (if urgent then v # q else q @ [v]) (mq_msgs mq')"
      using o(5) f(1) l(3) by (auto simp: list_all2_appendI)
  qed
qed

lemma mq_ok_got:
  assumes "mq_ok i mq k us es" and "running i k'" and "\<And>hs fs. mq_inv mq hs fs (map hold_node us) \<Longrightarrow> \<exists>hs'. mq_inv mq' hs' fs (map hold_node us @ took s)"
    and "mq_pool mq' = mq_pool mq" and "mq_msgs mq = unlinked mq s @ mq_msgs mq'"
  shows "mq_ok i mq' k' (us @ map (\<lambda>n. Reading n (mq_data (mq_pool mq ! n))) (took s)) (es @ map Got (unlinked mq s))"
proof -
  obtain hs fs q where o: "mq_inv mq hs fs (map hold_node us)" "\<And>u. u \<in> set us \<Longrightarrow> hold_ok mq u" "pending [] es = Some q" "list_all2 carries q (mq_msgs mq)"
    using mq_okE [OF assms(1)] by metis
  obtain hs' where i: "mq_inv mq' hs' fs (map hold_node us @ took s)" using assms(3) [OF o(1)] by blast
  have "\<exists>q'. pending [] (es @ map Got (unlinked mq s)) = Some q' \<and> list_all2 carries q' (mq_msgs mq')"
  proof (cases s)
    case (Has_node n)
    then obtain v q' where "q = v # q'" "carries v (mq_data (mq_pool mq ! n))" "list_all2 carries q' (mq_msgs mq')"
      using o(4) assms(5) by (auto simp: list_all2_Cons2)
    then show ?thesis using Has_node o(3) by (simp add: pending_append carries_def)
  qed (use o assms(5) in \<open>simp_all add: pending_append\<close>)
  then show ?thesis using assms(2,4) i o hold_ok_same [of mq' _ mq] by (auto intro!: mq_okI [of i k' mq' hs' fs])
qed

lemma mq_ok_released:
  assumes "mq_ok i mq k (xs @ Reading n d # ys) es" and "mq_release n mq k = Inr (mq', k')"
  shows "mq_ok i mq' k' (xs @ ys) es"
proof -
  obtain hs fs q where o: "running i k" "mq_inv mq hs fs (map hold_node xs @ n # map hold_node ys)" "\<And>u. u \<in> set (xs @ Reading n d # ys) \<Longrightarrow> hold_ok mq u"
      "pending [] es = Some q" "list_all2 carries q (mq_msgs mq)"
    by (rule mq_okE [OF assms(1)]) simp
  have r: "running i k'" "mq_inv mq' hs (n # fs) (map hold_node (xs @ ys))" "mq_msgs mq' = mq_msgs mq"
      "\<And>j. j \<noteq> n \<Longrightarrow> mq_pool mq' ! j = mq_pool mq ! j"
    using mq_release_ok [OF o(2,1)] assms(2) by auto
  have "hold_ok mq' u" if "u \<in> set (xs @ ys)" for u
  proof -
    have "hold_node u \<noteq> n" using mq_invD(9) [OF o(2)] that by auto
    then show ?thesis using o(3) [of u] hold_ok_same [of mq' u mq] r(4) that by auto
  qed
  then show ?thesis using mq_okI [OF r(1,2) _ o(4)] o(5) r(3) by auto
qed

lemma mq_ok_cleared:
  assumes "mq_ok i mq k us es" and "rt_mq_reset mq k = Inr (e, mq', k')"
  shows "mq_ok i mq' k' us (es @ [Cleared])"
proof -
  obtain hs fs q where o: "running i k" "mq_inv mq hs fs (map hold_node us)" "\<And>u. u \<in> set us \<Longrightarrow> hold_ok mq u" "pending [] es = Some q"
    using mq_okE [OF assms(1)] by metis
  obtain fs' where r: "running i k'" "mq_inv mq' [] fs' (map hold_node us)" "\<And>j. j \<notin> set hs \<Longrightarrow> mq_pool mq' ! j = mq_pool mq ! j"
    using mq_reset_ok [OF o(2,1)] assms(2) by auto
  have "hold_ok mq' u" if "u \<in> set us" for u
  proof -
    have "hold_node u \<notin> set hs" using mq_inv_used(2) [OF o(2)] that by auto
    then show ?thesis using o(3) [of u] hold_ok_same [of mq' u mq] r(3) that by auto
  qed
  then show ?thesis using mq_okI [OF r(1,2), of "es @ [Cleared]" "[]"] o(4) mq_inv_view(1) [OF r(2)] by (simp add: pending_append)
qed

lemma mq_run_inv:
  assumes "mq_run i s0 es s us" and "mq_ok i (fst s0) (snd s0) [] []"
  shows "mq_ok i (fst s) (snd s) us es"
  using assms(1)
proof (induction rule: mq_run.induct)
  case mq_start
  then show ?case using assms(2) by simp
next
  case (mq_taking es mq k us timeout sz s mq' k')
  then have o: "mq_ok i mq k us es" and k: "running i k" by (auto elim: mq_okE)
  show ?case unfolding fst_conv snd_conv
    using mq_take_ok [OF _ k mq_taking(2,3)] mq_taking(4) mq_okE [OF o] by (intro mq_ok_taken [OF o]) (metis Inr_inject prod.inject)+
next
  case (mq_taking_more es mq k us timeout start t s mq' k')
  then have o: "mq_ok i mq k us es" and k: "running i k" by (auto elim: mq_okE)
  show ?case unfolding fst_conv snd_conv
    using mq_take_return_ok [OF _ k mq_taking_more(2), of _ _ _ _ t] mq_taking_more(3) mq_okE [OF o] by (intro mq_ok_taken [OF o]) (metis Inr_inject prod.inject)+
next
  case (mq_taking_urgent es mq k us sz s mq')
  then have o: "mq_ok i mq k us es" and k: "running i k" by (auto elim: mq_okE)
  show ?case unfolding fst_conv snd_conv
    using k mq_urgent_take_ok [OF _ mq_taking_urgent(2)] mq_taking_urgent(3) mq_okE [OF o] by (intro mq_ok_taken [OF o]) (metis Inr_inject prod.inject)+
next
  case (mq_filling es mq k xs n ys sz buffer urgent ua mq')
  then show ?case using mq_ok_filled by simp
next
  case (mq_linking es mq k xs n v urgent ys e mq' k')
  then show ?case using mq_ok_linked by simp
next
  case (mq_getting es mq k us timeout sz s mq' k')
  then have o: "mq_ok i mq k us es" and k: "running i k" by (auto elim: mq_okE)
  show ?case unfolding fst_conv snd_conv
    using mq_get_ok [OF _ k mq_getting(2,3)] mq_getting(4) mq_okE [OF o] by (intro mq_ok_got [OF o]) (metis Inr_inject prod.inject)+
next
  case (mq_getting_more es mq k us timeout start t s mq' k')
  then have o: "mq_ok i mq k us es" and k: "running i k" by (auto elim: mq_okE)
  show ?case unfolding fst_conv snd_conv
    using mq_get_return_ok [OF _ k mq_getting_more(2), of _ _ _ _ t] mq_getting_more(3) mq_okE [OF o] by (intro mq_ok_got [OF o]) (metis Inr_inject prod.inject)+
next
  case (mq_releasing es mq k xs n d ys mq' k')
  then show ?case using mq_ok_released by simp
next
  case (mq_clearing es mq k us e mq' k')
  then show ?case using mq_ok_cleared by simp
next
  case (mq_others es mq k us k')
  then show ?case by (simp add: mq_ok_def others_def)
qed

lemma rt_mq_send_wait_ok:
  assumes "mq_inv mq hs fs us" and "running i k" and "timeout = 0 \<or> may_block i timeout k" and "sz \<noteq> 0" and "sz \<le> length buffer"
  shows "\<exists>r mq' k'. rt_mq_send_wait ua buffer sz timeout mq k = Inr (r, mq', k')"
proof -
  obtain s mq1 k1 fs1 where t: "mq_take sz timeout mq k = Inr (s, mq1, k1)" "running i k1" "mq_inv mq1 hs fs1 (us @ took s)"
      "mq_msg_size mq1 = mq_msg_size mq"
    using mq_take_ok [OF assms(1-4)] by blast
  show ?thesis
  proof (cases s)
    case (Has_node n)
    have "sz \<le> mq_msg_size mq1"
      using t(1,4) Has_node mq_invD(1) [OF assms(1)] assms(4) by (cases "mq_msg_size mq < sz") (auto simp: mq_take_def RT_ASSERT_def)
    moreover have i: "mq_inv mq1 hs fs1 (us @ n # [])" using t(3) Has_node by simp
    ultimately obtain d where f: "mq_fill ua n buffer sz mq1 = Inr (mq1\<lparr>mq_pool := (mq_pool mq1)[n := \<lparr>mq_next = None, mq_data = d\<rparr>]\<rparr>)"
        "length d = mq_msg_size mq1"
      using mq_fill_ok [of mq1 hs fs1 "us @ n # []" n sz buffer ua] assms(5) by auto
    have n: "n < length (mq_pool mq1)" using mq_inv_used(1) [OF i, of n] by simp
    have "mq_inv (mq1\<lparr>mq_pool := (mq_pool mq1)[n := \<lparr>mq_next = None, mq_data = d\<rparr>]\<rparr>) hs fs1 (us @ n # [])"
      using write_node [OF i, of n "\<lparr>mq_next = None, mq_data = d\<rparr>"] f(2) by simp
    from mq_append_ok [OF this t(2)] show ?thesis using t(1) f(1) Has_node n by (auto simp: rt_mq_send_wait_def mq_send_node_def)
  qed (use t(1) in \<open>auto simp: rt_mq_send_wait_def mq_send_node_def\<close>)
qed

lemma rt_mq_urgent_ok:
  assumes "mq_inv mq hs fs us" and "running i k" and "sz \<noteq> 0" and "sz \<le> length buffer"
  shows "\<exists>r mq' k'. rt_mq_urgent ua buffer sz mq k = Inr (r, mq', k')"
proof (cases "sz > mq_msg_size mq \<or> msg_queue_free mq = None")
  case True
  then show ?thesis using mq_invD(1) [OF assms(1)] assms(3) by (auto simp: rt_mq_urgent_def mq_urgent_take_def RT_ASSERT_def)
next
  case False
  then obtain n where n: "msg_queue_free mq = Some n" "sz \<le> mq_msg_size mq" by auto
  let ?mq = "mq\<lparr>msg_queue_free := mq_next (mq_pool mq ! n)\<rparr>"
  obtain fs' where i: "n < length (mq_pool mq)" "mq_inv ?mq hs fs' (us @ n # [])" using take_node [OF assms(1) n(1)] by auto
  have t: "mq_urgent_take sz mq = Inr (Has_node n, ?mq)"
    using mq_invD(1) [OF assms(1)] assms(3) n i(1) by (simp add: mq_urgent_take_def RT_ASSERT_def)
  obtain d where f: "mq_copy_in ua n buffer sz ?mq = Inr (?mq\<lparr>mq_pool := (mq_pool ?mq)[n := (mq_pool ?mq ! n)\<lparr>mq_data := d\<rparr>]\<rparr>)" "length d = mq_msg_size ?mq"
    using mq_copy_in_ok [OF i(2), of n sz buffer ua] n(2) assms(4) by auto
  have "mq_inv (?mq\<lparr>mq_pool := (mq_pool ?mq)[n := (mq_pool ?mq ! n)\<lparr>mq_data := d\<rparr>]\<rparr>) hs fs' (us @ n # [])"
    using write_node [OF i(2), of n "(mq_pool ?mq ! n)\<lparr>mq_data := d\<rparr>"] f(2) by simp
  from mq_prepend_ok [OF this assms(2)] show ?thesis using t f(1) by (auto simp: rt_mq_urgent_def)
qed

lemma rt_mq_recv_ok:
  assumes "mq_inv mq hs fs us" and "running i k" and "timeout = 0 \<or> may_block i timeout k" and "sz \<noteq> 0" and "sz \<le> length buffer"
  shows "\<exists>r buffer' mq' k'. rt_mq_recv ua buffer sz timeout mq k = Inr (r, buffer', mq', k')"
proof -
  obtain s mq1 k1 hs1 where t: "mq_get sz timeout mq k = Inr (s, mq1, k1)" "running i k1" "mq_inv mq1 hs1 fs (us @ took s)"
    using mq_get_ok [OF assms(1-4)] by blast
  show ?thesis
  proof (cases s)
    case (Has_node n)
    have i: "mq_inv mq1 hs1 fs (us @ n # [])" using t(3) Has_node by simp
    from mq_release_ok [OF this t(2)] mq_copy_out_ok [OF i, of n sz buffer ua]
    show ?thesis using t(1) Has_node assms(5) by (auto simp: rt_mq_recv_def mq_recv_node_def)
  qed (use t(1) in \<open>auto simp: rt_mq_recv_def mq_recv_node_def\<close>)
qed

text \<open>
  C14. A message queue delivers every message once, intact and in order, although senders and receivers copy the messages with interrupts enabled.
  In every run after \<open>rt_mq_init\<close> in which threads take nodes, fill and link them, unlink, copy and give back nodes, block, are woken or time
  out, in any interleaving, and the queue may be reset, the messages received are exactly those an abstract queue gives out, urgent messages
  first; a receiver finds in its node the data that was linked there; no node is lost; and no call faults.
\<close>
theorem rt_mq_order:
  assumes "rt_mq_init msgpool msg_size pool_size flag ql qs mq00 k00 = Inr (mq0, k0)" and "running i k0"
    and "mq_run i (mq0, k0) es (mq, k) us"
  shows "\<exists>q. pending [] es = Some q \<and> list_all2 carries q (mq_msgs mq) \<and> mq_entry mq = length q \<and>
      length q + mq_free_nodes mq + length us = max_msgs mq \<and> running i k \<and>
      (\<forall>n d. Reading n d \<in> set us \<and> sz \<le> length buffer \<longrightarrow>
         mq_copy_out ua n buffer sz mq = Inr (overwrite buffer 0 (take (min sz (mq_msg_size mq)) d))) \<and>
      ((timeout = 0 \<or> may_block i timeout k) \<and> sz \<noteq> 0 \<and> sz \<le> length buffer \<longrightarrow>
         (\<exists>r mq' k'. rt_mq_send_wait ua buffer sz timeout mq k = Inr (r, mq', k')) \<and>
         (\<exists>r mq' k'. rt_mq_urgent ua buffer sz mq k = Inr (r, mq', k')) \<and>
         (\<exists>r buffer' mq' k'. rt_mq_recv ua buffer sz timeout mq k = Inr (r, buffer', mq', k')))"
proof -
  obtain fs0 where "mq_inv mq0 [] fs0 (map hold_node [])" using rt_mq_init_ok [OF assms(1)] by auto
  then have "mq_ok i mq0 k0 [] []" using mq_inv_view(1) [of mq0 "[]" fs0 "[]"] by (intro mq_okI [OF assms(2)]) auto
  then have "mq_ok i mq k us es" using mq_run_inv [OF assms(3)] by simp
  then obtain hs fs q where o: "running i k" "mq_inv mq hs fs (map hold_node us)" "\<And>u. u \<in> set us \<Longrightarrow> hold_ok mq u" "pending [] es = Some q"
    "list_all2 carries q (mq_msgs mq)" by (rule mq_okE) blast
  have l: "length q = length hs" using list_all2_lengthD [OF o(5)] mq_inv_view(1) [OF o(2)] by simp
  have copy: "mq_copy_out ua n buffer sz mq = Inr (overwrite buffer 0 (take (min sz (mq_msg_size mq)) d))"
    if "Reading n d \<in> set us \<and> sz \<le> length buffer" for n d
    using mq_copy_out_ok [OF o(2), of n sz buffer ua] o(3) [of "Reading n d"] that by (force simp: image_iff)
  show ?thesis
    using o l copy mq_inv_length [OF o(2)] mq_inv_view(2) [OF o(2)] mq_invD(8) [OF o(2)]
      rt_mq_send_wait_ok [OF o(2,1), of timeout sz buffer ua] rt_mq_urgent_ok [OF o(2,1), of sz buffer ua] rt_mq_recv_ok [OF o(2,1), of timeout sz buffer ua]
    by (intro exI [of _ q]) auto
qed

definition no_queue :: rt_messagequeue where
  "no_queue = empty_queue Class_Null [] 0 0 RT_IPC_FLAG_FIFO 0 0"

theorem rt_mq_order_witness:
  "\<exists>mq0 mq. rt_mq_init (replicate 16 0) 3 16 RT_IPC_FLAG_FIFO 3 4 no_queue two_threads = Inr (mq0, two_threads) \<and>
     mq_run 0 (mq0, two_threads) [Put [7]] (mq, two_threads) [] \<and> list_all2 carries [[7]] (mq_msgs mq) \<and> mq_free_nodes mq = 1"
proof -
  define m where "m = \<lparr>mq_next = None, mq_data = replicate 4 (0 :: 8 word)\<rparr>"
  define m1 where "m1 = \<lparr>mq_next = None, mq_data = 7 # replicate 3 (0 :: 8 word)\<rparr>"
  define mq0 where "mq0 = (empty_queue Class_Static [m, m\<lparr>mq_next := Some 0\<rparr>] 4 2 RT_IPC_FLAG_FIFO 3 4)\<lparr>msg_queue_free := Some 1\<rparr>"
  define mq where "mq = mq0\<lparr>mq_pool := [m, m1], msg_queue_free := Some 0, msg_queue_head := Some 1, msg_queue_tail := Some 1, mq_entry := 1\<rparr>"
  have "take 4 (drop 4 (replicate 16 (0 :: 8 word))) = replicate 4 0" "take 4 (drop 12 (replicate 16 (0 :: 8 word))) = replicate 4 0" by simp_all
  moreover have "[0..<2] = [0, 1]" by (simp add: upt_rec)
  moreover have "mq_link_free 2 0 q = bnd (set_mq_next 0 (msg_queue_free q) q) (\<lambda>q. let q = q\<lparr>msg_queue_free := Some 0\<rparr> in
      bnd (set_mq_next 1 (msg_queue_free q) q) (\<lambda>q. Inr (q\<lparr>msg_queue_free := Some 1\<rparr>)))" for q
    by (simp add: numeral_2_eq_2 Let_def)
  moreover have "(waiting two_threads)(3 := [], 4 := []) = waiting two_threads" by (simp add: fun_eq_iff two_threads_waiting)
  then have "two_threads\<lparr>waiting := (waiting two_threads)(3 := [], 4 := [])\<rparr> = two_threads" by simp
  ultimately have init: "rt_mq_init (replicate 16 0) 3 16 RT_IPC_FLAG_FIFO 3 4 no_queue two_threads = Inr (mq0, two_threads)"
    by (simp add: rt_mq_init_def no_queue_def empty_queue_def RT_ASSERT_def RT_ALIGN_def cut_pool_def Let_def mq0_def m_def
        set_mq_next_def)
  have 1: "mq_take 1 0 mq0 two_threads = Inr (Has_node 1, mq0\<lparr>msg_queue_free := Some 0\<rparr>, two_threads)"
    by (simp add: mq_take_def mq_take_loop_def mq0_def empty_queue_def RT_ASSERT_def)
  have "rt_memcpy True (replicate 4 0) [7] 1 = Inr (7 # replicate 3 (0 :: 8 word))"
    by (simp add: rt_memcpy_spec overwrite_def numeral_eq_Suc)
  then have 2: "mq_fill True 1 [7] 1 (mq0\<lparr>msg_queue_free := Some 0\<rparr>) = Inr (mq0\<lparr>msg_queue_free := Some 0, mq_pool := [m, m1]\<rparr>)"
    by (simp add: mq_fill_def set_mq_next_def mq_copy_in_def mq0_def empty_queue_def m_def m1_def)
  have 3: "mq_append 1 (mq0\<lparr>msg_queue_free := Some 0, mq_pool := [m, m1]\<rparr>) two_threads = Inr (RT_EOK, mq, two_threads)"
    by (simp add: mq_append_def mq_count_def mb_wake_def two_threads_waiting mq_def mq0_def empty_queue_def)
  have "mq_run 0 (mq0, two_threads) [] (mq0\<lparr>msg_queue_free := Some 0\<rparr>, two_threads) ([] @ Taken 1 # [])"
    using mq_run.mq_taking [OF mq_run.mq_start _ _ 1, of 0] by simp
  note t = mq_run.mq_filling [OF this, of 1 "[7]" False True]
  have "mq_run 0 (mq0, two_threads) [] (mq0\<lparr>msg_queue_free := Some 0, mq_pool := [m, m1]\<rparr>, two_threads) ([] @ Filled 1 [7] False # [])"
    using t 2 by (simp add: mq0_def empty_queue_def)
  note t = mq_run.mq_linking [OF this]
  have "mq_run 0 (mq0, two_threads) ([] @ [if False then Put_first [7] else Put [7]]) (mq, two_threads) ([] @ [])"
    by (rule t) (use 3 in simp)
  then have r: "mq_run 0 (mq0, two_threads) [Put [7]] (mq, two_threads) []" by simp
  show ?thesis using rt_mq_order [OF init two_threads_running r] init r by (auto simp: mq_def mq0_def empty_queue_def)
qed

end
