(* ===== verification/Mempool.thy ===== *)
theory Mempool
  imports Mailbox Heap_Mem
begin

text \<open>
  The memory pool of \<^verbatim>\<open>src/rt-thread/src/mempool.c\<close>: blocks of one size, each behind a pointer that links the free blocks and names
  the pool of an allocated one. A block is a position of the pool with this pointer and its bytes. A thread that finds no free block waits
  in front of the threads that wait already; it continues with \<open>mp_alloc_return\<close>. Every run gives each block to one client at a time and
  leaves its bytes alone.
\<close>

section \<open>Memory pools\<close>

datatype mp_pointer = Next "nat option" | Owner

record mp_block =
  mp_pointer :: mp_pointer
  mp_bytes :: "8 word list"

record rt_mempool =
  mp_class :: object_class
  mp_blocks :: "mp_block list"
  mp_size :: nat
  mp_block_size :: nat
  block_list :: "nat option"
  block_total_count :: nat
  block_free_count :: nat
  mp_list :: nat

definition set_pointer :: "nat \<Rightarrow> mp_pointer \<Rightarrow> rt_mempool \<Rightarrow> rt_mempool res" where
  "set_pointer b v mp = bnd (fetch (mp_blocks mp) b) (\<lambda>blk. Inr (mp\<lparr>mp_blocks := (mp_blocks mp)[b := blk\<lparr>mp_pointer := v\<rparr>]\<rparr>))"

definition cut_blocks :: "nat \<Rightarrow> nat \<Rightarrow> 8 word list \<Rightarrow> mp_block list res" where
  \<comment> \<open>the memory as \<open>n\<close> blocks of a pointer of four bytes and \<open>sz\<close> bytes; the pointers are not read before they are written\<close>
  "cut_blocks n sz start =
     (if n * (sz + 4) \<le> length start
      then Inr (map (\<lambda>j. \<lparr>mp_pointer = Owner, mp_bytes = take sz (drop (j * (sz + 4) + 4) start)\<rparr>) [0..<n])
      else Inl Out_of_bounds)"

fun mp_link_blocks :: "nat \<Rightarrow> nat \<Rightarrow> rt_mempool \<Rightarrow> rt_mempool res" where
  "mp_link_blocks 0 offset mp = Inr mp"
| "mp_link_blocks (Suc n) offset mp = bnd (set_pointer offset (Next (Some (offset + 1))) mp) (mp_link_blocks n (offset + 1))"

definition mp_setup :: "object_class \<Rightarrow> 8 word list \<Rightarrow> nat \<Rightarrow> nat \<Rightarrow> nat \<Rightarrow> nat \<Rightarrow> kernel \<Rightarrow> (rt_mempool \<times> kernel) res" where
  \<comment> \<open>the free list of a new pool: after the loop the pointer of the last block is cleared, also if there is no block\<close>
  "mp_setup c start sz bs n q k =
     bnd (cut_blocks n bs start) (\<lambda>blocks.
     let mp = \<lparr>mp_class = c, mp_blocks = blocks, mp_size = sz, mp_block_size = bs, block_list = None, block_total_count = n,
               block_free_count = n, mp_list = q\<rparr> in
     bnd (mp_link_blocks n 0 mp) (\<lambda>mp.
     bnd (if n = 0 then Inl Out_of_bounds else set_pointer (n - 1) (Next None) mp) (\<lambda>mp.
     Inr (mp\<lparr>block_list := Some 0\<rparr>, k\<lparr>waiting := (waiting k)(q := [])\<rparr>))))"

definition rt_mp_init :: "8 word list \<Rightarrow> nat \<Rightarrow> nat \<Rightarrow> nat \<Rightarrow> rt_mempool \<Rightarrow> kernel \<Rightarrow> (rt_mempool \<times> kernel) res" where
  \<comment> \<open>\<open>start\<close> is the memory of the pool, \<open>q\<close> the number of its list\<close>
  "rt_mp_init start sz block_size q mp k =
     bnd (RT_ASSERT (sz > 0 \<and> block_size > 0)) (\<lambda>_.
     bnd (RT_ASSERT (mp_class mp = Class_Null)) (\<lambda>_.
     let sz = sz div RT_ALIGN_SIZE * RT_ALIGN_SIZE;
         block_size = RT_ALIGN block_size RT_ALIGN_SIZE in
     mp_setup Class_Static start sz block_size (sz div (block_size + 4)) q k))"

definition rt_mp_create :: "bool \<Rightarrow> (nat \<Rightarrow> 8 word list option) \<Rightarrow> nat \<Rightarrow> nat \<Rightarrow> nat \<Rightarrow> kernel \<Rightarrow> (rt_mempool option \<times> kernel) res" where
  \<comment> \<open>\<open>alloc\<close> is the result of \<open>rt_object_allocate\<close>, \<open>malloc\<close> the memory \<open>rt_malloc\<close> returns for a size\<close>
  "rt_mp_create alloc malloc block_count block_size q k =
     bnd (RT_ASSERT (block_count > 0 \<and> block_size > 0)) (\<lambda>_.
     if \<not> alloc then Inr (None, k)
     else let block_size = RT_ALIGN block_size RT_ALIGN_SIZE;
              sz = mul32 (add32 block_size 4) block_count in
     case malloc sz of
       None \<Rightarrow> Inr (None, k)
     | Some start \<Rightarrow> bnd (mp_setup Class_Dynamic start sz block_size block_count q k) (\<lambda>(mp, k). Inr (Some mp, k)))"

definition mp_close :: "rt_mempool \<Rightarrow> kernel \<Rightarrow> (rt_mempool \<times> kernel) res" where
  \<comment> \<open>the common part of \<open>rt_mp_detach\<close> and \<open>rt_mp_delete\<close>, whose loop is that of \<open>rt_ipc_list_resume_all\<close>\<close>
  "mp_close mp k = bnd (rt_ipc_list_resume_all (mp_list mp) k) (\<lambda>k. Inr (mp\<lparr>mp_class := Class_Null\<rparr>, k))"

definition rt_mp_detach :: "rt_mempool \<Rightarrow> kernel \<Rightarrow> (rt_mempool \<times> kernel) res" where
  "rt_mp_detach mp k = bnd (RT_ASSERT (mp_class mp = Class_Static)) (\<lambda>_. mp_close mp k)"

definition rt_mp_delete :: "rt_mempool \<Rightarrow> kernel \<Rightarrow> (rt_mempool \<times> kernel) res" where
  "rt_mp_delete mp k = bnd (RT_ASSERT (mp_class mp = Class_Dynamic)) (\<lambda>_. mp_close mp k)"

definition rt_set_errno :: "int \<Rightarrow> kernel \<Rightarrow> kernel" where
  \<comment> \<open>outside of interrupts; before the first thread runs it sets a variable of its own\<close>
  "rt_set_errno e k = (case current_thread k of None \<Rightarrow> k | Some t \<Rightarrow> set_thread t (\<lambda>th. th\<lparr>error := e\<rparr>) k)"

definition mp_wait :: "nat \<Rightarrow> nat \<Rightarrow> int \<Rightarrow> kernel \<Rightarrow> kernel res" where
  \<comment> \<open>join the list in front, start the timer if there is a time limit, switch\<close>
  "mp_wait q t time k =
     bnd (rt_thread_suspend t k) (\<lambda>(_, k).
     let k = k\<lparr>waiting := (waiting k)(q := t # waiting k q)\<rparr> in
     bnd (if time > 0 then bnd (rt_timer_set_time t (word_of_int time) k) (rt_timer_start t) else Inr k) rt_schedule)"

datatype mp_step = Block nat | No_block | Must_wait

definition mp_alloc_loop :: "int \<Rightarrow> rt_mempool \<Rightarrow> kernel \<Rightarrow> (mp_step \<times> rt_mempool \<times> kernel) res" where
  \<comment> \<open>one round of the loop of \<open>rt_mp_alloc\<close>, up to the switch to another thread\<close>
  "mp_alloc_loop time mp k =
     (if block_free_count mp = 0
      then if time = 0 then Inr (No_block, mp, rt_set_errno (- RT_ETIMEOUT) k)
           else case current_thread k of
                  None \<Rightarrow> Inl Null_deref
                | Some t \<Rightarrow> bnd (mp_wait (mp_list mp) t time (set_thread t (\<lambda>th. th\<lparr>error := RT_EOK\<rparr>) k)) (\<lambda>k. Inr (Must_wait, mp, k))
      else let mp = mp\<lparr>block_free_count := block_free_count mp - 1\<rparr> in
           case block_list mp of
             None \<Rightarrow> Inl Assertion_failed
           | Some b \<Rightarrow>
               bnd (fetch (mp_blocks mp) b) (\<lambda>blk.
               case mp_pointer blk of
                 Owner \<Rightarrow> Inl Out_of_bounds
               | Next p \<Rightarrow> bnd (set_pointer b Owner (mp\<lparr>block_list := p\<rparr>)) (\<lambda>mp. Inr (Block b, mp, k))))"

definition rt_mp_alloc :: "int \<Rightarrow> rt_mempool \<Rightarrow> kernel \<Rightarrow> (mp_step \<times> rt_mempool \<times> kernel) res" where
  "rt_mp_alloc time mp k = mp_alloc_loop time mp k"

definition mp_alloc_return :: "nat \<Rightarrow> tick \<Rightarrow> int \<Rightarrow> rt_mempool \<Rightarrow> kernel \<Rightarrow> (mp_step \<times> rt_mempool \<times> kernel) res" where
  \<comment> \<open>\<open>rt_mp_alloc\<close> when the thread \<open>t\<close> that was blocked runs again\<close>
  "mp_alloc_return t start time mp k =
     (if error (thread k t) \<noteq> RT_EOK then Inr (No_block, mp, k)
      else mp_alloc_loop (time_left time start k) mp k)"

definition mp_wake :: "nat \<Rightarrow> kernel \<Rightarrow> kernel res" where
  "mp_wake q k =
     (case waiting k q of
        [] \<Rightarrow> Inr k
      | t # _ \<Rightarrow> bnd (rt_thread_resume t (set_thread t (\<lambda>th. th\<lparr>error := RT_EOK\<rparr>) k)) (\<lambda>(_, k). rt_schedule k))"

definition rt_mp_free :: "nat option \<Rightarrow> rt_mempool \<Rightarrow> kernel \<Rightarrow> (rt_mempool \<times> kernel) res" where
  \<comment> \<open>the pool is found by the pointer before the block; that of a free block does not point to a pool\<close>
  "rt_mp_free rmem mp k =
     (case rmem of
        None \<Rightarrow> Inr (mp, k)
      | Some b \<Rightarrow>
          bnd (fetch (mp_blocks mp) b) (\<lambda>blk.
          case mp_pointer blk of
            Next p \<Rightarrow> Inl Out_of_bounds
          | Owner \<Rightarrow>
              let mp = mp\<lparr>block_free_count := block_free_count mp + 1\<rparr> in
              bnd (set_pointer b (Next (block_list mp)) mp) (\<lambda>mp.
              let mp = mp\<lparr>block_list := Some b\<rparr> in
              bnd (mp_wake (mp_list mp) k) (\<lambda>k. Inr (mp, k)))))"

section \<open>The invariant of a pool\<close>

fun linked :: "mp_block list \<Rightarrow> nat option \<Rightarrow> nat list \<Rightarrow> bool" where
  "linked bs p [] \<longleftrightarrow> p = None"
| "linked bs p (x # xs) \<longleftrightarrow> p = Some x \<and> x < length bs \<and>
     (case mp_pointer (bs ! x) of Next p \<Rightarrow> linked bs p xs | Owner \<Rightarrow> False)"

definition mp_inv :: "rt_mempool \<Rightarrow> nat list \<Rightarrow> bool" where
  "mp_inv mp fs \<longleftrightarrow> length (mp_blocks mp) = block_total_count mp \<and> linked (mp_blocks mp) (block_list mp) fs \<and> distinct fs \<and>
     block_free_count mp = length fs \<and> (\<forall>b < block_total_count mp. (mp_pointer (mp_blocks mp ! b) = Owner \<longleftrightarrow> b \<notin> set fs) \<and>
        length (mp_bytes (mp_blocks mp ! b)) = mp_block_size mp)"

definition owned :: "rt_mempool \<Rightarrow> nat \<rightharpoonup> 8 word list" where
  \<comment> \<open>the allocated blocks and their content\<close>
  "owned mp b = (if b < length (mp_blocks mp) \<and> mp_pointer (mp_blocks mp ! b) = Owner then Some (mp_bytes (mp_blocks mp ! b)) else None)"

lemma linked_bounds: "linked bs p xs \<Longrightarrow> x \<in> set xs \<Longrightarrow> x < length bs"
  by (induction xs arbitrary: p) (auto split: mp_pointer.splits)

lemma linked_other [simp]: "x \<notin> set xs \<Longrightarrow> linked (bs[x := m]) p xs = linked bs p xs"
  by (induction xs arbitrary: p) (auto split: mp_pointer.split)

lemma linked_Some: "linked bs (Some x) xs \<longleftrightarrow> (\<exists>p ys. xs = x # ys \<and> x < length bs \<and> mp_pointer (bs ! x) = Next p \<and> linked bs p ys)"
  by (cases xs) (auto split: mp_pointer.splits)

lemma linked_None [simp]: "linked bs None xs \<longleftrightarrow> xs = []"
  by (cases xs) auto

lemma bytes_pointer [simp]: "mp_bytes (bs[x := (bs ! x)\<lparr>mp_pointer := v\<rparr>] ! j) = mp_bytes (bs ! j)"
  by (cases "x < length bs"; cases "j = x") (auto simp: list_update_beyond)

lemma mp_invD:
  assumes "mp_inv mp fs"
  shows "length (mp_blocks mp) = block_total_count mp" "linked (mp_blocks mp) (block_list mp) fs" "distinct fs" "block_free_count mp = length fs"
    "\<And>b. b < block_total_count mp \<Longrightarrow> mp_pointer (mp_blocks mp ! b) = Owner \<longleftrightarrow> b \<notin> set fs"
    "\<And>b. b < block_total_count mp \<Longrightarrow> length (mp_bytes (mp_blocks mp ! b)) = mp_block_size mp"
  using assms by (auto simp: mp_inv_def)

lemma owned_count:
  assumes "mp_inv mp fs"
  shows "block_free_count mp + card (dom (owned mp)) = block_total_count mp"
proof -
  note d = mp_invD [OF assms]
  have f: "set fs \<subseteq> {..<block_total_count mp}" using linked_bounds [OF d(2)] d(1) by auto
  have "dom (owned mp) = {..<block_total_count mp} - set fs" using d(1,5) by (auto simp: owned_def dom_def split: if_splits)
  moreover have "card (set fs) = length fs" by (rule distinct_card [OF d(3)])
  moreover have "card (set fs) \<le> block_total_count mp" using card_mono [OF _ f] by simp
  ultimately show ?thesis using f d(4) by (simp add: card_Diff_subset)
qed

lemma mp_setup_link:
  assumes "length (mp_blocks mp) = offset + n"
  shows "\<exists>bs. mp_link_blocks n offset mp = Inr (mp\<lparr>mp_blocks := bs\<rparr>) \<and> length bs = offset + n \<and>
     (\<forall>j < offset. bs ! j = mp_blocks mp ! j) \<and>
     (\<forall>j. offset \<le> j \<and> j < offset + n \<longrightarrow> bs ! j = (mp_blocks mp ! j)\<lparr>mp_pointer := Next (Some (j + 1))\<rparr>)"
  using assms
proof (induction n arbitrary: offset mp)
  case 0
  then show ?case by (intro exI [of _ "mp_blocks mp"]) auto
next
  case (Suc n)
  let ?bs = "(mp_blocks mp)[offset := (mp_blocks mp ! offset)\<lparr>mp_pointer := Next (Some (offset + 1))\<rparr>]"
  let ?mp = "mp\<lparr>mp_blocks := ?bs\<rparr>"
  have s: "set_pointer offset (Next (Some (offset + 1))) mp = Inr ?mp" using Suc.prems by (simp add: set_pointer_def)
  obtain bs where bs: "mp_link_blocks n (offset + 1) ?mp = Inr (?mp\<lparr>mp_blocks := bs\<rparr>)" "length bs = offset + 1 + n"
      "\<forall>j < offset + 1. bs ! j = ?bs ! j"
      "\<forall>j. offset + 1 \<le> j \<and> j < offset + 1 + n \<longrightarrow> bs ! j = (?bs ! j)\<lparr>mp_pointer := Next (Some (j + 1))\<rparr>"
    using Suc.IH [of ?mp "offset + 1"] Suc.prems by auto
  have "bs ! j = (mp_blocks mp ! j)\<lparr>mp_pointer := Next (Some (j + 1))\<rparr>" if "offset \<le> j \<and> j < offset + Suc n" for j
    using bs(3,4) that Suc.prems by (cases "j = offset") auto
  then show ?case using bs s Suc.prems by (intro exI [of _ bs]) auto
qed

lemma linked_upt:
  assumes "\<And>j. a \<le> j \<Longrightarrow> j < b \<Longrightarrow> mp_pointer (bs ! j) = Next (if j + 1 < b then Some (j + 1) else None)" and "a < b" and "b \<le> length bs"
  shows "linked bs (Some a) [a..<b]"
  using assms
proof (induction "b - a" arbitrary: a)
  case (Suc n)
  show ?case
  proof (cases "a + 1 < b")
    case True
    then have "linked bs (Some (Suc a)) [Suc a..<b]" using Suc by auto
    then show ?thesis using Suc.prems True by (simp add: upt_rec [of a])
  next
    case False
    then have "b = a + 1" using Suc.prems(2) by simp
    then show ?thesis using Suc.prems(1) [of a] Suc.prems(2,3) by simp
  qed
qed simp

lemma mp_setup_ok:
  assumes "mp_setup c start sz bs n q k = Inr (mp, k')"
  shows "mp_inv mp [0..<n]" "owned mp = Map.empty" "0 < n" "block_total_count mp = n" "mp_block_size mp = bs" "mp_list mp = q"
proof -
  show n: "0 < n" using assms by (cases "n = 0") (auto simp: mp_setup_def bnd_eq_Inr Let_def)
  have fit: "n * (bs + 4) \<le> length start" using assms by (auto simp: mp_setup_def cut_blocks_def split: if_splits)
  define blocks where "blocks = map (\<lambda>j. \<lparr>mp_pointer = Owner, mp_bytes = take bs (drop (j * (bs + 4) + 4) start)\<rparr>) [0..<n]"
  define mp0 where "mp0 = \<lparr>mp_class = c, mp_blocks = blocks, mp_size = sz, mp_block_size = bs, block_list = None, block_total_count = n,
               block_free_count = n, mp_list = q\<rparr>"
  have len: "length (mp_blocks mp0) = 0 + n" by (simp add: mp0_def blocks_def)
  obtain ms where ms: "mp_link_blocks n 0 mp0 = Inr (mp0\<lparr>mp_blocks := ms\<rparr>)" "length ms = n"
      "\<And>j. j < n \<Longrightarrow> ms ! j = (blocks ! j)\<lparr>mp_pointer := Next (Some (j + 1))\<rparr>"
    using mp_setup_link [OF len] by (auto simp: mp0_def)
  define ns where "ns = ms[n - 1 := (ms ! (n - 1))\<lparr>mp_pointer := Next None\<rparr>]"
  have mp: "mp = mp0\<lparr>mp_blocks := ns, block_list := Some 0\<rparr>"
    using assms fit ms(1,2) n by (auto simp: mp_setup_def cut_blocks_def blocks_def [symmetric] mp0_def [symmetric] set_pointer_def ns_def)
  have p: "mp_pointer (ns ! j) = Next (if j + 1 < n then Some (j + 1) else None)" if "j < n" for j
    using that ms(2,3) by (cases "j = n - 1") (auto simp: ns_def)
  have b: "length (mp_bytes (ns ! j)) = bs" if "j < n" for j
  proof -
    have "(j + 1) * (bs + 4) \<le> n * (bs + 4)" using that by (intro mult_right_mono) auto
    then have "length (mp_bytes (blocks ! j)) = bs" using that fit by (simp add: blocks_def algebra_simps)
    then show ?thesis using ms(3) [OF that] by (simp add: ns_def)
  qed
  have l: "linked ns (Some 0) [0..<n]" using linked_upt [of 0 n ns] p n ms(2) by (simp add: ns_def)
  show "mp_inv mp [0..<n]" using l p b ms(2) by (auto simp: mp mp_inv_def mp0_def ns_def)
  show "owned mp = Map.empty" using p ms(2) by (auto simp: mp owned_def fun_eq_iff ns_def)
  show "block_total_count mp = n" "mp_block_size mp = bs" "mp_list mp = q" by (simp_all add: mp mp0_def)
qed

text \<open>A pool too small for one block: the pointer of the block before the first one is written.\<close>

lemma rt_mp_init_too_small:
  assumes "0 < sz" and "0 < block_size" and "sz < RT_ALIGN block_size 4 + 4" and "mp_class mp = Class_Null"
  shows "rt_mp_init start sz block_size q mp k = Inl Out_of_bounds"
proof -
  have "sz div 4 * 4 \<le> sz" by simp
  then have "sz div 4 * 4 div (RT_ALIGN block_size 4 + 4) = 0" using assms(3) by (intro div_less) linarith
  then show ?thesis using assms by (simp add: rt_mp_init_def mp_setup_def cut_blocks_def RT_ASSERT_def Let_def)
qed

section \<open>Allocation and release\<close>

lemma mp_wait_ok:
  assumes "running i k" and "current_thread k = Some t" and "t \<noteq> i" and "lock_nest k = 0" and "time < 0x7FFFFFFF"
  shows "\<exists>k'. mp_wait q t time k = Inr k' \<and> running i k' \<and> waiting k' = (waiting k)(q := t # waiting k q)"
proof -
  have r: "kernel_ok k" "stat (thread k t) = RT_THREAD_READY" using assms by (auto simp: running_def cur_ready_def)
  have "t \<notin> set (waiting k q)" "distinct (waiting k q)"
    using kernel_okD(3) [OF r(1)] r(2) by (auto simp: wait_ok_def)
  then have "distinct (t # waiting k q)" by simp
  from wait_joined [OF assms this, of q] show ?thesis using suspend_ready [OF r] by (auto simp: mp_wait_def Let_def)
qed

lemma mp_wake_ok:
  assumes "running i k"
  shows "\<exists>k'. mp_wake q k = Inr k' \<and> running i k'"
proof (cases "waiting k q")
  case (Cons t ts)
  let ?k = "set_thread t (\<lambda>th. th\<lparr>error := RT_EOK\<rparr>) k"
  have "mp_wake q k = bnd (rt_ipc_list_resume q ?k) rt_schedule"
    using Cons by (cases "rt_thread_resume t ?k") (auto simp: mp_wake_def rt_ipc_list_resume_def)
  moreover have "waiting ?k q = t # ts" using Cons by simp
  ultimately show ?thesis using wake_first [of i ?k q t ts] assms by auto
qed (use assms in \<open>simp add: mp_wake_def\<close>)

definition granted_block :: "mp_step \<Rightarrow> nat list" where
  "granted_block s = (case s of Block b \<Rightarrow> [b] | _ \<Rightarrow> [])"

lemma mp_take_ok:
  assumes "mp_inv mp fs" and "block_free_count mp \<noteq> 0"
  shows "\<exists>b fs' mp'. mp_alloc_loop time mp k = Inr (Block b, mp', k) \<and> mp_inv mp' fs' \<and> owned mp b = None \<and>
    owned mp' = (owned mp)(b \<mapsto> mp_bytes (mp_blocks mp ! b)) \<and> b < block_total_count mp \<and> block_total_count mp' = block_total_count mp \<and>
    mp_block_size mp' = mp_block_size mp \<and> mp_list mp' = mp_list mp"
proof -
  note d = mp_invD [OF assms(1)]
  obtain b fs' where fs: "fs = b # fs'" using assms(2) d(4) by (cases fs) auto
  then have "linked (mp_blocks mp) (Some b) (b # fs')" and bl: "block_list mp = Some b" using d(2) by (auto split: mp_pointer.splits)
  then obtain p where p: "b < length (mp_blocks mp)" "mp_pointer (mp_blocks mp ! b) = Next p" "linked (mp_blocks mp) p fs'"
    by (auto split: mp_pointer.splits)
  define mp' where "mp' = mp\<lparr>block_free_count := block_free_count mp - 1, block_list := p,
      mp_blocks := (mp_blocks mp)[b := (mp_blocks mp ! b)\<lparr>mp_pointer := Owner\<rparr>]\<rparr>"
  have "mp_alloc_loop time mp k = Inr (Block b, mp', k)"
    using assms(2) bl p(1,2) by (simp add: mp_alloc_loop_def set_pointer_def mp'_def)
  moreover have "mp_inv mp' fs'"
    using d fs p by (auto simp: mp_inv_def mp'_def nth_list_update)
  moreover have "owned mp b = None" "owned mp' = (owned mp)(b \<mapsto> mp_bytes (mp_blocks mp ! b))"
    using p(1,2) by (auto simp: owned_def mp'_def fun_eq_iff)
  ultimately show ?thesis using p(1) d(1) by (intro exI [of _ b] exI [of _ fs'] exI [of _ mp']) (simp add: mp'_def)
qed

lemma set_errno_running [simp]: "running i (rt_set_errno e k) = running i k"
  by (simp add: rt_set_errno_def split: option.split)

lemma mp_alloc_loop_ok:
  assumes "mp_inv mp fs" and "running i k" and "time = 0 \<or> may_block i time k"
  shows "\<exists>s mp' k' fs'. mp_alloc_loop time mp k = Inr (s, mp', k') \<and> running i k' \<and> mp_inv mp' fs' \<and>
    (case s of Block b \<Rightarrow> owned mp b = None \<and> owned mp' = (owned mp)(b \<mapsto> mp_bytes (mp_blocks mp ! b))
             | _ \<Rightarrow> mp' = mp \<and> block_free_count mp = 0) \<and>
    block_total_count mp' = block_total_count mp \<and> mp_block_size mp' = mp_block_size mp \<and> mp_list mp' = mp_list mp"
proof (cases "block_free_count mp = 0")
  case False
  from mp_take_ok [OF assms(1) this] show ?thesis using assms(2) by fastforce
next
  case True
  show ?thesis
  proof (cases "time = 0")
    case True
    then show ?thesis using \<open>block_free_count mp = 0\<close> assms(1,2) by (auto simp: mp_alloc_loop_def)
  next
    case False
    then obtain t where t: "current_thread k = Some t" "t \<noteq> i" "lock_nest k = 0" "time < 0x7FFFFFFF"
      using assms(2,3) by (auto simp: running_def cur_ready_def may_block_def split: option.splits)
    let ?k = "set_thread t (\<lambda>th. th\<lparr>error := RT_EOK\<rparr>) k"
    have "\<exists>k'. mp_wait (mp_list mp) t time ?k = Inr k' \<and> running i k'"
      using mp_wait_ok [of i ?k t time "mp_list mp"] assms(2) t by auto
    then show ?thesis using True False t(1) assms(1) by (auto simp: mp_alloc_loop_def)
  qed
qed

lemma rt_mp_free_ok:
  assumes "mp_inv mp fs" and "running i k" and "owned mp b = Some d"
  shows "\<exists>mp' k' fs'. rt_mp_free (Some b) mp k = Inr (mp', k') \<and> running i k' \<and> mp_inv mp' fs' \<and> owned mp' = (owned mp)(b := None) \<and>
    block_total_count mp' = block_total_count mp \<and> mp_block_size mp' = mp_block_size mp \<and> mp_list mp' = mp_list mp"
proof -
  note v = mp_invD [OF assms(1)]
  have b: "b < length (mp_blocks mp)" "mp_pointer (mp_blocks mp ! b) = Owner" "b \<notin> set fs"
    using assms(3) v(1,5) by (auto simp: owned_def split: if_splits)
  define mp' where "mp' = mp\<lparr>block_free_count := block_free_count mp + 1,
      mp_blocks := (mp_blocks mp)[b := (mp_blocks mp ! b)\<lparr>mp_pointer := Next (block_list mp)\<rparr>], block_list := Some b\<rparr>"
  obtain k' where k': "mp_wake (mp_list mp) k = Inr k'" "running i k'" using mp_wake_ok [OF assms(2)] by blast
  have "rt_mp_free (Some b) mp k = Inr (mp', k')" using b(1,2) k'(1) by (simp add: rt_mp_free_def set_pointer_def mp'_def)
  moreover have "mp_inv mp' (b # fs)" using v b by (auto simp: mp_inv_def mp'_def nth_list_update)
  moreover have "owned mp' = (owned mp)(b := None)" using b(1) by (auto simp: owned_def mp'_def fun_eq_iff)
  ultimately show ?thesis using k'(2) by (intro exI [of _ mp'] exI [of _ k'] exI [of _ "b # fs"]) (simp add: mp'_def)
qed

section \<open>Runs with a pool\<close>

definition mp_write :: "nat \<Rightarrow> nat \<Rightarrow> 8 word list \<Rightarrow> rt_mempool \<Rightarrow> rt_mempool res" where
  \<comment> \<open>a client stores bytes in a block\<close>
  "mp_write b off ys mp =
     bnd (fetch (mp_blocks mp) b) (\<lambda>blk.
     bnd (blit (mp_bytes blk) off ys) (\<lambda>bytes. Inr (mp\<lparr>mp_blocks := (mp_blocks mp)[b := blk\<lparr>mp_bytes := bytes\<rparr>]\<rparr>)))"

lemma mp_write_ok:
  assumes "mp_inv mp fs" and "owned mp b = Some d" and "off + length ys \<le> mp_block_size mp"
  shows "\<exists>mp'. mp_write b off ys mp = Inr mp' \<and> mp_inv mp' fs \<and> owned mp' = (owned mp)(b \<mapsto> overwrite d off ys) \<and>
    block_total_count mp' = block_total_count mp \<and> mp_block_size mp' = mp_block_size mp \<and> mp_list mp' = mp_list mp"
proof -
  note v = mp_invD [OF assms(1)]
  have b: "b < length (mp_blocks mp)" "mp_pointer (mp_blocks mp ! b) = Owner" "d = mp_bytes (mp_blocks mp ! b)"
    using assms(2) by (auto simp: owned_def split: if_splits)
  have l: "length d = mp_block_size mp" "b \<notin> set fs" using v(1,5,6) b by auto
  define mp' where "mp' = mp\<lparr>mp_blocks := (mp_blocks mp)[b := (mp_blocks mp ! b)\<lparr>mp_bytes := overwrite d off ys\<rparr>]\<rparr>"
  have "mp_write b off ys mp = Inr mp'" using b l assms(3) by (simp add: mp_write_def mp'_def)
  moreover have "mp_inv mp' fs" using v b l assms(3) by (auto simp: mp_inv_def mp'_def nth_list_update)
  moreover have "owned mp' = (owned mp)(b \<mapsto> overwrite d off ys)" using b by (auto simp: owned_def mp'_def fun_eq_iff)
  ultimately show ?thesis by (intro exI [of _ mp']) (simp add: mp'_def)
qed

datatype mp_event = Allocated nat "8 word list" | Freed nat | Wrote nat nat "8 word list"

fun holders :: "(nat \<rightharpoonup> 8 word list) \<Rightarrow> mp_event list \<Rightarrow> (nat \<rightharpoonup> 8 word list) option" where
  \<comment> \<open>the abstract pool: the blocks the clients hold and what they contain; \<open>None\<close>: a block was handed out twice\<close>
  "holders m [] = Some m"
| "holders m (Allocated b d # es) = (if m b = None then holders (m(b \<mapsto> d)) es else None)"
| "holders m (Freed b # es) = (if m b \<noteq> None then holders (m(b := None)) es else None)"
| "holders m (Wrote b off ys # es) = (case m b of None \<Rightarrow> None | Some d \<Rightarrow> holders (m(b \<mapsto> overwrite d off ys)) es)"

lemma holders_append: "holders m (es @ fs) = Option.bind (holders m es) (\<lambda>m. holders m fs)"
proof (induction es arbitrary: m)
  case (Cons e es)
  then show ?case by (cases e) (auto simp: fun_upd_def split: option.split)
qed simp

definition allocation :: "rt_mempool \<Rightarrow> mp_step \<Rightarrow> mp_event list" where
  "allocation mp s = (case s of Block b \<Rightarrow> [Allocated b (mp_bytes (mp_blocks mp ! b))] | _ \<Rightarrow> [])"

inductive mp_run :: "nat \<Rightarrow> rt_mempool \<times> kernel \<Rightarrow> mp_event list \<Rightarrow> rt_mempool \<times> kernel \<Rightarrow> bool" for i :: nat and s0 :: "rt_mempool \<times> kernel" where
  mp_start: "mp_run i s0 [] s0"
| mp_allocate: "mp_run i s0 es (mp, k) \<Longrightarrow> time = 0 \<or> may_block i time k \<Longrightarrow> rt_mp_alloc time mp k = Inr (s, mp', k') \<Longrightarrow>
    mp_run i s0 (es @ allocation mp s) (mp', k')"
| mp_allocate_more: "mp_run i s0 es (mp, k) \<Longrightarrow> time_left time start k = 0 \<or> may_block i (time_left time start k) k \<Longrightarrow>
    mp_alloc_return t start time mp k = Inr (s, mp', k') \<Longrightarrow> mp_run i s0 (es @ allocation mp s) (mp', k')"
| mp_give_back: "mp_run i s0 es (mp, k) \<Longrightarrow> owned mp b \<noteq> None \<Longrightarrow> rt_mp_free (Some b) mp k = Inr (mp', k') \<Longrightarrow> mp_run i s0 (es @ [Freed b]) (mp', k')"
| mp_store: "mp_run i s0 es (mp, k) \<Longrightarrow> owned mp b \<noteq> None \<Longrightarrow> off + length ys \<le> mp_block_size mp \<Longrightarrow> mp_write b off ys mp = Inr mp' \<Longrightarrow>
    mp_run i s0 (es @ [Wrote b off ys]) (mp', k)"
| mp_others: "mp_run i s0 es (mp, k) \<Longrightarrow> others i {mp_list mp} k k' \<Longrightarrow> mp_run i s0 es (mp, k')"

definition mp_ok :: "nat \<Rightarrow> nat \<Rightarrow> rt_mempool \<Rightarrow> kernel \<Rightarrow> mp_event list \<Rightarrow> bool" where
  "mp_ok i n mp k es \<longleftrightarrow> running i k \<and> (\<exists>fs. mp_inv mp fs) \<and> holders Map.empty es = Some (owned mp) \<and> block_total_count mp = n"

lemma allocate_step:
  assumes "mp_ok i n mp k es" and "time = 0 \<or> may_block i time k"
  shows "\<exists>s mp' k'. rt_mp_alloc time mp k = Inr (s, mp', k') \<and> mp_ok i n mp' k' (es @ allocation mp s) \<and>
    (block_free_count mp \<noteq> 0 \<longrightarrow> (\<exists>b. s = Block b)) \<and> (block_free_count mp = 0 \<and> time = 0 \<longrightarrow> s = No_block)"
proof -
  obtain fs where o: "running i k" "mp_inv mp fs" "holders Map.empty es = Some (owned mp)" "block_total_count mp = n"
    using assms(1) by (auto simp: mp_ok_def)
  from mp_alloc_loop_ok [OF o(2,1) assms(2)] obtain s mp' k' fs' where s: "mp_alloc_loop time mp k = Inr (s, mp', k')" "running i k'" "mp_inv mp' fs'"
    "case s of Block b \<Rightarrow> owned mp b = None \<and> owned mp' = (owned mp)(b \<mapsto> mp_bytes (mp_blocks mp ! b)) | _ \<Rightarrow> mp' = mp \<and> block_free_count mp = 0"
    "block_total_count mp' = block_total_count mp" by blast
  have "holders Map.empty (es @ allocation mp s) = Some (owned mp')"
    using s(4) o(3) by (auto simp: holders_append allocation_def split: mp_step.splits)
  moreover have "block_free_count mp \<noteq> 0 \<longrightarrow> (\<exists>b. s = Block b)" using s(4) by (auto split: mp_step.splits)
  moreover have "block_free_count mp = 0 \<and> time = 0 \<longrightarrow> s = No_block" using s(1) by (auto simp: mp_alloc_loop_def)
  ultimately show ?thesis using s(1,2,3,5) o(4) by (auto simp: rt_mp_alloc_def mp_ok_def)
qed

lemma mp_run_inv:
  assumes "mp_run i s0 es s" and "mp_ok i n (fst s0) (snd s0) []"
  shows "mp_ok i n (fst s) (snd s) es"
  using assms(1)
proof (induction rule: mp_run.induct)
  case mp_start
  then show ?case using assms(2) by simp
next
  case (mp_allocate es mp k time s mp' k')
  then show ?case using allocate_step [of i n mp k es time] by auto
next
  case (mp_allocate_more es mp k time start t s mp' k')
  show ?case
  proof (cases "error (thread k t) = RT_EOK")
    case True
    then show ?thesis using allocate_step [of i n mp k es "time_left time start k"] mp_allocate_more by (auto simp: mp_alloc_return_def rt_mp_alloc_def)
  next
    case False
    then show ?thesis using mp_allocate_more by (auto simp: mp_alloc_return_def allocation_def)
  qed
next
  case (mp_give_back es mp k b mp' k')
  then obtain fs d where "mp_inv mp fs" "running i k" "owned mp b = Some d" "holders Map.empty es = Some (owned mp)" "block_total_count mp = n"
    by (auto simp: mp_ok_def)
  then show ?case using rt_mp_free_ok [of mp fs i k b d] mp_give_back.hyps(3) by (auto simp: mp_ok_def holders_append)
next
  case (mp_store es mp k b off ys mp')
  then obtain fs d where "mp_inv mp fs" "running i k" "owned mp b = Some d" "holders Map.empty es = Some (owned mp)" "block_total_count mp = n"
    by (auto simp: mp_ok_def)
  then show ?case using mp_write_ok [of mp fs b d off ys] mp_store.hyps(3,4) by (auto simp: mp_ok_def holders_append)
next
  case (mp_others es mp k k')
  then show ?case by (simp add: mp_ok_def others_def)
qed

text \<open>
  C16. A memory pool hands out every block to one client at a time and leaves its bytes alone. In every run after \<open>rt_mp_init\<close> in which threads
  allocate with or without a time limit, block, are woken or time out, write into the blocks they hold and give them back, in any order, the
  allocated blocks and their contents are those of the abstract pool, free and allocated blocks together are all blocks, no call
  faults, and an allocation that does not wait succeeds exactly if some block is free.
\<close>
theorem rt_mp_blocks:
  assumes "rt_mp_init start sz bs q mp00 k00 = Inr (mp0, k0)" and "running i k0" and "mp_run i (mp0, k0) es (mp, k)"
  shows "holders Map.empty es = Some (owned mp) \<and> running i k \<and>
     block_free_count mp + card (dom (owned mp)) = block_total_count mp \<and>
     block_total_count mp = sz div 4 * 4 div (RT_ALIGN bs 4 + 4) \<and>
     (\<exists>s mp' k'. rt_mp_alloc 0 mp k = Inr (s, mp', k') \<and>
        (if card (dom (owned mp)) < block_total_count mp then \<exists>b. s = Block b \<and> owned mp b = None else s = No_block)) \<and>
     (may_block i time k \<longrightarrow> (\<exists>s mp' k'. rt_mp_alloc time mp k = Inr (s, mp', k'))) \<and>
     (owned mp b \<noteq> None \<longrightarrow> (\<exists>mp' k'. rt_mp_free (Some b) mp k = Inr (mp', k') \<and> owned mp' = (owned mp)(b := None)))"
proof -
  define n where "n = sz div 4 * 4 div (RT_ALIGN bs 4 + 4)"
  have "mp_setup Class_Static start (sz div 4 * 4) (RT_ALIGN bs 4) n q k00 = Inr (mp0, k0)"
    using assms(1) by (auto simp: rt_mp_init_def RT_ASSERT_def Let_def n_def split: if_splits)
  from mp_setup_ok [OF this] have "mp_ok i n mp0 k0 []" using assms(2) by (auto simp: mp_ok_def)
  then have o: "mp_ok i n mp k es" using mp_run_inv [OF assms(3)] by simp
  then obtain fs where f: "running i k" "mp_inv mp fs" "holders Map.empty es = Some (owned mp)" "block_total_count mp = n" by (auto simp: mp_ok_def)
  note c = owned_count [OF f(2)]
  obtain s mp' k' where a: "rt_mp_alloc 0 mp k = Inr (s, mp', k')" "mp_ok i n mp' k' (es @ allocation mp s)"
      "block_free_count mp \<noteq> 0 \<longrightarrow> (\<exists>b. s = Block b)" "block_free_count mp = 0 \<longrightarrow> s = No_block"
    using allocate_step [OF o, of 0] by auto
  have "owned mp b = None" if "s = Block b" for b
    using a(2) f(3) that by (auto simp: mp_ok_def holders_append allocation_def split: if_splits)
  then have "if card (dom (owned mp)) < block_total_count mp then \<exists>b. s = Block b \<and> owned mp b = None else s = No_block"
    using a(3,4) c by (cases "block_free_count mp = 0") auto
  moreover have "may_block i time k \<longrightarrow> (\<exists>s mp' k'. rt_mp_alloc time mp k = Inr (s, mp', k'))" using allocate_step [OF o, of time] by blast
  moreover have "owned mp b \<noteq> None \<longrightarrow> (\<exists>mp' k'. rt_mp_free (Some b) mp k = Inr (mp', k') \<and> owned mp' = (owned mp)(b := None))"
    using rt_mp_free_ok [OF f(2,1), of b] by blast
  ultimately show ?thesis using f c a(1) unfolding n_def by blast
qed

definition no_pool :: rt_mempool where
  "no_pool = \<lparr>mp_class = Class_Null, mp_blocks = [], mp_size = 0, mp_block_size = 0, block_list = None, block_total_count = 0,
     block_free_count = 0, mp_list = 0\<rparr>"

theorem rt_mp_blocks_witness:
  "\<exists>mp0 mp. rt_mp_init (replicate 18 0) 18 3 5 no_pool two_threads = Inr (mp0, two_threads) \<and>
     mp_run 0 (mp0, two_threads) [Allocated 0 (replicate 4 0)] (mp, two_threads) \<and> owned mp 0 = Some (replicate 4 0) \<and> block_free_count mp = 1"
proof -
  define f where "f p = \<lparr>mp_pointer = p, mp_bytes = replicate 4 (0 :: 8 word)\<rparr>" for p
  define mp0 where "mp0 = \<lparr>mp_class = Class_Static, mp_blocks = [f (Next (Some 1)), f (Next None)], mp_size = 16, mp_block_size = 4,
      block_list = Some 0, block_total_count = 2, block_free_count = 2, mp_list = 5\<rparr>"
  define mp where "mp = mp0\<lparr>mp_blocks := [f Owner, f (Next None)], block_list := Some 1, block_free_count := 1\<rparr>"
  have "mp_link_blocks 2 0 p = bnd (set_pointer 0 (Next (Some 1)) p) (set_pointer 1 (Next (Some 2)))" for p
    by (cases "set_pointer 0 (Next (Some 1)) p") (simp_all add: numeral_2_eq_2 bnd_def split: sum.split)
  moreover have "[0..<2] = [0, 1]" by (simp add: upt_rec)
  moreover have "(waiting two_threads)(5 := []) = waiting two_threads" by (simp add: fun_eq_iff two_threads_waiting)
  then have "two_threads\<lparr>waiting := (waiting two_threads)(5 := [])\<rparr> = two_threads" by simp
  ultimately have init: "rt_mp_init (replicate 18 0) 18 3 5 no_pool two_threads = Inr (mp0, two_threads)"
    by (simp add: rt_mp_init_def mp_setup_def cut_blocks_def no_pool_def RT_ASSERT_def RT_ALIGN_def Let_def set_pointer_def mp0_def f_def)
  have a: "rt_mp_alloc 0 mp0 two_threads = Inr (Block 0, mp, two_threads)"
    by (simp add: rt_mp_alloc_def mp_alloc_loop_def set_pointer_def mp0_def mp_def f_def)
  have r: "mp_run 0 (mp0, two_threads) [Allocated 0 (replicate 4 0)] (mp, two_threads)"
    using mp_run.mp_allocate [OF mp_run.mp_start _ a, of 0] by (simp add: allocation_def mp0_def f_def)
  have "holders Map.empty [Allocated 0 (replicate 4 0)] = Some (owned mp)" using rt_mp_blocks [OF init two_threads_running r] by blast
  then have "owned mp = [0 \<mapsto> replicate 4 0]" by simp
  then have "owned mp 0 = Some (replicate 4 0)" by simp
  then show ?thesis using init r by (intro exI [of _ mp0] exI [of _ mp]) (simp add: mp_def)
qed

end
