(* ===== verification/Objects.thy ===== *)
theory Objects
  imports Kservice Kernel
begin

text \<open>
  Kernel objects (\<^verbatim>\<open>src/rt-thread/src/object.c\<close>): one list of objects per class, names of at most eight characters, lookup by name. An object is an
  address; its list node counts as linked once it was inserted, and removing an object that never was follows wild pointers. The memory of a dynamic object
  is the result of the allocation, an argument of \<open>rt_object_allocate\<close>.
\<close>

unbundle bit_operations_syntax

section \<open>Objects and containers\<close>

record rt_object =
  obj_name :: cbuf
  obj_type :: "8 word"
  obj_flag :: "8 word"
  obj_linked :: bool

record objects =
  obj_at :: "nat \<Rightarrow> rt_object"
  container :: "8 word \<Rightarrow> nat list"

definition RT_NAME_MAX :: nat where
  "RT_NAME_MAX = 8"

definition RT_Object_Class_Static :: "8 word" where
  "RT_Object_Class_Static = 0x80"

definition RT_Object_Class_Device :: "8 word" where
  "RT_Object_Class_Device = 9"

definition rt_object_container :: "8 word list" where
  \<comment> \<open>threads, semaphores, mutexes, events, mailboxes, message queues, memory pools, devices, timers\<close>
  "rt_object_container = [1, 2, 3, 4, 5, 6, 8, 9, 10]"

definition rt_object_get_information :: "8 word \<Rightarrow> 8 word option" where
  "rt_object_get_information type = find (\<lambda>c. c = type) rt_object_container"

definition rt_object_get_length :: "8 word \<Rightarrow> objects \<Rightarrow> nat" where
  "rt_object_get_length type s =
     (case rt_object_get_information type of None \<Rightarrow> 0 | Some c \<Rightarrow> length (container s c))"

definition rt_object_get_pointers :: "8 word \<Rightarrow> int \<Rightarrow> objects \<Rightarrow> nat list" where
  \<comment> \<open>what is stored in the array of the caller\<close>
  "rt_object_get_pointers type maxlen s =
     (if maxlen \<le> 0 then []
      else case rt_object_get_information type of None \<Rightarrow> [] | Some c \<Rightarrow> take (nat maxlen) (container s c))"

definition insert_object :: "8 word \<Rightarrow> nat \<Rightarrow> rt_object \<Rightarrow> objects \<Rightarrow> objects" where
  \<comment> \<open>insert the object at the front of the list of its class\<close>
  "insert_object c a ob s =
     s\<lparr>obj_at := (obj_at s)(a := ob\<lparr>obj_linked := True\<rparr>), container := (container s)(c := a # container s c)\<rparr>"

definition rt_object_init :: "nat \<Rightarrow> 8 word \<Rightarrow> cbuf \<Rightarrow> objects \<Rightarrow> objects res" where
  "rt_object_init object type name s =
     (case rt_object_get_information type of
        None \<Rightarrow> Inl Assertion_failed
      | Some c \<Rightarrow>
          bnd (RT_ASSERT (object \<notin> set (container s c))) (\<lambda>_.
          let ob = (obj_at s object)\<lparr>obj_type := type OR RT_Object_Class_Static\<rparr> in
          bnd (rt_strncpy (obj_name ob) name RT_NAME_MAX) (\<lambda>n.
          Inr (insert_object c object (ob\<lparr>obj_name := n\<rparr>) s))))"

definition remove_object :: "nat \<Rightarrow> objects \<Rightarrow> objects res" where
  \<comment> \<open>clear the type and take the object off its list\<close>
  "remove_object object s =
     (if obj_linked (obj_at s object)
      then Inr (s\<lparr>obj_at := (obj_at s)(object := (obj_at s object)\<lparr>obj_type := 0\<rparr>), container := \<lambda>c. removeAll object (container s c)\<rparr>)
      else Inl Out_of_bounds)"

definition rt_object_detach :: "nat \<Rightarrow> objects \<Rightarrow> objects res" where
  "rt_object_detach object s = remove_object object s"

definition rt_object_allocate :: "nat option \<Rightarrow> 8 word \<Rightarrow> cbuf \<Rightarrow> objects \<Rightarrow> (nat option \<times> objects) res" where
  \<comment> \<open>\<open>mem\<close> is the result of the allocation\<close>
  "rt_object_allocate mem type name s =
     (case rt_object_get_information type of
        None \<Rightarrow> Inl Assertion_failed
      | Some c \<Rightarrow>
          (case mem of
             None \<Rightarrow> Inr (None, s)
           | Some object \<Rightarrow>
               bnd (rt_strncpy (replicate RT_NAME_MAX NUL) name RT_NAME_MAX) (\<lambda>n.
               Inr (Some object, insert_object c object \<lparr>obj_name = n, obj_type = type, obj_flag = 0, obj_linked = False\<rparr> s))))"

definition rt_object_is_systemobject :: "nat \<Rightarrow> objects \<Rightarrow> bool" where
  "rt_object_is_systemobject object s \<longleftrightarrow> obj_type (obj_at s object) AND RT_Object_Class_Static \<noteq> 0"

definition rt_object_get_type :: "nat \<Rightarrow> objects \<Rightarrow> 8 word" where
  "rt_object_get_type object s = obj_type (obj_at s object) AND NOT RT_Object_Class_Static"

definition rt_object_delete :: "nat \<Rightarrow> objects \<Rightarrow> objects res" where
  \<comment> \<open>the memory is released afterwards\<close>
  "rt_object_delete object s =
     bnd (RT_ASSERT (\<not> rt_object_is_systemobject object s)) (\<lambda>_. remove_object object s)"

fun find_name :: "objects \<Rightarrow> cbuf \<Rightarrow> nat list \<Rightarrow> nat option res" where
  "find_name s name [] = Inr None"
| "find_name s name (a # as) =
     bnd (rt_strncmp (obj_name (obj_at s a)) name RT_NAME_MAX) (\<lambda>r. if r = 0 then Inr (Some a) else find_name s name as)"

definition rt_object_find :: "cbuf option \<Rightarrow> 8 word \<Rightarrow> objects \<Rightarrow> nat option res" where
  "rt_object_find name type s =
     (case (name, rt_object_get_information type) of
        (Some n, Some c) \<Rightarrow> find_name s n (container s c)
      | _ \<Rightarrow> Inr None)"

section \<open>What is registered\<close>

datatype obj_op = Init nat "8 word" cbuf | Allocate "nat option" "8 word" cbuf | Detach nat | Delete nat

fun obj_exec :: "obj_op \<Rightarrow> objects \<Rightarrow> objects res" where
  "obj_exec (Init a c n) s = rt_object_init a c n s"
| "obj_exec (Allocate m c n) s = bnd (rt_object_allocate m c n s) (\<lambda>(_, s). Inr s)"
| "obj_exec (Detach a) s = rt_object_detach a s"
| "obj_exec (Delete a) s = rt_object_delete a s"

definition readable :: "cbuf \<Rightarrow> bool" where
  \<comment> \<open>a name: a terminated string, or at least as many characters as are stored\<close>
  "readable n \<longleftrightarrow> terminated n \<or> RT_NAME_MAX \<le> length n"

definition listed :: "objects \<Rightarrow> nat \<Rightarrow> bool" where
  "listed s a \<longleftrightarrow> (\<exists>c \<in> set rt_object_container. a \<in> set (container s c))"

fun obj_permitted :: "obj_op \<Rightarrow> objects \<Rightarrow> bool" where
  \<comment> \<open>the duties of the caller: known classes, names, objects that are not registered yet, or that are\<close>
  "obj_permitted (Init a c n) s \<longleftrightarrow> c \<in> set rt_object_container \<and> readable n \<and> \<not> listed s a \<and> length (obj_name (obj_at s a)) = RT_NAME_MAX"
| "obj_permitted (Allocate m c n) s \<longleftrightarrow> c \<in> set rt_object_container \<and> readable n \<and> (case m of None \<Rightarrow> True | Some a \<Rightarrow> \<not> listed s a)"
| "obj_permitted (Detach a) s \<longleftrightarrow> listed s a"
| "obj_permitted (Delete a) s \<longleftrightarrow> listed s a \<and> \<not> rt_object_is_systemobject a s"

fun obj_run :: "objects \<Rightarrow> obj_op list \<Rightarrow> objects res" where
  "obj_run s [] = Inr s"
| "obj_run s (op # ops) = bnd (obj_exec op s) (\<lambda>s. obj_run s ops)"

fun obj_obeys :: "objects \<Rightarrow> obj_op list \<Rightarrow> bool" where
  "obj_obeys s [] \<longleftrightarrow> True"
| "obj_obeys s (op # ops) \<longleftrightarrow> obj_permitted op s \<and> (case obj_exec op s of Inl _ \<Rightarrow> True | Inr s \<Rightarrow> obj_obeys s ops)"

definition stored_name :: "cbuf \<Rightarrow> string" where
  "stored_name n = take RT_NAME_MAX (cstr n)"

text \<open>The abstract registry: for every class the registered objects and their names, the newest first.\<close>

type_synonym registry = "8 word \<Rightarrow> (nat \<times> string) list"

fun register :: "obj_op \<Rightarrow> registry \<Rightarrow> registry" where
  "register (Init a c n) r = r(c := (a, stored_name n) # r c)"
| "register (Allocate None c n) r = r"
| "register (Allocate (Some a) c n) r = r(c := (a, stored_name n) # r c)"
| "register (Detach a) r = (\<lambda>c. filter (\<lambda>(b, _). b \<noteq> a) (r c))"
| "register (Delete a) r = (\<lambda>c. filter (\<lambda>(b, _). b \<noteq> a) (r c))"

definition registry :: "obj_op list \<Rightarrow> registry" where
  "registry ops = fold register ops (\<lambda>_. [])"

section \<open>The registry is what the lists hold\<close>

definition obj_inv :: "objects \<Rightarrow> registry \<Rightarrow> bool" where
  "obj_inv s r \<longleftrightarrow> (\<forall>c. map fst (r c) = container s c \<and> (c \<notin> set rt_object_container \<longrightarrow> r c = []) \<and>
     (\<forall>a n. (a, n) \<in> set (r c) \<longrightarrow> obj_linked (obj_at s a) \<and> length (obj_name (obj_at s a)) = RT_NAME_MAX \<and> stored_name (obj_name (obj_at s a)) = n))"

lemma information [simp]: "rt_object_get_information c = (if c \<in> set rt_object_container then Some c else None)"
  by (auto simp: rt_object_get_information_def find_None_iff find_Some_iff rt_object_container_def split: if_splits)

lemma cstr_padded: "NUL \<notin> set xs \<Longrightarrow> cstr (xs @ replicate m NUL) = xs"
  by (induction xs) (cases m, auto)

lemma copy_name:
  assumes "readable n" "length dst = RT_NAME_MAX"
  shows "\<exists>b. rt_strncpy dst n RT_NAME_MAX = Inr b \<and> length b = RT_NAME_MAX \<and> stored_name b = stored_name n"
proof -
  have "rt_strncpy dst n RT_NAME_MAX = Inr (overwrite dst 0 (take RT_NAME_MAX (cstr n @ replicate RT_NAME_MAX NUL)))"
    using assms strncpy_from_spec [of 0 RT_NAME_MAX dst n] by (simp add: rt_strncpy_def readable_def)
  moreover have "NUL \<notin> set (take RT_NAME_MAX (cstr n))" using cstr_no_NUL [of n] by (blast dest: in_set_takeD)
  ultimately show ?thesis using assms(2) by (simp add: overwrite_def stored_name_def cstr_padded min_def)
qed

lemma obj_invD:
  assumes "obj_inv s r"
  shows "map fst (r c) = container s c" "c \<notin> set rt_object_container \<Longrightarrow> r c = []"
    "(a, n) \<in> set (r c) \<Longrightarrow> obj_linked (obj_at s a) \<and> length (obj_name (obj_at s a)) = RT_NAME_MAX \<and> stored_name (obj_name (obj_at s a)) = n"
  using assms by (simp_all add: obj_inv_def)

lemma obj_invI:
  assumes "\<And>c. map fst (r c) = container s c" "\<And>c. c \<notin> set rt_object_container \<Longrightarrow> r c = []"
    and "\<And>a n c. (a, n) \<in> set (r c) \<Longrightarrow> obj_linked (obj_at s a) \<and> length (obj_name (obj_at s a)) = RT_NAME_MAX \<and> stored_name (obj_name (obj_at s a)) = n"
  shows "obj_inv s r"
  using assms by (simp add: obj_inv_def)

lemma in_registry:
  assumes "obj_inv s r"
  shows "a \<in> set (container s c) \<longleftrightarrow> (\<exists>n. (a, n) \<in> set (r c))"
proof -
  have "set (container s c) = fst ` set (r c)" unfolding obj_invD(1) [OF assms, symmetric] by simp
  then show ?thesis by force
qed

lemma listed_inv:
  assumes "obj_inv s r" "(a, n) \<in> set (r c)"
  shows "listed s a"
proof -
  have "c \<in> set rt_object_container" using obj_invD(2) [OF assms(1), of c] assms(2) by (cases "c \<in> set rt_object_container") simp_all
  then show ?thesis using in_registry [OF assms(1), of a c] assms(2) by (auto simp: listed_def)
qed

lemma insert_inv:
  assumes "obj_inv s r" "\<not> listed s a" "c \<in> set rt_object_container" "length (obj_name ob) = RT_NAME_MAX" "stored_name (obj_name ob) = n"
  shows "obj_inv (insert_object c a ob s) (r(c := (a, n) # r c))"
proof (rule obj_invI)
  have ne: "b \<noteq> a" if "(b, m) \<in> set (r d)" for b m d using listed_inv [OF assms(1) that] assms(2) by blast
  show "obj_linked (obj_at (insert_object c a ob s) b) \<and> length (obj_name (obj_at (insert_object c a ob s) b)) = RT_NAME_MAX \<and>
      stored_name (obj_name (obj_at (insert_object c a ob s) b)) = m" if "(b, m) \<in> set ((r(c := (a, n) # r c)) d)" for b m d
    using that ne [of b m d] obj_invD(3) [OF assms(1), of b m d] assms(4,5) by (auto simp: insert_object_def split: if_splits)
  show "map fst ((r(c := (a, n) # r c)) d) = container (insert_object c a ob s) d" for d
    using obj_invD(1) [OF assms(1)] by (simp add: insert_object_def)
  show "(r(c := (a, n) # r c)) d = []" if "d \<notin> set rt_object_container" for d
    using obj_invD(2) [OF assms(1) that] assms(3) that by auto
qed

lemma remove_inv:
  assumes "obj_inv s r" "listed s a"
  shows "\<exists>s'. remove_object a s = Inr s' \<and> obj_inv s' (\<lambda>c. filter (\<lambda>(b, _). b \<noteq> a) (r c))"
proof -
  have l: "obj_linked (obj_at s a)" using assms in_registry [OF assms(1)] obj_invD(3) [OF assms(1)] by (auto simp: listed_def)
  have f: "map fst (filter (\<lambda>(b, _). b \<noteq> a) xs) = removeAll a (map fst xs)" for xs :: "(nat \<times> string) list"
    by (induction xs) auto
  let ?s = "s\<lparr>obj_at := (obj_at s)(a := (obj_at s a)\<lparr>obj_type := 0\<rparr>), container := \<lambda>c. removeAll a (container s c)\<rparr>"
  have "obj_inv ?s (\<lambda>c. filter (\<lambda>(b, _). b \<noteq> a) (r c))"
  proof (rule obj_invI)
    show "map fst (filter (\<lambda>(b, _). b \<noteq> a) (r c)) = container ?s c" for c using obj_invD(1) [OF assms(1), of c] by (simp add: f)
    show "filter (\<lambda>(b, _). b \<noteq> a) (r c) = []" if "c \<notin> set rt_object_container" for c using obj_invD(2) [OF assms(1) that] by simp
    show "obj_linked (obj_at ?s b) \<and> length (obj_name (obj_at ?s b)) = RT_NAME_MAX \<and> stored_name (obj_name (obj_at ?s b)) = n"
      if "(b, n) \<in> set (filter (\<lambda>(b, _). b \<noteq> a) (r c))" for b n c
      using obj_invD(3) [OF assms(1), of b n c] that by auto
  qed
  then show ?thesis using l by (simp add: remove_object_def)
qed

lemma exec_inv:
  assumes "obj_inv s r" "obj_permitted op s"
  shows "\<exists>s'. obj_exec op s = Inr s' \<and> obj_inv s' (register op r)"
proof (cases op)
  case (Init a c n)
  have p: "c \<in> set rt_object_container" "readable n" "\<not> listed s a" "length (obj_name (obj_at s a)) = RT_NAME_MAX" using assms(2) Init by auto
  obtain b where b: "rt_strncpy (obj_name (obj_at s a)) n RT_NAME_MAX = Inr b" "length b = RT_NAME_MAX" "stored_name b = stored_name n"
    using copy_name [OF p(2,4)] by blast
  have "a \<notin> set (container s c)" using p(1,3) by (auto simp: listed_def)
  then show ?thesis
    using insert_inv [OF assms(1) p(3,1), of "(obj_at s a)\<lparr>obj_type := c OR RT_Object_Class_Static, obj_name := b\<rparr>"] b p(1) Init
    by (simp add: rt_object_init_def RT_ASSERT_def Let_def)
next
  case (Allocate m c n)
  show ?thesis
  proof (cases m)
    case None
    then show ?thesis using assms Allocate by (simp add: rt_object_allocate_def)
  next
    case (Some a)
    have p: "c \<in> set rt_object_container" "readable n" "\<not> listed s a" using assms(2) Allocate Some by auto
    obtain b where b: "rt_strncpy (replicate RT_NAME_MAX NUL) n RT_NAME_MAX = Inr b" "length b = RT_NAME_MAX" "stored_name b = stored_name n"
      using copy_name [OF p(2)] by force
    show ?thesis
      using insert_inv [OF assms(1) p(3,1), of "\<lparr>obj_name = b, obj_type = c, obj_flag = 0, obj_linked = False\<rparr>"] b p(1) Allocate Some
      by (simp add: rt_object_allocate_def)
  qed
next
  case (Detach a)
  then show ?thesis using remove_inv [OF assms(1), of a] assms(2) by (simp add: rt_object_detach_def)
next
  case (Delete a)
  then show ?thesis using remove_inv [OF assms(1), of a] assms(2) by (simp add: rt_object_delete_def RT_ASSERT_def)
qed

lemma run_inv:
  "obj_inv s r \<Longrightarrow> obj_obeys s ops \<Longrightarrow> \<exists>s'. obj_run s ops = Inr s' \<and> obj_inv s' (fold register ops r)"
proof (induction ops arbitrary: s r)
  case (Cons op ops)
  obtain s1 where "obj_exec op s = Inr s1" "obj_inv s1 (register op r)" using exec_inv [of s r op] Cons.prems by auto
  then show ?case using Cons.IH [of s1 "register op r"] Cons.prems(2) by auto
qed simp

lemma find_name_spec:
  assumes "readable name" "\<forall>(a, n) \<in> set xs. length (obj_name (obj_at s a)) = RT_NAME_MAX \<and> stored_name (obj_name (obj_at s a)) = n"
  shows "find_name s name (map fst xs) = Inr (map_option fst (find (\<lambda>(a, n). n = stored_name name) xs))"
  using assms(2)
proof (induction xs)
  case (Cons x xs)
  obtain a n where x: "x = (a, n)" by (cases x)
  have a: "length (obj_name (obj_at s a)) = RT_NAME_MAX" "stored_name (obj_name (obj_at s a)) = n" using Cons.prems x by auto
  obtain r where "rt_strncmp (obj_name (obj_at s a)) name RT_NAME_MAX = Inr r" "r = 0 \<longleftrightarrow> n = stored_name name"
    using rt_strncmp_eq [of "obj_name (obj_at s a)" RT_NAME_MAX name] assms(1) a by (auto simp: readable_def stored_name_def)
  then show ?case using Cons x by auto
qed simp

lemma empty_inv: "obj_inv \<lparr>obj_at = f, container = \<lambda>_. []\<rparr> (\<lambda>_. [])"
  by (simp add: obj_inv_def)

text \<open>
  C23. Kernel objects are found by their names. After every sequence of initialising, allocating, detaching and deleting objects in which the callers
  keep their duties, no operation has faulted, the list of each class holds exactly the registered objects, newest first, and a
  lookup returns the newest registered object of the class whose name agrees in the first eight characters, and nothing if there is none.
\<close>
theorem rt_object_find_newest:
  assumes "obj_obeys \<lparr>obj_at = f, container = \<lambda>_. []\<rparr> ops" and "readable name"
  shows "\<exists>s. obj_run \<lparr>obj_at = f, container = \<lambda>_. []\<rparr> ops = Inr s \<and>
     rt_object_find (Some name) c s = Inr (map_option fst (find (\<lambda>(a, n). n = stored_name name) (registry ops c))) \<and>
     rt_object_get_length c s = length (registry ops c) \<and>
     rt_object_get_pointers c maxlen s = take (nat maxlen) (map fst (registry ops c))"
proof -
  obtain s where s: "obj_run \<lparr>obj_at = f, container = \<lambda>_. []\<rparr> ops = Inr s" "obj_inv s (registry ops)"
    using run_inv [OF empty_inv assms(1)] by (auto simp: registry_def)
  have r: "container s c = map fst (registry ops c)" "c \<notin> set rt_object_container \<Longrightarrow> registry ops c = []"
      "\<forall>(a, n) \<in> set (registry ops c). length (obj_name (obj_at s a)) = RT_NAME_MAX \<and> stored_name (obj_name (obj_at s a)) = n"
    using s(2) by (auto simp: obj_inv_def)
  have "rt_object_find (Some name) c s = Inr (map_option fst (find (\<lambda>(a, n). n = stored_name name) (registry ops c)))"
    using find_name_spec [OF assms(2) r(3)] r(1,2) by (simp add: rt_object_find_def)
  moreover have "rt_object_get_length c s = length (registry ops c)" using r(1,2) by (simp add: rt_object_get_length_def)
  moreover have "rt_object_get_pointers c maxlen s = take (nat maxlen) (map fst (registry ops c))"
    using r(1,2) by (simp add: rt_object_get_pointers_def)
  ultimately show ?thesis using s(1) by blast
qed

theorem rt_object_find_newest_witness:
  "\<exists>s. obj_run \<lparr>obj_at = \<lambda>_. \<lparr>obj_name = replicate 8 NUL, obj_type = 0, obj_flag = 0, obj_linked = False\<rparr>, container = \<lambda>_. []\<rparr>
       [Init 4 9 (''uart1'' @ [NUL]), Allocate (Some 8) 9 (''console_a'' @ [NUL]), Init 12 9 (''spi1'' @ [NUL]), Detach 12] = Inr s \<and>
     rt_object_find (Some (''console_b'' @ [NUL])) 9 s = Inr (Some 8)"
proof -
  let ?f = "\<lambda>_ :: nat. \<lparr>obj_name = replicate 8 NUL, obj_type = 0, obj_flag = 0, obj_linked = False\<rparr>"
  let ?ops = "[Init 4 9 (''uart1'' @ [NUL]), Allocate (Some 8) 9 (''console_a'' @ [NUL]), Init 12 9 (''spi1'' @ [NUL]), Detach 12]"
  have "obj_obeys \<lparr>obj_at = ?f, container = \<lambda>_. []\<rparr> ?ops" by code_simp
  moreover have "readable (''console_b'' @ [NUL])" by (simp add: readable_def)
  ultimately obtain s where "obj_run \<lparr>obj_at = ?f, container = \<lambda>_. []\<rparr> ?ops = Inr s"
      "rt_object_find (Some (''console_b'' @ [NUL])) 9 s = Inr (map_option fst (find (\<lambda>(a, n). n = stored_name (''console_b'' @ [NUL])) (registry ?ops 9)))"
    using rt_object_find_newest by blast
  moreover have "map_option fst (find (\<lambda>(a, n). n = stored_name (''console_b'' @ [NUL])) (registry ?ops 9)) = Some 8" by code_simp
  ultimately show ?thesis by simp
qed

end
