(* ===== verification/Device.thy ===== *)
theory Device
  imports Objects Mempool
begin

text \<open>
  The device layer (\<^verbatim>\<open>src/rt-thread/src/device.c\<close>): registration, opening and closing with a reference count, and the calls
  that go through to the driver. A driver is a record of functions on the device with its private data, each of which may be missing. The fields for
  the file layer are not modelled.
\<close>

unbundle bit_operations_syntax

section \<open>Devices\<close>

abbreviation RT_ENOSYS :: int where "RT_ENOSYS \<equiv> 6"
abbreviation RT_EBUSY :: int where "RT_EBUSY \<equiv> 7"

definition RT_DEVICE_FLAG_STANDALONE :: "16 word" where "RT_DEVICE_FLAG_STANDALONE = 0x008"
definition RT_DEVICE_FLAG_ACTIVATED :: "16 word" where "RT_DEVICE_FLAG_ACTIVATED = 0x010"
definition RT_DEVICE_OFLAG_OPEN :: "16 word" where "RT_DEVICE_OFLAG_OPEN = 0x008"
definition RT_DEVICE_OFLAG_CLOSE :: "16 word" where "RT_DEVICE_OFLAG_CLOSE = 0"
definition RT_DEVICE_OFLAG_MASK :: "16 word" where "RT_DEVICE_OFLAG_MASK = 0xf0f"

record 'd rt_device =
  dev_type :: int
  dev_flag :: "16 word"
  open_flag :: "16 word"
  ref_count :: "8 word"
  rx_indicate :: "nat option"
  tx_complete :: "nat option"
  drv :: 'd

record 'd driver =
  device_init :: "('d rt_device \<Rightarrow> int \<times> 'd rt_device) option"
  device_open :: "('d rt_device \<Rightarrow> 16 word \<Rightarrow> int \<times> 'd rt_device) option"
  device_close :: "('d rt_device \<Rightarrow> int \<times> 'd rt_device) option"
  device_read :: "('d rt_device \<Rightarrow> int \<Rightarrow> nat \<Rightarrow> 8 word list \<times> 'd rt_device) option"
  device_write :: "('d rt_device \<Rightarrow> int \<Rightarrow> 8 word list \<Rightarrow> nat \<times> 'd rt_device) option"
  device_control :: "('d rt_device \<Rightarrow> int \<Rightarrow> int \<times> 'd rt_device) option"

text \<open>The objects, the devices at their addresses, and the devices whose failed initialisation was reported on the console.\<close>

record 'd devices =
  objs :: objects
  dev_at :: "nat \<Rightarrow> 'd rt_device"
  reports :: "(nat \<times> int) list"

definition set_dev :: "nat \<Rightarrow> 'd rt_device \<Rightarrow> 'd devices \<Rightarrow> 'd devices" where
  "set_dev a d s = s\<lparr>dev_at := (dev_at s)(a := d)\<rparr>"

definition is_device :: "nat \<Rightarrow> 'd devices \<Rightarrow> bool" where
  "is_device a s \<longleftrightarrow> rt_object_get_type a (objs s) = RT_Object_Class_Device"

definition rt_device_find :: "cbuf option \<Rightarrow> 'd devices \<Rightarrow> nat option res" where
  "rt_device_find name s = rt_object_find name RT_Object_Class_Device (objs s)"

definition rt_device_register :: "nat option \<Rightarrow> cbuf \<Rightarrow> 16 word \<Rightarrow> 'd devices \<Rightarrow> (int \<times> 'd devices) res" where
  "rt_device_register dev name flags s =
     (case dev of
        None \<Rightarrow> Inr (- RT_ERROR, s)
      | Some a \<Rightarrow>
          bnd (rt_device_find (Some name) s) (\<lambda>found.
          if found \<noteq> None then Inr (- RT_ERROR, s)
          else bnd (rt_object_init a RT_Object_Class_Device name (objs s)) (\<lambda>os.
               Inr (RT_EOK, set_dev a ((dev_at s a)\<lparr>dev_flag := flags, ref_count := 0, open_flag := 0\<rparr>) (s\<lparr>objs := os\<rparr>)))))"

definition rt_device_unregister :: "nat \<Rightarrow> 'd devices \<Rightarrow> (int \<times> 'd devices) res" where
  "rt_device_unregister a s =
     bnd (RT_ASSERT (is_device a s)) (\<lambda>_.
     bnd (RT_ASSERT (rt_object_is_systemobject a (objs s))) (\<lambda>_.
     bnd (rt_object_detach a (objs s)) (\<lambda>os. Inr (RT_EOK, s\<lparr>objs := os\<rparr>))))"

definition rt_device_create :: "nat option \<Rightarrow> int \<Rightarrow> 'd \<Rightarrow> 'd devices \<Rightarrow> nat option \<times> 'd devices" where
  \<comment> \<open>\<open>mem\<close> is the result of \<open>rt_malloc\<close>; the device and its object are cleared, \<open>d\<close> is the private data of zeros\<close>
  "rt_device_create mem type d s =
     (case mem of
        None \<Rightarrow> (None, s)
      | Some a \<Rightarrow>
          (Some a, (set_dev a \<lparr>dev_type = type, dev_flag = 0, open_flag = 0, ref_count = 0, rx_indicate = None, tx_complete = None, drv = d\<rparr> s)
             \<lparr>objs := (objs s)\<lparr>obj_at := (obj_at (objs s))(a := \<lparr>obj_name = replicate RT_NAME_MAX NUL, obj_type = 0, obj_flag = 0, obj_linked = False\<rparr>)\<rparr>\<rparr>))"

definition rt_device_destroy :: "nat \<Rightarrow> 'd devices \<Rightarrow> 'd devices res" where
  \<comment> \<open>the memory is released afterwards\<close>
  "rt_device_destroy a s =
     bnd (RT_ASSERT (is_device a s)) (\<lambda>_.
     bnd (RT_ASSERT (\<not> rt_object_is_systemobject a (objs s))) (\<lambda>_.
     bnd (rt_object_detach a (objs s)) (\<lambda>os. Inr (s\<lparr>objs := os\<rparr>))))"

definition call_init :: "'d driver \<Rightarrow> nat \<Rightarrow> 'd devices \<Rightarrow> int \<times> 'd devices" where
  \<comment> \<open>call the initialisation of the driver; a failure is reported\<close>
  "call_init ops a s =
     (case device_init ops of
        None \<Rightarrow> (RT_EOK, s)
      | Some f \<Rightarrow>
          let (result, d) = f (dev_at s a);
              s = set_dev a d s in
          (result, if result \<noteq> RT_EOK then s\<lparr>reports := reports s @ [(a, result)]\<rparr> else s))"

definition activate :: "nat \<Rightarrow> 'd devices \<Rightarrow> 'd devices" where
  "activate a s = set_dev a ((dev_at s a)\<lparr>dev_flag := dev_flag (dev_at s a) OR RT_DEVICE_FLAG_ACTIVATED\<rparr>) s"

definition rt_device_init :: "'d driver \<Rightarrow> nat \<Rightarrow> 'd devices \<Rightarrow> int \<times> 'd devices" where
  "rt_device_init ops a s =
     (if device_init ops \<noteq> None \<and> dev_flag (dev_at s a) AND RT_DEVICE_FLAG_ACTIVATED = 0
      then let (result, s) = call_init ops a s in (result, if result = RT_EOK then activate a s else s)
      else (RT_EOK, s))"

definition accepted :: "int \<Rightarrow> bool" where
  "accepted result \<longleftrightarrow> result = RT_EOK \<or> result = - RT_ENOSYS"

definition open_device :: "'d driver \<Rightarrow> nat \<Rightarrow> 16 word \<Rightarrow> 'd devices \<Rightarrow> (int \<times> 'd devices) res" where
  \<comment> \<open>\<open>rt_device_open\<close> of an activated device\<close>
  "open_device ops a oflag s =
     (let d = dev_at s a in
      if dev_flag d AND RT_DEVICE_FLAG_STANDALONE \<noteq> 0 \<and> open_flag d AND RT_DEVICE_OFLAG_OPEN \<noteq> 0 then Inr (- RT_EBUSY, s)
      else let (result, d) = (case device_open ops of
                                Some f \<Rightarrow> f d oflag
                              | None \<Rightarrow> (RT_EOK, d\<lparr>open_flag := oflag AND RT_DEVICE_OFLAG_MASK\<rparr>)) in
           if accepted result
           then let d = d\<lparr>open_flag := open_flag d OR RT_DEVICE_OFLAG_OPEN, ref_count := ref_count d + 1\<rparr> in
                bnd (RT_ASSERT (ref_count d \<noteq> 0)) (\<lambda>_. Inr (result, set_dev a d s))
           else Inr (result, set_dev a d s))"

definition rt_device_open :: "'d driver \<Rightarrow> nat \<Rightarrow> 16 word \<Rightarrow> 'd devices \<Rightarrow> (int \<times> 'd devices) res" where
  "rt_device_open ops a oflag s =
     bnd (RT_ASSERT (is_device a s)) (\<lambda>_.
     if dev_flag (dev_at s a) AND RT_DEVICE_FLAG_ACTIVATED = 0
     then let (result, s) = call_init ops a s in
          if result \<noteq> RT_EOK then Inr (result, s) else open_device ops a oflag (activate a s)
     else open_device ops a oflag s)"

definition rt_device_close :: "'d driver \<Rightarrow> nat \<Rightarrow> 'd devices \<Rightarrow> (int \<times> 'd devices) res" where
  "rt_device_close ops a s =
     bnd (RT_ASSERT (is_device a s)) (\<lambda>_.
     let d = dev_at s a in
     if ref_count d = 0 then Inr (- RT_ERROR, s)
     else let d = d\<lparr>ref_count := ref_count d - 1\<rparr> in
     if ref_count d \<noteq> 0 then Inr (RT_EOK, set_dev a d s)
     else let (result, d) = (case device_close ops of None \<Rightarrow> (RT_EOK, d) | Some f \<Rightarrow> f d) in
          Inr (result, set_dev a (if accepted result then d\<lparr>open_flag := RT_DEVICE_OFLAG_CLOSE\<rparr> else d) s))"

definition rt_device_read :: "'d driver \<Rightarrow> nat \<Rightarrow> int \<Rightarrow> nat \<Rightarrow> 'd devices \<Rightarrow> kernel \<Rightarrow> (8 word list \<times> 'd devices \<times> kernel) res" where
  \<comment> \<open>the bytes that were read\<close>
  "rt_device_read ops a pos n s k =
     bnd (RT_ASSERT (is_device a s)) (\<lambda>_.
     if ref_count (dev_at s a) = 0 then Inr ([], s, rt_set_errno (- RT_ERROR) k)
     else case device_read ops of
            Some f \<Rightarrow> let (bs, d) = f (dev_at s a) pos n in Inr (bs, set_dev a d s, k)
          | None \<Rightarrow> Inr ([], s, rt_set_errno (- RT_ENOSYS) k))"

definition rt_device_write :: "'d driver \<Rightarrow> nat \<Rightarrow> int \<Rightarrow> 8 word list \<Rightarrow> 'd devices \<Rightarrow> kernel \<Rightarrow> (nat \<times> 'd devices \<times> kernel) res" where
  "rt_device_write ops a pos buffer s k =
     bnd (RT_ASSERT (is_device a s)) (\<lambda>_.
     if ref_count (dev_at s a) = 0 then Inr (0, s, rt_set_errno (- RT_ERROR) k)
     else case device_write ops of
            Some f \<Rightarrow> let (n, d) = f (dev_at s a) pos buffer in Inr (n, set_dev a d s, k)
          | None \<Rightarrow> Inr (0, s, rt_set_errno (- RT_ENOSYS) k))"

definition rt_device_control :: "'d driver \<Rightarrow> nat \<Rightarrow> int \<Rightarrow> 'd devices \<Rightarrow> (int \<times> 'd devices) res" where
  "rt_device_control ops a cmd s =
     bnd (RT_ASSERT (is_device a s)) (\<lambda>_.
     case device_control ops of
       Some f \<Rightarrow> let (r, d) = f (dev_at s a) cmd in Inr (r, set_dev a d s)
     | None \<Rightarrow> Inr (- RT_ENOSYS, s))"

definition rt_device_set_rx_indicate :: "nat \<Rightarrow> nat option \<Rightarrow> 'd devices \<Rightarrow> (int \<times> 'd devices) res" where
  "rt_device_set_rx_indicate a f s =
     bnd (RT_ASSERT (is_device a s)) (\<lambda>_. Inr (RT_EOK, set_dev a ((dev_at s a)\<lparr>rx_indicate := f\<rparr>) s))"

definition rt_device_set_tx_complete :: "nat \<Rightarrow> nat option \<Rightarrow> 'd devices \<Rightarrow> (int \<times> 'd devices) res" where
  "rt_device_set_tx_complete a f s =
     bnd (RT_ASSERT (is_device a s)) (\<lambda>_. Inr (RT_EOK, set_dev a ((dev_at s a)\<lparr>tx_complete := f\<rparr>) s))"

section \<open>The reference count\<close>

definition careful :: "'d driver \<Rightarrow> bool" where
  \<comment> \<open>what is asked of a driver: it leaves flags and count alone, except that a successful opening may set the open flags; a code that means
    that the device was opened is no failure of the initialisation\<close>
  "careful ops \<longleftrightarrow>
     (\<forall>f d. device_init ops = Some f \<longrightarrow> (case f d of (r, d') \<Rightarrow> r \<noteq> - RT_ENOSYS \<and> ref_count d' = ref_count d \<and> dev_flag d' = dev_flag d \<and>
        open_flag d' = open_flag d)) \<and>
     (\<forall>f d fl. device_open ops = Some f \<longrightarrow> (case f d fl of (r, d') \<Rightarrow> ref_count d' = ref_count d \<and> dev_flag d' = dev_flag d \<and>
        (accepted r \<or> open_flag d' = open_flag d))) \<and>
     (\<forall>f d. device_close ops = Some f \<longrightarrow> (case f d of (_, d') \<Rightarrow> ref_count d' = ref_count d \<and> dev_flag d' = dev_flag d \<and> open_flag d' = open_flag d))"

definition dev_inv :: "'d rt_device \<Rightarrow> bool" where
  "dev_inv d \<longleftrightarrow> (ref_count d \<noteq> 0 \<longrightarrow> open_flag d AND RT_DEVICE_OFLAG_OPEN \<noteq> 0) \<and>
     (dev_flag d AND RT_DEVICE_FLAG_STANDALONE \<noteq> 0 \<longrightarrow> ref_count d \<le> 1)"

datatype handle_op = Open "16 word" | Close

fun handle_exec :: "'d driver \<Rightarrow> nat \<Rightarrow> handle_op \<Rightarrow> 'd devices \<Rightarrow> (int \<times> 'd devices) res" where
  "handle_exec ops a (Open f) s = rt_device_open ops a f s"
| "handle_exec ops a Close s = rt_device_close ops a s"

fun handle_run :: "'d driver \<Rightarrow> nat \<Rightarrow> handle_op list \<Rightarrow> 'd devices \<Rightarrow> (int list \<times> 'd devices) res" where
  "handle_run ops a [] s = Inr ([], s)"
| "handle_run ops a (h # hs) s =
     bnd (handle_exec ops a h s) (\<lambda>(r, s). bnd (handle_run ops a hs s) (\<lambda>(rs, s). Inr (r # rs, s)))"

fun handles :: "nat \<Rightarrow> (handle_op \<times> int) list \<Rightarrow> nat" where
  \<comment> \<open>open handles: successful openings less the closings that found one\<close>
  "handles n [] = n"
| "handles n ((Open f, r) # es) = handles (if accepted r then n + 1 else n) es"
| "handles n ((Close, r) # es) = handles (n - 1) es"

lemma dev_at_set [simp]: "dev_at (set_dev a d s) a = d" "objs (set_dev a d s) = objs s" "is_device a (set_dev b d s) = is_device a s"
  by (simp_all add: set_dev_def is_device_def)

lemma open_bit [simp]: "RT_DEVICE_OFLAG_OPEN \<noteq> 0" "(w OR RT_DEVICE_OFLAG_OPEN) AND RT_DEVICE_OFLAG_OPEN = RT_DEVICE_OFLAG_OPEN"
proof -
  show "RT_DEVICE_OFLAG_OPEN \<noteq> 0" by (simp add: RT_DEVICE_OFLAG_OPEN_def)
  show "(w OR RT_DEVICE_OFLAG_OPEN) AND RT_DEVICE_OFLAG_OPEN = RT_DEVICE_OFLAG_OPEN" by (rule bit_word_eqI) (auto simp: bit_simps)
qed

lemma standalone_bit [simp]: "(w OR RT_DEVICE_FLAG_ACTIVATED) AND RT_DEVICE_FLAG_STANDALONE = w AND RT_DEVICE_FLAG_STANDALONE"
proof -
  have "RT_DEVICE_FLAG_ACTIVATED AND RT_DEVICE_FLAG_STANDALONE = 0" by (simp add: RT_DEVICE_FLAG_ACTIVATED_def RT_DEVICE_FLAG_STANDALONE_def)
  then show ?thesis by (simp add: bit.conj_disj_distrib2)
qed

lemma open_device_ok:
  assumes "careful ops" "dev_inv (dev_at s a)" "unat (ref_count (dev_at s a)) < 255"
  shows "\<exists>r s'. open_device ops a f s = Inr (r, s') \<and> objs s' = objs s \<and> dev_inv (dev_at s' a) \<and>
    unat (ref_count (dev_at s' a)) = unat (ref_count (dev_at s a)) + (if accepted r then 1 else 0)"
proof -
  let ?d = "dev_at s a"
  show ?thesis
  proof (cases "dev_flag ?d AND RT_DEVICE_FLAG_STANDALONE \<noteq> 0 \<and> open_flag ?d AND RT_DEVICE_OFLAG_OPEN \<noteq> 0")
    case True
    then show ?thesis using assms(2) by (simp add: open_device_def accepted_def)
  next
    case False
    define rd where "rd = (case device_open ops of Some g \<Rightarrow> g ?d f | None \<Rightarrow> (RT_EOK, ?d\<lparr>open_flag := f AND RT_DEVICE_OFLAG_MASK\<rparr>))"
    obtain r d where d: "rd = (r, d)" by (cases rd)
    have c: "ref_count d = ref_count ?d" "dev_flag d = dev_flag ?d" "accepted r \<or> open_flag d = open_flag ?d"
    proof -
      show "ref_count d = ref_count ?d" "dev_flag d = dev_flag ?d" "accepted r \<or> open_flag d = open_flag ?d"
        using assms(1) d by (auto simp: rd_def careful_def accepted_def split: option.splits prod.splits dest: spec2 [of _ _ f])
    qed
    have z: "ref_count ?d + 1 \<noteq> 0" "unat (ref_count ?d + 1) = unat (ref_count ?d) + 1"
      using assms(3) by (auto simp: unat_word_ariths unat_eq_0 [symmetric])
    have run: "open_device ops a f s =
        (if accepted r then Inr (r, set_dev a (d\<lparr>open_flag := open_flag d OR RT_DEVICE_OFLAG_OPEN, ref_count := ref_count d + 1\<rparr>) s)
         else Inr (r, set_dev a d s))"
      using False d c(1) z(1) by (auto simp: open_device_def Let_def rd_def [symmetric] RT_ASSERT_def)
    have "ref_count ?d = 0" if "dev_flag ?d AND RT_DEVICE_FLAG_STANDALONE \<noteq> 0" using that False assms(2) by (auto simp: dev_inv_def)
    then have "dev_inv (d\<lparr>open_flag := open_flag d OR RT_DEVICE_OFLAG_OPEN, ref_count := ref_count d + 1\<rparr>)"
      using c by (auto simp: dev_inv_def)
    moreover have "dev_inv d" if "\<not> accepted r" using c that assms(2) by (simp add: dev_inv_def)
    ultimately show ?thesis using run c(1) z(2) by (cases "accepted r") auto
  qed
qed

lemma call_init_ok:
  assumes "careful ops" "call_init ops a s = (r, s1)"
  shows "objs s1 = objs s" "ref_count (dev_at s1 a) = ref_count (dev_at s a)" "dev_flag (dev_at s1 a) = dev_flag (dev_at s a)"
    "open_flag (dev_at s1 a) = open_flag (dev_at s a)" "r = RT_EOK \<or> \<not> accepted r"
proof -
  have "objs s1 = objs s \<and> ref_count (dev_at s1 a) = ref_count (dev_at s a) \<and> dev_flag (dev_at s1 a) = dev_flag (dev_at s a) \<and>
    open_flag (dev_at s1 a) = open_flag (dev_at s a) \<and> (r = RT_EOK \<or> \<not> accepted r)"
  proof (cases "device_init ops")
    case None
    then show ?thesis using assms(2) by (simp add: call_init_def)
  next
    case (Some f)
    obtain q d where f: "f (dev_at s a) = (q, d)" by (cases "f (dev_at s a)")
    have c: "q \<noteq> - RT_ENOSYS" "ref_count d = ref_count (dev_at s a)" "dev_flag d = dev_flag (dev_at s a)" "open_flag d = open_flag (dev_at s a)"
    proof -
      have "case f (dev_at s a) of (r, d') \<Rightarrow> r \<noteq> - RT_ENOSYS \<and> ref_count d' = ref_count (dev_at s a) \<and>
          dev_flag d' = dev_flag (dev_at s a) \<and> open_flag d' = open_flag (dev_at s a)"
        by (rule assms(1) [unfolded careful_def, THEN conjunct1, rule_format, OF Some])
      then show "q \<noteq> - RT_ENOSYS" "ref_count d = ref_count (dev_at s a)" "dev_flag d = dev_flag (dev_at s a)" "open_flag d = open_flag (dev_at s a)"
        by (simp_all add: f)
    qed
    have "r = q" "s1 = (if q \<noteq> RT_EOK then set_dev a d s\<lparr>reports := reports s @ [(a, q)]\<rparr> else set_dev a d s)"
      using assms(2) Some f by (auto simp: call_init_def set_dev_def Let_def)
    then show ?thesis using c by (simp add: set_dev_def accepted_def)
  qed
  then show "objs s1 = objs s" "ref_count (dev_at s1 a) = ref_count (dev_at s a)" "dev_flag (dev_at s1 a) = dev_flag (dev_at s a)"
    "open_flag (dev_at s1 a) = open_flag (dev_at s a)" "r = RT_EOK \<or> \<not> accepted r" by simp_all
qed

lemma rt_device_open_ok:
  assumes "careful ops" "is_device a s" "dev_inv (dev_at s a)" "unat (ref_count (dev_at s a)) < 255"
  shows "\<exists>r s'. rt_device_open ops a f s = Inr (r, s') \<and> is_device a s' \<and> dev_inv (dev_at s' a) \<and>
    unat (ref_count (dev_at s' a)) = unat (ref_count (dev_at s a)) + (if accepted r then 1 else 0)"
proof (cases "dev_flag (dev_at s a) AND RT_DEVICE_FLAG_ACTIVATED = 0")
  case False
  then show ?thesis using open_device_ok [OF assms(1,3,4), of f] assms(2) by (auto simp: rt_device_open_def RT_ASSERT_def is_device_def)
next
  case True
  obtain r s1 where i: "call_init ops a s = (r, s1)" by (cases "call_init ops a s")
  have c: "objs s1 = objs s" "ref_count (dev_at s1 a) = ref_count (dev_at s a)" "dev_inv (dev_at s1 a)" "r = RT_EOK \<or> \<not> accepted r"
    using call_init_ok [OF assms(1) i] assms(3) by (auto simp: dev_inv_def)
  have "dev_inv (dev_at (activate a s1) a)" "ref_count (dev_at (activate a s1) a) = ref_count (dev_at s a)" "objs (activate a s1) = objs s"
    using c(1-3) by (simp_all add: activate_def dev_inv_def)
  then show ?thesis using open_device_ok [OF assms(1), of "activate a s1" a f] assms(2,4) True i c
    by (cases "r = RT_EOK") (auto simp: rt_device_open_def RT_ASSERT_def is_device_def)
qed

lemma rt_device_close_ok:
  assumes "careful ops" "is_device a s" "dev_inv (dev_at s a)"
  shows "\<exists>r s'. rt_device_close ops a s = Inr (r, s') \<and> is_device a s' \<and> dev_inv (dev_at s' a) \<and>
    unat (ref_count (dev_at s' a)) = unat (ref_count (dev_at s a)) - 1"
proof -
  let ?d = "dev_at s a"
  let ?e = "?d\<lparr>ref_count := ref_count ?d - 1\<rparr>"
  have u: "unat (ref_count ?d - 1) = unat (ref_count ?d) - 1" if "ref_count ?d \<noteq> 0" using that by (rule unat_minus_one)
  have le: "ref_count ?d - 1 \<le> 1" if "ref_count ?d \<noteq> 0" "ref_count ?d \<le> 1"
  proof -
    have "unat (ref_count ?d - 1) \<le> 1" using u [OF that(1)] that(2) by (simp add: word_le_nat_alt)
    then show ?thesis by (simp add: word_le_nat_alt)
  qed
  consider "ref_count ?d = 0" | "ref_count ?d \<noteq> 0" "ref_count ?d - 1 \<noteq> 0" | "ref_count ?d \<noteq> 0" "ref_count ?d - 1 = 0" by blast
  then show ?thesis
  proof cases
    case 1
    then show ?thesis using assms(2,3) by (simp add: rt_device_close_def RT_ASSERT_def)
  next
    case 2
    then have "dev_inv ?e" using assms(3) le by (auto simp: dev_inv_def)
    then show ?thesis using 2 assms(2) u by (simp add: rt_device_close_def RT_ASSERT_def Let_def)
  next
    case 3
    obtain r d where d: "(case device_close ops of None \<Rightarrow> (RT_EOK, ?d\<lparr>ref_count := 0\<rparr>) | Some g \<Rightarrow> g (?d\<lparr>ref_count := 0\<rparr>)) = (r, d)"
      by (cases "case device_close ops of None \<Rightarrow> (RT_EOK, ?d\<lparr>ref_count := 0\<rparr>) | Some g \<Rightarrow> g (?d\<lparr>ref_count := 0\<rparr>)")
    have c: "ref_count d = 0" using assms(1) d by (auto simp: careful_def split: option.splits prod.splits)
    have "rt_device_close ops a s = Inr (r, set_dev a (if accepted r then d\<lparr>open_flag := RT_DEVICE_OFLAG_CLOSE\<rparr> else d) s)"
      using 3(1) assms(2) by (simp add: rt_device_close_def RT_ASSERT_def Let_def 3(2) d)
    then show ?thesis using c u [OF 3(1)] 3(2) assms(2) by (auto simp: dev_inv_def)
  qed
qed

lemma handle_run_ok:
  assumes "careful ops" "is_device a s" "dev_inv (dev_at s a)" "unat (ref_count (dev_at s a)) + length hs \<le> 255"
  shows "\<exists>rs s'. handle_run ops a hs s = Inr (rs, s') \<and> length rs = length hs \<and> dev_inv (dev_at s' a) \<and>
    unat (ref_count (dev_at s' a)) = handles (unat (ref_count (dev_at s a))) (zip hs rs)"
  using assms(2-4)
proof (induction hs arbitrary: s)
  case (Cons h hs)
  obtain r s1 where r: "handle_exec ops a h s = Inr (r, s1)" "is_device a s1" "dev_inv (dev_at s1 a)"
      "unat (ref_count (dev_at s1 a)) = handles (unat (ref_count (dev_at s a))) [(h, r)]"
  proof (cases h)
    case (Open f)
    then show ?thesis using rt_device_open_ok [OF assms(1) Cons.prems(1,2), of f] Cons.prems(3) that by auto
  next
    case Close
    then show ?thesis using rt_device_close_ok [OF assms(1) Cons.prems(1,2)] that by auto
  qed
  have n: "handles n ((h, r) # es) = handles (handles n [(h, r)]) es" for n es by (cases h) auto
  have "handles n [(h, r)] \<le> n + 1" for n by (cases h) auto
  from this [of "unat (ref_count (dev_at s a))"] have "unat (ref_count (dev_at s1 a)) + length hs \<le> 255" using r(4) Cons.prems(3) by simp
  then obtain rs s2 where "handle_run ops a hs s1 = Inr (rs, s2)" "length rs = length hs" "dev_inv (dev_at s2 a)"
      "unat (ref_count (dev_at s2 a)) = handles (unat (ref_count (dev_at s1 a))) (zip hs rs)"
    using Cons.IH [OF r(2,3)] by blast
  then show ?case using r(1) by (intro exI [of _ "r # rs"] exI [of _ s2]) (simp only: handle_run.simps bnd_Inr prod.case length_Cons zip_Cons_Cons n [of _ "zip hs rs"] r(4) simp_thms)
qed simp

lemma registered_device:
  assumes "rt_device_register (Some a) name flags s0 = Inr (RT_EOK, s)"
  shows "is_device a s" "ref_count (dev_at s a) = 0" "obj_type (obj_at (objs s) a) = 0x89"
proof -
  obtain os where o: "rt_object_init a RT_Object_Class_Device name (objs s0) = Inr os" "objs s = os" "ref_count (dev_at s a) = 0"
    using assms by (auto simp: rt_device_register_def bnd_eq_Inr split: if_splits)
  have t: "obj_type (obj_at os a) = RT_Object_Class_Device OR RT_Object_Class_Static"
    using o(1) by (auto simp: rt_object_init_def bnd_eq_Inr insert_object_def Let_def split: if_splits)
  then show "obj_type (obj_at (objs s) a) = 0x89" using o(2) by (simp add: RT_Object_Class_Device_def RT_Object_Class_Static_def)
  show "is_device a s" using t o(2) by (simp add: is_device_def rt_object_get_type_def RT_Object_Class_Device_def RT_Object_Class_Static_def)
  show "ref_count (dev_at s a) = 0" by (rule o(3))
qed


section \<open>Dynamic devices\<close>

inductive dev_history :: "'d driver \<Rightarrow> 'd devices \<Rightarrow> 'd devices \<Rightarrow> bool" for ops :: "'d driver" and s0 :: "'d devices" where
  dev_start: "dev_history ops s0 s0"
| dev_register: "dev_history ops s0 s \<Longrightarrow> rt_device_register b name flags s = Inr (r, s') \<Longrightarrow> dev_history ops s0 s'"
| dev_unregister: "dev_history ops s0 s \<Longrightarrow> rt_device_unregister b s = Inr (r, s') \<Longrightarrow> dev_history ops s0 s'"
| dev_handle: "dev_history ops s0 s \<Longrightarrow> handle_exec ops b h s = Inr (r, s') \<Longrightarrow> dev_history ops s0 s'"

lemma handle_objs:
  assumes "handle_exec ops b h s = Inr (r, s')"
  shows "objs s' = objs s"
proof -
  have o: "open_device ops b f t = Inr (r, s') \<Longrightarrow> objs s' = objs t" for f t
    by (auto simp: open_device_def Let_def bnd_eq_Inr split: if_splits prod.splits)
  have c: "objs (snd (call_init ops b s)) = objs s" by (auto simp: call_init_def Let_def split: option.split prod.split)
  show ?thesis
  proof (cases h)
    case (Open f)
    then show ?thesis using assms c o [of f s] o [of f "activate b (snd (call_init ops b s))"]
      by (auto simp: rt_device_open_def bnd_eq_Inr activate_def split: if_splits prod.splits)
  next
    case Close
    then show ?thesis using assms by (auto simp: rt_device_close_def Let_def bnd_eq_Inr split: if_splits prod.splits)
  qed
qed

lemma history_type:
  assumes "dev_history ops s0 s" "obj_type (obj_at (objs s0) a) \<in> {0, 0x89}"
  shows "obj_type (obj_at (objs s) a) \<in> {0, 0x89}"
  using assms
proof (induction rule: dev_history.induct)
  case (dev_register s b name flags r s')
  then show ?case
    by (auto simp: rt_device_register_def rt_object_init_def bnd_eq_Inr insert_object_def Let_def set_dev_def
        RT_Object_Class_Device_def RT_Object_Class_Static_def split: option.splits if_splits)
next
  case (dev_unregister s b r s')
  then show ?case by (auto simp: rt_device_unregister_def rt_object_detach_def remove_object_def bnd_eq_Inr split: if_splits)
next
  case (dev_handle s b h r s')
  then show ?case using handle_objs by fastforce
qed simp

text \<open>
  C40. A device made by \<open>rt_device_create\<close> can never be destroyed: before it is registered its object has no class, and registering makes it a static
  object, so that after every history of registering, unregistering, opening and closing devices \<open>rt_device_destroy\<close> stops at an assertion.
\<close>
theorem rt_device_destroy_fails:
  assumes "rt_device_create mem type d s0 = (Some a, s1)" and "dev_history ops s1 s"
  shows "rt_device_destroy a s = Inl Assertion_failed"
proof -
  have "obj_type (obj_at (objs s1) a) \<in> {0, 0x89}" using assms(1) by (auto simp: rt_device_create_def split: option.splits)
  from history_type [OF assms(2) this] show ?thesis
    by (auto simp: rt_device_destroy_def is_device_def rt_object_get_type_def rt_object_is_systemobject_def RT_Object_Class_Device_def
        RT_Object_Class_Static_def RT_ASSERT_def)
qed

definition null_driver :: "unit driver" where
  "null_driver = \<lparr>device_init = None, device_open = None, device_close = None, device_read = None, device_write = None, device_control = None\<rparr>"

definition no_devices :: "unit devices" where
  "no_devices = \<lparr>objs = \<lparr>obj_at = \<lambda>_. \<lparr>obj_name = replicate 8 NUL, obj_type = 0, obj_flag = 0, obj_linked = False\<rparr>, container = \<lambda>_. []\<rparr>,
     dev_at = \<lambda>_. \<lparr>dev_type = 0, dev_flag = 0, open_flag = 0, ref_count = 0, rx_indicate = None, tx_complete = None, drv = ()\<rparr>, reports = []\<rparr>"

lemma register_sample: "\<exists>s. rt_device_register (Some 4) (''uart1'' @ [NUL]) 8 no_devices = Inr (RT_EOK, s) \<and> dev_flag (dev_at s 4) = 8"
proof -
  have "rt_strncpy (replicate 8 NUL) (''uart1'' @ [NUL]) 8 = Inr (''uart1'' @ replicate 3 NUL)" by code_simp
  then show ?thesis
    by (simp add: rt_device_register_def rt_device_find_def rt_object_find_def rt_object_init_def no_devices_def RT_ASSERT_def
        RT_Object_Class_Device_def rt_object_container_def insert_object_def RT_NAME_MAX_def set_dev_def Let_def)
qed


theorem rt_device_destroy_fails_witness:
  "rt_device_destroy 4 (snd (rt_device_create (Some 4) 0 () no_devices)) = Inl Assertion_failed"
proof -
  have "rt_device_create (Some 4) 0 () no_devices = (Some 4, snd (rt_device_create (Some 4) 0 () no_devices))"
    by (simp add: rt_device_create_def)
  from rt_device_destroy_fails [OF this dev_history.dev_start [of null_driver]] show ?thesis .
qed

end
