(* ===== verification/Console.thy ===== *)
theory Console
  imports Device Printf Uart
begin

text \<open>
  The console (\<^verbatim>\<open>src/rt-thread/src/kservice.c\<close>): the device all kernel messages go to, its selection by name, and the functions that print. Before a
  device is selected, output goes to \<open>rt_hw_console_output\<close>, an argument of the state: the list of its strings. Each device has a driver.
\<close>

unbundle bit_operations_syntax

section \<open>State and operations\<close>

definition RT_DEVICE_OFLAG_RDWR :: "16 word" where "RT_DEVICE_OFLAG_RDWR = 0x003"
definition RT_DEVICE_FLAG_STREAM :: "16 word" where "RT_DEVICE_FLAG_STREAM = 0x040"
definition RT_CONSOLEBUF_SIZE :: nat where "RT_CONSOLEBUF_SIZE = 256"

record 'd console_state =
  devs :: "'d devices"
  con_kernel :: kernel
  console_device :: "nat option"
  log_buf :: cbuf
  hw_output :: "string list"

definition rt_console_get_device :: "'d console_state \<Rightarrow> nat option" where
  "rt_console_get_device s = console_device s"

definition rt_console_set_device :: "(nat \<Rightarrow> 'd driver) \<Rightarrow> cbuf \<Rightarrow> 'd console_state \<Rightarrow> (nat option \<times> 'd console_state) res" where
  "rt_console_set_device ops name s =
     (let old_device = console_device s in
      bnd (rt_device_find (Some name) (devs s)) (\<lambda>new_device.
      if new_device = old_device then Inr (None, s)
      else case new_device of
        None \<Rightarrow> Inr (old_device, s)
      | Some b \<Rightarrow>
          bnd (case old_device of
                 None \<Rightarrow> Inr (devs s)
               | Some a \<Rightarrow> bnd (rt_device_close (ops a) a (devs s)) (\<lambda>(_, ds). Inr ds)) (\<lambda>ds.
          bnd (rt_device_open (ops b) b (RT_DEVICE_OFLAG_RDWR OR RT_DEVICE_FLAG_STREAM) ds) (\<lambda>(_, ds).
          Inr (old_device, s\<lparr>devs := ds, console_device := Some b\<rparr>)))))"

definition console_write :: "(nat \<Rightarrow> 'd driver) \<Rightarrow> nat \<Rightarrow> cbuf \<Rightarrow> nat \<Rightarrow> 'd console_state \<Rightarrow> 'd console_state res" where
  \<comment> \<open>write to the console device with the stream flag, and restore the flags\<close>
  "console_write ops a text len s =
     (let d = dev_at (devs s) a;
          old_flag = open_flag d;
          ds = set_dev a (d\<lparr>open_flag := open_flag d OR RT_DEVICE_FLAG_STREAM\<rparr>) (devs s) in
      bnd (slice text 0 len) (\<lambda>str.
      bnd (rt_device_write (ops a) a 0 (map of_char str) ds (con_kernel s)) (\<lambda>(_, ds, k).
      Inr (s\<lparr>devs := set_dev a ((dev_at ds a)\<lparr>open_flag := old_flag\<rparr>) ds, con_kernel := k\<rparr>))))"

definition rt_kputs :: "(nat \<Rightarrow> 'd driver) \<Rightarrow> cbuf option \<Rightarrow> 'd console_state \<Rightarrow> 'd console_state res" where
  "rt_kputs ops str s =
     (case str of
        None \<Rightarrow> Inr s
      | Some t \<Rightarrow>
          (case console_device s of
             None \<Rightarrow> Inr (s\<lparr>hw_output := hw_output s @ [cstr t]\<rparr>)
           | Some a \<Rightarrow> bnd (rt_strlen t) (\<lambda>n. console_write ops a t n s)))"

definition rt_kprintf_device :: "(nat \<Rightarrow> 'd driver) \<Rightarrow> string \<Rightarrow> varg list \<Rightarrow> 'd console_state \<Rightarrow> 'd console_state res" where
  \<comment> \<open>\<open>rt_kprintf\<close> down to the driver\<close>
  "rt_kprintf_device ops fmt args s =
     bnd (rt_vsnprintf (log_buf s) (RT_CONSOLEBUF_SIZE - 1) fmt args) (\<lambda>(n, b).
     let s = s\<lparr>log_buf := b\<rparr>;
         len = (if n > RT_CONSOLEBUF_SIZE - 1 then RT_CONSOLEBUF_SIZE - 1 else n) in
     case console_device s of
       None \<Rightarrow> Inr (s\<lparr>hw_output := hw_output s @ [cstr b]\<rparr>)
     | Some a \<Rightarrow> console_write ops a b len s)"

definition RT_VERSION :: "32 word" where "RT_VERSION = 3"
definition RT_SUBVERSION :: "32 word" where "RT_SUBVERSION = 1"
definition RT_REVISION :: "32 word" where "RT_REVISION = 5"

definition rt_show_version :: "(nat \<Rightarrow> 'd driver) \<Rightarrow> cbuf \<Rightarrow> 'd console_state \<Rightarrow> 'd console_state res" where
  \<comment> \<open>\<open>date\<close>: the date of the compilation\<close>
  "rt_show_version ops date s =
     bnd (rt_kprintf_device ops (CHR 0x0A # '' '' @ [CHR 0x5C] @ '' | /'' @ [CHR 0x0A]) [] s) (\<lambda>s.
     bnd (rt_kprintf_device ops (''- RT -     Thread Operating System'' @ [CHR 0x0A]) [] s) (\<lambda>s.
     bnd (rt_kprintf_device ops ('' / | '' @ [CHR 0x5C] @ ''     %d.%d.%d build %s'' @ [CHR 0x0A]) [Va_int RT_VERSION, Va_int RT_SUBVERSION, Va_int RT_REVISION, Va_str (Some date)] s) (\<lambda>s.
     rt_kprintf_device ops ('' 2006 - 2020 Copyright by rt-thread team'' @ [CHR 0x0A]) [] s)))"

section \<open>What reaches the driver\<close>

lemma console_write_ok:
  assumes "is_device a (devs s)" "ref_count (dev_at (devs s) a) \<noteq> 0" "device_write (ops a) = Some f" "len \<le> length text"
  shows "\<exists>s'. console_write ops a text len s = Inr s' \<and> log_buf s' = log_buf s \<and> console_device s' = console_device s \<and>
    dev_at (devs s') = (dev_at (devs s))(a :=
      (snd (f ((dev_at (devs s) a)\<lparr>open_flag := open_flag (dev_at (devs s) a) OR RT_DEVICE_FLAG_STREAM\<rparr>) 0 (map of_char (take len text))))
        \<lparr>open_flag := open_flag (dev_at (devs s) a)\<rparr>) \<and>
    objs (devs s') = objs (devs s)"
proof -
  obtain n d where f: "f ((dev_at (devs s) a)\<lparr>open_flag := open_flag (dev_at (devs s) a) OR RT_DEVICE_FLAG_STREAM\<rparr>) 0 (map of_char (take len text)) = (n, d)"
    by (cases "f ((dev_at (devs s) a)\<lparr>open_flag := open_flag (dev_at (devs s) a) OR RT_DEVICE_FLAG_STREAM\<rparr>) 0 (map of_char (take len text))")
  then show ?thesis using assms by (simp add: console_write_def rt_device_write_def RT_ASSERT_def Let_def) (simp add: set_dev_def)
qed

text \<open>
  C37. Messages of the kernel reach the console. When the console device is open, \<open>rt_kprintf\<close> gives its driver in one write, in stream mode, the text that the
  format expands to, or of a text of 255 characters and more its first 254 characters and a terminator, which is what the model of the network module
  records as the message; the flags of the device are restored and no other device is touched.
\<close>
theorem rt_kprintf_console:
  assumes "vfmt fmt args = Inr t" and "length (log_buf s) = RT_CONSOLEBUF_SIZE" and "console_device s = Some a"
    and "is_device a (devs s)" and "ref_count (dev_at (devs s) a) \<noteq> 0" and "device_write (ops a) = Some f"
  shows "\<exists>s' m. rt_kprintf_device ops fmt args s = Inr s' \<and> console (rt_kprintf t w) = console w @ [m] \<and>
     dev_at (devs s') = (dev_at (devs s))(a :=
       (snd (f ((dev_at (devs s) a)\<lparr>open_flag := open_flag (dev_at (devs s) a) OR RT_DEVICE_FLAG_STREAM\<rparr>) 0 (map of_char m)))
         \<lparr>open_flag := open_flag (dev_at (devs s) a)\<rparr>) \<and>
     length (log_buf s') = RT_CONSOLEBUF_SIZE \<and> console_device s' = Some a"
proof -
  define m where "m = (if length t < 255 then t else take 254 t @ [NUL])"
  define b where "b = overwrite (log_buf s) 0 (take 254 t @ [NUL])"
  define len where "len = (if length t > 255 then 255 else length t)"
  have v: "rt_vsnprintf (log_buf s) 255 fmt args = Inr (length t, b)"
    using rt_vsnprintf_spec [OF assms(1), of 255 "log_buf s"] assms(2) by (simp add: b_def RT_CONSOLEBUF_SIZE_def)
  have lb: "length b = 256" using assms(2) by (simp add: b_def RT_CONSOLEBUF_SIZE_def)
  have le: "len \<le> length b" by (simp add: len_def lb)
  have tk: "take len b = m" by (auto simp: len_def b_def m_def overwrite_def)
  obtain s' where s': "console_write ops a b len (s\<lparr>log_buf := b\<rparr>) = Inr s'" "log_buf s' = b" "console_device s' = Some a"
      "dev_at (devs s') = (dev_at (devs s))(a :=
       (snd (f ((dev_at (devs s) a)\<lparr>open_flag := open_flag (dev_at (devs s) a) OR RT_DEVICE_FLAG_STREAM\<rparr>) 0 (map of_char m)))
         \<lparr>open_flag := open_flag (dev_at (devs s) a)\<rparr>)"
    using console_write_ok [of a "s\<lparr>log_buf := b\<rparr>" ops f len b] assms(3-6) le tk by auto
  have "rt_kprintf_device ops fmt args s = Inr s'"
    using v s'(1) assms(3) by (simp add: rt_kprintf_device_def RT_CONSOLEBUF_SIZE_def len_def Let_def split: if_splits)
  then show ?thesis using s' lb by (auto simp: rt_kprintf_def m_def RT_CONSOLEBUF_SIZE_def)
qed

section \<open>Changing the console\<close>

lemma close_others: "rt_device_close ops a s = Inr (r, s') \<Longrightarrow> b \<noteq> a \<Longrightarrow> dev_at s' b = dev_at s b"
  by (auto simp: rt_device_close_def bnd_eq_Inr Let_def set_dev_def split: if_splits prod.splits)

text \<open>
  Changing the console moves one handle. With the name of another device, \<open>rt_console_set_device\<close> closes the handle of the old console and opens
  one of the new device, which is the console from then on, also when its driver refuses to open; it returns the old console.
\<close>
theorem rt_console_set_device_moves:
  assumes "rt_device_find (Some name) (devs s) = Inr (Some b)" and "console_device s = Some a" and "a \<noteq> b"
    and "\<forall>d. careful (ops d)" and "\<forall>d \<in> {a, b}. is_device d (devs s) \<and> dev_inv (dev_at (devs s) d)"
    and "unat (ref_count (dev_at (devs s) b)) < 255"
  shows "\<exists>s' r. rt_console_set_device ops name s = Inr (Some a, s') \<and> rt_console_get_device s' = Some b \<and>
     unat (ref_count (dev_at (devs s') b)) = unat (ref_count (dev_at (devs s) b)) + (if accepted r then 1 else 0) \<and>
     dev_inv (dev_at (devs s') b)"
proof -
  obtain q ds where c: "rt_device_close (ops a) a (devs s) = Inr (q, ds)" using rt_device_close_ok [of "ops a" a "devs s"] assms(4,5) by auto
  have d: "dev_at ds b = dev_at (devs s) b" "is_device b ds"
    using close_others [OF c] assms(3,5) handle_objs [of "ops a" a Close "devs s" q ds] c by (auto simp: is_device_def)
  obtain r ds' where "rt_device_open (ops b) b (RT_DEVICE_OFLAG_RDWR OR RT_DEVICE_FLAG_STREAM) ds = Inr (r, ds')" "dev_inv (dev_at ds' b)"
      "unat (ref_count (dev_at ds' b)) = unat (ref_count (dev_at (devs s) b)) + (if accepted r then 1 else 0)"
    using rt_device_open_ok [of "ops b" b ds "RT_DEVICE_OFLAG_RDWR OR RT_DEVICE_FLAG_STREAM"] assms(4-6) d by auto
  then show ?thesis using assms(1-3) c
    by (intro exI [of _ "s\<lparr>devs := ds', console_device := Some b\<rparr>"] exI [of _ r]) (simp add: rt_console_set_device_def rt_console_get_device_def Let_def)
qed

section \<open>Witnesses\<close>

definition log_driver :: "8 word list driver" where
  \<comment> \<open>a driver that keeps what was written\<close>
  "log_driver = \<lparr>device_init = None, device_open = None, device_close = None, device_read = None,
     device_write = Some (\<lambda>d pos bs. (length bs, d\<lparr>drv := drv d @ bs\<rparr>)), device_control = None\<rparr>"

definition log_device :: "8 word \<Rightarrow> 8 word list rt_device" where
  "log_device n = \<lparr>dev_type = 0, dev_flag = RT_DEVICE_FLAG_ACTIVATED, open_flag = 0x008, ref_count = n, rx_indicate = None, tx_complete = None, drv = []\<rparr>"

definition sample_console :: "kernel \<Rightarrow> 8 word list console_state" where
  \<comment> \<open>the devices \<open>uart1\<close>, which is the console, and \<open>uart2\<close>\<close>
  "sample_console k = \<lparr>devs = \<lparr>objs = \<lparr>obj_at = \<lambda>a. \<lparr>obj_name = (if a = 4 then ''uart1'' else ''uart2'') @ replicate 3 NUL, obj_type = 0x89, obj_flag = 0, obj_linked = True\<rparr>,
       container = (\<lambda>_. [])(9 := [4, 8])\<rparr>, dev_at = (\<lambda>_. log_device 0)(4 := log_device 1), reports = []\<rparr>,
     con_kernel = k, console_device = Some 4, log_buf = replicate 256 NUL, hw_output = []\<rparr>"

lemma sample_device [simp]: "is_device a (devs (sample_console k))"
  by (simp add: sample_console_def is_device_def rt_object_get_type_def RT_Object_Class_Device_def RT_Object_Class_Static_def)

theorem rt_kprintf_console_witness:
  "\<forall>k. \<exists>s'. rt_kprintf_device (\<lambda>_. log_driver) ''led on'' [] (sample_console k) = Inr s' \<and> drv (dev_at (devs s') 4) = map of_char ''led on''"
proof
  fix k
  let ?s = "sample_console k"
  have "vfmt ''led on'' [] = Inr ''led on''" "length (log_buf ?s) = RT_CONSOLEBUF_SIZE" "console_device ?s = Some 4"
      "is_device 4 (devs ?s)" "ref_count (dev_at (devs ?s) 4) \<noteq> 0"
      "device_write log_driver = Some (\<lambda>d pos bs. (length bs, d\<lparr>drv := drv d @ bs\<rparr>))"
    by (rule sample_device | simp add: sample_console_def log_driver_def log_device_def RT_CONSOLEBUF_SIZE_def)+
  from rt_kprintf_console [OF this, of "init_net []"]
  show "\<exists>s'. rt_kprintf_device (\<lambda>_. log_driver) ''led on'' [] ?s = Inr s' \<and> drv (dev_at (devs s') 4) = map of_char ''led on''"
    by (auto simp: rt_kprintf_def sample_console_def log_device_def)
qed

theorem rt_console_set_device_moves_witness:
  "\<forall>k. \<exists>s'. rt_console_set_device (\<lambda>_. log_driver) (''uart2'' @ [NUL]) (sample_console k) = Inr (Some 4, s') \<and> rt_console_get_device s' = Some 8"
proof
  fix k
  let ?s = "sample_console k"
  have "rt_strncmp (''uart1'' @ replicate 3 NUL) (''uart2'' @ [NUL]) RT_NAME_MAX = Inr (- 1)"
      "rt_strncmp (''uart2'' @ replicate 3 NUL) (''uart2'' @ [NUL]) RT_NAME_MAX = Inr 0" by code_simp+
  then have f: "rt_device_find (Some (''uart2'' @ [NUL])) (devs ?s) = Inr (Some 8)"
    by (auto simp: rt_device_find_def rt_object_find_def sample_console_def RT_Object_Class_Device_def rt_object_container_def)
  have "\<forall>d. careful ((\<lambda>_. log_driver) d)" "\<forall>d \<in> {4, 8}. is_device d (devs ?s) \<and> dev_inv (dev_at (devs ?s) d)"
      "unat (ref_count (dev_at (devs ?s) 8)) < 255" "console_device ?s = Some 4" "(4 :: nat) \<noteq> 8"
    by (simp_all add: careful_def log_driver_def dev_inv_def log_device_def RT_DEVICE_OFLAG_OPEN_def) (simp_all add: sample_console_def log_device_def)
  then show "\<exists>s'. rt_console_set_device (\<lambda>_. log_driver) (''uart2'' @ [NUL]) ?s = Inr (Some 4, s') \<and> rt_console_get_device s' = Some 8"
    using rt_console_set_device_moves [OF f, of 4 "\<lambda>_. log_driver"] by blast
qed

end
