(* ===== verification/Timer.thy ===== *)
theory Timer
  imports Kernel_Ok
begin

text \<open>
  Timers with their own timeout functions (\<^verbatim>\<open>src/rt-thread/src/timer.c\<close>): one-shot and periodic, handled in the tick interrupt or by the timer thread
  (soft timers). The timers of threads are part of the kernel model in \<open>Kernel\<close>; here a timeout function is the list of the timer operations it
  performs, an argument of the checks. During a check the running timer is on a list of its own (\<open>hard_run\<close>, \<open>soft_run\<close>), from which it disappears when its
  own timeout function starts or stops it. The names have no \<open>rt_\<close>, as those of thread timers do.
\<close>

section \<open>State\<close>

record rt_timer =
  tm_class :: object_class
  tm_activated :: bool
  tm_periodic :: bool
  tm_soft :: bool
  tm_init_tick :: tick
  tm_timeout_tick :: tick

datatype timer_thread_stat = Thread_ready | Thread_suspended | Thread_sleeping tick

record timers =
  tm :: "nat \<Rightarrow> rt_timer"
  hard_list :: "nat list"
  soft_list :: "nat list"
  hard_run :: "nat list"
  soft_run :: "nat list"
  now :: tick
  soft_busy :: bool
  timer_thread :: timer_thread_stat

definition RT_TICK_MAX :: tick where
  "RT_TICK_MAX = 0xFFFFFFFF"

definition set_tm :: "nat \<Rightarrow> (rt_timer \<Rightarrow> rt_timer) \<Rightarrow> timers \<Rightarrow> timers" where
  "set_tm t f s = s\<lparr>tm := (tm s)(t := f (tm s t))\<rparr>"

section \<open>Operations\<close>

definition timer_setup :: "nat \<Rightarrow> tick \<Rightarrow> bool \<Rightarrow> bool \<Rightarrow> timers \<Rightarrow> timers" where
  \<comment> \<open>\<open>_rt_timer_init\<close>\<close>
  "timer_setup t time periodic soft s =
     set_tm t (\<lambda>x. x\<lparr>tm_activated := False, tm_periodic := periodic, tm_soft := soft, tm_timeout_tick := 0, tm_init_tick := time\<rparr>) s"

definition timer_init :: "nat \<Rightarrow> tick \<Rightarrow> bool \<Rightarrow> bool \<Rightarrow> timers \<Rightarrow> timers res" where
  "timer_init t time periodic soft s =
     bnd (RT_ASSERT (tm_class (tm s t) = Class_Null)) (\<lambda>_.
     Inr (timer_setup t time periodic soft (set_tm t (\<lambda>x. x\<lparr>tm_class := Class_Static\<rparr>) s)))"

definition timer_create :: "nat option \<Rightarrow> tick \<Rightarrow> bool \<Rightarrow> bool \<Rightarrow> timers \<Rightarrow> nat option \<times> timers" where
  \<comment> \<open>\<open>mem\<close> is the result of the allocation\<close>
  "timer_create mem time periodic soft s =
     (case mem of
        None \<Rightarrow> (None, s)
      | Some t \<Rightarrow> (Some t, timer_setup t time periodic soft (set_tm t (\<lambda>x. x\<lparr>tm_class := Class_Dynamic\<rparr>) s)))"

definition unlink_timer :: "nat \<Rightarrow> timers \<Rightarrow> timers" where
  \<comment> \<open>\<open>_rt_timer_remove\<close>: off the list that holds it\<close>
  "unlink_timer t s = s\<lparr>hard_list := removeAll t (hard_list s), soft_list := removeAll t (soft_list s),
     hard_run := removeAll t (hard_run s), soft_run := removeAll t (soft_run s)\<rparr>"

definition timer_off :: "nat \<Rightarrow> timers \<Rightarrow> timers" where
  "timer_off t s = set_tm t (\<lambda>x. x\<lparr>tm_activated := False\<rparr>) (unlink_timer t s)"

definition timer_detach :: "nat \<Rightarrow> timers \<Rightarrow> timers res" where
  "timer_detach t s =
     bnd (RT_ASSERT (tm_class (tm s t) = Class_Static)) (\<lambda>_. Inr (set_tm t (\<lambda>x. x\<lparr>tm_class := Class_Null\<rparr>) (timer_off t s)))"

definition timer_delete :: "nat \<Rightarrow> timers \<Rightarrow> timers res" where
  "timer_delete t s =
     bnd (RT_ASSERT (tm_class (tm s t) = Class_Dynamic)) (\<lambda>_. Inr (set_tm t (\<lambda>x. x\<lparr>tm_class := Class_Null\<rparr>) (timer_off t s)))"

definition timer_link :: "nat \<Rightarrow> timers \<Rightarrow> timers" where
  \<comment> \<open>into the list for its kind, behind the timers that are due before it or with it\<close>
  "timer_link t s =
     (let f = (\<lambda>x. tm_timeout_tick (tm s x)) in
      if tm_soft (tm s t) then s\<lparr>soft_list := timer_insert f t (soft_list s)\<rparr> else s\<lparr>hard_list := timer_insert f t (hard_list s)\<rparr>)"

definition timer_start :: "nat \<Rightarrow> timers \<Rightarrow> timers res" where
  "timer_start t s =
     bnd (RT_ASSERT (tm_class (tm s t) \<noteq> Class_Null)) (\<lambda>_.
     let s = timer_off t s in
     bnd (RT_ASSERT (tm_init_tick (tm s t) < HALF_TICK_MAX)) (\<lambda>_.
     let s = set_tm t (\<lambda>x. x\<lparr>tm_timeout_tick := now s + tm_init_tick x\<rparr>) s;
         s = set_tm t (\<lambda>x. x\<lparr>tm_activated := True\<rparr>) (timer_link t s) in
     Inr (if tm_soft (tm s t) \<and> \<not> soft_busy s \<and> timer_thread s \<noteq> Thread_ready then s\<lparr>timer_thread := Thread_ready\<rparr> else s)))"

definition timer_stop :: "nat \<Rightarrow> timers \<Rightarrow> (int \<times> timers) res" where
  "timer_stop t s =
     bnd (RT_ASSERT (tm_class (tm s t) \<noteq> Class_Null)) (\<lambda>_.
     if \<not> tm_activated (tm s t) then Inr (- RT_ERROR, s) else Inr (RT_EOK, timer_off t s))"

datatype timer_cmd = Get_time | Set_time tick | Set_oneshot | Set_periodic | Get_state

fun timer_command :: "timer_cmd \<Rightarrow> rt_timer \<Rightarrow> tick option \<times> rt_timer" where
  "timer_command Get_time x = (Some (tm_init_tick x), x)"
| "timer_command (Set_time n) x = (None, x\<lparr>tm_init_tick := n\<rparr>)"
| "timer_command Set_oneshot x = (None, x\<lparr>tm_periodic := False\<rparr>)"
| "timer_command Set_periodic x = (None, x\<lparr>tm_periodic := True\<rparr>)"
| "timer_command Get_state x = (Some (if tm_activated x then 1 else 0), x)"

definition timer_control :: "nat \<Rightarrow> timer_cmd \<Rightarrow> timers \<Rightarrow> (tick option \<times> timers) res" where
  \<comment> \<open>with what is stored through the argument\<close>
  "timer_control t cmd s =
     bnd (RT_ASSERT (tm_class (tm s t) \<noteq> Class_Null)) (\<lambda>_.
     let (out, x) = timer_command cmd (tm s t) in Inr (out, set_tm t (\<lambda>_. x) s))"

datatype timer_op = Start nat | Stop nat | Control nat timer_cmd

fun timer_exec :: "timer_op \<Rightarrow> timers \<Rightarrow> timers res" where
  "timer_exec (Start t) s = timer_start t s"
| "timer_exec (Stop t) s = bnd (timer_stop t s) (\<lambda>(_, s). Inr s)"
| "timer_exec (Control t cmd) s = bnd (timer_control t cmd s) (\<lambda>(_, s). Inr s)"

fun timer_execs :: "timer_op list \<Rightarrow> timers \<Rightarrow> timers res" where
  "timer_execs [] s = Inr s"
| "timer_execs (op # ops) s = bnd (timer_exec op s) (timer_execs ops)"

section \<open>The check in the tick interrupt\<close>

definition expired :: "nat \<Rightarrow> timers \<Rightarrow> bool" where
  "expired t s \<longleftrightarrow> now s - tm_timeout_tick (tm s t) < HALF_TICK_MAX"

definition take_expired :: "nat \<Rightarrow> timers \<Rightarrow> timers" where
  "take_expired t s =
     (let s = unlink_timer t s in if tm_periodic (tm s t) then s else set_tm t (\<lambda>x. x\<lparr>tm_activated := False\<rparr>) s)"

definition rearm :: "nat \<Rightarrow> timers \<Rightarrow> timers res" where
  \<comment> \<open>after the timeout function: the timer is off the temporary list, and started again if it is periodic and active\<close>
  "rearm t s =
     (if tm_periodic (tm s t) \<and> tm_activated (tm s t)
      then timer_start t (set_tm t (\<lambda>x. x\<lparr>tm_activated := False\<rparr>) s) else Inr s)"

fun check_loop :: "nat \<Rightarrow> (nat \<Rightarrow> timer_op list) \<Rightarrow> timers \<Rightarrow> (nat list \<times> timers) res" where
  \<comment> \<open>the timers whose timeout functions were called\<close>
  "check_loop 0 cb s = Inl Diverges"
| "check_loop (Suc fuel) cb s =
     (case hard_list s of
        [] \<Rightarrow> Inr ([], s)
      | t # _ \<Rightarrow>
          if expired t s
          then let s = take_expired t s;
                   s = s\<lparr>hard_run := t # hard_run s\<rparr> in
               bnd (timer_execs (cb t) s) (\<lambda>s.
               bnd (if hard_run s = [] then Inr s else rearm t (s\<lparr>hard_run := removeAll t (hard_run s)\<rparr>)) (\<lambda>s.
               bnd (check_loop fuel cb s) (\<lambda>(ts, s). Inr (t # ts, s))))
          else Inr ([], s))"

definition timer_tick :: "nat \<Rightarrow> (nat \<Rightarrow> timer_op list) \<Rightarrow> timers \<Rightarrow> (nat list \<times> timers) res" where
  \<comment> \<open>\<open>rt_tick_increase\<close> and \<open>rt_timer_check\<close>\<close>
  "timer_tick fuel cb s = check_loop fuel cb (s\<lparr>now := now s + 1\<rparr>)"

section \<open>Soft timers\<close>

definition list_next_timeout :: "nat list \<Rightarrow> timers \<Rightarrow> tick" where
  "list_next_timeout ts s = (case ts of [] \<Rightarrow> RT_TICK_MAX | t # _ \<Rightarrow> tm_timeout_tick (tm s t))"

definition timer_next_timeout_tick :: "timers \<Rightarrow> tick" where
  "timer_next_timeout_tick s = list_next_timeout (hard_list s) s"

datatype timer_event = Tick | Do timer_op

fun timer_run :: "nat \<Rightarrow> (nat \<Rightarrow> timer_op list) \<Rightarrow> timer_event list \<Rightarrow> timers \<Rightarrow> (nat list list \<times> timers) res" where
  \<comment> \<open>for every tick the timers whose functions were called\<close>
  "timer_run fuel cb [] s = Inr ([], s)"
| "timer_run fuel cb (Do op # es) s = bnd (timer_exec op s) (timer_run fuel cb es)"
| "timer_run fuel cb (Tick # es) s =
     bnd (timer_tick fuel cb s) (\<lambda>(ts, s). bnd (timer_run fuel cb es s) (\<lambda>(fs, s). Inr (ts # fs, s)))"

fun soft_check :: "nat \<Rightarrow> (nat \<Rightarrow> timer_op list) \<Rightarrow> (nat \<Rightarrow> timer_event list) \<Rightarrow> timers \<Rightarrow> (nat list \<times> timers) res" where
  \<comment> \<open>interrupts are enabled while a timeout function runs: its steps may be ticks\<close>
  "soft_check 0 hcb scb s = Inl Diverges"
| "soft_check (Suc fuel) hcb scb s =
     (case soft_list s of
        [] \<Rightarrow> Inr ([], s)
      | t # _ \<Rightarrow>
          if expired t s
          then let s = take_expired t s;
                   s = s\<lparr>soft_run := t # soft_run s, soft_busy := True\<rparr> in
               bnd (timer_run fuel hcb (scb t) s) (\<lambda>(_, s).
               let s = s\<lparr>soft_busy := False\<rparr> in
               bnd (if soft_run s = [] then Inr s else rearm t (s\<lparr>soft_run := removeAll t (soft_run s)\<rparr>)) (\<lambda>s.
               bnd (soft_check fuel hcb scb s) (\<lambda>(ts, s). Inr (t # ts, s))))
          else Inr ([], s))"

definition timer_thread_wait :: "timers \<Rightarrow> timers" where
  \<comment> \<open>one round of \<open>rt_thread_timer_entry\<close> up to the check: suspend, sleep, or go on\<close>
  "timer_thread_wait s =
     (let next_timeout = list_next_timeout (soft_list s) s in
      if next_timeout = RT_TICK_MAX then s\<lparr>timer_thread := Thread_suspended\<rparr>
      else if next_timeout - now s < HALF_TICK_MAX then s\<lparr>timer_thread := Thread_sleeping (next_timeout - now s)\<rparr>
      else s)"

definition system_timer_init :: "timers \<Rightarrow> timers" where
  "system_timer_init s = s\<lparr>hard_list := []\<rparr>"

definition system_timer_thread_init :: "timers \<Rightarrow> timers" where
  "system_timer_thread_init s = s\<lparr>soft_list := [], timer_thread := Thread_ready\<rparr>"

section \<open>Invariant\<close>

definition ticks_left :: "timers \<Rightarrow> nat \<Rightarrow> nat" where
  "ticks_left s t = unat (tm_timeout_tick (tm s t) - now s)"

definition timers_ok :: "timers \<Rightarrow> bool" where
  \<comment> \<open>the list in the order of the timeouts, and every timer with a time that can be started\<close>
  "timers_ok s \<longleftrightarrow> distinct (hard_list s) \<and> sorted_wrt (\<lambda>x y. ticks_left s x \<le> ticks_left s y) (hard_list s) \<and>
     (\<forall>t \<in> set (hard_list s). ticks_left s t < 0x7FFFFFFF) \<and>
     (\<forall>t. tm_class (tm s t) \<noteq> Class_Null \<and> 0 < tm_init_tick (tm s t) \<and> tm_init_tick (tm s t) < HALF_TICK_MAX)"

definition due :: "timers \<Rightarrow> nat set" where
  "due s = {t \<in> set (hard_list s). ticks_left s t = 0}"

fun op_timer :: "timer_op \<Rightarrow> nat" where
  "op_timer (Start t) = t"
| "op_timer (Stop t) = t"
| "op_timer (Control t _) = t"

definition spares :: "nat \<Rightarrow> timer_op \<Rightarrow> bool" where
  \<comment> \<open>an operation on another timer, that sets no time of 0 or of half the range\<close>
  "spares t op \<longleftrightarrow> op_timer op \<noteq> t \<and> (\<forall>u n. op = Control u (Set_time n) \<longrightarrow> 0 < n \<and> n < HALF_TICK_MAX)"

definition kept :: "nat \<Rightarrow> timers \<Rightarrow> timers \<Rightarrow> bool" where
  \<comment> \<open>what the operations of others leave of timer \<open>t\<close>\<close>
  "kept t s s' \<longleftrightarrow> timers_ok s' \<and> now s' = now s \<and> tm s' t = tm s t \<and> (t \<in> set (hard_list s') \<longleftrightarrow> t \<in> set (hard_list s)) \<and>
     due s' \<subseteq> due s \<and> (hard_run s' = hard_run s \<or> hard_run s' = [] \<and> t \<notin> set (hard_run s))"

lemma kept_trans: "kept t s s1 \<Longrightarrow> kept t s1 s2 \<Longrightarrow> kept t s s2"
  by (auto simp: kept_def)

lemma kept_refl: "timers_ok s \<Longrightarrow> kept t s s"
  by (simp add: kept_def)

lemma timers_off:
  assumes "timers_ok s"
  shows "timers_ok (timer_off u s)" "due (timer_off u s) = due s - {u}" "ticks_left (timer_off u s) = ticks_left s"
proof -
  show l: "ticks_left (timer_off u s) = ticks_left s" by (auto simp: ticks_left_def timer_off_def unlink_timer_def set_tm_def)
  have h: "hard_list (timer_off u s) = removeAll u (hard_list s)" by (simp add: timer_off_def unlink_timer_def set_tm_def)
  show "timers_ok (timer_off u s)" using assms sorted_wrt_filter [of _ "hard_list s" "\<lambda>x. u \<noteq> x"] unfolding timers_ok_def l h
    by (auto simp: timer_off_def unlink_timer_def set_tm_def distinct_removeAll removeAll_filter_not_eq)
  show "due (timer_off u s) = due s - {u}" by (auto simp: due_def l h)
qed

lemma timer_start_ok:
  assumes "timers_ok s"
  shows "\<exists>s'. timer_start u s = Inr s' \<and> timers_ok s' \<and> now s' = now s \<and> due s' = due s - {u} \<and> hard_run s' = removeAll u (hard_run s) \<and>
    tm s' = (tm s)(u := (tm s u)\<lparr>tm_timeout_tick := now s + tm_init_tick (tm s u), tm_activated := True\<rparr>) \<and>
    set (hard_list s') - {u} = set (hard_list s) - {u} \<and> (u \<in> set (hard_list s') \<longleftrightarrow> \<not> tm_soft (tm s u)) \<and>
    ticks_left s' u = unat (tm_init_tick (tm s u))"
proof -
  let ?n = "tm_init_tick (tm s u)"
  let ?T = "(tm s)(u := (tm s u)\<lparr>tm_activated := False, tm_timeout_tick := now s + ?n\<rparr>)"
  let ?T' = "(tm s)(u := (tm s u)\<lparr>tm_timeout_tick := now s + ?n, tm_activated := True\<rparr>)"
  let ?f = "\<lambda>x. tm_timeout_tick (?T x)"
  let ?L = "removeAll u (hard_list s)"
  have n: "0 < ?n" "?n < HALF_TICK_MAX" "tm_class (tm s u) \<noteq> Class_Null" using assms by (auto simp: timers_ok_def)
  then have un: "unat ?n < 0x7FFFFFFF" "unat ?n \<noteq> 0" by (auto simp: word_less_nat_alt)
  note off = timers_off [OF assms, of u]
  define L where "L = (if tm_soft (tm s u) then ?L else timer_insert ?f u ?L)"
  have "\<exists>s'. timer_start u s = Inr s' \<and> tm s' = ?T' \<and> now s' = now s \<and> hard_list s' = L \<and> hard_run s' = removeAll u (hard_run s)"
    using n by (cases "tm_soft (tm s u)") (simp_all add: timer_start_def RT_ASSERT_def timer_off_def unlink_timer_def set_tm_def timer_link_def Let_def L_def)
  then obtain s' where s': "timer_start u s = Inr s'" "tm s' = ?T'" "now s' = now s" "hard_list s' = L" "hard_run s' = removeAll u (hard_run s)"
    by (elim exE conjE) (rule that)
  have left: "ticks_left s' = (ticks_left s)(u := unat ?n)" by (auto simp: ticks_left_def s'(2,3))
  have fl: "unat (?f x - now s) = ticks_left s' x" for x by (simp add: left) (simp add: ticks_left_def)
  have old: "distinct ?L" "sorted_wrt (\<lambda>x y. ticks_left s x \<le> ticks_left s y) ?L" "\<And>x. x \<in> set ?L \<Longrightarrow> ticks_left s x < 0x7FFFFFFF"
    using off(1) unfolding timers_ok_def off(3) by (auto simp: timer_off_def unlink_timer_def set_tm_def)
  have srt: "sorted_wrt (\<lambda>x y. ticks_left s' x \<le> ticks_left s' y) ?L"
    using old(2) by (rule sorted_wrt_mono_rel [rotated]) (auto simp: left)
  have bnd': "\<And>x. x \<in> insert u (set ?L) \<Longrightarrow> ticks_left s' x < 0x7FFFFFFF" using old(3) un by (auto simp: left)
  have ins: "sorted_wrt (\<lambda>x y. ticks_left s' x \<le> ticks_left s' y) (timer_insert ?f u ?L)"
    using timer_insert_sorted [of u ?L ?f "now s"] srt bnd' by (simp only: fl)
  have sL: "set L - {u} = set (hard_list s) - {u}" "u \<in> set L \<longleftrightarrow> \<not> tm_soft (tm s u)" "set L \<subseteq> insert u (set ?L)"
    by (auto simp: L_def timer_insert_set)
  have "timers_ok s'" unfolding timers_ok_def s'(4)
  proof (intro conjI)
    show "distinct L" using old(1) by (simp add: L_def timer_insert_distinct)
    show "sorted_wrt (\<lambda>x y. ticks_left s' x \<le> ticks_left s' y) L" using srt ins by (simp add: L_def)
    show "\<forall>t\<in>set L. ticks_left s' t < 0x7FFFFFFF" using bnd' sL(3) by blast
    show "\<forall>t. tm_class (tm s' t) \<noteq> Class_Null \<and> 0 < tm_init_tick (tm s' t) \<and> tm_init_tick (tm s' t) < HALF_TICK_MAX"
      using assms by (simp add: timers_ok_def s'(2))
  qed
  moreover have "due s' = due s - {u}" using sL(1) un(2) by (auto simp: due_def s'(4) left)
  ultimately show ?thesis using s' sL left by auto
qed

lemma kept_other:
  assumes "timers_ok s'" "now s' = now s" "tm s' t = tm s t" "set (hard_list s') - {u} = set (hard_list s) - {u}" "u \<noteq> t"
    "due s' \<subseteq> due s" "hard_run s' = removeAll u (hard_run s)" "length (hard_run s) \<le> 1"
  shows "kept t s s'"
proof -
  have "t \<in> set (hard_list s') \<longleftrightarrow> t \<in> set (hard_list s)" using assms(4,5) by blast
  moreover have "removeAll u (hard_run s) = hard_run s \<or> removeAll u (hard_run s) = [] \<and> t \<notin> set (hard_run s)"
    using assms(5,8) by (cases "hard_run s") auto
  ultimately show ?thesis using assms by (simp add: kept_def)
qed

lemma timer_exec_kept:
  assumes "timers_ok s" "spares t op" "length (hard_run s) \<le> 1"
  shows "\<exists>s'. timer_exec op s = Inr s' \<and> kept t s s'"
proof (cases op)
  case (Start u)
  obtain s' where "timer_start u s = Inr s'" "timers_ok s'" "now s' = now s" "due s' = due s - {u}" "hard_run s' = removeAll u (hard_run s)"
      "tm s' = (tm s)(u := (tm s u)\<lparr>tm_timeout_tick := now s + tm_init_tick (tm s u), tm_activated := True\<rparr>)"
      "set (hard_list s') - {u} = set (hard_list s) - {u}"
    using timer_start_ok [OF assms(1)] by blast
  then show ?thesis using assms(2,3) Start kept_other [of s' s t u] by (auto simp: spares_def)
next
  case (Stop u)
  have "tm_class (tm s u) \<noteq> Class_Null" using assms(1) by (simp add: timers_ok_def)
  moreover have "kept t s (timer_off u s)" using timers_off [OF assms(1), of u] assms(2,3) Stop
    by (intro kept_other [of _ s t u]) (auto simp: spares_def timer_off_def unlink_timer_def set_tm_def)
  ultimately show ?thesis using Stop kept_refl [OF assms(1)] by (simp add: timer_stop_def RT_ASSERT_def)
next
  case (Control u c)
  let ?x = "snd (timer_command c (tm s u))"
  let ?s = "set_tm u (\<lambda>_. ?x) s"
  have c: "tm_class ?x = tm_class (tm s u)" "tm_timeout_tick ?x = tm_timeout_tick (tm s u)" by (cases c; simp)+
  have i: "0 < tm_init_tick ?x \<and> tm_init_tick ?x < HALF_TICK_MAX" using assms(1,2) Control by (cases c) (auto simp: timers_ok_def spares_def)
  have l: "ticks_left ?s = ticks_left s" using c(2) by (auto simp: ticks_left_def set_tm_def)
  have "timers_ok ?s" using assms(1) c i unfolding timers_ok_def l by (auto simp: set_tm_def)
  then have "kept t s ?s" using assms(2) Control by (auto simp: kept_def spares_def set_tm_def due_def l [unfolded set_tm_def])
  moreover have "tm_class (tm s u) \<noteq> Class_Null" using assms(1) by (simp add: timers_ok_def)
  ultimately show ?thesis using Control by (auto simp: timer_control_def RT_ASSERT_def split: prod.split)
qed

lemma kept_run: "kept t s s' \<Longrightarrow> length (hard_run s) \<le> 1 \<Longrightarrow> length (hard_run s') \<le> 1"
  by (auto simp: kept_def)

lemma timer_execs_kept:
  "timers_ok s \<Longrightarrow> \<forall>op \<in> set ops. spares t op \<Longrightarrow> length (hard_run s) \<le> 1 \<Longrightarrow> \<exists>s'. timer_execs ops s = Inr s' \<and> kept t s s'"
proof (induction ops arbitrary: s)
  case (Cons op ops)
  obtain s1 where s1: "timer_exec op s = Inr s1" "kept t s s1" using timer_exec_kept [of s t op] Cons.prems by auto
  then obtain s2 where "timer_execs ops s1 = Inr s2" "kept t s1 s2" using Cons.IH [of s1] Cons.prems kept_run by (auto simp: kept_def)
  then show ?case using s1 kept_trans by auto
qed (simp add: kept_refl)

section \<open>One timer expires\<close>

lemma timers_ok_cong:
  assumes "hard_list s' = hard_list s" "now s' = now s"
    "\<And>x. tm_class (tm s' x) = tm_class (tm s x) \<and> tm_init_tick (tm s' x) = tm_init_tick (tm s x) \<and> tm_timeout_tick (tm s' x) = tm_timeout_tick (tm s x)"
  shows "timers_ok s' = timers_ok s" "due s' = due s"
proof -
  have "ticks_left s' = ticks_left s" using assms(2,3) by (simp add: ticks_left_def fun_eq_iff)
  then show "timers_ok s' = timers_ok s" "due s' = due s" using assms(1,3) by (simp_all add: timers_ok_def due_def)
qed

lemma expired_iff:
  assumes "timers_ok s" "t \<in> set (hard_list s)"
  shows "expired t s \<longleftrightarrow> ticks_left s t = 0"
proof -
  have "unat (tm_timeout_tick (tm s t) - now s) < 0x7FFFFFFF" using assms by (simp add: timers_ok_def ticks_left_def)
  then show ?thesis using diff_cases(2) [of "now s" "now s" "tm_timeout_tick (tm s t)"] by (simp add: expired_def ticks_left_def)
qed

lemma take_expired_ok:
  fixes u :: nat
  assumes "timers_ok s" "hard_run s = []"
  defines "s1 \<equiv> (take_expired u s)\<lparr>hard_run := u # hard_run (take_expired u s)\<rparr>"
  shows "timers_ok s1" "due s1 = due s - {u}" "now s1 = now s" "hard_run s1 = [u]" "hard_list s1 = removeAll u (hard_list s)"
    "tm s1 = (tm s)(u := (if tm_periodic (tm s u) then tm s u else (tm s u)\<lparr>tm_activated := False\<rparr>))"
proof -
  note d = take_expired_def unlink_timer_def set_tm_def timer_off_def
  show f: "now s1 = now s" "hard_run s1 = [u]" "hard_list s1 = removeAll u (hard_list s)"
    "tm s1 = (tm s)(u := (if tm_periodic (tm s u) then tm s u else (tm s u)\<lparr>tm_activated := False\<rparr>))"
    using assms(2) by (simp_all add: s1_def d Let_def)
  have "hard_list s1 = hard_list (timer_off u s)" "now s1 = now (timer_off u s)"
    "\<And>x. tm_class (tm s1 x) = tm_class (tm (timer_off u s) x) \<and> tm_init_tick (tm s1 x) = tm_init_tick (tm (timer_off u s) x) \<and>
       tm_timeout_tick (tm s1 x) = tm_timeout_tick (tm (timer_off u s) x)"
    by (simp_all add: f d)
  from timers_ok_cong [OF this] show "timers_ok s1" "due s1 = due s - {u}" using timers_off [OF assms(1), of u] by simp_all
qed

lemma rearm_ok:
  assumes "timers_ok s" "hard_run s = []"
  shows "\<exists>s'. rearm u s = Inr s' \<and> timers_ok s' \<and> now s' = now s \<and> hard_run s' = [] \<and> due s' \<subseteq> due s \<and>
    (\<forall>t. t \<noteq> u \<longrightarrow> tm s' t = tm s t \<and> (t \<in> set (hard_list s') \<longleftrightarrow> t \<in> set (hard_list s))) \<and>
    (if tm_periodic (tm s u) \<and> tm_activated (tm s u)
     then tm s' u = (tm s u)\<lparr>tm_timeout_tick := now s + tm_init_tick (tm s u)\<rparr> \<and> (u \<in> set (hard_list s') \<longleftrightarrow> \<not> tm_soft (tm s u)) else s' = s)"
proof (cases "tm_periodic (tm s u) \<and> tm_activated (tm s u)")
  case True
  let ?s = "set_tm u (\<lambda>x. x\<lparr>tm_activated := False\<rparr>) s"
  have ok: "timers_ok ?s" "due ?s = due s" using timers_ok_cong [of ?s s] assms(1) by (simp_all add: set_tm_def)
  obtain s' where s': "timer_start u ?s = Inr s'" "timers_ok s'" "now s' = now ?s" "due s' = due ?s - {u}" "hard_run s' = removeAll u (hard_run ?s)"
      "tm s' = (tm ?s)(u := (tm ?s u)\<lparr>tm_timeout_tick := now ?s + tm_init_tick (tm ?s u), tm_activated := True\<rparr>)"
      "set (hard_list s') - {u} = set (hard_list ?s) - {u}" "u \<in> set (hard_list s') \<longleftrightarrow> \<not> tm_soft (tm ?s u)"
    using timer_start_ok [OF ok(1), of u] by blast
  have "tm s' u = (tm s u)\<lparr>tm_timeout_tick := now s + tm_init_tick (tm s u)\<rparr>"
    using True by (intro rt_timer.equality) (simp_all add: s'(6) set_tm_def)
  then show ?thesis using True s' ok(2) assms(2) by (intro exI [of _ s']) (auto simp: rearm_def set_tm_def)
next
  case False
  then show ?thesis using assms by (intro exI [of _ s]) (auto simp: rearm_def)
qed

definition fired :: "nat \<Rightarrow> timers \<Rightarrow> timers \<Rightarrow> bool" where
  \<comment> \<open>a periodic timer was started again, another one is off\<close>
  "fired t s s' \<longleftrightarrow>
     (if tm_periodic (tm s t)
      then t \<in> set (hard_list s') \<and> tm s' t = (tm s t)\<lparr>tm_timeout_tick := now s + tm_init_tick (tm s t)\<rparr>
      else t \<notin> set (hard_list s') \<and> tm s' t = (tm s t)\<lparr>tm_activated := False\<rparr>)"

definition untouched :: "nat \<Rightarrow> timers \<Rightarrow> timers \<Rightarrow> bool" where
  "untouched t s s' \<longleftrightarrow> tm s' t = tm s t \<and> (t \<in> set (hard_list s') \<longleftrightarrow> t \<in> set (hard_list s))"

lemma fire_step:
  assumes "timers_ok s" "hard_run s = []" "u \<in> due s" "\<forall>op \<in> set (cb u). spares t op"
    and "u = t \<Longrightarrow> tm_activated (tm s t) \<and> \<not> tm_soft (tm s t)"
  defines "s1 \<equiv> (take_expired u s)\<lparr>hard_run := u # hard_run (take_expired u s)\<rparr>"
  shows "\<exists>s2 s3. timer_execs (cb u) s1 = Inr s2 \<and>
     (if hard_run s2 = [] then Inr s2 else rearm u (s2\<lparr>hard_run := removeAll u (hard_run s2)\<rparr>)) = Inr s3 \<and>
     timers_ok s3 \<and> now s3 = now s \<and> hard_run s3 = [] \<and> due s3 \<subseteq> due s - {u} \<and>
     (if u = t then fired t s s3 else untouched t s s3)"
proof -
  note s1 = take_expired_ok [OF assms(1,2), of u, folded s1_def]
  obtain s2 where s2: "timer_execs (cb u) s1 = Inr s2" "kept t s1 s2" using timer_execs_kept [OF s1(1) assms(4)] s1(4) by auto
  note k = s2(2) [unfolded kept_def]
  show ?thesis
  proof (cases "hard_run s2 = []")
    case True
    then have "u \<noteq> t" using k s1(4) by auto
    then show ?thesis using True s2(1) k s1 by (intro exI [of _ s2]) (auto simp: untouched_def)
  next
    case False
    let ?s = "s2\<lparr>hard_run := []\<rparr>"
    have hr: "hard_run s2 = [u]" using False k s1(4) by auto
    have ok: "timers_ok ?s" "due ?s = due s2" using timers_ok_cong [of ?s s2] k by simp_all
    obtain s3 where s3: "rearm u ?s = Inr s3" "timers_ok s3" "now s3 = now s2" "hard_run s3 = []" "due s3 \<subseteq> due s2"
        "\<forall>t. t \<noteq> u \<longrightarrow> tm s3 t = tm s2 t \<and> (t \<in> set (hard_list s3) \<longleftrightarrow> t \<in> set (hard_list s2))"
        "if tm_periodic (tm s2 u) \<and> tm_activated (tm s2 u)
         then tm s3 u = (tm s2 u)\<lparr>tm_timeout_tick := now s2 + tm_init_tick (tm s2 u)\<rparr> \<and> (u \<in> set (hard_list s3) \<longleftrightarrow> \<not> tm_soft (tm s2 u))
         else s3 = ?s"
      using rearm_ok [OF ok(1), of u] ok(2) by auto
    have "fired t s s3" if "u = t"
      using s3(7) k s1 assms(5) [OF that] that by (auto simp: fired_def split: if_splits)
    moreover have "untouched t s s3" if "u \<noteq> t" using s3(6) k s1(5,6) that by (auto simp: untouched_def)
    moreover have "(if hard_run s2 = [] then Inr s2 else rearm u (s2\<lparr>hard_run := removeAll u (hard_run s2)\<rparr>)) = Inr s3" using hr s3(1) by simp
    moreover have "due s3 \<subseteq> due s - {u}" "now s3 = now s" using s3(3,5) k s1(2,3) by auto
    ultimately show ?thesis using s2(1) s3(2,4) by (intro exI [of _ s2] exI [of _ s3]) simp
  qed
qed

section \<open>The check\<close>

lemma check_loop_more: "check_loop fuel cb s = Inr r \<Longrightarrow> fuel \<le> fuel' \<Longrightarrow> check_loop fuel' cb s = Inr r"
proof (induction fuel arbitrary: s fuel' r)
  case (Suc fuel)
  obtain f where f: "fuel' = Suc f" "fuel \<le> f" using Suc.prems(2) by (cases fuel') auto
  show ?case
  proof (cases "hard_list s")
    case (Cons u us)
    show ?thesis
    proof (cases "expired u s")
      case True
      let ?s1 = "(take_expired u s)\<lparr>hard_run := u # hard_run (take_expired u s)\<rparr>"
      obtain s2 s3 ts s' where "timer_execs (cb u) ?s1 = Inr s2"
          "(if hard_run s2 = [] then Inr s2 else rearm u (s2\<lparr>hard_run := removeAll u (hard_run s2)\<rparr>)) = Inr s3"
          "check_loop fuel cb s3 = Inr (ts, s')" "r = (u # ts, s')"
        using Suc.prems(1) True by (auto simp: Cons Let_def bnd_eq_Inr simp del: if_split_eq1)
      moreover from this(3) f(2) have "check_loop f cb s3 = Inr (ts, s')" by (rule Suc.IH)
      ultimately show ?thesis using True by (simp add: f(1) Cons Let_def)
    qed (use Suc.prems f Cons in simp)
  qed (use Suc.prems f in simp)
qed simp

lemma due_head:
  assumes "timers_ok s" "hard_list s = u # us"
  shows "expired u s \<longleftrightarrow> u \<in> due s" "\<not> expired u s \<Longrightarrow> due s = {}"
proof -
  have e: "expired u s \<longleftrightarrow> ticks_left s u = 0" using expired_iff [OF assms(1)] assms(2) by simp
  then show "expired u s \<longleftrightarrow> u \<in> due s" using assms(2) by (simp add: due_def)
  show "due s = {}" if "\<not> expired u s" using assms that e by (auto simp: due_def timers_ok_def)
qed

lemma untouched_due: "untouched t s s' \<Longrightarrow> now s' = now s \<Longrightarrow> t \<in> due s' \<longleftrightarrow> t \<in> due s"
  by (simp add: untouched_def due_def ticks_left_def)

lemma check_loop_ok:
  assumes "timers_ok s" "hard_run s = []" "\<forall>u. \<forall>op \<in> set (cb u). spares t op" "card (due s) < fuel"
    and "t \<in> due s \<Longrightarrow> tm_activated (tm s t) \<and> \<not> tm_soft (tm s t)"
  shows "\<exists>ts s'. check_loop fuel cb s = Inr (ts, s') \<and> timers_ok s' \<and> now s' = now s \<and> hard_run s' = [] \<and> due s' = {} \<and>
     (if t \<in> due s then count_list ts t = 1 \<and> fired t s s' else count_list ts t = 0 \<and> untouched t s s')"
  using assms(1,2,4,5)
proof (induction fuel arbitrary: s)
  case (Suc fuel)
  show ?case
  proof (cases "hard_list s")
    case Nil
    then show ?thesis using Suc.prems by (simp add: due_def untouched_def)
  next
    case (Cons u us)
    note h = due_head [OF Suc.prems(1) Cons]
    show ?thesis
    proof (cases "expired u s")
      case False
      then show ?thesis using Suc.prems h(2) Cons by (simp add: untouched_def)
    next
      case True
      let ?s1 = "(take_expired u s)\<lparr>hard_run := u # hard_run (take_expired u s)\<rparr>"
      have u: "u \<in> due s" using True h(1) by simp
      obtain s2 s3 where s: "timer_execs (cb u) ?s1 = Inr s2"
          "(if hard_run s2 = [] then Inr s2 else rearm u (s2\<lparr>hard_run := removeAll u (hard_run s2)\<rparr>)) = Inr s3"
          "timers_ok s3" "now s3 = now s" "hard_run s3 = []" "due s3 \<subseteq> due s - {u}" "if u = t then fired t s s3 else untouched t s s3"
        using fire_step [OF Suc.prems(1,2) u, of cb t] assms(3) u Suc.prems(4) by auto
      have "due s3 \<subset> due s" "finite (due s)" using s(6) u by (auto simp: due_def)
      then have c: "card (due s3) < fuel" using psubset_card_mono [of "due s" "due s3"] Suc.prems(3) by simp
      have d3: "t \<in> due s3 \<longleftrightarrow> u \<noteq> t \<and> t \<in> due s" using s(4,6,7) untouched_due by auto
      then have a: "t \<in> due s3 \<Longrightarrow> tm_activated (tm s3 t) \<and> \<not> tm_soft (tm s3 t)" using s(7) Suc.prems(4) by (auto simp: untouched_def)
      obtain ts s' where i: "check_loop fuel cb s3 = Inr (ts, s')" "timers_ok s'" "now s' = now s3" "hard_run s' = []" "due s' = {}"
          "if t \<in> due s3 then count_list ts t = 1 \<and> fired t s3 s' else count_list ts t = 0 \<and> untouched t s3 s'"
        using Suc.IH [OF s(3,5) c a] by blast
      have run: "check_loop (Suc fuel) cb s = Inr (u # ts, s')"
        using Cons True s(1,2) i(1) by (simp add: Let_def)
      have "if t \<in> due s then count_list (u # ts) t = 1 \<and> fired t s s' else count_list (u # ts) t = 0 \<and> untouched t s s'"
      proof (cases "u = t")
        case True
        then show ?thesis using i(6) d3 s(7) u by (auto simp: fired_def untouched_def split: if_splits)
      next
        case False
        then show ?thesis using i(6) d3 s(4,7) by (auto simp: fired_def untouched_def split: if_splits)
      qed
      then show ?thesis using run i(2-5) s(4) by auto
    qed
  qed
qed simp

section \<open>Ticks\<close>

definition phase :: "nat \<Rightarrow> nat \<Rightarrow> bool \<Rightarrow> nat \<Rightarrow> timers \<Rightarrow> bool" where
  \<comment> \<open>timer \<open>t\<close> with a time of \<open>p\<close>, \<open>k\<close> ticks after it was started\<close>
  "phase t p periodic k s \<longleftrightarrow> tm_periodic (tm s t) = periodic \<and> \<not> tm_soft (tm s t) \<and> unat (tm_init_tick (tm s t)) = p \<and>
     (if periodic \<or> k < p
      then t \<in> set (hard_list s) \<and> tm_activated (tm s t) \<and> ticks_left s t = (if periodic then p - k mod p else p - k)
      else t \<notin> set (hard_list s))"

definition hits :: "bool \<Rightarrow> nat \<Rightarrow> nat \<Rightarrow> bool" where
  "hits periodic p k \<longleftrightarrow> (if periodic then k mod p = 0 else k = p)"

definition at_rest :: "timers \<Rightarrow> bool" where
  "at_rest s \<longleftrightarrow> timers_ok s \<and> hard_run s = [] \<and> due s = {}"

lemma tick_left:
  assumes "at_rest s" "t \<in> set (hard_list s)"
  shows "ticks_left (s\<lparr>now := now s + 1\<rparr>) t = ticks_left s t - 1" "0 < ticks_left s t"
proof -
  show "0 < ticks_left s t" using assms by (auto simp: at_rest_def due_def)
  then have "tm_timeout_tick (tm s t) - now s \<noteq> 0" by (auto simp: ticks_left_def)
  from unat_minus_one [OF this] show "ticks_left (s\<lparr>now := now s + 1\<rparr>) t = ticks_left s t - 1" by (simp add: ticks_left_def diff_diff_eq [symmetric])
qed

lemma ticked_ok:
  assumes "at_rest s"
  shows "timers_ok (s\<lparr>now := now s + 1\<rparr>)" "due (s\<lparr>now := now s + 1\<rparr>) = {t \<in> set (hard_list s). ticks_left s t = 1}"
proof -
  let ?s = "s\<lparr>now := now s + 1\<rparr>"
  have l: "\<And>t. t \<in> set (hard_list s) \<Longrightarrow> ticks_left ?s t = ticks_left s t - 1 \<and> 0 < ticks_left s t" using tick_left [OF assms] by simp
  have ok: "timers_ok s" using assms by (simp add: at_rest_def)
  have "sorted_wrt (\<lambda>x y. ticks_left ?s x \<le> ticks_left ?s y) (hard_list s)"
    using ok by (auto simp: timers_ok_def l intro: sorted_wrt_mono_rel [rotated])
  moreover have "\<forall>t\<in>set (hard_list s). ticks_left ?s t < 0x7FFFFFFF" using ok l by (fastforce simp: timers_ok_def)
  ultimately show "timers_ok ?s" using ok by (simp add: timers_ok_def)
  show "due ?s = {t \<in> set (hard_list s). ticks_left s t = 1}" using l by (force simp: due_def)
qed

lemma phase_due:
  assumes "at_rest s" "phase t p periodic k s" "0 < p"
  shows "t \<in> due (s\<lparr>now := now s + 1\<rparr>) \<longleftrightarrow> hits periodic p (k + 1)"
proof -
  have "p - k mod p = 1 \<longleftrightarrow> (k + 1) mod p = 0" using assms(3) mod_less_divisor [of p k] by (auto simp: mod_Suc)
  then show ?thesis using assms(2) by (auto simp: ticked_ok(2) [OF assms(1)] phase_def hits_def split: if_splits)
qed

lemma timer_tick_phase:
  assumes "at_rest s" "\<forall>u. \<forall>op \<in> set (cb u). spares t op" "phase t p periodic k s" "0 < p"
  shows "\<exists>N ts s'. (\<forall>fuel \<ge> N. timer_tick fuel cb s = Inr (ts, s')) \<and> at_rest s' \<and> phase t p periodic (k + 1) s' \<and>
     count_list ts t = of_bool (hits periodic p (k + 1))"
proof -
  let ?s = "s\<lparr>now := now s + 1\<rparr>"
  have d: "t \<in> due ?s \<longleftrightarrow> hits periodic p (k + 1)" using phase_due [OF assms(1,3,4)] .
  have act: "t \<in> due ?s \<Longrightarrow> tm_activated (tm ?s t) \<and> \<not> tm_soft (tm ?s t)"
    using assms(3) by (auto simp: phase_def ticked_ok(2) [OF assms(1)] split: if_splits)
  obtain ts s' where r: "check_loop (Suc (card (due ?s))) cb ?s = Inr (ts, s')" "timers_ok s'" "now s' = now ?s" "hard_run s' = []" "due s' = {}"
      "if t \<in> due ?s then count_list ts t = 1 \<and> fired t ?s s' else count_list ts t = 0 \<and> untouched t ?s s'"
    using check_loop_ok [OF ticked_ok(1) [OF assms(1)] _ assms(2) lessI act] assms(1) by (auto simp: at_rest_def)
  have "phase t p periodic (k + 1) s'"
  proof (cases "t \<in> due ?s")
    case True
    then have "ticks_left s' t = p" if periodic using r(3,6) assms(3) that by (simp add: fired_def phase_def ticks_left_def)
    then show ?thesis using True r(6) assms(3) d by (auto simp: fired_def phase_def hits_def split: if_splits)
  next
    case False
    have u: "untouched t ?s s'" "\<not> hits periodic p (k + 1)" using False r(6) d by auto
    have l: "ticks_left s' t = ticks_left s t - 1" if "t \<in> set (hard_list s)"
      using u(1) r(3) tick_left(1) [OF assms(1) that] by (simp add: untouched_def ticks_left_def)
    have "p - k mod p - 1 = p - (k + 1) mod p" if periodic using u(2) that by (auto simp: hits_def mod_Suc split: if_splits)
    then show ?thesis using u assms(3) l by (auto simp: untouched_def phase_def hits_def split: if_splits)
  qed
  moreover have "count_list ts t = of_bool (hits periodic p (k + 1))" using r(6) d by auto
  moreover have "\<forall>fuel \<ge> Suc (card (due ?s)). timer_tick fuel cb s = Inr (ts, s')" using check_loop_more [OF r(1)] by (simp add: timer_tick_def)
  moreover have "at_rest s'" using r(2,4,5) by (simp add: at_rest_def)
  ultimately show ?thesis by blast
qed

lemma exec_at_rest:
  assumes "at_rest s" "spares t op" "phase t p periodic k s"
  shows "\<exists>s'. timer_exec op s = Inr s' \<and> at_rest s' \<and> phase t p periodic k s'"
proof -
  obtain s' where s': "timer_exec op s = Inr s'" "kept t s s'" using timer_exec_kept [of s t op] assms(1,2) by (auto simp: at_rest_def)
  then show ?thesis using assms(1,3) by (auto simp: kept_def at_rest_def phase_def ticks_left_def)
qed

lemma timer_run_phase:
  assumes "\<forall>u. \<forall>op \<in> set (cb u). spares t op" "0 < p"
  shows "at_rest s \<Longrightarrow> phase t p periodic k s \<Longrightarrow> \<forall>op. Do op \<in> set es \<longrightarrow> spares t op \<Longrightarrow>
    \<exists>N fs s'. (\<forall>fuel \<ge> N. timer_run fuel cb es s = Inr (fs, s')) \<and> length fs = count_list es Tick \<and>
      (\<forall>i < length fs. count_list (fs ! i) t = of_bool (hits periodic p (k + i + 1)))"
proof (induction es arbitrary: s k)
  case (Cons e es)
  show ?case
  proof (cases e)
    case Tick
    obtain N ts s1 where a: "\<forall>fuel \<ge> N. timer_tick fuel cb s = Inr (ts, s1)" "at_rest s1" "phase t p periodic (k + 1) s1"
        "count_list ts t = of_bool (hits periodic p (k + 1))"
      using timer_tick_phase [OF Cons.prems(1) assms(1) Cons.prems(2) assms(2)] by blast
    obtain M fs s' where b: "\<forall>fuel \<ge> M. timer_run fuel cb es s1 = Inr (fs, s')" "length fs = count_list es Tick"
        "\<forall>i < length fs. count_list (fs ! i) t = of_bool (hits periodic p (k + 1 + i + 1))"
      using Cons.IH [OF a(2,3)] Cons.prems(3) by auto
    have "count_list ((ts # fs) ! i) t = of_bool (hits periodic p (k + i + 1))" if "i < length (ts # fs)" for i
      using a(4) b(3) that by (cases i) auto
    then show ?thesis using Tick a(1) b(1,2) by (intro exI [of _ "max N M"] exI [of _ "ts # fs"] exI [of _ s']) simp
  next
    case (Do op)
    obtain s1 where "timer_exec op s = Inr s1" "at_rest s1" "phase t p periodic k s1"
      using exec_at_rest [OF Cons.prems(1) _ Cons.prems(2)] Cons.prems(3) Do by auto
    then show ?thesis using Cons.IH [of s1 k] Cons.prems(3) Do by auto
  qed
qed simp


text \<open>
  A periodic timer with a time of 0 hangs the system: once it is due, the check in the tick interrupt calls its function and starts it again without end.
\<close>
theorem timer_zero_period_hangs:
  assumes "hard_list s = [t]" and "expired t s" and "tm_periodic (tm s t)" and "tm_activated (tm s t)" and "\<not> tm_soft (tm s t)"
    and "tm_class (tm s t) \<noteq> Class_Null" and "tm_init_tick (tm s t) = 0" and "hard_run s = []" and "cb t = []"
  shows "check_loop fuel cb s = Inl Diverges"
  using assms(1-8)
proof (induction fuel arbitrary: s)
  case (Suc fuel)
  let ?s1 = "(take_expired t s)\<lparr>hard_run := t # hard_run (take_expired t s)\<rparr>"
  obtain s' where s': "rearm t (?s1\<lparr>hard_run := []\<rparr>) = Inr s'" "hard_list s' = [t]" "now s' = now s" "hard_run s' = []"
      "tm s' t = (tm s t)\<lparr>tm_timeout_tick := now s, tm_activated := True\<rparr>"
    using Suc.prems by (simp add: rearm_def timer_start_def RT_ASSERT_def take_expired_def timer_off_def unlink_timer_def set_tm_def timer_link_def Let_def)
  have "check_loop fuel cb s' = Inl Diverges"
    using Suc.prems s' by (intro Suc.IH) (simp_all add: expired_def)
  moreover have "hard_run ?s1 = [t]" using Suc.prems by (simp add: take_expired_def unlink_timer_def Let_def set_tm_def)
  ultimately show ?case using Suc.prems(1,2) s'(1) assms(9) by (simp add: Let_def)
qed simp

section \<open>A forgotten soft timer\<close>

lemma idle_ticks:
  "hard_list s = [] \<Longrightarrow> \<exists>s'. timer_run (Suc fuel) cb (replicate n Tick) s = Inr (replicate n [], s') \<and> timer_thread s' = timer_thread s \<and>
     soft_list s' = soft_list s \<and> tm s' = tm s"
proof (induction n arbitrary: s)
  case (Suc n)
  then show ?case using Suc.IH [of "s\<lparr>now := now s + 1\<rparr>"] by (auto simp: timer_tick_def)
qed simp

text \<open>
  C38. A soft timer can be forgotten. When the first soft timer is due at the tick \<open>RT_TICK_MAX\<close>, the timer thread takes that value for an empty list and suspends
  itself; however many ticks pass, the thread stays suspended and the timer on its list, until another soft timer is started. At every other time of
  the first timer the thread sleeps until it is due.
\<close>
theorem soft_timer_forgotten:
  assumes "soft_list s = t # ts" and "hard_list s = []" and "tm_timeout_tick (tm s t) - now s < HALF_TICK_MAX"
  shows "if tm_timeout_tick (tm s t) = RT_TICK_MAX
     then \<exists>s'. timer_run (Suc fuel) cb (replicate n Tick) (timer_thread_wait s) = Inr (replicate n [], s') \<and>
            timer_thread s' = Thread_suspended \<and> t \<in> set (soft_list s')
     else timer_thread (timer_thread_wait s) = Thread_sleeping (tm_timeout_tick (tm s t) - now s)"
  using assms idle_ticks [of "timer_thread_wait s" fuel cb n] by (auto simp: timer_thread_wait_def list_next_timeout_def)

section \<open>Witnesses\<close>

definition sample_timers :: "bool \<Rightarrow> timers" where
  \<comment> \<open>no timer runs, shortly before the tick counter wraps\<close>
  "sample_timers periodic = \<lparr>tm = \<lambda>t. \<lparr>tm_class = Class_Static, tm_activated = False, tm_periodic = periodic, tm_soft = False,
       tm_init_tick = (if t = 0 then 2 else 3), tm_timeout_tick = 0\<rparr>,
     hard_list = [], soft_list = [], hard_run = [], soft_run = [], now = 0xFFFFFFFF, soft_busy = False, timer_thread = Thread_ready\<rparr>"


theorem timer_zero_period_hangs_witness:
  "check_loop 1000 (\<lambda>_. []) (sample_timers True\<lparr>tm := \<lambda>_. \<lparr>tm_class = Class_Static, tm_activated = True, tm_periodic = True, tm_soft = False,
     tm_init_tick = 0, tm_timeout_tick = 0xFFFFFFFF\<rparr>, hard_list := [3]\<rparr>) = Inl Diverges"
  by (rule timer_zero_period_hangs [of _ 3]) (simp_all add: sample_timers_def expired_def)

theorem soft_timer_forgotten_witness:
  "\<exists>s'. timer_run 1 (\<lambda>_. []) (replicate 5 Tick) (timer_thread_wait (sample_timers True
       \<lparr>tm := \<lambda>_. \<lparr>tm_class = Class_Static, tm_activated = True, tm_periodic = False, tm_soft = True, tm_init_tick = 3, tm_timeout_tick = 0xFFFFFFFF\<rparr>,
        soft_list := [3], now := 0xFFFFFFFC\<rparr>)) = Inr (replicate 5 [], s') \<and> timer_thread s' = Thread_suspended"
proof -
  let ?s = "sample_timers True
       \<lparr>tm := \<lambda>_. \<lparr>tm_class = Class_Static, tm_activated = True, tm_periodic = False, tm_soft = True, tm_init_tick = 3, tm_timeout_tick = 0xFFFFFFFF\<rparr>,
        soft_list := [3], now := 0xFFFFFFFC\<rparr>"
  have s: "soft_list ?s = [3]" "hard_list ?s = []" "tm_timeout_tick (tm ?s 3) - now ?s < HALF_TICK_MAX" and m: "tm_timeout_tick (tm ?s 3) = RT_TICK_MAX"
    by (simp_all add: sample_timers_def RT_TICK_MAX_def)
  show ?thesis using soft_timer_forgotten [OF s, of 0 "\<lambda>_. []" 5] unfolding if_P [OF m] One_nat_def by blast
qed

end
