(* ===== verification/Heap_Util.thy ===== *)
theory Heap_Util
  imports Heap_Live Ringbuffer
begin

text \<open>
  Services on top of the system heap: blocks at an alignment of the caller and copies of strings (\<^verbatim>\<open>src/rt-thread/src/kservice.c\<close>), and
  ring buffers in allocated memory (\<^verbatim>\<open>ringbuffer.c\<close>). The aligned allocator keeps the address of its block in the word in front of the address it
  returns; that word is stored in and read from the bytes of the heap.
\<close>

unbundle bit_operations_syntax

section \<open>Operations\<close>

definition peek :: "nat \<Rightarrow> nat \<Rightarrow> heap \<Rightarrow> nat res" where
  \<comment> \<open>read an integer of \<open>n\<close> bytes at an address\<close>
  "peek n a h = (if a < heap_ptr h then Inl Out_of_bounds else load n (heap_mem h) (a - heap_ptr h))"

definition align_address :: "32 word \<Rightarrow> 32 word \<Rightarrow> 32 word" where
  "align_address ptr align = (if ptr AND (align - 1) = 0 then ptr + align else (ptr + (align - 1)) AND NOT (align - 1))"

definition rt_malloc_align :: "32 word \<Rightarrow> 32 word \<Rightarrow> heap \<Rightarrow> (nat \<times> heap) res" where
  "rt_malloc_align sz align h =
     (let align = (align + 3) AND NOT 3;
          align_size = ((sz + 3) AND NOT 3) + align in
      bnd (rt_malloc (unat align_size) h) (\<lambda>(ptr, h).
      if ptr \<noteq> RT_NULL
      then let align_ptr = align_address (word_of_nat ptr) align in
           bnd (poke (unat (align_ptr - 4)) (le_bytes 4 ptr) h) (\<lambda>h. Inr (unat align_ptr, h))
      else Inr (ptr, h)))"

definition rt_free_align :: "nat \<Rightarrow> heap \<Rightarrow> heap res" where
  "rt_free_align ptr h = bnd (peek 4 (sub32 ptr 4) h) (\<lambda>real_ptr. rt_free real_ptr h)"

definition rt_strdup :: "cbuf \<Rightarrow> heap \<Rightarrow> (nat \<times> heap) res" where
  \<comment> \<open>the string \<open>s\<close> is outside of the heap\<close>
  "rt_strdup s h =
     bnd (rt_strlen s) (\<lambda>n.
     let len = n + 1 in
     bnd (rt_malloc len h) (\<lambda>(tmp, h).
     if tmp = RT_NULL then Inr (RT_NULL, h)
     else bnd (rt_memcpy True (drop (tmp - heap_ptr h) (heap_mem h)) (map of_char s) len) (\<lambda>bs.
          Inr (tmp, h\<lparr>heap_mem := take (tmp - heap_ptr h) (heap_mem h) @ bs\<rparr>))))"

definition sizeof_rt_ringbuffer :: nat where
  "sizeof_rt_ringbuffer = 12"

definition rt_ringbuffer_create :: "16 word \<Rightarrow> heap \<Rightarrow> ((nat \<times> nat \<times> rt_ringbuffer) option \<times> heap) res" where
  \<comment> \<open>the address of the control block, the address of the pool, and the control block; the size is passed on as a signed integer\<close>
  "rt_ringbuffer_create sz h =
     rt_assert (sz > 0) (
     let sz = rt_align_down (unat sz) RT_ALIGN_SIZE in
     bnd (rt_malloc sizeof_rt_ringbuffer h) (\<lambda>(rb, h).
     if rb = RT_NULL then Inr (None, h)
     else bnd (rt_malloc sz h) (\<lambda>(pool, h).
       if pool = RT_NULL then bnd (rt_free rb h) (\<lambda>h. Inr (None, h))
       else bnd (slice (heap_mem h) (pool - heap_ptr h) sz) (\<lambda>bs.
            bnd (rt_ringbuffer_init bs (sint (word_of_nat sz :: 16 word))) (\<lambda>ring. Inr (Some (rb, pool, ring), h))))))"

definition rt_ringbuffer_destroy :: "nat \<Rightarrow> nat \<Rightarrow> heap \<Rightarrow> heap res" where
  "rt_ringbuffer_destroy rb pool h = rt_assert (rb \<noteq> RT_NULL) (bnd (rt_free pool h) (rt_free rb))"

section \<open>Rounding of addresses\<close>

lemma unat_and_not_mask: "unat (x AND NOT (mask n) :: 32 word) = unat x div 2 ^ n * 2 ^ n"
proof -
  have "x AND NOT (mask n) = push_bit n (drop_bit n x)" by (rule bit_word_eqI) (auto simp: bit_simps)
  moreover have "unat (push_bit n (drop_bit n x)) = unat x div 2 ^ n * 2 ^ n"
  proof -
    have "unat x div 2 ^ n * 2 ^ n \<le> unat x" by simp
    also have "unat x < 2 ^ 32" using unsigned_less [of x] by simp
    finally have le: "unat x div 2 ^ n * 2 ^ n < 2 ^ 32" .
    have "unat (push_bit n (drop_bit n x)) = take_bit 32 (push_bit n (drop_bit n (unat x)))"
      using unsigned_less [of x, where 'a = nat] by (simp add: unsigned_push_bit_eq unsigned_drop_bit_eq take_bit_nat_eq_self)
    also have "\<dots> = take_bit 32 (unat x div 2 ^ n * 2 ^ n)" by (simp only: push_bit_eq_mult drop_bit_eq_div)
    finally show ?thesis using le by (simp only: take_bit_nat_eq_self)
  qed
  ultimately show ?thesis by simp
qed

lemma unat_and_mask: "unat (x AND mask n :: 32 word) = unat x mod 2 ^ n"
proof -
  have "unat (x AND mask n) = take_bit n (unat x)" by (simp only: take_bit_eq_mask [symmetric] unsigned_take_bit_eq)
  then show ?thesis by (simp only: take_bit_eq_mod)
qed

lemma round_word:
  assumes "unat w + 3 < 2 ^ 32"
  shows "unat ((w + 3) AND NOT 3 :: 32 word) = (unat w + 3) div 4 * 4"
proof -
  have "unat (w + 3) = unat w + 3" using assms by (simp add: unat_word_ariths)
  then show ?thesis using unat_and_not_mask [of "w + 3" 2] by (simp add: mask_eq_exp_minus_1)
qed

lemma unat_two_power:
  assumes "k < 32"
  shows "unat (2 ^ k :: 32 word) = 2 ^ k"
proof -
  have "2 ^ k < (2 ^ 32 :: nat)" using assms by (intro power_strict_increasing) simp_all
  then have "unat (word_of_nat (2 ^ k) :: 32 word) = 2 ^ k" by (simp only: unat_of_nat len_num1 len_bit0 mod_less) simp
  then show ?thesis by (simp only: of_nat_power of_nat_numeral)
qed

lemma round_up:
  fixes p n :: nat
  assumes "0 < n" "p mod n \<noteq> 0"
  shows "(p + (n - 1)) div n * n = p + (n - p mod n)"
proof -
  obtain q r where qr: "p = q * n + r" "p mod n = r" "r < n" using assms(1) by (metis div_mult_mod_eq mod_less_divisor)
  have "p + (n - 1) = (q + 1) * n + (r - 1)" using qr assms by simp
  then have "(p + (n - 1)) div n = q + 1" using qr(3) by (intro div_nat_eqI) auto
  then show ?thesis using qr by simp
qed

lemma align_address:
  fixes p :: nat
  assumes "2 \<le> k" "k < 32" "p mod 4 = 0" "p + 2 ^ k < 2 ^ 32"
  shows "\<exists>off. unat (align_address (word_of_nat p) (2 ^ k)) = p + off \<and> (p + off) mod 2 ^ k = 0 \<and> 4 \<le> off \<and> off \<le> 2 ^ k"
proof -
  let ?A = "2 ^ k :: nat"
  have m: "(2 ^ k :: 32 word) - 1 = mask k" by (simp add: mask_eq_exp_minus_1)
  have k: "k = 2 + (k - 2)" using assms(1) by simp
  have A: "4 dvd ?A" by (subst k, subst power_add) simp
  then have A4: "4 \<le> ?A" by (simp add: dvd_imp_le)
  have up: "unat (word_of_nat p :: 32 word) = p" using assms(4) by (simp add: unat_of_nat)
  note uA = unat_two_power [OF assms(2)]
  show ?thesis
  proof (cases "p mod ?A = 0")
    case True
    then have "word_of_nat p AND mask k = (0 :: 32 word)" using unat_and_mask [of "word_of_nat p" k] up by (simp add: unat_eq_0 [symmetric])
    moreover have "unat (word_of_nat p + 2 ^ k :: 32 word) = p + ?A" using assms(4) by (simp add: unat_word_ariths up uA)
    ultimately show ?thesis using True A4 by (intro exI [of _ ?A]) (simp add: align_address_def m)
  next
    case False
    then have "word_of_nat p AND mask k \<noteq> (0 :: 32 word)" using unat_and_mask [of "word_of_nat p" k] up by (auto simp: unat_eq_0 [symmetric])
    moreover have um: "unat (mask k :: 32 word) = ?A - 1" using uA A4 assms(2) unat_minus_one [of "2 ^ k :: 32 word"] by (simp add: m [symmetric])
    have "unat (word_of_nat p + mask k :: 32 word) = p + (?A - 1)" using assms(4) A4 by (simp add: unat_word_ariths up um)
    then have "unat ((word_of_nat p + mask k) AND NOT (mask k) :: 32 word) = (p + (?A - 1)) div ?A * ?A" by (simp add: unat_and_not_mask)
    moreover have d: "(p + (?A - 1)) div ?A * ?A = p + (?A - p mod ?A)"
      using False A4 by (intro round_up) simp_all
    moreover have "(?A - p mod ?A) mod 4 = 0" using A assms(3) by (metis dvd_mod dvd_diff_nat mod_0_imp_dvd dvd_imp_mod_0)
    then have "4 \<le> ?A - p mod ?A" using mod_less_divisor [of ?A p] A4 by (metis dvd_imp_le mod_0_imp_dvd zero_less_diff zero_less_power zero_less_numeral)
    moreover have "(p + (?A - p mod ?A)) mod ?A = 0" unfolding d [symmetric] by simp
    ultimately show ?thesis by (intro exI [of _ "?A - p mod ?A"]) (simp add: align_address_def m)
  qed
qed

section \<open>Reading and writing blocks\<close>

lemma peek_live:
  assumes "heap_ok h" "live h b = Some d" "off + n \<le> length d"
  shows "peek n (b + off) h = Inr (le_value (take n (drop off d)))"
proof -
  obtain as k cs where x: "heap_inv h (as @ (k, True) # cs)" "b = heap_ptr h + span 0 as + 12"
      "d = take (k - 12) (drop (span 0 as + 12) (heap_mem h))" "length d = k - 12" "12 < k"
    using live_Some [OF assms(1,2)] by blast
  have "span 0 as + k + 12 \<le> length (heap_mem h)" using x(1) rest_middle(3) [of h as k True cs] by (simp add: heap_inv_def)
  moreover have "take n (drop off d) = take n (drop (span 0 as + 12 + off) (heap_mem h))"
    using x(3,4) assms(3) by (simp add: drop_take min_def add.commute)
  ultimately show ?thesis using x(2,4) assms(3) by (simp add: peek_def load_def add.assoc)
qed

lemma take_hidden:
  assumes "length xs = 4" "4 \<le> off" "off + length ys \<le> length d"
  shows "take 4 (drop (off - 4) (overwrite (overwrite d (off - 4) xs) off ys)) = xs"
  using assms by (auto simp: overwrite_def min_def)

lemma unat_minus4: "4 \<le> unat w \<Longrightarrow> unat (w - 4 :: 32 word) = unat w - 4"
  by (simp add: unat_sub word_le_nat_alt)

lemma rt_malloc_result:
  assumes "heap_ok h" "n + 3 < 2 ^ 32"
  shows "\<exists>a h'. rt_malloc n h = Inr (a, h') \<and> heap_ok h' \<and> (a = RT_NULL \<and> h' = h \<or>
      a \<noteq> RT_NULL \<and> 0 < n \<and> live h a = None \<and> (\<exists>d. live h' = (live h)(a \<mapsto> d) \<and> n \<le> length d))"
proof -
  have "n \<le> m" if "block_size n \<le> m" for m using block_size(3) [of n] that by (rule le_trans)
  then show ?thesis using rt_malloc_live [OF assms] by fastforce
qed

section \<open>The aligned allocator\<close>

lemma rt_free_align_live:
  assumes "heap_ok h" "live h b = Some d" "4 \<le> off" "off \<le> length d" "take 4 (drop (off - 4) d) = le_bytes 4 b" "b + off < 2 ^ 32"
  shows "\<exists>h'. rt_free_align (b + off) h = Inr h' \<and> heap_ok h' \<and> live h' = (live h)(b := None)"
proof -
  have "peek 4 (b + (off - 4)) h = Inr b"
    using peek_live [OF assms(1,2), of "off - 4" 4] assms(3-6) by simp
  moreover have "sub32 (b + off) 4 = b + (off - 4)" using assms(3,6) by simp
  ultimately show ?thesis using rt_free_live [OF assms(1,2)] by (auto simp: rt_free_align_def)
qed

lemma align_power:
  assumes "unat align = 2 ^ k" "unat align + 3 < 2 ^ 32"
  shows "(align + 3) AND NOT 3 = (2 ^ max k 2 :: 32 word)" "max k 2 < 32"
proof -
  have "2 ^ k < (2 ^ 32 :: nat)" using assms by linarith
  then show k: "max k 2 < 32" using power_less_imp_less_exp [of "2 :: nat" k 32] by simp
  have "(2 ^ k + 3) div 4 * 4 = (2 ^ max k 2 :: nat)"
  proof (cases "k < 2")
    case True
    then consider "k = 0" | "k = 1" by linarith
    then show ?thesis by cases simp_all
  next
    case False
    then have "k = 2 + (k - 2)" by simp
    then obtain j where j: "k = 2 + j" by blast
    have "(4 * 2 ^ j + 3) div 4 = (2 ^ j :: nat)" by simp
    then show ?thesis by (simp add: j power_add max_def)
  qed
  then have "unat ((align + 3) AND NOT 3) = 2 ^ max k 2" using round_word [OF assms(2)] assms(1) by simp
  then have "unat ((align + 3) AND NOT 3) = unat (2 ^ max k 2 :: 32 word)" using unat_two_power [OF k] by simp
  then show "(align + 3) AND NOT 3 = 2 ^ max k 2" by (rule unsigned_word_eqI)
qed

lemma write_and_free:
  assumes "heap_ok h" "live h b = Some (overwrite d (off - 4) (le_bytes 4 b))" "4 \<le> off" "off + length ys \<le> length d" "b + length d < 2 ^ 32"
  shows "\<exists>h2 h3. poke (b + off) ys h = Inr h2 \<and> rt_free_align (b + off) h2 = Inr h3 \<and> heap_ok h3 \<and> live h3 = (live h)(b := None)"
proof -
  let ?d = "overwrite d (off - 4) (le_bytes 4 b)"
  have len: "length ?d = length d" using assms(3,4) by simp
  obtain h2 where h2: "poke (b + off) ys h = Inr h2" "heap_ok h2" "live h2 = (live h)(b \<mapsto> overwrite ?d off ys)"
    using poke_live [OF assms(1,2), of off ys] assms(4) len by auto
  have "take 4 (drop (off - 4) (overwrite ?d off ys)) = le_bytes 4 b" using assms(3,4) by (intro take_hidden) simp_all
  moreover have "off \<le> length (overwrite ?d off ys)" "b + off < 2 ^ 32" using assms(4,5) len by simp_all
  ultimately obtain h3 where "rt_free_align (b + off) h2 = Inr h3" "heap_ok h3" "live h3 = (live h2)(b := None)"
    using rt_free_align_live [OF h2(2), of b "overwrite ?d off ys" off] h2(3) assms(3) by auto
  then show ?thesis using h2(1,3) by auto
qed

lemma aligned_size:
  fixes align :: "32 word"
  assumes "unat align = 2 ^ k" "unat sz + unat align + 10 < 2 ^ 32"
  shows "unat (((sz + 3) AND NOT 3) + 2 ^ max k 2 :: 32 word) + 3 < 2 ^ 32" "unat sz + 2 ^ max k 2 \<le> unat (((sz + 3) AND NOT 3) + 2 ^ max k 2 :: 32 word)"
proof -
  have al: "(align + 3) AND NOT 3 = (2 ^ max k 2 :: 32 word)" "max k 2 < 32" using align_power [OF assms(1)] assms(2) by simp_all
  have b: "unat align + 3 < 2 ^ 32" "unat sz + 3 < 2 ^ 32" using assms(2) by simp_all
  then have A: "2 ^ max k 2 = (unat align + 3) div 4 * 4" using round_word [of align] unat_two_power [OF al(2)] al(1) by simp
  have "(unat sz + 3) div 4 * 4 + 2 ^ max k 2 < 2 ^ 32" using A assms(2) by linarith
  then have "unat (((sz + 3) AND NOT 3) + 2 ^ max k 2 :: 32 word) = (unat sz + 3) div 4 * 4 + 2 ^ max k 2"
    using round_word [OF b(2)] unat_two_power [OF al(2)] by (simp add: unat_word_ariths)
  then show "unat (((sz + 3) AND NOT 3) + 2 ^ max k 2 :: 32 word) + 3 < 2 ^ 32" "unat sz + 2 ^ max k 2 \<le> unat (((sz + 3) AND NOT 3) + 2 ^ max k 2 :: 32 word)"
    using A assms(2) by linarith+
qed

lemma aligned_place:
  assumes "heap_ok h" "live h b = Some d" "2 \<le> K" "K < 32" "n + 2 ^ K \<le> length d"
  shows "\<exists>off h'. unat (align_address (word_of_nat b) (2 ^ K)) = b + off \<and> (b + off) mod 2 ^ K = 0 \<and> 4 \<le> off \<and> off + n \<le> length d \<and> b + length d < 2 ^ 32 \<and>
    poke (b + (off - 4)) (le_bytes 4 b) h = Inr h' \<and> heap_ok h' \<and> live h' = (live h)(b \<mapsto> overwrite d (off - 4) (le_bytes 4 b))"
proof -
  have b: "b mod 4 = 0" "b + length d < 2 ^ 32" using live_aligned [OF assms(1,2)] assms(1) by (auto simp: heap_ok_def heap_inv_def heap_shape_def)
  have k: "b + 2 ^ K < 2 ^ 32" using b(2) assms(5) by simp
  obtain off where off: "unat (align_address (word_of_nat b) (2 ^ K)) = b + off" "(b + off) mod 2 ^ K = 0" "4 \<le> off" "off \<le> 2 ^ K"
    using align_address [OF assms(3,4) b(1) k] by (elim exE conjE) (rule that)
  then have o: "off + n \<le> length d" "off - 4 + length (le_bytes 4 b) \<le> length d" using assms(5) by simp_all
  then show ?thesis using poke_live [OF assms(1,2) o(2)] off b(2) by auto
qed

text \<open>
  C21. The aligned allocator keeps its promises. On a sound heap, for an alignment that is a power of two, \<open>rt_malloc_align\<close> returns no block and
  changes nothing, or an address with that alignment inside of one new block, with the requested bytes behind it; whatever the client stores in these
  bytes, \<open>rt_free_align\<close> releases exactly that block.
\<close>
theorem rt_malloc_align_roundtrip:
  assumes "heap_ok h" and "unat align = 2 ^ k" and "unat sz + unat align + 10 < 2 ^ 32"
  shows "\<exists>a h'. rt_malloc_align sz align h = Inr (a, h') \<and> heap_ok h' \<and>
     (a = RT_NULL \<and> h' = h \<or>
      a mod 2 ^ k = 0 \<and> (\<exists>b d. live h b = None \<and> live h' = (live h)(b \<mapsto> d) \<and> b + 4 \<le> a \<and> a + unat sz \<le> b + length d) \<and>
      (\<forall>ys. length ys \<le> unat sz \<longrightarrow>
         (\<exists>h2 h3. poke a ys h' = Inr h2 \<and> rt_free_align a h2 = Inr h3 \<and> heap_ok h3 \<and> live h3 = live h)))"
proof -
  let ?K = "max k 2"
  have al: "(align + 3) AND NOT 3 = (2 ^ ?K :: 32 word)" "?K < 32" using align_power [OF assms(2)] assms(3) by simp_all
  define n where "n = unat (((sz + 3) AND NOT 3) + 2 ^ ?K)"
  note n3 = aligned_size [OF assms(2,3), folded n_def]
  obtain b h1 where m: "rt_malloc n h = Inr (b, h1)" "heap_ok h1" "b = RT_NULL \<and> h1 = h \<or>
      b \<noteq> RT_NULL \<and> live h b = None \<and> (\<exists>d. live h1 = (live h)(b \<mapsto> d) \<and> n \<le> length d)"
    using rt_malloc_result [OF assms(1) n3(1)] by blast
  have run: "rt_malloc_align sz align h =
      (if b \<noteq> RT_NULL
       then let a = align_address (word_of_nat b) (2 ^ ?K) in bnd (poke (unat (a - 4)) (le_bytes 4 b) h1) (\<lambda>h. Inr (unat a, h))
       else Inr (b, h1))"
    using m(1) unfolding n_def rt_malloc_align_def Let_def al(1) by (simp only: bnd_Inr prod.case)
  show ?thesis
  proof (cases "b = RT_NULL")
    case True
    then show ?thesis using m(3) assms(1) run by auto
  next
    case False
    then obtain d where d: "live h b = None" "live h1 = (live h)(b \<mapsto> d)" "n \<le> length d" using m(3) by blast
    then have ld: "live h1 b = Some d" by simp
    obtain off h' where off: "unat (align_address (word_of_nat b) (2 ^ ?K)) = b + off" "(b + off) mod 2 ^ ?K = 0" "4 \<le> off" "off + unat sz \<le> length d"
        "b + length d < 2 ^ 32"
      and h': "poke (b + (off - 4)) (le_bytes 4 b) h1 = Inr h'" "heap_ok h'" "live h' = (live h1)(b \<mapsto> overwrite d (off - 4) (le_bytes 4 b))"
      using aligned_place [OF m(2) ld _ al(2), of "unat sz"] n3(2) d(3) by auto
    let ?d = "overwrite d (off - 4) (le_bytes 4 b)"
    have len: "length ?d = length d" using off(3,4) by simp
    have "rt_malloc_align sz align h = Inr (b + off, h')"
      using False h'(1) off(1,3) run by (simp add: Let_def unat_minus4)
    moreover have "(b + off) mod 2 ^ k = 0"
      using off(2) by (metis dvd_trans le_imp_power_dvd max.cobounded1 mod_0_imp_dvd dvd_imp_mod_0)
    moreover have "\<exists>c e. live h c = None \<and> live h' = (live h)(c \<mapsto> e) \<and> c + 4 \<le> b + off \<and> b + off + unat sz \<le> c + length e"
      using d(1,2) h'(3) off(3,4) len by (intro exI [of _ b] exI [of _ ?d]) simp
    moreover have "\<exists>h2 h3. poke (b + off) ys h' = Inr h2 \<and> rt_free_align (b + off) h2 = Inr h3 \<and> heap_ok h3 \<and> live h3 = live h"
      if "length ys \<le> unat sz" for ys
      using write_and_free [OF h'(2), of b d off ys] h'(3) d(1,2) off(3-5) that fun_upd_idem [of "live h" b] by auto
    ultimately show ?thesis using h'(2) by (intro exI [of _ "b + off"] exI [of _ h']) simp
  qed
qed

section \<open>Copies of strings\<close>

lemma write_block_at:
  assumes "heap_ok h" "live h a = Some d" "n \<le> length d" "n \<le> length xs"
  shows "bnd (rt_memcpy u (drop (a - heap_ptr h) (heap_mem h)) xs n) (\<lambda>bs. Inr (h\<lparr>heap_mem := take (a - heap_ptr h) (heap_mem h) @ bs\<rparr>)) =
    poke a (take n xs) h"
proof -
  have "heap_ptr h \<le> a" "a + length d \<le> heap_ptr h + length (heap_mem h)"
    using live_aligned [OF assms(1,2)] assms(1) by (auto simp: heap_ok_def heap_inv_def heap_shape_def)
  then show ?thesis using assms(3,4) by (simp add: rt_memcpy_spec poke_def overwrite_def add.commute [of n])
qed

text \<open>
  \<open>rt_strdup\<close> copies. For a terminated string it returns no block and changes nothing, or the address of a new block that starts with the characters
  of the string and the terminator; all other blocks keep their content.
\<close>
theorem rt_strdup_copies:
  assumes "heap_ok h" and "terminated s" and "length s + 3 < 2 ^ 32"
  shows "\<exists>a h'. rt_strdup s h = Inr (a, h') \<and> heap_ok h' \<and>
     (a = RT_NULL \<and> h' = h \<or>
      live h a = None \<and> (\<exists>d. live h' = (live h)(a \<mapsto> d) \<and> take (length (cstr s) + 1) d = map of_char (cstr s @ [NUL])))"
proof -
  define n where "n = length (cstr s) + 1"
  have n: "n \<le> length s" using terminated_length [OF assms(2)] by (simp add: n_def)
  obtain a h1 where m: "rt_malloc n h = Inr (a, h1)" "heap_ok h1" "a = RT_NULL \<and> h1 = h \<or>
      a \<noteq> RT_NULL \<and> live h a = None \<and> (\<exists>d. live h1 = (live h)(a \<mapsto> d) \<and> n \<le> length d)"
    using rt_malloc_result [OF assms(1), of n] n assms(3) by auto
  show ?thesis
  proof (cases "a = RT_NULL")
    case True
    then show ?thesis using m(1,3) assms(1,2) by (simp add: rt_strdup_def rt_strlen_cstr n_def)
  next
    case False
    then obtain d where d: "live h a = None" "live h1 = (live h)(a \<mapsto> d)" "n \<le> length d" using m(3) by blast
    let ?s = "map of_char s :: 8 word list"
    have t: "take n ?s = map of_char (cstr s @ [NUL])"
    proof -
      obtain r where "s = cstr s @ NUL # r" using terminated_decomp [OF assms(2)] by blast
      then have "take n s = cstr s @ [NUL]" unfolding n_def by (metis append.assoc append_Cons append_Nil append_eq_conv_conj length_append_singleton Suc_eq_plus1)
      then show ?thesis by (simp only: take_map)
    qed
    obtain h2 where h2: "poke a (take n ?s) h1 = Inr h2" "heap_ok h2" "live h2 = (live h1)(a \<mapsto> overwrite d 0 (take n ?s))"
      using poke_live [OF m(2), of a d 0 "take n ?s"] d n by auto
    have "bnd (rt_memcpy True (drop (a - heap_ptr h1) (heap_mem h1)) ?s n)
        (\<lambda>bs. Inr (a, h1\<lparr>heap_mem := take (a - heap_ptr h1) (heap_mem h1) @ bs\<rparr>)) = Inr (a, h2)"
    proof -
      have "bnd (bnd (rt_memcpy True (drop (a - heap_ptr h1) (heap_mem h1)) ?s n)
          (\<lambda>bs. Inr (h1\<lparr>heap_mem := take (a - heap_ptr h1) (heap_mem h1) @ bs\<rparr>))) (\<lambda>h. Inr (a, h)) = Inr (a, h2)"
        using write_block_at [OF m(2), of a d n ?s True] d n h2(1) by simp
      then show ?thesis by (simp add: bnd_assoc)
    qed
    then have "rt_strdup s h = Inr (a, h2)" using m(1) False assms(2) by (simp add: rt_strdup_def rt_strlen_cstr n_def Let_def)
    moreover have "take n (overwrite d 0 (take n ?s)) = map of_char (cstr s @ [NUL])" using n by (simp only: overwrite_def t [symmetric]) simp
    ultimately show ?thesis using h2(2,3) d(1,2) by (auto simp: n_def)
  qed
qed

section \<open>Ring buffers in allocated memory\<close>

lemma sint_small: "n < 2 ^ 15 \<Longrightarrow> sint (word_of_nat n :: 16 word) = int n"
  by (simp add: signed_of_nat signed_take_bit_int_eq_self)

text \<open>
  Ring buffers are created with both of their blocks or none. For a size below \<open>2 ^ 15\<close>, \<open>rt_ringbuffer_create\<close> gives back everything when
  there is no memory (or the size is less than four), and otherwise an empty ring buffer of the size rounded down; after \<open>rt_ringbuffer_destroy\<close> the heap has
  the same blocks as before.
\<close>
theorem rt_ringbuffer_create_destroy:
  assumes "heap_ok h" and "0 < sz" and "sz < 0x8000"
  shows "\<exists>r h'. rt_ringbuffer_create sz h = Inr (r, h') \<and> heap_ok h' \<and>
     (case r of None \<Rightarrow> live h' = live h
      | Some (rb, pool, ring) \<Rightarrow> rb_inv ring \<and> rb_list ring = [] \<and> buffer_size ring = unat sz div 4 * 4 \<and>
          (\<exists>h2. rt_ringbuffer_destroy rb pool h' = Inr h2 \<and> heap_ok h2 \<and> live h2 = live h))"
proof -
  let ?n = "rt_align_down (unat sz) RT_ALIGN_SIZE"
  have "unat sz < unat (0x8000 :: 16 word)" using assms(3) by (simp only: word_less_nat_alt)
  then have n: "?n = unat sz div 4 * 4" "?n < 2 ^ 15" by (simp_all add: rt_align_down_def minus_mod_eq_div_mult)
  then have i: "sint (word_of_nat ?n :: 16 word) = int ?n" by (intro sint_small)
  obtain rb h1 where m: "rt_malloc 12 h = Inr (rb, h1)" "heap_ok h1" "rb = RT_NULL \<and> h1 = h \<or>
      rb \<noteq> RT_NULL \<and> live h rb = None \<and> (\<exists>c. live h1 = (live h)(rb \<mapsto> c))" using rt_malloc_result [OF assms(1), of 12] by auto
  obtain pool h2 where p: "rt_malloc ?n h1 = Inr (pool, h2)" "heap_ok h2" "pool = RT_NULL \<and> h2 = h1 \<or>
      pool \<noteq> RT_NULL \<and> 0 < ?n \<and> live h1 pool = None \<and> (\<exists>d. live h2 = (live h1)(pool \<mapsto> d) \<and> ?n \<le> length d)"
    using rt_malloc_result [OF m(2), of ?n] n(2) by auto
  note create = rt_ringbuffer_create_def sizeof_rt_ringbuffer_def
  consider "rb = RT_NULL" | "rb \<noteq> RT_NULL" "pool = RT_NULL" | "rb \<noteq> RT_NULL" "pool \<noteq> RT_NULL" by blast
  then show ?thesis
  proof cases
    case 1
    then show ?thesis using m assms(1,2) by (simp add: create Let_def)
  next
    case 2
    then obtain c where c: "live h1 = (live h)(rb \<mapsto> c)" "live h rb = None" using m(3) by blast
    obtain h3 where "rt_free rb h1 = Inr h3" "heap_ok h3" "live h3 = (live h1)(rb := None)" using rt_free_live [OF m(2), of rb c] c by auto
    moreover have "(live h1)(rb := None) = live h" using c by (simp add: fun_upd_idem)
    ultimately show ?thesis using 2 m(1) p(1,3) assms(2) by (simp add: create Let_def)
  next
    case 3
    obtain c where c: "live h1 = (live h)(rb \<mapsto> c)" "live h rb = None" using m(3) 3(1) by blast
    obtain d where d: "live h2 = (live h1)(pool \<mapsto> d)" "live h1 pool = None" "?n \<le> length d" "0 < ?n" using p(3) 3(2) by blast
    have "heap_ptr h2 \<le> pool" "pool + length d \<le> heap_ptr h2 + length (heap_mem h2)"
      using live_aligned [OF p(2), of pool d] d(1) p(2) by (auto simp: heap_ok_def heap_inv_def heap_shape_def)
    then obtain bs where bs: "slice (heap_mem h2) (pool - heap_ptr h2) ?n = Inr bs" "length bs = ?n" using d(3) by auto
    obtain ring where ring: "rt_ringbuffer_init bs (int ?n) = Inr ring" using d(4) by (simp add: rt_ringbuffer_init_def)
    have "4 \<le> ?n" using d(4) n(1) by presburger
    then have "rb_inv ring \<and> rb_list ring = []" using rt_ringbuffer_init_inv [OF ring] bs(2) n(2) by simp
    moreover have "buffer_size ring = unat sz div 4 * 4"
    proof -
      have "buffer_size ring = rt_align_down ?n 4" using ring d(4) by (auto simp: rt_ringbuffer_init_def)
      then show ?thesis unfolding n(1) by (simp add: rt_align_down_def)
    qed
    moreover have "rt_ringbuffer_create sz h = Inr (Some (rb, pool, ring), h2)"
      using 3 m(1) p(1) bs(1) ring i assms(2) by (simp add: create Let_def)
    moreover obtain h3 where h3: "rt_free pool h2 = Inr h3" "heap_ok h3" "live h3 = (live h2)(pool := None)"
      using rt_free_live [OF p(2), of pool d] d(1) by auto
    moreover have l3: "live h3 = live h1" using h3(3) d(1,2) by (simp add: fun_upd_idem)
    then obtain h4 where "rt_free rb h3 = Inr h4" "heap_ok h4" "live h4 = (live h1)(rb := None)"
      using rt_free_live [OF h3(2), of rb c] c(1) by auto
    moreover have "(live h1)(rb := None) = live h" using c by (simp add: fun_upd_idem)
    ultimately show ?thesis using p(2) 3(1) by (simp add: rt_ringbuffer_destroy_def)
  qed
qed

section \<open>Witnesses\<close>

lemma some_heap: "\<exists>h. heap_ok h \<and> live h = Map.empty"
  using small_heap by blast

theorem rt_malloc_align_roundtrip_witness:
  "\<exists>h a h'. heap_ok h \<and> rt_malloc_align 5 16 h = Inr (a, h') \<and> heap_ok h' \<and> (a = RT_NULL \<or> a mod 16 = 0)"
proof -
  obtain h where h: "heap_ok h" using some_heap by blast
  have "unat (16 :: 32 word) = 2 ^ 4" "unat (5 :: 32 word) + unat (16 :: 32 word) + 10 < 2 ^ 32" by simp_all
  from rt_malloc_align_roundtrip [OF h this] show ?thesis using h by auto
qed

theorem rt_strdup_copies_witness:
  "\<exists>h a h'. heap_ok h \<and> rt_strdup (''led'' @ [NUL]) h = Inr (a, h') \<and> heap_ok h'"
proof -
  obtain h where h: "heap_ok h" using some_heap by blast
  have "terminated (''led'' @ [NUL])" "length (''led'' @ [NUL]) + 3 < 2 ^ 32" by simp_all
  from rt_strdup_copies [OF h this] show ?thesis using h by blast
qed

theorem rt_ringbuffer_create_destroy_witness:
  "\<exists>h r h'. heap_ok h \<and> rt_ringbuffer_create 18 h = Inr (r, h') \<and> heap_ok h'"
proof -
  obtain h where h: "heap_ok h" using some_heap by blast
  have "0 < (18 :: 16 word)" "(18 :: 16 word) < 0x8000" by simp_all
  from rt_ringbuffer_create_destroy [OF h this] show ?thesis using h by blast
qed

end
