(* ===== verification/Spec2Isabelle.thy ===== *)
theory Spec2Isabelle
  imports Ringbuffer Usart_Net Mutex Event Main_App Heap_Live Mqueue Mempool Device Console Timer Heap_Util
begin

text \<open>
  Verification of a firmware for the STM32F407 on the RT-Thread kernel: a board that talks to a serial-to-Ethernet module (ATK-IDE01),
  takes commands as JSON objects or text lines, switches LEDs and stores data in a serial flash.

  \<^bold>\<open>The program and how its parts interact.\<close>

  \<^item> Bytes of the network module arrive in the interrupt handlers of the serial port, which collect them in a frame until the line is
    idle (\<^verbatim>\<open>src/cubemx/Src/usart.c\<close>). Messages go out through a DMA transfer.
  \<^item> The AT layer (\<^verbatim>\<open>src/applications/atk_usart_net/atk_net.c\<close>) formats commands, sends them, waits for the acknowledgement and takes
    parameters out of the reply.
  \<^item> The network thread (\<^verbatim>\<open>src/applications/atk_usart_net/usart_net.c\<close>) configures the module, then handles one frame per round: it is
    tokenized (\<^verbatim>\<open>src/applications/json_deal/jsmn.c\<close>), looked up (\<^verbatim>\<open>jsmn_util.c\<close>) and printed. A parser for text commands sends
    the command as a mail to the thread that switches the LEDs.
  \<^item> The application (\<^verbatim>\<open>src/applications/main.c\<close>) sets up the mailbox and the flash and has the shell commands and LED threads.
  \<^item> The flash driver (\<^verbatim>\<open>src/applications/spi_flash/spi_flash.c\<close>) reads, erases and programs a W25Q128 over SPI.
  \<^item> All of it runs on the kernel (\<^verbatim>\<open>src/rt-thread/src\<close>): threads, scheduler and timers; semaphores, mutexes, events,
    mailboxes and message queues; the system heap and memory pools; objects and devices; strings, memory blocks and formatted output; and, in the device
    layer, the ring buffer.

  \<^bold>\<open>How C is modelled.\<close> A function is a HOL function on the state it reads and writes, with the result type \<open>fault + 'a\<close> of \<open>Prelude\<close>:
  \<open>Inl\<close> is a fault, namely an access outside of an object, a null pointer, the use of an uninitialised value, a failed
  assertion, or a loop that never ends; \<open>Inr\<close> is a return. Return codes are values. Integers are words or numbers with the wrap-around
  of their width written out; arrays and buffers are lists, read and written through \<open>fetch\<close>, \<open>store\<close> and \<open>blit\<close>, which fault out of bounds;
  strings are lists with a terminator, so that a missing terminator is a fault. Loops are structural recursion, recursion with a measure, or fuel.

  \<^bold>\<open>Theories, the code they model, and what they show.\<close>

  \<^item> \<open>Prelude\<close>: results with faults, objects in memory, C strings; the locale \<open>bounded_queue\<close>, the contract of a bounded FIFO, with the lemma that
    every implementation refines the abstract queue for all sequences of operations.
  \<^item> \<open>Ringbuffer\<close> (\<^verbatim>\<open>src/rt-thread/components/drivers/src/ringbuffer.c\<close>): record \<open>rt_ringbuffer\<close> with indices and mirror bits; every operation
    on a buffer. Invariant \<open>rb_inv\<close>, content \<open>rb_list\<close>; interpretation of \<open>bounded_queue\<close>; blocks put are blocks got across the wrap.
  \<^item> \<open>Kservice\<close>, \<open>Printf\<close> (\<^verbatim>\<open>kservice.c\<close>): string and memory functions, equal to their plain specification for every length, alignment and
    overlap; \<open>rt_vsnprintf\<close> with all directives, never behind the buffer, and decimal output that \<open>atoi\<close> reads back.
  \<^item> \<open>Uart\<close> (\<^verbatim>\<open>usart.c\<close>): record \<open>net\<close> (frame, transmitter, tick, console); the handlers \<open>USART3_IRQHandler\<close> and \<open>DMA1_Stream3_IRQHandler\<close>;
    the field \<open>irqs\<close> is the list of interrupts still to come, consumed wherever the code can be interrupted, so that statements hold for every
    schedule. Locale \<open>uart_port\<close>: what the AT layer needs of a port, interpreted on this one.
  \<^item> \<open>At_Core\<close>, \<open>Atk_Net\<close>, \<open>Atk_Values\<close> (\<^verbatim>\<open>atk_net.c\<close>): sending with a timeout, proved in \<open>uart_port\<close>; the scan for a parameter with its 8-bit index; every
    getter and setter of the driver; round trips of settings, exact bounds of the command buffers.
  \<^item> \<open>Jsmn\<close>, \<open>Jsmn_Util\<close>, \<open>Json_Object\<close> (\<^verbatim>\<open>json_deal\<close>): the tokenizer on arbitrary bytes is total and stays in bounds; lookup of keys and array
    items; for the text of an object, tokenizing and lookup give the value of the first member with the key.
  \<^item> \<open>Usart_Net\<close> (\<^verbatim>\<open>usart_net.c\<close>): the JSON command, heartbeat, configuration and the endless loop of the thread, whose rounds are counted.
  \<^item> \<open>Spi_Flash\<close> (\<^verbatim>\<open>spi_flash.c\<close>, \<^verbatim>\<open>spi.c\<close>): the driver over a chip given by its select line and its byte exchange. Locale \<open>w25q\<close>: a
    chip that behaves as its data sheet says; writing stores the data and keeps every other byte, for all addresses, lengths and contents.
    The interpretation \<open>w25q128\<close> is an executable chip with that behaviour.
  \<^item> \<open>Kernel\<close>, \<open>Kernel_Ok\<close>, \<open>Kernel_Run\<close> (\<^verbatim>\<open>thread.c\<close>, \<^verbatim>\<open>scheduler.c\<close>, \<^verbatim>\<open>timer.c\<close>, \<^verbatim>\<open>clock.c\<close>, \<^verbatim>\<open>idle.c\<close>, \<^verbatim>\<open>components.c\<close>): record \<open>kernel\<close> with the threads, the
    ready queues with their bitmap, the timer list and the suspend lists. The invariant \<open>kernel_ok\<close> is kept by every operation; \<open>kernel_run\<close> are all
    sequences of operations; sleeping is exact; the scheduler selects by priority.
  \<^item> \<open>Ipc\<close>, \<open>Mutex\<close>, \<open>Event\<close>, \<open>Mailbox\<close>, \<open>Mqueue\<close> (\<^verbatim>\<open>ipc.c\<close>): an operation that blocks returns \<open>Blocked\<close> and is continued by its \<open>_return\<close> function when
    the thread runs again. Runs interleave calls, continuations and steps of the rest of the system (\<open>others\<close>: what kernel operations
    and other objects may do to the lists of an object, shown for all kernel operations). Semaphores keep their tokens, the mutex refines a
    recursive lock, no wake-up of an event is lost, mailboxes (another interpretation of \<open>bounded_queue\<close>) and message queues
    lose, duplicate and reorder nothing. In the message queue filling and reading of a node are steps of their own, as interrupts are enabled there.
  \<^item> \<open>Heap_Mem\<close>, \<open>Heap_Ok\<close>, \<open>Heap_Live\<close> (\<^verbatim>\<open>mem.c\<close>): the heap as its bytes, with the block headers inside. Invariant: the chain of blocks covers the heap, no
    two free neighbours, \<open>lfree\<close> is the first free block, the statistics are right. Locale \<open>allocator\<close>: the contract of an allocator, with
    the lemma that every sequence of calls refines the abstract allocator; interpretation \<open>sys_heap\<close> on the byte model.
  \<^item> \<open>Mempool\<close> (\<^verbatim>\<open>mempool.c\<close>): pools of equal blocks with waiting threads; refinement of the abstract pool.
  \<^item> \<open>Objects\<close>, \<open>Device\<close> (\<^verbatim>\<open>object.c\<close>, \<^verbatim>\<open>device.c\<close>): the lists of kernel objects as a registry with lookup by name; devices over a record of driver
    functions, with a reference count that is the number of open handles.
  \<^item> \<open>Console\<close> (\<^verbatim>\<open>kservice.c\<close>): the console device on top of \<open>Device\<close>, and output down to its driver; it justifies the record of messages in \<open>Uart\<close>.
  \<^item> \<open>Timer\<close> (\<^verbatim>\<open>timer.c\<close>): timers with timeout functions, one-shot, periodic and soft. A timeout function is the list of timer operations it performs,
    so that it may start and stop timers during the check. Timers fire exactly, for every history of the others.
  \<^item> \<open>Heap_Util\<close> (\<^verbatim>\<open>kservice.c\<close>, \<^verbatim>\<open>ringbuffer.c\<close>): aligned allocation, copies of strings and ring buffers on the heap, in terms of its client view.
  \<^item> \<open>Main_App\<close> (\<^verbatim>\<open>main.c\<close> and the text commands of \<^verbatim>\<open>usart_net.c\<close>): LED threads, mail thread, shell commands, start of the application, on the
    models of kernel, mailbox, port and flash: LED switches as a two-state machine, a text command up to the LED, the flash commands.

  \<^bold>\<open>Fuel and bounds.\<close> \<open>find_eq\<close> has 256 steps and \<open>scan_param\<close> 262144: the scan's state is an 8-bit index, an 8-bit counter and two flags, so a longer run
  repeats a state and never ends. Scans for a closing bracket or a parent in \<open>jsmn\<close> visit each token at most once. Polls of the flash are bounded by a parameter
  of the chip. \<open>rt_ipc_list_resume_all\<close> and the reset of a message queue run once more than the list is long. Walks through the heap have
  the number of its bytes as fuel, more than it has blocks. The check of timers takes its fuel as an
  argument, and the property says that every fuel from some bound on gives the same result. Every property that says a call returns is about the function with
  this fuel.

  \<^bold>\<open>Parameters.\<close> Code outside of the sources appears as an argument: the arrival of interrupts, the chip on the SPI bus, drivers of devices, timeout functions, results of memory
  allocation in \<open>create\<close> functions (the heap itself is modelled separately), values of uninitialised memory. What is assumed of them is in the
  hypotheses, and every property with hypotheses has a witness.

  \<^bold>\<open>Not modelled.\<close> The vendor's HAL and CMSIS and the set-up of peripherals (register accesses without logic of their own; only the
  busy check of \<open>HAL_UART_Transmit_DMA\<close> is read), context switching in assembly, the shell, file systems, network stacks and other
  components of RT-Thread the application does not use; stacks of threads and hooks; shell commands that list kernel objects.
\<close>

end
